(* ===== verification/Prelude.thy ===== *)
theory Prelude
  imports Main "HOL-Library.Word"
begin

text \<open>
  Shared ground of the development: names for the machine integers the Go code uses, the
  parts of the Go standard library that several components call (splitting and joining a
  string on one separator byte, little-endian fields, the built-in \<open>copy\<close>), and the generic
  lemmas about them.  Everything a component proof needs about lists and words is here, in
  the collections \<open>go_list\<close> (lists and slices) and \<open>go_word\<close> (machine words).
\<close>

unbundle bit_operations_syntax

named_theorems go_list \<open>facts about slices, splitting and joining\<close>
named_theorems go_word \<open>facts about machine words and their byte encodings\<close>

type_synonym byte = "8 word"
type_synonym u32 = "32 word"
type_synonym u64 = "64 word"

section \<open>Splitting and joining on one separator\<close>

text \<open>
  \<open>split_on s xs\<close> is \<open>strings.Split(xs, s)\<close> / \<open>bytes.Split\<close> for a one-byte separator: there is
  always at least one piece, and consecutive separators give empty pieces.  \<open>join_on\<close> is
  \<open>strings.Join\<close>.
\<close>

fun split_on :: "'a \<Rightarrow> 'a list \<Rightarrow> 'a list list" where
  "split_on s [] = [[]]"
| "split_on s (x # xs) =
     (if x = s then [] # split_on s xs
      else (case split_on s xs of [] \<Rightarrow> [[x]] | p # ps \<Rightarrow> (x # p) # ps))"

fun join_on :: "'a \<Rightarrow> 'a list list \<Rightarrow> 'a list" where
  "join_on s [] = []"
| "join_on s [p] = p"
| "join_on s (p # q # ps) = p @ s # join_on s (q # ps)"

lemma split_on_not_Nil [simp]: "split_on s xs \<noteq> []"
  by (induction xs) (auto split: list.split)

lemma join_on_Cons: "ps \<noteq> [] \<Longrightarrow> join_on s (p # ps) = p @ s # join_on s ps"
  by (cases ps) auto

lemma join_split [go_list]: "join_on s (split_on s xs) = xs"
proof (induction xs)
  case (Cons x xs)
  then show ?case
    by (cases "split_on s xs"; cases "tl (split_on s xs)") (auto simp: join_on_Cons)
qed simp

lemma split_on_sep_free: "p \<in> set (split_on s xs) \<Longrightarrow> s \<notin> set p"
proof (induction xs arbitrary: p)
  case (Cons x xs)
  then show ?case by (cases "split_on s xs") (auto split: if_splits)
qed simp

lemma split_on_free: "s \<notin> set p \<Longrightarrow> split_on s p = [p]"
  by (induction p) auto

lemma split_on_append_sep:
  "s \<notin> set p \<Longrightarrow> split_on s (p @ s # xs) = p # split_on s xs"
  by (induction p) auto

lemma split_join [go_list]:
  "ps \<noteq> [] \<Longrightarrow> (\<forall>p \<in> set ps. s \<notin> set p) \<Longrightarrow> split_on s (join_on s ps) = ps"
  by (induction s ps rule: join_on.induct) (auto simp: split_on_free split_on_append_sep)

lemma join_on_append:
  "ps \<noteq> [] \<Longrightarrow> qs \<noteq> [] \<Longrightarrow> join_on s (ps @ qs) = join_on s ps @ s # join_on s qs"
  by (induction s ps rule: join_on.induct) (auto simp: join_on_Cons)

lemma join_on_inj:
  assumes "ps \<noteq> []" "qs \<noteq> []" "\<forall>p \<in> set ps. s \<notin> set p" "\<forall>p \<in> set qs. s \<notin> set p"
    and "join_on s ps = join_on s qs"
  shows "ps = qs"
  using assms split_join by metis

section \<open>Slices\<close>

text \<open>
  The built-in \<open>copy(dst[off:], src)\<close>: it overwrites as many elements as both slices allow and
  returns that number.
\<close>

definition copy_at :: "'a list \<Rightarrow> nat \<Rightarrow> 'a list \<Rightarrow> 'a list" where
  "copy_at dst off src =
     take off dst @ take (length dst - off) src @ drop (off + length src) dst"

definition copy_n :: "'a list \<Rightarrow> nat \<Rightarrow> 'a list \<Rightarrow> nat" where
  "copy_n dst off src = min (length dst - off) (length src)"

lemma length_copy_at [simp]: "off \<le> length dst \<Longrightarrow> length (copy_at dst off src) = length dst"
  by (auto simp: copy_at_def)

lemma nth_copy_at:
  assumes "off \<le> length dst" "i < length dst"
  shows "copy_at dst off src ! i =
    (if off \<le> i \<and> i < off + length src then src ! (i - off) else dst ! i)"
  using assms by (auto simp: copy_at_def nth_append min_def)

lemma copy_at_Nil [simp]: "copy_at dst off [] = dst"
  by (simp add: copy_at_def)

text \<open>The slice expression \<open>xs[a:b]\<close>, for bounds the code has checked.\<close>

definition subslice :: "nat \<Rightarrow> nat \<Rightarrow> 'a list \<Rightarrow> 'a list" where
  "subslice a b xs = take (b - a) (drop a xs)"

lemma slice_append_right:
  "length xs \<le> a \<Longrightarrow> subslice a b (xs @ ys) = subslice (a - length xs) (b - length xs) ys"
  by (simp add: subslice_def)

lemma slice_append_left [simp]: "length xs = b \<Longrightarrow> subslice 0 b (xs @ ys) = xs"
  by (simp add: subslice_def)

lemma slice_Cons: "0 < a \<Longrightarrow> subslice a b (x # xs) = subslice (a - 1) (b - 1) xs"
  by (simp add: subslice_def drop_Cons')

lemma length_slice [simp]: "length (subslice a b xs) = min (b - a) (length xs - a)"
  by (simp add: subslice_def)

lemma slice_slice_append:
  "a \<le> b \<Longrightarrow> b \<le> c \<Longrightarrow> subslice a b xs @ subslice b c xs = subslice a c xs"
proof -
  assume ab: "a \<le> b" "b \<le> c"
  then have "c - a = (b - a) + (c - b)" and "drop b xs = drop (b - a) (drop a xs)" by simp_all
  then show ?thesis unfolding subslice_def by (simp only: take_add)
qed

lemma slice_drop_append: "a \<le> b \<Longrightarrow> subslice a b xs @ drop b xs = drop a xs"
proof -
  assume "a \<le> b"
  then have "drop b xs = drop (b - a) (drop a xs)" by simp
  then show ?thesis unfolding subslice_def by (simp only: append_take_drop_id)
qed

lemma head_drop_1: "xs \<noteq> [] \<Longrightarrow> xs ! 0 # drop 1 xs = xs"
  by (cases xs) simp_all

section \<open>Bytes and words as numbers\<close>

lemma unat_ucast_byte [go_word]: "unat (ucast (v :: u64) :: byte) = unat v mod 256"
  unfolding unsigned_ucast_eq unsigned_take_bit_eq by (simp add: take_bit_eq_mod)

lemma unat_byte_less: "unat (b :: byte) < 256"
  using unsigned_less [of b] by simp

lemma unat_ucast_u64 [go_word]: "unat (ucast (b :: byte) :: u64) = unat b"
  unfolding unsigned_ucast_eq unsigned_take_bit_eq
  using unat_byte_less [of b] by (simp add: take_bit_nat_eq_self_iff)

lemma unat_u64_less: "unat (v :: u64) < 2 ^ 64"
  using unsigned_less [of v] by simp

lemma unat_u32_less: "unat (v :: u32) < 2 ^ 32"
  using unsigned_less [of v] by simp

lemma unat_of_nat_u64 [go_word]: "n < 2 ^ 64 \<Longrightarrow> unat (of_nat n :: u64) = n"
  by (simp add: unsigned_of_nat take_bit_nat_eq_self_iff)

lemma unat_of_nat_u32 [go_word]: "n < 2 ^ 32 \<Longrightarrow> unat (of_nat n :: u32) = n"
  by (simp add: unsigned_of_nat take_bit_nat_eq_self_iff)

lemma unat_of_nat_byte [go_word]: "n < 256 \<Longrightarrow> unat (of_nat n :: byte) = n"
  by (simp add: unsigned_of_nat take_bit_nat_eq_self_iff)

lemma unat_NOT_0_u64 [go_word]: "unat (NOT 0 :: u64) = 2 ^ 64 - 1" "unat (- 1 :: u64) = 2 ^ 64 - 1"
  by (simp_all add: unsigned_minus_1_eq_mask mask_eq_exp_minus_1)

section \<open>Little-endian fields\<close>

text \<open>
  \<open>put_le n w\<close> are the first \<open>n\<close> bytes that \<open>binary.LittleEndian.PutUint\<open>n\<close>\<close> stores; \<open>get_le\<close>
  is \<open>binary.LittleEndian.Uint\<open>n\<close>\<close> on the bytes it is given.
\<close>

definition put_le :: "nat \<Rightarrow> 'a::len word \<Rightarrow> byte list" where
  "put_le n w = map (\<lambda>i. ucast (drop_bit (8 * i) w)) [0..<n]"

fun get_le :: "byte list \<Rightarrow> 'a::len word" where
  "get_le [] = 0"
| "get_le (b # bs) = ucast b OR push_bit 8 (get_le bs)"

lemma length_put_le [simp]: "length (put_le n w) = n"
  by (simp add: put_le_def)

lemma bit_get_le:
  "bit (get_le bs :: 'a::len word) i \<longleftrightarrow>
     i < LENGTH('a) \<and> i div 8 < length bs \<and> bit (bs ! (i div 8)) (i mod 8)"
proof (induction bs arbitrary: i)
  case Nil
  then show ?case by simp
next
  case (Cons b bs)
  show ?case
  proof (cases "i < 8")
    case True
    then show ?thesis by (auto simp: bit_or_iff bit_push_bit_iff bit_ucast_iff)
  next
    case False
    then obtain j where j: "i = j + 8" by (metis add.commute le_Suc_ex not_less)
    have "\<not> bit b i" using False bit_imp_le_length[of b i] by auto
    moreover have "(j + 8) div 8 = Suc (j div 8)" by simp
    ultimately show ?thesis
      using j by (auto simp: bit_or_iff bit_push_bit_iff bit_ucast_iff Cons.IH)
  qed
qed

lemma get_put_le [go_word]:
  assumes "LENGTH('a) \<le> 8 * n"
  shows "get_le (put_le n w) = (w :: 'a::len word)"
proof (rule bit_word_eqI)
  fix i assume i: "i < LENGTH('a)"
  then have d: "i div 8 < n" using assms by linarith
  show "bit (get_le (put_le n w) :: 'a word) i = bit w i"
    using i d by (simp add: bit_get_le put_le_def bit_ucast_iff bit_drop_bit_eq)
qed

lemma get_put_le_sizes [simp]:
  "get_le (put_le 4 (x :: u32)) = x" "get_le (put_le 8 (y :: u64)) = y"
  by (simp_all add: get_put_le)

lemma put_get_le:
  assumes "LENGTH('a) = 8 * length bs"
  shows "put_le (length bs) (get_le bs :: 'a::len word) = bs"
proof (rule nth_equalityI)
  fix k assume "k < length (put_le (length bs) (get_le bs :: 'a word))"
  then have k: "k < length bs" by simp
  show "put_le (length bs) (get_le bs :: 'a word) ! k = bs ! k"
  proof (rule bit_word_eqI)
    fix i :: nat assume "i < LENGTH(8)"
    then have i: "i < 8" by simp
    have "(8 * k + i) div 8 = k" "(8 * k + i) mod 8 = i" using i by auto
    then show "bit (put_le (length bs) (get_le bs :: 'a word) ! k) i = bit (bs ! k) i"
      using i k assms by (simp add: put_le_def bit_ucast_iff bit_drop_bit_eq bit_get_le)
  qed
qed simp

end
