(* ===== verification/Varint.thy ===== *)
theory Varint
  imports Prelude
begin

text \<open>
  \<open>pkg/giznet/internal/core/varint.go\<close>: the protobuf-style variable-length encoding of 64-bit
  numbers, and the decoder of the Go standard library (\<open>binary.Uvarint\<close>) that the stream
  multiplexers use on the same encoding.
\<close>

section \<open>The code\<close>

datatype varint_error = VarintTruncated | VarintOverflow

definition MaxVarintLen :: nat where
  "MaxVarintLen = 10"

lemma unat_shift7: "unat (drop_bit 7 (v :: u64)) = unat v div 128"
  unfolding unat_drop_bit_eq by (simp add: drop_bit_eq_div)

lemma shift7_less: "(0x80 :: u64) \<le> v \<Longrightarrow> unat (drop_bit 7 v) < unat v"
  by (simp add: unat_shift7 word_le_nat_alt del: drop_bit_eq_div)

function AppendVarint :: "byte list \<Rightarrow> u64 \<Rightarrow> byte list" where
  "AppendVarint dst v =
     (if 0x80 \<le> v then AppendVarint (dst @ [ucast v OR 0x80]) (drop_bit 7 v)
      else dst @ [ucast v])"
  by pat_completeness auto
termination
  by (relation "measure (\<lambda>(dst, v). unat v)") (auto simp: shift7_less)

text \<open>\<open>EncodeVarint\<close> writes into the caller's buffer; a store past its end panics (\<open>None\<close>).\<close>

function EncodeVarint_loop :: "byte list \<Rightarrow> nat \<Rightarrow> u64 \<Rightarrow> (byte list \<times> nat) option" where
  "EncodeVarint_loop buf i v =
     (if i < length buf then
        (if 0x80 \<le> v then EncodeVarint_loop (buf[i := ucast v OR 0x80]) (Suc i) (drop_bit 7 v)
         else Some (buf[i := ucast v], Suc i))
      else None)"
  by pat_completeness auto
termination
  by (relation "measure (\<lambda>(buf, i, v). unat v)") (auto simp: shift7_less)

definition EncodeVarint :: "byte list \<Rightarrow> u64 \<Rightarrow> (byte list \<times> nat) option" where
  "EncodeVarint buf v = EncodeVarint_loop buf 0 v"

fun DecodeVarint_loop :: "byte list \<Rightarrow> nat \<Rightarrow> u64 \<Rightarrow> varint_error + (u64 \<times> nat)" where
  "DecodeVarint_loop [] i v = Inl VarintTruncated"
| "DecodeVarint_loop (b # bs) i v =
     (if MaxVarintLen \<le> i then Inl VarintOverflow
      else let v' = v OR push_bit (7 * i) (ucast (b AND 0x7F)) in
        if b < 0x80 then Inr (v', i + 1) else DecodeVarint_loop bs (i + 1) v')"

definition DecodeVarint :: "byte list \<Rightarrow> varint_error + (u64 \<times> nat)" where
  "DecodeVarint buf = DecodeVarint_loop buf 0 0"

function VarintLen_loop :: "nat \<Rightarrow> u64 \<Rightarrow> nat" where
  "VarintLen_loop n v = (if 0x80 \<le> v then VarintLen_loop (n + 1) (drop_bit 7 v) else n)"
  by pat_completeness auto
termination
  by (relation "measure (\<lambda>(n, v). unat v)") (auto simp: shift7_less)

definition VarintLen :: "u64 \<Rightarrow> nat" where
  "VarintLen v = VarintLen_loop 1 v"

text \<open>
  The standard library's \<open>binary.Uvarint\<close>: the value and the number of bytes read, where the
  number is 0 for a truncated buffer and negative for a value of more than 64 bits.  It differs
  from \<open>DecodeVarint\<close> on the tenth byte, which must not exceed 1.  \<open>binary.AppendUvarint\<close> is
  the same loop as \<open>AppendVarint\<close>.
\<close>

fun Uvarint_loop :: "byte list \<Rightarrow> nat \<Rightarrow> u64 \<Rightarrow> u64 \<times> int" where
  "Uvarint_loop [] i x = (0, 0)"
| "Uvarint_loop (b # bs) i x =
     (if i = 10 then (0, - (int i + 1))
      else if b < 0x80 then
        (if i = 9 \<and> 1 < b then (0, - (int i + 1))
         else (x OR push_bit (7 * i) (ucast b), int i + 1))
      else Uvarint_loop bs (i + 1) (x OR push_bit (7 * i) (ucast (b AND 0x7F))))"

definition Uvarint :: "byte list \<Rightarrow> u64 \<times> int" where
  "Uvarint buf = Uvarint_loop buf 0 0"

declare AppendVarint.simps [simp del] EncodeVarint_loop.simps [simp del]
  VarintLen_loop.simps [simp del]

section \<open>The encoding as a list\<close>

text \<open>\<open>uvarint v\<close> is what every encoder of the repository produces for \<open>v\<close>.\<close>

function uvarint :: "u64 \<Rightarrow> byte list" where
  "uvarint v = (if 0x80 \<le> v then (ucast v OR 0x80) # uvarint (drop_bit 7 v) else [ucast v])"
  by pat_completeness auto
termination
  by (relation "measure unat") (auto simp: shift7_less)

declare uvarint.simps [simp del]

lemma AppendVarint_uvarint: "AppendVarint dst v = dst @ uvarint v"
proof (induction dst v rule: AppendVarint.induct)
  case (1 dst v)
  then show ?case
    by (cases "0x80 \<le> v") (simp_all add: AppendVarint.simps [of dst v] uvarint.simps [of v])
qed

lemma uvarint_not_Nil [simp]: "uvarint v \<noteq> []"
  by (subst uvarint.simps) simp

lemma VarintLen_loop_uvarint: "VarintLen_loop n v + 1 = n + length (uvarint v)"
proof (induction n v rule: VarintLen_loop.induct)
  case (1 n v)
  then show ?case
    by (cases "0x80 \<le> v") (simp_all add: VarintLen_loop.simps [of n v] uvarint.simps [of v])
qed

lemma VarintLen_uvarint: "VarintLen v = length (uvarint v)"
  using VarintLen_loop_uvarint [of 1 v] by (simp add: VarintLen_def)

lemma length_uvarint_le:
  "unat v < 2 ^ (7 * k) \<Longrightarrow> 0 < k \<Longrightarrow> length (uvarint v) \<le> k"
proof (induction v arbitrary: k rule: uvarint.induct)
  case (1 v)
  show ?case
  proof (cases "0x80 \<le> v")
    case True
    then have v: "128 \<le> unat v" by (simp add: word_le_nat_alt)
    have "k \<noteq> 1" using v "1.prems" by auto
    then obtain j where j: "k = Suc j" "0 < j" using "1.prems"(2) by (cases k) auto
    have "unat (drop_bit 7 v) < 2 ^ (7 * j)"
      using "1.prems"(1) j
      by (simp add: unat_shift7 less_mult_imp_div_less power_add mult.commute [of _ 128])
    with "1.IH" True j show ?thesis by (simp add: uvarint.simps [of v])
  next
    case False
    with "1.prems" show ?thesis by (simp add: uvarint.simps [of v])
  qed
qed

lemma length_uvarint_le_10: "length (uvarint v) \<le> 10"
proof (rule length_uvarint_le)
  have "unat v < 2 ^ 64" using unsigned_less [of v] by simp
  also have "(2 :: nat) ^ 64 \<le> 2 ^ (7 * 10)" by (rule power_increasing) simp_all
  finally show "unat v < 2 ^ (7 * 10)" .
qed simp

lemma EncodeVarint_loop_uvarint:
  "EncodeVarint_loop buf i v =
     (if i + length (uvarint v) \<le> length buf
      then Some (copy_at buf i (uvarint v), i + length (uvarint v)) else None)"
proof (induction buf i v rule: EncodeVarint_loop.induct)
  case (1 buf i v)
  have upd: "copy_at (copy_at buf i [x]) (Suc i) xs = copy_at buf i (x # xs)"
    if "i < length buf" for x xs
    using that by (intro nth_equalityI) (auto simp: nth_copy_at nth_Cons')
  have upd1: "buf[i := x] = copy_at buf i [x]" if "i < length buf" for x
    using that by (intro nth_equalityI) (auto simp: nth_copy_at nth_list_update)
  show ?case
    using "1.IH"
    by (cases "0x80 \<le> v"; cases "i < length buf")
      (simp_all add: EncodeVarint_loop.simps [of buf i v] uvarint.simps [of v] upd upd1)
qed

section \<open>Decoding what was encoded\<close>

lemma mask7_byte: "(0x7F :: byte) = mask 7"
  by (simp add: mask_eq_exp_minus_1)

lemma bit7_byte: "bit (0x80 :: byte) n \<longleftrightarrow> n = 7"
proof -
  have "(0x80 :: byte) = push_bit 7 1" by simp
  then show ?thesis by (simp only: bit_push_bit_iff bit_1_iff) auto
qed

lemma low7_byte: "((b :: byte) OR 0x80) AND 0x7F = take_bit 7 b"
  unfolding mask7_byte take_bit_eq_mask [symmetric]
  by (rule bit_word_eqI) (auto simp: bit_or_iff bit_take_bit_iff bit7_byte)

lemma low7: "(ucast ((ucast (v :: u64) OR 0x80 :: byte) AND 0x7F) :: u64) = take_bit 7 v"
  unfolding low7_byte
  by (rule bit_word_eqI) (auto simp: bit_ucast_iff bit_take_bit_iff)

lemma ucast_small: "(v :: u64) < 0x80 \<Longrightarrow> (ucast (ucast v :: byte) :: u64) = v"
  by (rule word_unat_eq_iff [THEN iffD2]) (simp add: go_word word_less_nat_alt)

lemma byte_lt_128: "(v :: u64) < 0x80 \<Longrightarrow> (ucast v :: byte) < 0x80"
  by (simp add: go_word word_less_nat_alt)

lemma byte_ge_128: "\<not> ((b :: byte) OR 0x80 < 0x80)"
  using le_word_or1 [of "0x80 :: byte" b] by (simp add: not_less)

lemma low7_last: "(b :: byte) < 0x80 \<Longrightarrow> b AND 0x7F = b"
  unfolding mask7_byte take_bit_eq_mask [symmetric]
  by (rule word_unat_eq_iff [THEN iffD2])
    (simp add: unsigned_take_bit_eq word_less_nat_alt take_bit_nat_eq_self_iff)

text \<open>One step of the decoder: seven more bits, then the rest of the number.\<close>

lemma push_split: "push_bit n (take_bit 7 v) OR push_bit (7 + n) (drop_bit 7 v) = push_bit n (v :: u64)"
proof (rule bit_word_eqI)
  fix k :: nat assume k: "k < LENGTH(64)"
  have "\<not> k - n < 7 \<Longrightarrow> n + 7 \<le> k \<and> 7 + (k - (n + 7)) = k - n" by linarith
  then show "bit (push_bit n (take_bit 7 v) OR push_bit (7 + n) (drop_bit 7 v)) k = bit (push_bit n v) k"
    using k by (cases "k - n < 7")
      (auto simp: bit_or_iff bit_push_bit_iff bit_take_bit_iff bit_drop_bit_eq add.commute)
qed

lemma DecodeVarint_loop_uvarint:
  "unat v < 2 ^ (64 - 7 * i) \<Longrightarrow> 7 * i < 64 \<Longrightarrow>
   DecodeVarint_loop (uvarint v @ rest) i acc =
     Inr (acc OR push_bit (7 * i) v, i + length (uvarint v))"
proof (induction v arbitrary: i acc rule: uvarint.induct)
  case (1 v)
  show ?case
  proof (cases "0x80 \<le> v")
    case True
    then have v: "128 \<le> unat v" by (simp add: word_le_nat_alt)
    have "\<not> 64 - 7 * i \<le> 7"
    proof
      assume "64 - 7 * i \<le> 7"
      then have "(2 :: nat) ^ (64 - 7 * i) \<le> 2 ^ 7" by (rule power_increasing) simp
      with "1.prems"(1) v show False by simp
    qed
    then have i: "7 * Suc i < 64" "64 - 7 * i = (64 - 7 * Suc i) + 7" by auto
    have "unat (drop_bit 7 v) < 2 ^ (64 - 7 * Suc i)"
      using "1.prems"(1) unfolding i(2) unat_shift7
      by (simp add: less_mult_imp_div_less power_add)
    from "1.IH" [OF True this i(1)] i True show ?thesis
      by (simp add: uvarint.simps [of v] byte_ge_128 low7 MaxVarintLen_def or.assoc push_split
          algebra_simps)
  next
    case False
    then have v: "v < 0x80" by simp
    have i: "\<not> MaxVarintLen \<le> i" using "1.prems" by (simp add: MaxVarintLen_def)
    show ?thesis
      using False v i
      by (simp add: uvarint.simps [of v] byte_lt_128 ucast_small low7_last Let_def)
  qed
qed

lemma Uvarint_loop_uvarint:
  "unat v < 2 ^ (64 - 7 * i) \<Longrightarrow> 7 * i < 64 \<Longrightarrow>
   Uvarint_loop (uvarint v @ rest) i acc =
     (acc OR push_bit (7 * i) v, int (i + length (uvarint v)))"
proof (induction v arbitrary: i acc rule: uvarint.induct)
  case (1 v)
  show ?case
  proof (cases "0x80 \<le> v")
    case True
    then have v: "128 \<le> unat v" by (simp add: word_le_nat_alt)
    have "\<not> 64 - 7 * i \<le> 7"
    proof
      assume "64 - 7 * i \<le> 7"
      then have "(2 :: nat) ^ (64 - 7 * i) \<le> 2 ^ 7" by (rule power_increasing) simp
      with "1.prems"(1) v show False by simp
    qed
    then have i: "7 * Suc i < 64" "64 - 7 * i = (64 - 7 * Suc i) + 7" by auto
    have "unat (drop_bit 7 v) < 2 ^ (64 - 7 * Suc i)"
      using "1.prems"(1) unfolding i(2) unat_shift7
      by (simp add: less_mult_imp_div_less power_add)
    from "1.IH" [OF True this i(1)] i True show ?thesis
      by (simp add: uvarint.simps [of v] byte_ge_128 low7 or.assoc push_split algebra_simps)
  next
    case False
    then have v: "v < 0x80" by simp
    have "\<not> (1 < (ucast v :: byte))" if "i = 9"
      using "1.prems" v that by (simp add: word_less_nat_alt go_word)
    moreover have "i \<noteq> 10" using "1.prems" by simp
    ultimately show ?thesis
      using False v by (simp add: uvarint.simps [of v] byte_lt_128 ucast_small)
  qed
qed

lemma DecodeVarint_uvarint: "DecodeVarint (uvarint v @ rest) = Inr (v, length (uvarint v))"
  using DecodeVarint_loop_uvarint [of v 0 rest 0] unat_u64_less [of v]
  by (simp add: DecodeVarint_def)

lemma Uvarint_uvarint: "Uvarint (uvarint v @ rest) = (v, int (length (uvarint v)))"
  using Uvarint_loop_uvarint [of v 0 rest 0] unat_u64_less [of v]
  by (simp add: Uvarint_def)

lemma DecodeVarint_loop_bounds:
  "DecodeVarint_loop bs i v = Inr (x, n) \<Longrightarrow>
     i < n \<and> n \<le> i + length bs \<and> n \<le> MaxVarintLen"
  by (induction bs i v rule: DecodeVarint_loop.induct) (auto simp: Let_def split: if_splits)

section \<open>Properties\<close>

text \<open>
  Both decoders invert every encoder: decoding the bytes \<open>AppendVarint\<close> produces,
  whatever follows them in the buffer, gives the number back and the exact count of bytes that
  \<open>VarintLen\<close> predicts; \<open>EncodeVarint\<close> writes the same bytes into a buffer and panics exactly
  when the buffer is shorter than that, and ten bytes are always enough.
\<close>

theorem varint_roundtrip:
  "DecodeVarint (AppendVarint [] v @ rest) = Inr (v, VarintLen v) \<and>
   Uvarint (AppendVarint [] v @ rest) = (v, int (VarintLen v)) \<and>
   EncodeVarint buf v =
     (if VarintLen v \<le> length buf
      then Some (copy_at buf 0 (AppendVarint [] v), VarintLen v) else None) \<and>
   VarintLen v \<le> MaxVarintLen"
  using length_uvarint_le_10 [of v]
  by (simp add: DecodeVarint_uvarint Uvarint_uvarint AppendVarint_uvarint VarintLen_uvarint
      EncodeVarint_def EncodeVarint_loop_uvarint MaxVarintLen_def)

text \<open>
  \<open>DecodeVarint\<close> does not detect a value of more than 64 bits in ten bytes: it returns a
  number whose high bits are dropped, with no error, on input that the standard library's decoder
  rejects as overflowing.
\<close>

theorem DecodeVarint_drops_high_bits:
  "DecodeVarint [0x80, 0x80, 0x80, 0x80, 0x80, 0x80, 0x80, 0x80, 0x80, 0x02] = Inr (0, 10) \<and>
   Uvarint [0x80, 0x80, 0x80, 0x80, 0x80, 0x80, 0x80, 0x80, 0x80, 0x02] = (0, -10)"
  by (simp add: DecodeVarint_def Uvarint_def MaxVarintLen_def Let_def)

end
