(* ===== verification/ReplayFilter.thy ===== *)
theory ReplayFilter
  imports Prelude
begin

text \<open>
  \<open>pkg/giznet/internal/noise/replay.go\<close>: the sliding-window replay filter of a transport
  session, with its bitmap of 32 machine words kept word by word as the code keeps it.  The
  specification is the set of nonces accepted so far; the locale \<open>nonce_guard\<close> is what a
  session relies on, and the filter is its interpretation.
\<close>

section \<open>The code\<close>

definition ReplayWindowSize :: nat where "ReplayWindowSize = 2048"

definition replayWindowWords :: nat where "replayWindowWords = ReplayWindowSize div 64"

record replay_filter =
  bitmap :: "u64 list"
  maxNonce :: u64

definition NewReplayFilter :: replay_filter where
  "NewReplayFilter = \<lparr>bitmap = replicate replayWindowWords 0, maxNonce = 0\<rparr>"

definition checkLocked :: "replay_filter \<Rightarrow> u64 \<Rightarrow> bool" where
  "checkLocked rf nonce =
     (if maxNonce rf < nonce then True
      else let delta = maxNonce rf - nonce in
        if of_nat ReplayWindowSize \<le> delta then False
        else (bitmap rf ! unat (delta div 64)) AND push_bit (unat (delta mod 64)) 1 = 0)"

text \<open>
  The inner loop of \<open>slideWindow\<close>: each word is shifted left and takes the bits carried out of
  the word below it.
\<close>

fun shift_words :: "nat \<Rightarrow> u64 \<Rightarrow> u64 list \<Rightarrow> u64 list" where
  "shift_words bitShift carry [] = []"
| "shift_words bitShift carry (w # ws) =
     (push_bit bitShift w OR carry) # shift_words bitShift (drop_bit (64 - bitShift) w) ws"

definition slideWindow :: "u64 list \<Rightarrow> u64 \<Rightarrow> u64 list" where
  "slideWindow bm shift =
     (if of_nat ReplayWindowSize \<le> shift then map (\<lambda>_. 0) bm
      else let wordShift = unat (shift div 64); bitShift = unat (shift mod 64);
        bm1 = (if 0 < wordShift
          then copy_at (copy_at bm wordShift (take (replayWindowWords - wordShift) bm))
                 0 (replicate wordShift 0)
          else bm)
      in if 0 < bitShift then shift_words bitShift 0 bm1 else bm1)"

definition updateLocked :: "replay_filter \<Rightarrow> u64 \<Rightarrow> replay_filter" where
  "updateLocked rf nonce =
     (if maxNonce rf < nonce
      then let bm = slideWindow (bitmap rf) (nonce - maxNonce rf)
        in rf\<lparr>bitmap := bm[0 := bm ! 0 OR 1], maxNonce := nonce\<rparr>
      else let delta = maxNonce rf - nonce in
        if delta < of_nat ReplayWindowSize
        then let k = unat (delta div 64)
          in rf\<lparr>bitmap := (bitmap rf)[k := bitmap rf ! k OR push_bit (unat (delta mod 64)) 1]\<rparr>
        else rf)"

definition CheckAndUpdate :: "replay_filter \<Rightarrow> u64 \<Rightarrow> bool \<times> replay_filter" where
  "CheckAndUpdate rf nonce =
     (if \<not> checkLocked rf nonce then (False, rf) else (True, updateLocked rf nonce))"

definition Reset :: "replay_filter \<Rightarrow> replay_filter" where
  "Reset rf = rf\<lparr>bitmap := map (\<lambda>_. 0) (bitmap rf), maxNonce := 0\<rparr>"

section \<open>The bitmap as a sequence of bits\<close>

definition wbit :: "u64 list \<Rightarrow> nat \<Rightarrow> bool" where
  "wbit bm i \<longleftrightarrow> bit (bm ! (i div 64)) (i mod 64)"

lemma and_single_bit_zero:
  "((w :: u64) AND 2 ^ k = 0) \<longleftrightarrow> \<not> (k < 64 \<and> bit w k)"
proof -
  have "bit (w AND 2 ^ k) n \<longleftrightarrow> n = k \<and> k < 64 \<and> bit w k" for n
    by (auto simp: bit_and_iff bit_exp_iff dest: bit_imp_le_length)
  then show ?thesis
    by (metis bit_0_eq bot_fun_def bot_bool_def bit_eqI)
qed

lemma wbit_or_single:
  assumes "i div 64 < length bm" "j div 64 < length bm"
  shows "wbit (bm[j div 64 := bm ! (j div 64) OR push_bit (j mod 64) 1]) i
     \<longleftrightarrow> i = j \<or> wbit bm i"
proof -
  have "i = j \<longleftrightarrow> i div 64 = j div 64 \<and> i mod 64 = j mod 64"
    by (metis div_mult_mod_eq)
  then show ?thesis
    using assms by (auto simp: wbit_def nth_list_update bit_or_iff bit_exp_iff)
qed

lemma length_shift_words [simp]: "length (shift_words b c bm) = length bm"
  by (induction b c bm rule: shift_words.induct) auto

lemma wbit_Cons:
  "wbit (w # ws) i \<longleftrightarrow> (if i < 64 then bit w i else wbit ws (i - 64))"
proof -
  have "i div 64 = Suc ((i - 64) div 64)" "i mod 64 = (i - 64) mod 64" if "64 \<le> i"
    using that by (simp_all add: le_div_geq le_mod_geq)
  then show ?thesis by (auto simp: wbit_def)
qed

lemma wbit_shift_words:
  assumes "0 < b" "b < 64" "i < 64 * length bm" "\<forall>n. bit c n \<longrightarrow> n < b"
  shows "wbit (shift_words b c bm) i \<longleftrightarrow> (if i < b then bit c i else wbit bm (i - b))"
  using assms(3,4)
proof (induction bm arbitrary: c i)
  case (Cons w ws)
  have carry: "\<forall>n. bit (drop_bit (64 - b) w) n \<longrightarrow> n < b"
    using assms(1,2) by (auto simp: bit_drop_bit_eq dest!: bit_imp_le_length)
  show ?case
  proof (cases "i < 64")
    case True
    then show ?thesis
      using Cons.prems assms(2)
      by (auto simp: wbit_Cons bit_or_iff bit_push_bit_iff)
  next
    case False
    have "wbit (shift_words b (drop_bit (64 - b) w) ws) (i - 64) \<longleftrightarrow>
       (if i - 64 < b then bit (drop_bit (64 - b) w) (i - 64) else wbit ws (i - 64 - b))"
      using False Cons.prems(1) carry by (intro Cons.IH) auto
    then show ?thesis
      using False assms(1,2) by (auto simp: wbit_Cons bit_drop_bit_eq add.commute)
  qed
qed simp

lemma wbit_word_shift:
  assumes "length bm = replayWindowWords" "k \<le> replayWindowWords" "i < ReplayWindowSize"
  shows "wbit (copy_at (copy_at bm k (take (replayWindowWords - k) bm)) 0 (replicate k 0)) i
     \<longleftrightarrow> 64 * k \<le> i \<and> wbit bm (i - 64 * k)"
proof -
  have i: "i div 64 < replayWindowWords"
    using assms(3) by (auto simp: replayWindowWords_def ReplayWindowSize_def)
  have "64 * k \<le> i \<longleftrightarrow> k \<le> i div 64" by auto
  moreover have "(i - 64 * k) div 64 = i div 64 - k" "(i - 64 * k) mod 64 = i mod 64"
    if "64 * k \<le> i"
  proof -
    from that obtain j where j: "i = 64 * k + j" using le_iff_add by blast
    show "(i - 64 * k) div 64 = i div 64 - k" "(i - 64 * k) mod 64 = i mod 64"
      unfolding j by simp_all
  qed
  ultimately show ?thesis
    using assms i by (auto simp: wbit_def nth_copy_at)
qed

lemma length_slideWindow [simp]:
  "length bm = replayWindowWords \<Longrightarrow> length (slideWindow bm s) = replayWindowWords"
proof -
  assume l: "length bm = replayWindowWords"
  have "unat (s div 64) \<le> replayWindowWords" if "\<not> of_nat ReplayWindowSize \<le> s"
    using that
    by (simp add: ReplayWindowSize_def replayWindowWords_def word_le_nat_alt unat_div_distrib)
  with l show ?thesis by (simp add: slideWindow_def Let_def)
qed

lemma wbit_slideWindow:
  assumes "length bm = replayWindowWords" "i < ReplayWindowSize"
  shows "wbit (slideWindow bm s) i \<longleftrightarrow> unat s \<le> i \<and> wbit bm (i - unat s)"
proof (cases "of_nat ReplayWindowSize \<le> s")
  case True
  then have "ReplayWindowSize \<le> unat s"
    by (simp add: ReplayWindowSize_def word_le_nat_alt)
  moreover have "i div 64 < length bm"
    using assms by (auto simp: replayWindowWords_def ReplayWindowSize_def)
  ultimately show ?thesis
    using True assms(2) by (simp add: slideWindow_def wbit_def)
next
  case False
  define k where "k = unat (s div 64)"
  define b where "b = unat (s mod 64)"
  define bm1 where "bm1 = (if 0 < k
    then copy_at (copy_at bm k (take (replayWindowWords - k) bm)) 0 (replicate k 0) else bm)"
  have s: "unat s = 64 * k + b" and b: "b < 64" and k: "k \<le> replayWindowWords"
    using False
    by (simp_all add: k_def b_def unat_div_distrib unat_mod_distrib ReplayWindowSize_def
        replayWindowWords_def word_le_nat_alt)
  have l1: "length bm1 = replayWindowWords"
    using assms(1) k by (simp add: bm1_def)
  have bm1: "wbit bm1 j \<longleftrightarrow> 64 * k \<le> j \<and> wbit bm (j - 64 * k)" if "j < ReplayWindowSize" for j
    using wbit_word_shift [OF assms(1) k that] by (simp add: bm1_def)
  have sl: "slideWindow bm s = (if 0 < b then shift_words b 0 bm1 else bm1)"
    using False by (simp add: slideWindow_def Let_def k_def b_def bm1_def)
  have "wbit (slideWindow bm s) i \<longleftrightarrow> b \<le> i \<and> wbit bm1 (i - b)"
    using wbit_shift_words [of b i bm1 0] b l1 assms(2)
    by (simp add: sl replayWindowWords_def ReplayWindowSize_def)
  also have "\<dots> \<longleftrightarrow> unat s \<le> i \<and> wbit bm (i - unat s)"
    using bm1 [of "i - b"] assms(2) s by (auto simp: diff_diff_add add.commute)
  finally show ?thesis .
qed

section \<open>The set of accepted nonces\<close>

text \<open>
  \<open>tracks rf S\<close>: the bitmap describes, bit \<open>i\<close> for nonce \<open>max - i\<close>, the accepted nonces \<open>S\<close> of
  the last \<open>ReplayWindowSize\<close>, and no accepted nonce is above \<open>maxNonce\<close>.
\<close>

definition tracks :: "replay_filter \<Rightarrow> u64 set \<Rightarrow> bool" where
  "tracks rf S \<longleftrightarrow> length (bitmap rf) = replayWindowWords \<and>
     (\<forall>n \<in> S. n \<le> maxNonce rf) \<and>
     (\<forall>i < ReplayWindowSize. wbit (bitmap rf) i \<longleftrightarrow>
        i \<le> unat (maxNonce rf) \<and> of_nat (unat (maxNonce rf) - i) \<in> S)"

text \<open>The specification of acceptance, on the set alone.\<close>

definition in_window :: "u64 \<Rightarrow> u64 \<Rightarrow> bool" where
  "in_window hi n \<longleftrightarrow> unat hi < unat n + ReplayWindowSize"

lemma tracks_new: "tracks NewReplayFilter {}"
  by (auto simp: tracks_def NewReplayFilter_def wbit_def replayWindowWords_def ReplayWindowSize_def)

lemma delta_nat: "n \<le> m \<Longrightarrow> unat (m - n :: u64) = unat m - unat n"
  by (simp add: unat_sub)

lemma checkLocked_tracks:
  assumes "tracks rf S"
  shows "checkLocked rf n \<longleftrightarrow> n \<notin> S \<and> in_window (maxNonce rf) n"
proof (cases "maxNonce rf < n")
  case True
  then have "n \<notin> S" using assms by (auto simp: tracks_def not_le)
  moreover have "in_window (maxNonce rf) n"
    using True by (simp add: in_window_def word_less_nat_alt)
  ultimately show ?thesis using True by (simp add: checkLocked_def)
next
  case False
  define d where "d = maxNonce rf - n"
  have d: "unat d = unat (maxNonce rf) - unat n" and n: "unat n \<le> unat (maxNonce rf)"
    using False by (simp_all add: d_def delta_nat word_le_nat_alt not_less)
  have win: "of_nat ReplayWindowSize \<le> d \<longleftrightarrow> \<not> in_window (maxNonce rf) n"
    using d n by (auto simp: in_window_def word_le_nat_alt ReplayWindowSize_def)
  show ?thesis
  proof (cases "in_window (maxNonce rf) n")
    case True
    have "checkLocked rf n \<longleftrightarrow> \<not> wbit (bitmap rf) (unat d)"
      using False True win
      by (simp add: checkLocked_def Let_def d_def [symmetric] and_single_bit_zero wbit_def
          unat_div_distrib unat_mod_distrib)
    also have "\<dots> \<longleftrightarrow> n \<notin> S"
      using assms True d n
      by (simp add: tracks_def in_window_def less_diff_conv2 add.commute)
    finally show ?thesis using True by simp
  next
    case False': False
    then show ?thesis
      using False win by (simp add: checkLocked_def Let_def d_def [symmetric])
  qed
qed

lemma updateLocked_tracks:
  assumes t: "tracks rf S" and w: "in_window (maxNonce rf) n"
  shows "tracks (updateLocked rf n) (insert n S)"
proof (cases "maxNonce rf < n")
  case True
  define s where "s = n - maxNonce rf"
  define bm where "bm = slideWindow (bitmap rf) s"
  have s: "unat s = unat n - unat (maxNonce rf)" and lt: "unat (maxNonce rf) < unat n"
    using True by (simp_all add: s_def delta_nat order.strict_implies_order)
      (simp add: word_less_nat_alt)
  have l: "length (bitmap rf) = replayWindowWords" "length bm = replayWindowWords"
    using t by (simp_all add: tracks_def bm_def)
  have upd: "updateLocked rf n = rf\<lparr>bitmap := bm[0 := bm ! 0 OR 1], maxNonce := n\<rparr>"
    using True by (simp add: updateLocked_def bm_def s_def Let_def)
  have "wbit (bm[0 := bm ! 0 OR 1]) i \<longleftrightarrow> i \<le> unat n \<and> of_nat (unat n - i) \<in> insert n S"
    if i: "i < ReplayWindowSize" for i
  proof -
    have "i div 64 < length bm" "0 div 64 < length bm"
      using i l by (auto simp: replayWindowWords_def ReplayWindowSize_def)
    from wbit_or_single [OF this] have "wbit (bm[0 := bm ! 0 OR 1]) i \<longleftrightarrow> i = 0 \<or> wbit bm i"
      by simp
    also have "\<dots> \<longleftrightarrow> i = 0 \<or> (unat s \<le> i \<and> i - unat s \<le> unat (maxNonce rf) \<and>
        of_nat (unat (maxNonce rf) - (i - unat s)) \<in> S)"
      using t i wbit_slideWindow [OF l(1) i] by (simp add: bm_def tracks_def)
    also have "\<dots> \<longleftrightarrow> i \<le> unat n \<and> of_nat (unat n - i) \<in> insert n S"
    proof (cases "unat s \<le> i")
      case True
      then have e: "unat (maxNonce rf) - (i - unat s) = unat n - i" and "i \<noteq> 0"
        using s lt by linarith+
      have "i - unat s \<le> unat (maxNonce rf) \<longleftrightarrow> i \<le> unat n" using True s lt by linarith
      moreover have "of_nat (unat n - i) \<noteq> n" if "i \<le> unat n"
      proof -
        have "unat (of_nat (unat n - i) :: u64) = unat n - i"
          by (rule unat_of_nat_u64) (meson diff_le_self le_less_trans unat_u64_less)
        then show ?thesis using \<open>i \<noteq> 0\<close> lt by auto
      qed
      ultimately show ?thesis using True \<open>i \<noteq> 0\<close> e by auto
    next
      case False
      then have i': "i < unat s" by simp
      then have "i \<le> unat n" using s by linarith
      moreover have "unat (of_nat (unat n - i) :: u64) = unat n - i"
        by (rule unat_of_nat_u64) (meson diff_le_self le_less_trans unat_u64_less)
      moreover have "of_nat (unat n - i) \<notin> S"
      proof
        assume "of_nat (unat n - i) \<in> S"
        then have "unat (of_nat (unat n - i) :: u64) \<le> unat (maxNonce rf)"
          using t by (auto simp: tracks_def word_le_nat_alt)
        with calculation(2) i' s show False by linarith
      qed
      ultimately show ?thesis using i' False lt
        by (auto simp: word_unat_eq_iff)
    qed
    finally show ?thesis .
  qed
  moreover have "\<forall>m \<in> insert n S. m \<le> n"
    using t True by (auto simp: tracks_def intro: order.strict_implies_order order.strict_trans1)
  ultimately show ?thesis using l by (simp add: upd tracks_def)
next
  case False
  define d where "d = maxNonce rf - n"
  have d: "unat d = unat (maxNonce rf) - unat n" and n: "unat n \<le> unat (maxNonce rf)"
    using False by (simp_all add: d_def delta_nat word_le_nat_alt not_less)
  have dw: "unat d < ReplayWindowSize" using w d n by (simp add: in_window_def)
  define bm where "bm = (bitmap rf)[unat d div 64 :=
     bitmap rf ! (unat d div 64) OR push_bit (unat d mod 64) 1]"
  have upd: "updateLocked rf n = rf\<lparr>bitmap := bm\<rparr>"
    using False dw by (simp add: updateLocked_def bm_def d_def [symmetric] Let_def
        word_less_nat_alt ReplayWindowSize_def unat_div_distrib unat_mod_distrib)
  have l: "length (bitmap rf) = replayWindowWords" using t by (simp add: tracks_def)
  have "wbit bm i \<longleftrightarrow> i \<le> unat (maxNonce rf) \<and> of_nat (unat (maxNonce rf) - i) \<in> insert n S"
    if i: "i < ReplayWindowSize" for i
  proof -
    have "i div 64 < length (bitmap rf)" "unat d div 64 < length (bitmap rf)"
      using i dw l by (auto simp: replayWindowWords_def ReplayWindowSize_def)
    from wbit_or_single [OF this] have "wbit bm i \<longleftrightarrow> i = unat d \<or> wbit (bitmap rf) i"
      by (simp add: bm_def)
    moreover have "i = unat d \<longleftrightarrow> of_nat (unat (maxNonce rf) - i) = n"
      if "i \<le> unat (maxNonce rf)"
    proof -
      have "unat (of_nat (unat (maxNonce rf) - i) :: u64) = unat (maxNonce rf) - i"
        by (rule unat_of_nat_u64) (meson diff_le_self le_less_trans unat_u64_less)
      then show ?thesis using that d n by (auto simp: word_unat_eq_iff)
    qed
    moreover have "i \<le> unat (maxNonce rf)" if "i = unat d" using that d by simp
    ultimately show ?thesis using t i by (auto simp: tracks_def)
  qed
  then show ?thesis
    using t False by (auto simp: upd tracks_def bm_def)
qed

lemma maxNonce_updateLocked:
  "maxNonce (updateLocked rf n) = max (maxNonce rf) n"
  by (auto simp: updateLocked_def Let_def max_def)

lemma Reset_tracks: "length (bitmap rf) = replayWindowWords \<Longrightarrow> tracks (Reset rf) {}"
  by (auto simp: tracks_def Reset_def wbit_def replayWindowWords_def ReplayWindowSize_def)

section \<open>The interface a session relies on\<close>

text \<open>Running a guard over a sequence of nonces: the accepted ones in order, and the last state.\<close>

fun accept_run :: "('f \<Rightarrow> u64 \<Rightarrow> bool \<times> 'f) \<Rightarrow> 'f \<Rightarrow> u64 list \<Rightarrow> u64 list \<times> 'f" where
  "accept_run acc f [] = ([], f)"
| "accept_run acc f (n # ns) =
     (let (b, f') = acc f n; (ms, f'') = accept_run acc f' ns
      in (if b then n # ms else ms, f''))"

locale nonce_guard =
  fixes start :: "'f" and accept :: "'f \<Rightarrow> u64 \<Rightarrow> bool \<times> 'f" and seen :: "'f \<Rightarrow> u64 set \<Rightarrow> bool"
  assumes seen_start: "seen start {}"
    and accept_fresh: "seen f S \<Longrightarrow> accept f n = (True, f') \<Longrightarrow> n \<notin> S \<and> seen f' (insert n S)"
    and accept_reject: "seen f S \<Longrightarrow> accept f n = (False, f') \<Longrightarrow> f' = f"
begin

lemma run_fresh:
  "seen f S \<Longrightarrow> accept_run accept f ns = (ms, f') \<Longrightarrow>
     distinct ms \<and> set ms \<inter> S = {} \<and> seen f' (S \<union> set ms)"
proof (induction ns arbitrary: f S ms f')
  case (Cons n ns)
  obtain b g where a: "accept f n = (b, g)" by (cases "accept f n")
  obtain ms0 where r: "accept_run accept g ns = (ms0, f')" and ms: "ms = (if b then n # ms0 else ms0)"
    using Cons.prems(2) a by (auto split: prod.splits)
  show ?case
  proof (cases b)
    case True
    have "n \<notin> S" "seen g (insert n S)"
      using accept_fresh [OF Cons.prems(1)] a True by auto
    with Cons.IH [OF _ r] ms True show ?thesis by fastforce
  next
    case False
    with accept_reject [OF Cons.prems(1)] a have "g = f" by auto
    with Cons.IH [OF Cons.prems(1)] r ms False show ?thesis by auto
  qed
qed simp

lemma run_from_start:
  "distinct (fst (accept_run accept start ns)) \<and>
   seen (snd (accept_run accept start ns)) (set (fst (accept_run accept start ns)))"
  using run_fresh [OF seen_start, of ns] by (cases "accept_run accept start ns") auto

end

interpretation replay: nonce_guard NewReplayFilter CheckAndUpdate tracks
proof unfold_locales
  show "tracks NewReplayFilter {}" by (rule tracks_new)
next
  fix rf S n rf'
  assume t: "tracks rf S" and a: "CheckAndUpdate rf n = (True, rf')"
  then show "n \<notin> S \<and> tracks rf' (insert n S)"
    by (auto simp: CheckAndUpdate_def checkLocked_tracks [OF t] updateLocked_tracks [OF t]
        split: if_splits)
next
  fix rf S n rf'
  assume "tracks rf S" "CheckAndUpdate rf n = (False, rf')"
  then show "rf' = rf" by (auto simp: CheckAndUpdate_def split: if_splits)
qed

lemma maxNonce_run:
  "maxNonce (snd (accept_run CheckAndUpdate rf ns)) =
     fold max (fst (accept_run CheckAndUpdate rf ns)) (maxNonce rf)"
proof (induction ns arbitrary: rf)
  case (Cons n ns)
  show ?case
    using Cons.IH [of rf] Cons.IH [of "updateLocked rf n"]
    by (auto simp: CheckAndUpdate_def [of rf n] Let_def maxNonce_updateLocked max.commute
        split: prod.splits)
qed simp

section \<open>Properties\<close>

text \<open>
  Replay protection.  Whatever nonces arrive in whatever order, no nonce is accepted twice.
\<close>

theorem replay_no_duplicate:
  "distinct (fst (accept_run CheckAndUpdate NewReplayFilter ns))"
  using replay.run_from_start by blast

text \<open>
  C12: After any sequence of nonces the bitmap decides exactly the intended window: the next nonce
  is accepted if and only if it was not accepted before and lies less than \<open>ReplayWindowSize\<close>
  behind the highest accepted one, so nothing fresh inside the window is ever refused, however the
  window slid by words and bits in between.
\<close>

theorem replay_window_exact:
  "fst (CheckAndUpdate (snd (accept_run CheckAndUpdate NewReplayFilter ns)) n) \<longleftrightarrow>
     n \<notin> set (fst (accept_run CheckAndUpdate NewReplayFilter ns)) \<and>
     unat (fold max (fst (accept_run CheckAndUpdate NewReplayFilter ns)) 0)
       < unat n + ReplayWindowSize"
proof -
  have "maxNonce (snd (accept_run CheckAndUpdate NewReplayFilter ns))
      = fold max (fst (accept_run CheckAndUpdate NewReplayFilter ns)) 0"
    by (simp add: maxNonce_run NewReplayFilter_def)
  with checkLocked_tracks [OF conjunct2 [OF replay.run_from_start [of ns]], of n] show ?thesis
    by (simp add: CheckAndUpdate_def [of _ n] in_window_def)
qed

end
