(* ===== verification/NoiseMessage.thy ===== *)
theory NoiseMessage
  imports Prelude
begin

text \<open>
  The wire formats of the secure transport: \<open>pkg/giznet/internal/noise/message.go\<close> (handshake
  initiation, handshake response and transport packets) and
  \<open>pkg/giznet/internal/core/payload.go\<close> (the protocol byte in front of every plaintext).
  \<open>fit n\<close> is what \<open>copy\<close> leaves in a fresh
  zeroed field of \<open>n\<close> bytes.
\<close>

section \<open>The code\<close>

type_synonym key = "byte list"

definition KeySize :: nat where "KeySize = 32"
definition TagSize :: nat where "TagSize = 16"

definition MessageTypeHandshakeInit :: byte where "MessageTypeHandshakeInit = 1"
definition MessageTypeHandshakeResp :: byte where "MessageTypeHandshakeResp = 2"
definition MessageTypeTransport :: byte where "MessageTypeTransport = 4"

definition HandshakeInitSize :: nat where "HandshakeInitSize = 1 + 4 + 32 + 48"
definition HandshakeRespSize :: nat where "HandshakeRespSize = 1 + 4 + 4 + 32 + 16"
definition TransportHeaderSize :: nat where "TransportHeaderSize = 1 + 4 + 8"

datatype message_error = MessageTooShort | InvalidMessageType

definition fit :: "nat \<Rightarrow> byte list \<Rightarrow> byte list" where
  "fit n src = copy_at (replicate n 0) 0 src"

record transport_message =
  tmReceiverIndex :: u32
  tmCounter :: u64
  tmCiphertext :: "byte list"

definition ParseTransportMessage :: "byte list \<Rightarrow> message_error + transport_message" where
  "ParseTransportMessage data =
     (if length data < TransportHeaderSize + TagSize then Inl MessageTooShort
      else if data ! 0 \<noteq> MessageTypeTransport then Inl InvalidMessageType
      else Inr \<lparr>tmReceiverIndex = get_le (subslice 1 5 data),
                tmCounter = get_le (subslice 5 13 data),
                tmCiphertext = drop 13 data\<rparr>)"

definition BuildTransportMessage :: "u32 \<Rightarrow> u64 \<Rightarrow> byte list \<Rightarrow> byte list" where
  "BuildTransportMessage receiverIndex counter ciphertext =
     MessageTypeTransport # put_le 4 receiverIndex @ put_le 8 counter
       @ fit (length ciphertext) ciphertext"

record handshake_init_message =
  hiSenderIndex :: u32
  hiEphemeral :: key
  hiStatic :: "byte list"

definition ParseHandshakeInit :: "byte list \<Rightarrow> message_error + handshake_init_message" where
  "ParseHandshakeInit data =
     (if length data < HandshakeInitSize then Inl MessageTooShort
      else if data ! 0 \<noteq> MessageTypeHandshakeInit then Inl InvalidMessageType
      else Inr \<lparr>hiSenderIndex = get_le (subslice 1 5 data),
                hiEphemeral = fit KeySize (subslice 5 37 data),
                hiStatic = fit 48 (subslice 37 85 data)\<rparr>)"

definition BuildHandshakeInit :: "u32 \<Rightarrow> key \<Rightarrow> byte list \<Rightarrow> byte list" where
  "BuildHandshakeInit senderIndex ephemeral staticEnc =
     MessageTypeHandshakeInit # put_le 4 senderIndex @ fit 32 ephemeral @ fit 48 staticEnc"

record handshake_resp_message =
  hrSenderIndex :: u32
  hrReceiverIndex :: u32
  hrEphemeral :: key
  hrEmpty :: "byte list"

definition ParseHandshakeResp :: "byte list \<Rightarrow> message_error + handshake_resp_message" where
  "ParseHandshakeResp data =
     (if length data < HandshakeRespSize then Inl MessageTooShort
      else if data ! 0 \<noteq> MessageTypeHandshakeResp then Inl InvalidMessageType
      else Inr \<lparr>hrSenderIndex = get_le (subslice 1 5 data),
                hrReceiverIndex = get_le (subslice 5 9 data),
                hrEphemeral = fit KeySize (subslice 9 41 data),
                hrEmpty = fit 16 (subslice 41 57 data)\<rparr>)"

definition BuildHandshakeResp :: "u32 \<Rightarrow> u32 \<Rightarrow> key \<Rightarrow> byte list \<Rightarrow> byte list" where
  "BuildHandshakeResp senderIndex receiverIndex ephemeral emptyTag =
     MessageTypeHandshakeResp # put_le 4 senderIndex @ put_le 4 receiverIndex
       @ fit 32 ephemeral @ fit 16 emptyTag"

definition GetMessageType :: "byte list \<Rightarrow> message_error + byte" where
  "GetMessageType data = (if length data < 1 then Inl MessageTooShort else Inr (data ! 0))"

text \<open>The protocol byte of stream traffic (\<open>core/protocol.go\<close>).\<close>

definition ProtocolKCP :: byte where "ProtocolKCP = 0"

datatype payload_error = PayloadTooShort

definition EncodePayload :: "byte \<Rightarrow> byte list \<Rightarrow> byte list" where
  "EncodePayload protocol payload = protocol # fit (length payload) payload"

definition DecodePayload :: "byte list \<Rightarrow> payload_error + (byte \<times> byte list)" where
  "DecodePayload data = (if length data < 1 then Inl PayloadTooShort else Inr (data ! 0, drop 1 data))"

section \<open>Fields of known width\<close>

lemma length_fit [simp]: "length (fit n src) = n"
  by (simp add: fit_def)

lemma fit_exact [simp]: "length src = n \<Longrightarrow> fit n src = src"
  by (auto simp: fit_def copy_at_def)

lemmas message_sizes = TransportHeaderSize_def TagSize_def KeySize_def HandshakeInitSize_def
  HandshakeRespSize_def

lemmas message_types = MessageTypeTransport_def MessageTypeHandshakeInit_def
  MessageTypeHandshakeResp_def

lemma parse_build_transport:
  "ParseTransportMessage (BuildTransportMessage r c ct) =
     (if length ct < TagSize then Inl MessageTooShort
      else Inr \<lparr>tmReceiverIndex = r, tmCounter = c, tmCiphertext = ct\<rparr>)"
  by (simp add: ParseTransportMessage_def BuildTransportMessage_def message_sizes slice_Cons
      slice_append_right)

lemma build_parse_transport:
  assumes "ParseTransportMessage data = Inr m"
  shows "BuildTransportMessage (tmReceiverIndex m) (tmCounter m) (tmCiphertext m) = data"
proof -
  from assms have l: "13 + 16 \<le> length data" and t: "data ! 0 = MessageTypeTransport"
    and m: "m = \<lparr>tmReceiverIndex = get_le (subslice 1 5 data), tmCounter = get_le (subslice 5 13 data),
        tmCiphertext = drop 13 data\<rparr>"
    by (auto simp: ParseTransportMessage_def message_sizes split: if_splits)
  have "put_le 4 (get_le (subslice 1 5 data) :: u32) = subslice 1 5 data"
    "put_le 8 (get_le (subslice 5 13 data) :: u64) = subslice 5 13 data"
    using put_get_le [where 'a = 32, of "subslice 1 5 data"]
      put_get_le [where 'a = 64, of "subslice 5 13 data"] l by simp_all
  moreover have "data = data ! 0 # subslice 1 5 data @ subslice 5 13 data @ drop 13 data"
    using l head_drop_1 [of data] by (cases "data = []") (simp_all add: slice_drop_append)
  ultimately show ?thesis
    using t by (simp add: BuildTransportMessage_def m)
qed

lemma parse_build_init:
  assumes "length e = KeySize" "length st = KeySize + TagSize"
  shows "ParseHandshakeInit (BuildHandshakeInit i e st @ rest) =
     Inr \<lparr>hiSenderIndex = i, hiEphemeral = e, hiStatic = st\<rparr>"
  using assms
  by (simp add: ParseHandshakeInit_def BuildHandshakeInit_def message_sizes slice_Cons
      slice_append_right slice_append_left)

lemma parse_build_resp:
  assumes "length e = KeySize" "length t = TagSize"
  shows "ParseHandshakeResp (BuildHandshakeResp i j e t @ rest) =
     Inr \<lparr>hrSenderIndex = i, hrReceiverIndex = j, hrEphemeral = e, hrEmpty = t\<rparr>"
  using assms
  by (simp add: ParseHandshakeResp_def BuildHandshakeResp_def message_sizes slice_Cons
      slice_append_right slice_append_left)

lemma decode_encode_payload: "DecodePayload (EncodePayload p pl) = Inr (p, pl)"
  by (simp add: DecodePayload_def EncodePayload_def)

lemma length_BuildTransportMessage [simp]:
  "length (BuildTransportMessage r c ct) = TransportHeaderSize + length ct"
  by (simp add: BuildTransportMessage_def TransportHeaderSize_def)

section \<open>Properties\<close>

text \<open>
  The transport packet format is a bijection between well-formed packets and messages:
  parsing what was built gives index, counter and ciphertext back (or \<open>MessageTooShort\<close> when the
  ciphertext cannot hold a tag), and every packet the parser accepts is byte for byte the one that
  \<open>BuildTransportMessage\<close> builds from the parsed fields.
\<close>

theorem transport_message_bijection:
  "ParseTransportMessage (BuildTransportMessage r c ct) =
     (if length ct < TagSize then Inl MessageTooShort
      else Inr \<lparr>tmReceiverIndex = r, tmCounter = c, tmCiphertext = ct\<rparr>) \<and>
   (ParseTransportMessage data = Inr m \<longleftrightarrow>
      TagSize \<le> length (tmCiphertext m) \<and>
      data = BuildTransportMessage (tmReceiverIndex m) (tmCounter m) (tmCiphertext m)) \<and>
   ((\<exists>k. ParseTransportMessage data = Inr k) \<longleftrightarrow>
      TransportHeaderSize + TagSize \<le> length data \<and> data ! 0 = MessageTypeTransport)"
proof (intro conjI)
  show "ParseTransportMessage data = Inr m \<longleftrightarrow>
      TagSize \<le> length (tmCiphertext m) \<and>
      data = BuildTransportMessage (tmReceiverIndex m) (tmCounter m) (tmCiphertext m)"
  proof
    assume r: "ParseTransportMessage data = Inr m"
    then have "TagSize \<le> length (tmCiphertext m)"
      by (auto simp: ParseTransportMessage_def message_sizes split: if_splits)
    with build_parse_transport [OF r] show "TagSize \<le> length (tmCiphertext m) \<and>
      data = BuildTransportMessage (tmReceiverIndex m) (tmCounter m) (tmCiphertext m)" by simp
  qed (simp add: parse_build_transport)
  show "(\<exists>k. ParseTransportMessage data = Inr k) \<longleftrightarrow>
      TransportHeaderSize + TagSize \<le> length data \<and> data ! 0 = MessageTypeTransport"
    by (simp add: ParseTransportMessage_def)
qed (simp add: parse_build_transport)

text \<open>
  The handshake messages survive the wire: initiation and response packets parse back to the
  indices, the ephemeral key and the encrypted part they were built from, trailing bytes are
  ignored, and the three packet kinds are never confused with one another.
\<close>

theorem handshake_message_roundtrip:
  assumes "length e = KeySize" "length st = KeySize + TagSize" "length t = TagSize"
  shows "ParseHandshakeInit (BuildHandshakeInit i e st @ rest) =
      Inr \<lparr>hiSenderIndex = i, hiEphemeral = e, hiStatic = st\<rparr> \<and>
    ParseHandshakeResp (BuildHandshakeResp i j e t @ rest) =
      Inr \<lparr>hrSenderIndex = i, hrReceiverIndex = j, hrEphemeral = e, hrEmpty = t\<rparr> \<and>
    ParseTransportMessage (BuildHandshakeInit i e st) = Inl InvalidMessageType \<and>
    ParseTransportMessage (BuildHandshakeResp i j e t) = Inl InvalidMessageType \<and>
    ParseHandshakeInit (BuildHandshakeResp i j e t @ rest) \<noteq> Inr m"
proof (intro conjI)
  show "ParseTransportMessage (BuildHandshakeInit i e st) = Inl InvalidMessageType"
    "ParseTransportMessage (BuildHandshakeResp i j e t) = Inl InvalidMessageType"
    "ParseHandshakeInit (BuildHandshakeResp i j e t @ rest) \<noteq> Inr m"
    by (simp_all add: ParseTransportMessage_def BuildHandshakeInit_def BuildHandshakeResp_def
        ParseHandshakeInit_def message_sizes message_types)
qed (use assms in \<open>simp_all add: parse_build_init parse_build_resp\<close>)

theorem handshake_message_roundtrip_witness:
  "ParseHandshakeInit (BuildHandshakeInit 7 (replicate 32 1) (replicate 48 2) @ [9]) =
      Inr \<lparr>hiSenderIndex = 7, hiEphemeral = replicate 32 1, hiStatic = replicate 48 2\<rparr> \<and>
   ParseHandshakeResp (BuildHandshakeResp 7 8 (replicate 32 1) (replicate 16 3) @ [9]) =
      Inr \<lparr>hrSenderIndex = 7, hrReceiverIndex = 8, hrEphemeral = replicate 32 1,
           hrEmpty = replicate 16 3\<rparr>"
  using handshake_message_roundtrip [of "replicate 32 1" "replicate 48 2" "replicate 16 3"]
  by (simp add: KeySize_def TagSize_def)

end
