(* ===== verification/NoiseSession.thy ===== *)
theory NoiseSession
  imports ReplayFilter NoiseMessage
begin

text \<open>
  \<open>pkg/giznet/internal/noise/session.go\<close>: an established transport session, its send counter,
  its replay filter and its state.  The AEAD cipher is third-party code and appears as a record of
  functions that every operation takes; \<open>aead_correct\<close> is the documented behaviour the session
  needs of it.  Times are nanoseconds; every operation that reads the clock takes the reading.
\<close>

section \<open>The code\<close>

record aead =
  aead_new :: "key \<Rightarrow> bool"
  aead_seal :: "key \<Rightarrow> byte list \<Rightarrow> byte list \<Rightarrow> byte list \<Rightarrow> byte list"
  aead_open :: "key \<Rightarrow> byte list \<Rightarrow> byte list \<Rightarrow> byte list \<Rightarrow> byte list option"

definition aead_correct :: "aead \<Rightarrow> bool" where
  "aead_correct A \<longleftrightarrow>
     (\<forall>k. length k = KeySize \<longrightarrow> aead_new A k) \<and>
     (\<forall>k n p ad. aead_open A k n (aead_seal A k n p ad) ad = Some p) \<and>
     (\<forall>k n p ad. length (aead_seal A k n p ad) = length p + TagSize)"

datatype session_state = Handshaking | Established | Expired

definition SessionTimeout :: int where "SessionTimeout = 180 * 1000000000"
definition MaxNonce :: u64 where "MaxNonce = NOT 0 - 1"

record session =
  localIndex :: u32
  remoteIndex :: u32
  sendKey :: key
  recvKey :: key
  sendNonce :: u64
  recvNonce :: replay_filter
  sstate :: session_state
  remotePK :: key
  createdAt :: int
  lastReceived :: int
  lastSent :: int

record session_config =
  cfgLocalIndex :: u32
  cfgRemoteIndex :: u32
  cfgSendKey :: key
  cfgRecvKey :: key
  cfgRemotePK :: key

datatype session_error =
  SessionNotEstablished | ReplayDetected | NonceExhausted | DecryptionFailed | BadAEADKey

definition NewSession :: "aead \<Rightarrow> int \<Rightarrow> session_config \<Rightarrow> session_error + session" where
  "NewSession A now cfg =
     (if \<not> aead_new A (cfgSendKey cfg) then Inl BadAEADKey
      else if \<not> aead_new A (cfgRecvKey cfg) then Inl BadAEADKey
      else Inr \<lparr>localIndex = cfgLocalIndex cfg, remoteIndex = cfgRemoteIndex cfg,
        sendKey = cfgSendKey cfg, recvKey = cfgRecvKey cfg, sendNonce = 0,
        recvNonce = NewReplayFilter, sstate = Established, remotePK = cfgRemotePK cfg,
        createdAt = now, lastReceived = now, lastSent = now\<rparr>)"

definition SetRemoteIndex :: "session \<Rightarrow> u32 \<Rightarrow> session" where
  "SetRemoteIndex s idx = s\<lparr>remoteIndex := idx\<rparr>"

definition SetState :: "session \<Rightarrow> session_state \<Rightarrow> session" where
  "SetState s st = s\<lparr>sstate := st\<rparr>"

text \<open>The 12 nonce bytes: the counter in little-endian order, then zeros.\<close>

definition nonceBytes :: "u64 \<Rightarrow> byte list" where
  "nonceBytes nonce = put_le 8 nonce @ [0, 0, 0, 0]"

definition Encrypt ::
  "aead \<Rightarrow> int \<Rightarrow> session \<Rightarrow> byte list \<Rightarrow> (session_error + (byte list \<times> u64)) \<times> session" where
  "Encrypt A now s plaintext =
     (if sstate s \<noteq> Established then (Inl SessionNotEstablished, s)
      else let nonce = sendNonce s; s1 = s\<lparr>sendNonce := sendNonce s + 1\<rparr> in
        if MaxNonce \<le> nonce then (Inl NonceExhausted, s1)
        else (Inr (aead_seal A (sendKey s) (nonceBytes nonce) plaintext [], nonce),
              s1\<lparr>lastSent := now\<rparr>))"

definition Decrypt ::
  "aead \<Rightarrow> int \<Rightarrow> session \<Rightarrow> byte list \<Rightarrow> u64 \<Rightarrow> (session_error + byte list) \<times> session" where
  "Decrypt A now s ciphertext nonce =
     (if sstate s \<noteq> Established then (Inl SessionNotEstablished, s)
      else let (ok, rf) = CheckAndUpdate (recvNonce s) nonce; s1 = s\<lparr>recvNonce := rf\<rparr> in
        if \<not> ok then (Inl ReplayDetected, s1)
        else case aead_open A (recvKey s) (nonceBytes nonce) ciphertext [] of
            None \<Rightarrow> (Inl DecryptionFailed, s1)
          | Some plaintext \<Rightarrow> (Inr plaintext, s1\<lparr>lastReceived := now\<rparr>))"

definition IsExpired :: "int \<Rightarrow> session \<Rightarrow> bool" where
  "IsExpired now s \<longleftrightarrow>
     (if sstate s = Expired then True else SessionTimeout < now - lastReceived s)"

definition Expire :: "session \<Rightarrow> session" where
  "Expire s = s\<lparr>sstate := Expired\<rparr>"

section \<open>Sequences of operations\<close>

text \<open>
  Each method takes the session's lock (or an atomic), so a concurrent history is a sequence of
  operations.  \<open>session_step\<close> performs one and reports the nonce it sent under or delivered.
\<close>

datatype session_op =
  OpEncrypt int "byte list" | OpDecrypt int "byte list" u64 | OpSetState session_state
| OpSetRemoteIndex u32 | OpExpire

datatype session_event = Sent u64 | Delivered u64 "byte list" | Quiet

fun session_step :: "aead \<Rightarrow> session \<Rightarrow> session_op \<Rightarrow> session_event \<times> session" where
  "session_step A s (OpEncrypt now p) =
     (case Encrypt A now s p of (Inr (c, n), s') \<Rightarrow> (Sent n, s') | (Inl e, s') \<Rightarrow> (Quiet, s'))"
| "session_step A s (OpDecrypt now c n) =
     (case Decrypt A now s c n of (Inr p, s') \<Rightarrow> (Delivered n p, s') | (Inl e, s') \<Rightarrow> (Quiet, s'))"
| "session_step A s (OpSetState st) = (Quiet, SetState s st)"
| "session_step A s (OpSetRemoteIndex i) = (Quiet, SetRemoteIndex s i)"
| "session_step A s OpExpire = (Quiet, Expire s)"

fun session_run :: "aead \<Rightarrow> session \<Rightarrow> session_op list \<Rightarrow> session_event list \<times> session" where
  "session_run A s [] = ([], s)"
| "session_run A s (o1 # ops) =
     (let (e, s') = session_step A s o1; (es, s'') = session_run A s' ops in (e # es, s''))"


fun delivered_nonces :: "session_event list \<Rightarrow> u64 list" where
  "delivered_nonces [] = []"
| "delivered_nonces (Delivered n p # es) = n # delivered_nonces es"
| "delivered_nonces (_ # es) = delivered_nonces es"

lemmas session_defs = Encrypt_def Decrypt_def SetState_def SetRemoteIndex_def Expire_def

lemma Encrypt_recvNonce [simp]: "recvNonce (snd (Encrypt A now s p)) = recvNonce s"
  by (simp add: Encrypt_def Let_def)

lemma Decrypt_sendNonce [simp]: "sendNonce (snd (Decrypt A now s c n)) = sendNonce s"
  by (simp add: Decrypt_def Let_def split: prod.split option.split)

lemma Decrypt_recvNonce:
  "recvNonce (snd (Decrypt A now s c n)) =
     (if sstate s = Established then snd (CheckAndUpdate (recvNonce s) n) else recvNonce s)"
  by (simp add: Decrypt_def Let_def split: prod.split option.split)

lemma Decrypt_accepted:
  "fst (Decrypt A now s c n) = Inr p \<Longrightarrow>
     sstate s = Established \<and> fst (CheckAndUpdate (recvNonce s) n) \<and>
     aead_open A (recvKey s) (nonceBytes n) c [] = Some p"
  by (auto simp: Decrypt_def Let_def split: prod.splits option.splits if_splits)

section \<open>Send counters\<close>

lemma MaxNonce_nat: "unat MaxNonce = 2 ^ 64 - 2"
  by (simp add: MaxNonce_def)





section \<open>Deliveries\<close>

text \<open>
  The receiving half of a run is a run of the session's guard: the delivered nonces are fresh for
  any interpretation of \<open>nonce_guard\<close>, so here for the replay filter.
\<close>

lemma session_step_recv:
  "session_step A s o1 = (e, s1) \<Longrightarrow> tracks (recvNonce s) S \<Longrightarrow>
     \<exists>S'. tracks (recvNonce s1) S' \<and> S \<subseteq> S' \<and>
       (\<forall>n p. e = Delivered n p \<longrightarrow> n \<notin> S \<and> n \<in> S')"
proof (cases o1)
  case (OpEncrypt now p)
  then show "session_step A s o1 = (e, s1) \<Longrightarrow> tracks (recvNonce s) S \<Longrightarrow> ?thesis"
    by (auto split: prod.splits sum.splits dest!: arg_cong [where f = "recvNonce \<circ> snd"])
next
  case (OpDecrypt now c n)
  assume st: "session_step A s o1 = (e, s1)" and t: "tracks (recvNonce s) S"
  obtain ok rf where acc: "CheckAndUpdate (recvNonce s) n = (ok, rf)"
    by (cases "CheckAndUpdate (recvNonce s) n")
  have r: "recvNonce s1 = (if sstate s = Established then rf else recvNonce s)"
    using st acc Decrypt_recvNonce [of A now s c n]
    by (auto simp: OpDecrypt split: prod.splits sum.splits)
  have d: "sstate s = Established \<and> ok" if "e = Delivered m p" for m p
    using that st acc Decrypt_accepted [of A now s c n p]
    by (auto simp: OpDecrypt split: prod.splits sum.splits)
  have m: "m = n" if "e = Delivered m p" for m p
    using that st by (auto simp: OpDecrypt split: prod.splits sum.splits)
  show ?thesis
  proof (cases "sstate s = Established \<and> ok")
    case True
    with replay.accept_fresh [OF t] acc have "n \<notin> S" "tracks rf (insert n S)" by auto
    with True r m show ?thesis by (intro exI [of _ "insert n S"]) auto
  next
    case False
    then have "recvNonce s1 = recvNonce s"
      using r acc replay.accept_reject [OF t] by auto
    with False d t show ?thesis by (intro exI [of _ S]) auto
  qed
qed (auto simp: SetState_def SetRemoteIndex_def Expire_def)

lemma delivered_fresh:
  "tracks (recvNonce s) S \<Longrightarrow>
     distinct (delivered_nonces (fst (session_run A s ops))) \<and>
     set (delivered_nonces (fst (session_run A s ops))) \<inter> S = {}"
proof (induction ops arbitrary: s S)
  case (Cons o1 ops)
  obtain e s1 where st: "session_step A s o1 = (e, s1)" by (cases "session_step A s o1")
  from session_step_recv [OF st Cons.prems] obtain S' where
    S': "tracks (recvNonce s1) S'" "S \<subseteq> S'" "\<forall>n p. e = Delivered n p \<longrightarrow> n \<notin> S \<and> n \<in> S'"
    by blast
  with Cons.IH [OF S'(1)] show ?case
    by (cases e) (auto simp: st Let_def split: prod.splits)
qed simp

section \<open>Properties\<close>


text \<open>A concrete cipher for the witnesses: the tag is 16 zero bytes.\<close>

definition tag_aead :: aead where
  "tag_aead = \<lparr>aead_new = (\<lambda>k. length k = KeySize),
     aead_seal = (\<lambda>k n p ad. p @ replicate 16 0),
     aead_open = (\<lambda>k n c ad.
       if 16 \<le> length c \<and> drop (length c - 16) c = replicate 16 0
       then Some (take (length c - 16) c) else None)\<rparr>"

definition demo_config :: session_config where
  "demo_config = \<lparr>cfgLocalIndex = 1, cfgRemoteIndex = 2, cfgSendKey = replicate 32 3,
     cfgRecvKey = replicate 32 3, cfgRemotePK = replicate 32 4\<rparr>"

definition demo_session :: session where
  "demo_session = \<lparr>localIndex = 1, remoteIndex = 2, sendKey = replicate 32 3,
     recvKey = replicate 32 3, sendNonce = 0, recvNonce = NewReplayFilter, sstate = Established,
     remotePK = replicate 32 4, createdAt = 5, lastReceived = 5, lastSent = 5\<rparr>"

lemma maxNonce_new: "maxNonce NewReplayFilter = 0"
  by (simp add: NewReplayFilter_def)

lemma tag_aead_correct: "aead_correct tag_aead"
  by (simp add: aead_correct_def tag_aead_def KeySize_def TagSize_def)

lemma demo_session_new: "NewSession tag_aead 5 demo_config = Inr demo_session"
  by (simp add: NewSession_def tag_aead_def demo_config_def demo_session_def KeySize_def)


text \<open>
  Past exhaustion the counter keeps counting: a session whose counter has reached \<open>MaxNonce\<close>
  refuses two encryptions with \<open>NonceExhausted\<close> and then seals a packet under nonce 0 again, the
  nonce of the session's first packet.
\<close>

theorem session_nonce_wraps_after_exhaustion:
  assumes "sstate s = Established" and "sendNonce s = MaxNonce"
  shows "fst (session_run A s [OpEncrypt t1 p1, OpEncrypt t2 p2, OpEncrypt t3 p3])
    = [Quiet, Quiet, Sent 0]"
  using assms by (simp add: Encrypt_def MaxNonce_def)

theorem session_nonce_wraps_after_exhaustion_witness:
  "fst (session_run tag_aead (demo_session\<lparr>sendNonce := MaxNonce\<rparr>)
     [OpEncrypt 1 [], OpEncrypt 2 [], OpEncrypt 3 []]) = [Quiet, Quiet, Sent 0]"
  by (rule session_nonce_wraps_after_exhaustion) (simp_all add: demo_session_def)

text \<open>
  C22: No packet is delivered twice: in every history of operations of a new session, whatever
  ciphertexts and counters arrive, each nonce is delivered at most once.
\<close>

theorem session_delivers_once:
  assumes "NewSession A now cfg = Inr s"
  shows "distinct (delivered_nonces (fst (session_run A s ops)))"
proof -
  have "recvNonce s = NewReplayFilter"
    using assms by (auto simp: NewSession_def split: if_splits)
  with delivered_fresh [of s "{}"] replay.seen_start show ?thesis by simp
qed

theorem session_delivers_once_witness:
  "distinct (delivered_nonces (fst (session_run tag_aead demo_session
     [OpDecrypt 6 (replicate 17 0) 3, OpDecrypt 7 (replicate 17 0) 3, OpExpire])))"
  by (rule session_delivers_once [OF demo_session_new])

text \<open>
  The replay filter is updated before the packet is authenticated: a single forged packet
  with the largest counter, which fails to decrypt, moves the window so that every later packet
  outside the last \<open>ReplayWindowSize\<close> counters is refused as a replay, whether authentic or not.
\<close>

theorem forged_packet_blocks_session:
  assumes "sstate s = Established" and "maxNonce (recvNonce s) < NOT 0"
    and "tracks (recvNonce s) S"
    and "aead_open A (recvKey s) (nonceBytes (NOT 0)) forged [] = None"
    and "unat n + ReplayWindowSize \<le> 2 ^ 64 - 1"
  shows "fst (Decrypt A t1 s forged (NOT 0)) = Inl DecryptionFailed \<and>
    fst (Decrypt A t2 (snd (Decrypt A t1 s forged (NOT 0))) c n) = Inl ReplayDetected"
proof -
  define rf where "rf = updateLocked (recvNonce s) (NOT 0)"
  have ok: "CheckAndUpdate (recvNonce s) (NOT 0) = (True, rf)"
    using assms(2) by (simp add: CheckAndUpdate_def checkLocked_def rf_def)
  have "in_window (maxNonce (recvNonce s)) (NOT 0)"
    using assms(2) unat_u64_less [of "maxNonce (recvNonce s)"]
    by (simp add: in_window_def ReplayWindowSize_def go_word)
  from updateLocked_tracks [OF assms(3) this] have t: "tracks rf (insert (NOT 0) S)"
    by (simp add: rf_def)
  have "maxNonce rf = NOT 0"
    using assms(2) by (simp add: rf_def maxNonce_updateLocked max_absorb2 order.strict_implies_order)
  then have "\<not> checkLocked rf n"
    using checkLocked_tracks [OF t, of n] assms(5) by (simp add: in_window_def go_word)
  then have "CheckAndUpdate rf n = (False, rf)" by (simp add: CheckAndUpdate_def)
  with ok assms(1,4) show ?thesis by (simp add: Decrypt_def)
qed

theorem forged_packet_blocks_session_witness:
  "fst (Decrypt tag_aead 6 demo_session [1, 2, 3] (NOT 0)) = Inl DecryptionFailed \<and>
   fst (Decrypt tag_aead 7 (snd (Decrypt tag_aead 6 demo_session [1, 2, 3] (NOT 0)))
     (replicate 16 0) 0) = Inl ReplayDetected"
  by (rule forged_packet_blocks_session [where S = "{}"])
    (simp_all add: demo_session_def tracks_new maxNonce_new tag_aead_def ReplayWindowSize_def
      go_word word_less_nat_alt)

lemma transport_delivers:
  assumes "aead_correct A"
    and "sstate snd_s = Established" "sendNonce snd_s < MaxNonce"
    and "sstate rcv_s = Established" "recvKey rcv_s = sendKey snd_s"
    and "tracks (recvNonce rcv_s) S" "sendNonce snd_s \<notin> S"
    and "in_window (maxNonce (recvNonce rcv_s)) (sendNonce snd_s)"
    and "fst (Encrypt A ta snd_s plain) = Inr (ct, n)"
  shows "\<exists>m. ParseTransportMessage (BuildTransportMessage (remoteIndex snd_s) n ct) = Inr m \<and>
    tmReceiverIndex m = remoteIndex snd_s \<and>
    fst (Decrypt A tb rcv_s (tmCiphertext m) (tmCounter m)) = Inr plain"
proof -
  have ct: "ct = aead_seal A (sendKey snd_s) (nonceBytes n) plain []" and n: "n = sendNonce snd_s"
    using assms(2,3,9) by (auto simp: Encrypt_def Let_def split: if_splits)
  have "\<not> length ct < TagSize" using assms(1) ct by (simp add: aead_correct_def)
  moreover have "CheckAndUpdate (recvNonce rcv_s) n = (True, updateLocked (recvNonce rcv_s) n)"
    using assms(7,8) n checkLocked_tracks [OF assms(6), of n] by (simp add: CheckAndUpdate_def)
  then have "fst (Decrypt A tb rcv_s ct n) = Inr plain"
    using assms(1,4,5) ct by (simp add: Decrypt_def aead_correct_def)
  ultimately show ?thesis by (simp add: parse_build_transport)
qed

section \<open>Linked sessions\<close>

text \<open>Two sessions of which the first seals what the second opens, whatever was lost on the way.\<close>

definition session_link :: "session \<Rightarrow> session \<Rightarrow> bool" where
  "session_link s r \<longleftrightarrow>
     sstate s = Established \<and> sstate r = Established \<and> remoteIndex s = localIndex r \<and> sendKey s = recvKey r \<and>
     maxNonce (recvNonce r) \<le> sendNonce s \<and> (\<exists>S. tracks (recvNonce r) S \<and> (\<forall>n \<in> S. n < sendNonce s))"

definition sent_one :: "int \<Rightarrow> session \<Rightarrow> session" where
  "sent_one now s = s\<lparr>sendNonce := sendNonce s + 1, lastSent := now\<rparr>"

definition received_one :: "int \<Rightarrow> u64 \<Rightarrow> session \<Rightarrow> session" where
  "received_one now n s = s\<lparr>recvNonce := updateLocked (recvNonce s) n, lastReceived := now\<rparr>"

lemma one_more_fields [simp]:
  "sstate (sent_one t s) = sstate s" "localIndex (sent_one t s) = localIndex s" "remoteIndex (sent_one t s) = remoteIndex s"
  "sendKey (sent_one t s) = sendKey s" "recvKey (sent_one t s) = recvKey s" "recvNonce (sent_one t s) = recvNonce s"
  "sendNonce (sent_one t s) = sendNonce s + 1"
  "sstate (received_one t n s) = sstate s" "localIndex (received_one t n s) = localIndex s"
  "remoteIndex (received_one t n s) = remoteIndex s" "sendKey (received_one t n s) = sendKey s"
  "recvKey (received_one t n s) = recvKey s" "sendNonce (received_one t n s) = sendNonce s"
  by (simp_all add: sent_one_def received_one_def)

lemma session_link_new:
  "sstate s = Established \<Longrightarrow> sstate r = Established \<Longrightarrow> remoteIndex s = localIndex r \<Longrightarrow> sendKey s = recvKey r \<Longrightarrow>
    recvNonce r = NewReplayFilter \<Longrightarrow> session_link s r"
  using tracks_new by (auto simp: session_link_def maxNonce_new)

lemma Encrypt_sends:
  "sstate s = Established \<Longrightarrow> sendNonce s < MaxNonce \<Longrightarrow>
    Encrypt A now s plain = (Inr (aead_seal A (sendKey s) (nonceBytes (sendNonce s)) plain [], sendNonce s), sent_one now s)"
  by (simp add: Encrypt_def sent_one_def Let_def not_le [symmetric])

lemma nonce_grows: "sendNonce s < MaxNonce \<Longrightarrow> k < sendNonce s + 1 \<longleftrightarrow> k \<le> sendNonce s"
proof -
  assume n: "sendNonce s < MaxNonce"
  have "sendNonce s \<noteq> - 1"
  proof
    assume "sendNonce s = - 1"
    then show False using n by (simp add: MaxNonce_def)
  qed
  then have "unat (sendNonce s) \<noteq> 2 ^ 64 - 1" unfolding unat_NOT_0_u64(2) [symmetric] word_unat_eq_iff by simp
  then have "unat (sendNonce s) + 1 < 2 ^ 64" using unat_u64_less [of "sendNonce s"] by linarith
  then have "unat (sendNonce s + 1) = unat (sendNonce s) + 1" by (simp add: unat_word_ariths(1))
  then show ?thesis by (simp add: word_less_nat_alt word_le_nat_alt less_Suc_eq_le)
qed

text \<open>Sending leaves both directions as they are, whether or not the packet arrives.\<close>

lemma session_link_sent:
  assumes "session_link s r" "sendNonce s < MaxNonce"
  shows "session_link (sent_one t s) r"
proof -
  have "sendNonce s < sendNonce s + 1" using nonce_grows [OF assms(2), of "sendNonce s"] by simp
  then show ?thesis using assms(1) by (auto simp: session_link_def intro: less_trans order_trans less_imp_le)
qed

lemma session_link_sent_back: "session_link r s \<Longrightarrow> session_link r (sent_one t s)"
  by (simp add: session_link_def)

lemma session_link_delivers:
  assumes A: "aead_correct A" and l: "session_link s r" "session_link r s" and n: "sendNonce s < MaxNonce"
    and ct: "ct = aead_seal A (sendKey s) (nonceBytes (sendNonce s)) plain []"
  shows "\<exists>m. ParseTransportMessage (BuildTransportMessage (remoteIndex s) (sendNonce s) ct) = Inr m \<and>
    tmReceiverIndex m = localIndex r \<and> tmCounter m = sendNonce s \<and>
    Decrypt A tb r (tmCiphertext m) (tmCounter m) = (Inr plain, received_one tb (sendNonce s) r)"
    "session_link (sent_one ta s) (received_one tb (sendNonce s) r)" "session_link (received_one tb (sendNonce s) r) (sent_one ta s)"
proof -
  obtain S where S: "tracks (recvNonce r) S" "\<forall>n \<in> S. n < sendNonce s" using l(1) by (auto simp: session_link_def)
  have f: "sstate r = Established" "recvKey r = sendKey s" "remoteIndex s = localIndex r" "maxNonce (recvNonce r) \<le> sendNonce s"
    using l(1) by (simp_all add: session_link_def)
  have w: "in_window (maxNonce (recvNonce r)) (sendNonce s)"
    using f(4) by (simp add: in_window_def ReplayWindowSize_def word_le_nat_alt)
  have "CheckAndUpdate (recvNonce r) (sendNonce s) = (True, updateLocked (recvNonce r) (sendNonce s))"
    using S(2) w checkLocked_tracks [OF S(1), of "sendNonce s"] by (auto simp: CheckAndUpdate_def)
  then have "Decrypt A tb r ct (sendNonce s) = (Inr plain, received_one tb (sendNonce s) r)"
    using A f(1,2) ct by (simp add: Decrypt_def aead_correct_def received_one_def)
  moreover have "\<not> length ct < TagSize" using A ct by (simp add: aead_correct_def)
  ultimately show "\<exists>m. ParseTransportMessage (BuildTransportMessage (remoteIndex s) (sendNonce s) ct) = Inr m \<and>
    tmReceiverIndex m = localIndex r \<and> tmCounter m = sendNonce s \<and>
    Decrypt A tb r (tmCiphertext m) (tmCounter m) = (Inr plain, received_one tb (sendNonce s) r)"
    by (simp add: parse_build_transport f(3))
  have grows: "sendNonce s < sendNonce s + 1" using nonce_grows [OF n, of "sendNonce s"] by simp
  have max: "maxNonce (updateLocked (recvNonce r) (sendNonce s)) \<le> sendNonce s"
    using f(4) by (simp add: updateLocked_def Let_def)
  have "\<forall>k \<in> insert (sendNonce s) S. k < sendNonce s + 1" using S(2) grows by (auto intro: less_trans)
  with updateLocked_tracks [OF S(1) w] max grows l(1)
  show "session_link (sent_one ta s) (received_one tb (sendNonce s) r)"
    unfolding session_link_def by (auto simp: received_one_def intro: order_trans less_imp_le)
  show "session_link (received_one tb (sendNonce s) r) (sent_one ta s)"
    using l(2) by (simp add: session_link_def)
qed

end
