(* ===== verification/SessionManager.thy ===== *)
theory SessionManager
  imports NoiseSession
begin

text \<open>
  \<open>pkg/giznet/internal/core/manager.go\<close>: the table of sessions, indexed by local index and by
  the peer's public key.  Sessions are objects shared by both maps and by their users, so the
  manager keeps addresses into a heap of session objects.  Iteration over a Go map has an
  arbitrary order, which is an argument of the operation that iterates.
\<close>

section \<open>The code\<close>

record session_manager =
  heap :: "nat \<Rightarrow> session"
  nextAddr :: nat
  byIndex :: "u32 \<Rightarrow> nat option"
  byPubkey :: "key \<Rightarrow> nat option"
  nextIndex :: u32

datatype manager_error = IndexInUse | NoFreeIndex | SessionError session_error

definition NewSessionManager :: "(nat \<Rightarrow> session) \<Rightarrow> nat \<Rightarrow> session_manager" where
  "NewSessionManager h a =
     \<lparr>heap = h, nextAddr = a, byIndex = Map.empty, byPubkey = Map.empty, nextIndex = 1\<rparr>"

text \<open>
  The search loop of \<open>allocateIndex\<close>; that it returns at all is a theorem below.
\<close>

definition succ_index :: "u32 \<Rightarrow> u32" where
  "succ_index i = (if i + 1 = 0 then 1 else i + 1)"

partial_function (option) allocate_loop ::
  "(u32 \<Rightarrow> nat option) \<Rightarrow> u32 \<Rightarrow> u32 \<Rightarrow> (u32 \<times> u32) option" where
  "allocate_loop used startIndex index =
     (if used index = None then Some (index, succ_index index)
      else if succ_index index = startIndex then Some (0, succ_index index)
      else allocate_loop used startIndex (succ_index index))"

definition allocateIndex :: "session_manager \<Rightarrow> (u32 \<times> session_manager) option" where
  "allocateIndex m =
     map_option (\<lambda>(i, n). (i, m\<lparr>nextIndex := n\<rparr>))
       (allocate_loop (byIndex m) (nextIndex m) (nextIndex m))"

definition dropExisting :: "session_manager \<Rightarrow> key \<Rightarrow> session_manager" where
  "dropExisting m pk =
     (case byPubkey m pk of
        None \<Rightarrow> m
      | Some a \<Rightarrow> m\<lparr>byIndex := (byIndex m)(localIndex (heap m a) := None)\<rparr>)"

text \<open>Both ways of registering end alike: the peer's old session goes, the new one is entered.\<close>

definition install :: "session_manager \<Rightarrow> nat \<Rightarrow> session_manager" where
  "install m a =
     (let m1 = dropExisting m (remotePK (heap m a)) in
        m1\<lparr>byIndex := (byIndex m1)(localIndex (heap m a) \<mapsto> a),
           byPubkey := (byPubkey m1)(remotePK (heap m a) \<mapsto> a)\<rparr>)"

definition CreateSession ::
  "aead \<Rightarrow> int \<Rightarrow> session_manager \<Rightarrow> key \<Rightarrow> key \<Rightarrow> key
     \<Rightarrow> ((manager_error + nat) \<times> session_manager) option" where
  "CreateSession A now m pk sendK recvK =
     (case allocateIndex m of
        None \<Rightarrow> None
      | Some (idx, m1) \<Rightarrow> Some
          (if idx = 0 then (Inl NoFreeIndex, m1)
           else case NewSession A now \<lparr>cfgLocalIndex = idx, cfgRemoteIndex = 0,
                  cfgSendKey = sendK, cfgRecvKey = recvK, cfgRemotePK = pk\<rparr> of
               Inl e \<Rightarrow> (Inl (SessionError e), m1)
             | Inr s \<Rightarrow>
                 let a = nextAddr m1
                 in (Inr a, install (m1\<lparr>heap := (heap m1)(a := s), nextAddr := a + 1\<rparr>) a)))"

definition RegisterSession :: "session_manager \<Rightarrow> nat \<Rightarrow> manager_error option \<times> session_manager" where
  "RegisterSession m a =
     (if byIndex m (localIndex (heap m a)) \<noteq> None then (Some IndexInUse, m)
      else (None, install m a))"

definition GetByIndex :: "session_manager \<Rightarrow> u32 \<Rightarrow> nat option" where
  "GetByIndex m i = byIndex m i"

definition GetByPubkey :: "session_manager \<Rightarrow> key \<Rightarrow> nat option" where
  "GetByPubkey m pk = byPubkey m pk"

definition RemoveSession :: "session_manager \<Rightarrow> u32 \<Rightarrow> session_manager" where
  "RemoveSession m i =
     (case byIndex m i of
        None \<Rightarrow> m
      | Some a \<Rightarrow> m\<lparr>byIndex := (byIndex m)(i := None),
                    byPubkey := (byPubkey m)(remotePK (heap m a) := None)\<rparr>)"

definition RemoveByPubkey :: "session_manager \<Rightarrow> key \<Rightarrow> session_manager" where
  "RemoveByPubkey m pk =
     (case byPubkey m pk of
        None \<Rightarrow> m
      | Some a \<Rightarrow> m\<lparr>byIndex := (byIndex m)(localIndex (heap m a) := None),
                    byPubkey := (byPubkey m)(pk := None)\<rparr>)"

fun delete_sessions :: "session_manager \<Rightarrow> nat list \<Rightarrow> session_manager" where
  "delete_sessions m [] = m"
| "delete_sessions m (a # as) =
     delete_sessions
       (m\<lparr>byIndex := (byIndex m)(localIndex (heap m a) := None),
          byPubkey := (byPubkey m)(remotePK (heap m a) := None)\<rparr>) as"

text \<open>\<open>order\<close> lists the keys of \<open>byIndex\<close> in the order the runtime visits them.\<close>

definition ExpireSessions :: "int \<Rightarrow> u32 list \<Rightarrow> session_manager \<Rightarrow> nat \<times> session_manager" where
  "ExpireSessions now order m =
     (let expired = filter (\<lambda>a. IsExpired now (heap m a)) (List.map_filter (byIndex m) order)
      in (length expired, delete_sessions m expired))"

definition Clear :: "session_manager \<Rightarrow> session_manager" where
  "Clear m = m\<lparr>byIndex := Map.empty, byPubkey := Map.empty\<rparr>"

section \<open>Index allocation returns\<close>

text \<open>
  The number of steps from \<open>n\<close> around the cycle of non-zero indices to \<open>start\<close>.
\<close>

definition steps_to :: "u32 \<Rightarrow> u32 \<Rightarrow> nat" where
  "steps_to start n = (if unat n < unat start then unat start - unat n
     else unat start + (2 ^ 32 - 1) - unat n)"

lemma unat_succ_index:
  "unat (succ_index i) = (if unat i = 2 ^ 32 - 1 then 1 else unat i + 1)"
proof -
  have "unat (i + 1) = (unat i + 1) mod 2 ^ 32" by (simp add: unat_word_ariths)
  moreover have "i + 1 = 0 \<longleftrightarrow> unat (i + 1) = 0" by (simp add: unat_eq_zero)
  ultimately show ?thesis
    using unat_u32_less [of i] by (auto simp: succ_index_def mod_Suc split: if_splits)
qed

lemma succ_index_nonzero [simp]: "succ_index i \<noteq> 0"
  using unat_succ_index [of i] by (metis One_nat_def Zero_not_Suc add_is_0 unat_0)

lemma steps_to_succ:
  assumes "start \<noteq> 0" "n \<noteq> 0" "succ_index n \<noteq> start"
  shows "steps_to start n = Suc (steps_to start (succ_index n))"
proof -
  have "unat start \<noteq> 0" "unat n \<noteq> 0" using assms(1,2) by (simp_all add: unat_eq_zero)
  moreover have "unat (succ_index n) \<noteq> unat start"
    using assms(3) by (simp add: word_unat_eq_iff)
  ultimately have "unat start \<noteq> 0" "unat n \<noteq> 0" "unat (succ_index n) \<noteq> unat start" by blast+
  then show ?thesis
    using unat_u32_less [of n] unat_u32_less [of start]
    by (auto simp: steps_to_def unat_succ_index split: if_splits)
qed

lemma steps_to_inj:
  assumes "start \<noteq> 0" "n \<noteq> 0" "x \<noteq> 0" "steps_to start x = steps_to start n"
  shows "x = n"
proof -
  have "unat start \<noteq> 0" "unat n \<noteq> 0" "unat x \<noteq> 0" using assms by (auto simp: unat_eq_zero)
  then have "unat x = unat n"
    using assms(4) unat_u32_less [of n] unat_u32_less [of x] unat_u32_less [of start]
    by (auto simp: steps_to_def split: if_splits)
  then show ?thesis by (simp add: word_unat_eq_iff)
qed

lemma allocate_loop_result:
  assumes "start \<noteq> 0" "n \<noteq> 0"
  shows "\<exists>i n'. allocate_loop used start n = Some (i, n') \<and> n' \<noteq> 0 \<and>
    (if i = 0 then \<forall>x. x \<noteq> 0 \<longrightarrow> steps_to start x \<le> steps_to start n \<longrightarrow> used x \<noteq> None
     else used i = None)"
  using assms(2)
proof (induction "steps_to start n" arbitrary: n rule: less_induct)
  case less
  have last: "x = n" if "x \<noteq> 0" "succ_index n = start" "steps_to start x \<le> steps_to start n" for x
  proof -
    have "unat (succ_index n) = unat start" using that(2) by simp
    then have "unat x = unat n"
      using that(1,3) less.prems unat_u32_less [of n] unat_u32_less [of x]
      by (auto simp: steps_to_def unat_succ_index unat_eq_zero [symmetric] split: if_splits)
    then show ?thesis by (simp add: word_unat_eq_iff)
  qed
  show ?case
  proof (cases "used n = None \<or> succ_index n = start")
    case True
    then show ?thesis
      using less.prems last by (subst allocate_loop.simps) auto
  next
    case False
    then have s: "steps_to start n = Suc (steps_to start (succ_index n))"
      using steps_to_succ assms(1) less.prems by blast
    then obtain i n' where r: "allocate_loop used start (succ_index n) = Some (i, n')" "n' \<noteq> 0"
      "if i = 0 then \<forall>x. x \<noteq> 0 \<longrightarrow> steps_to start x \<le> steps_to start (succ_index n) \<longrightarrow> used x \<noteq> None
       else used i = None"
      using less.hyps [of "succ_index n"] by auto
    have "used x \<noteq> None"
      if "i = 0" "x \<noteq> 0" "steps_to start x \<le> steps_to start n" for x
    proof (cases "steps_to start x = steps_to start n")
      case True
      then have "x = n" using steps_to_inj assms(1) less.prems that(2) by blast
      then show ?thesis using False by simp
    next
      case False
      then show ?thesis using that r(3) s by auto
    qed
    then show ?thesis
      using False r by (subst allocate_loop.simps) auto
  qed
qed

lemma allocateIndex_result:
  assumes "nextIndex m \<noteq> 0"
  obtains i n where "allocateIndex m = Some (i, m\<lparr>nextIndex := n\<rparr>)" "n \<noteq> 0"
    "i = 0 \<longleftrightarrow> (\<forall>x. x \<noteq> 0 \<longrightarrow> byIndex m x \<noteq> None)" "i \<noteq> 0 \<Longrightarrow> byIndex m i = None"
proof -
  obtain i n where r: "allocate_loop (byIndex m) (nextIndex m) (nextIndex m) = Some (i, n)" "n \<noteq> 0"
    and p: "if i = 0 then \<forall>x. x \<noteq> 0 \<longrightarrow> steps_to (nextIndex m) x \<le> steps_to (nextIndex m) (nextIndex m)
        \<longrightarrow> byIndex m x \<noteq> None else byIndex m i = None"
    using allocate_loop_result [OF assms assms] by blast
  have "steps_to (nextIndex m) x \<le> steps_to (nextIndex m) (nextIndex m)" if "x \<noteq> 0" for x
    using that unat_u32_less [of "nextIndex m"] unat_u32_less [of x]
    by (auto simp: steps_to_def)
  with p have "i = 0 \<longleftrightarrow> (\<forall>x. x \<noteq> 0 \<longrightarrow> byIndex m x \<noteq> None)" "i \<noteq> 0 \<Longrightarrow> byIndex m i = None"
    by (auto split: if_splits)
  with r show ?thesis by (intro that [of i n]) (auto simp: allocateIndex_def)
qed

section \<open>The two indices agree\<close>

definition table_inv :: "session_manager \<Rightarrow> bool" where
  "table_inv m \<longleftrightarrow>
     (\<forall>i a. byIndex m i = Some a \<longrightarrow>
        localIndex (heap m a) = i \<and> byPubkey m (remotePK (heap m a)) = Some a \<and> a < nextAddr m) \<and>
     (\<forall>pk a. byPubkey m pk = Some a \<longrightarrow>
        remotePK (heap m a) = pk \<and> byIndex m (localIndex (heap m a)) = Some a) \<and>
     nextIndex m \<noteq> 0"

lemma table_inv_new: "table_inv (NewSessionManager h a)"
  by (simp add: table_inv_def NewSessionManager_def)

lemma install_fields [simp]:
  "heap (install m a) = heap m" "nextAddr (install m a) = nextAddr m"
  "nextIndex (install m a) = nextIndex m"
  "byPubkey (install m a) = (byPubkey m)(remotePK (heap m a) \<mapsto> a)"
  by (simp_all add: install_def dropExisting_def Let_def split: option.split)

lemma byIndex_install:
  "byIndex (install m a) i =
     (if i = localIndex (heap m a) then Some a
      else if \<exists>c. byPubkey m (remotePK (heap m a)) = Some c \<and> localIndex (heap m c) = i then None
      else byIndex m i)"
  by (auto simp: install_def dropExisting_def Let_def split: option.split)

lemma table_invD:
  assumes "table_inv m"
  shows "byIndex m i = Some a \<Longrightarrow> localIndex (heap m a) = i"
    and "byIndex m i = Some a \<Longrightarrow> byPubkey m (remotePK (heap m a)) = Some a"
    and "byIndex m i = Some a \<Longrightarrow> a < nextAddr m"
    and "byPubkey m pk = Some a \<Longrightarrow> remotePK (heap m a) = pk"
    and "byPubkey m pk = Some a \<Longrightarrow> byIndex m (localIndex (heap m a)) = Some a"
    and "nextIndex m \<noteq> 0"
  using assms by (auto simp: table_inv_def)

lemma table_invI:
  assumes "\<And>i a. byIndex m i = Some a \<Longrightarrow> localIndex (heap m a) = i"
    and "\<And>i a. byIndex m i = Some a \<Longrightarrow> byPubkey m (remotePK (heap m a)) = Some a"
    and "\<And>i a. byIndex m i = Some a \<Longrightarrow> a < nextAddr m"
    and "\<And>pk a. byPubkey m pk = Some a \<Longrightarrow> remotePK (heap m a) = pk"
    and "\<And>pk a. byPubkey m pk = Some a \<Longrightarrow> byIndex m (localIndex (heap m a)) = Some a"
    and "nextIndex m \<noteq> 0"
  shows "table_inv m"
  using assms by (auto simp: table_inv_def)

lemma table_inv_install:
  assumes inv: "table_inv m" and fresh: "byIndex m (localIndex (heap m a)) = None"
    and a: "a < nextAddr m"
  shows "table_inv (install m a)"
proof (rule table_invI)
  note D = table_invD [OF inv]
  fix i b assume b: "byIndex (install m a) i = Some b"
  show "localIndex (heap (install m a) b) = i" "b < nextAddr (install m a)"
    using b a D(1,3) by (auto simp: byIndex_install split: if_splits)
  show "byPubkey (install m a) (remotePK (heap (install m a) b)) = Some b"
  proof (cases "i = localIndex (heap m a)")
    case True
    then show ?thesis using b by (simp add: byIndex_install)
  next
    case False
    then have o: "byIndex m i = Some b" "\<not> (\<exists>c. byPubkey m (remotePK (heap m a)) = Some c \<and>
        localIndex (heap m c) = i)"
      using b by (auto simp: byIndex_install split: if_splits)
    then have "remotePK (heap m b) \<noteq> remotePK (heap m a)" using D(1,2) by metis
    then show ?thesis using D(2) [OF o(1)] by simp
  qed
next
  note D = table_invD [OF inv]
  fix pk b assume b: "byPubkey (install m a) pk = Some b"
  show "remotePK (heap (install m a) b) = pk"
    using b D(4) by (auto split: if_splits)
  show "byIndex (install m a) (localIndex (heap (install m a) b)) = Some b"
  proof (cases "pk = remotePK (heap m a)")
    case True
    then show ?thesis using b by (simp add: byIndex_install)
  next
    case False
    then have p: "byPubkey m pk = Some b" using b by simp
    then have "localIndex (heap m b) \<noteq> localIndex (heap m a)" using D(5) fresh by force
    moreover have "localIndex (heap m c) \<noteq> localIndex (heap m b)"
      if "byPubkey m (remotePK (heap m a)) = Some c" for c
      using that p False D(4,5) by (metis option.inject)
    ultimately show ?thesis using D(5) [OF p] by (auto simp: byIndex_install)
  qed
qed (use table_invD(6) [OF inv] in simp)

lemma table_inv_nextIndex: "table_inv m \<Longrightarrow> n \<noteq> 0 \<Longrightarrow> table_inv (m\<lparr>nextIndex := n\<rparr>)"
  by (simp add: table_inv_def)

lemma table_inv_alloc_heap:
  "table_inv m \<Longrightarrow> table_inv (m\<lparr>heap := (heap m)(nextAddr m := s), nextAddr := nextAddr m + 1\<rparr>)"
proof -
  assume inv: "table_inv m"
  note D = table_invD [OF inv]
  have n: "byIndex m i \<noteq> Some (nextAddr m)" "byPubkey m pk \<noteq> Some (nextAddr m)" for i pk
    using D(3,5) by (metis less_irrefl)+
  show ?thesis
    using D(1-5) n D(6) by (intro table_invI) (auto intro: less_SucI split: if_splits)
qed

lemma table_inv_use:
  "table_inv m \<Longrightarrow> localIndex s = localIndex (heap m a) \<Longrightarrow> remotePK s = remotePK (heap m a) \<Longrightarrow>
     table_inv (m\<lparr>heap := (heap m)(a := s)\<rparr>)"
  unfolding table_inv_def by auto

definition delete_one :: "session_manager \<Rightarrow> nat \<Rightarrow> session_manager" where
  "delete_one m a = m\<lparr>byIndex := (byIndex m)(localIndex (heap m a) := None),
                      byPubkey := (byPubkey m)(remotePK (heap m a) := None)\<rparr>"

lemma delete_one_simps [simp]:
  "heap (delete_one m a) = heap m"
  "byIndex (delete_one m a) i = (if i = localIndex (heap m a) then None else byIndex m i)"
  "byPubkey (delete_one m a) k = (if k = remotePK (heap m a) then None else byPubkey m k)"
  "nextAddr (delete_one m a) = nextAddr m" "nextIndex (delete_one m a) = nextIndex m"
  by (simp_all add: delete_one_def)

lemma registered_inj:
  assumes "table_inv m" "byIndex m (localIndex (heap m a)) = Some a"
    and "byIndex m (localIndex (heap m b)) = Some b"
  shows "localIndex (heap m a) = localIndex (heap m b) \<longleftrightarrow> a = b"
    and "remotePK (heap m a) = remotePK (heap m b) \<longleftrightarrow> a = b"
  using assms table_invD(2) [OF assms(1)] by (metis option.inject)+

lemma table_inv_delete_one:
  assumes inv: "table_inv m" and r: "byIndex m (localIndex (heap m a)) = Some a"
  shows "table_inv (delete_one m a)"
proof (rule table_invI)
  note D = table_invD [OF inv]
  fix i b assume "byIndex (delete_one m a) i = Some b"
  then have b: "byIndex m i = Some b" "i \<noteq> localIndex (heap m a)" by (auto split: if_splits)
  then show "localIndex (heap (delete_one m a) b) = i" "b < nextAddr (delete_one m a)"
    using D(1,3) by auto
  have "byIndex m (localIndex (heap m b)) = Some b" "a \<noteq> b" using b D(1) by auto
  then show "byPubkey (delete_one m a) (remotePK (heap (delete_one m a) b)) = Some b"
    using registered_inj(2) [OF inv r, of b] D(2) [OF b(1)] by auto
next
  note D = table_invD [OF inv]
  fix k b assume "byPubkey (delete_one m a) k = Some b"
  then have b: "byPubkey m k = Some b" "k \<noteq> remotePK (heap m a)" by (auto split: if_splits)
  then show "remotePK (heap (delete_one m a) b) = k" using D(4) by simp
  have "byIndex m (localIndex (heap m b)) = Some b" "a \<noteq> b" using b D(4,5) by auto
  then show "byIndex (delete_one m a) (localIndex (heap (delete_one m a) b)) = Some b"
    using registered_inj(1) [OF inv r, of b] by auto
qed (use table_invD(6) [OF inv] in simp)

lemma RemoveSession_inv: "table_inv m \<Longrightarrow> table_inv (RemoveSession m i)"
  using table_inv_delete_one [of m] table_invD(1) [of m i]
  by (auto simp: RemoveSession_def delete_one_def split: option.split)

lemma RemoveByPubkey_inv: "table_inv m \<Longrightarrow> table_inv (RemoveByPubkey m pk)"
  using table_inv_delete_one [of m] table_invD(4,5) [of m pk]
  by (auto simp: RemoveByPubkey_def delete_one_def split: option.split)

lemma delete_sessions_Cons: "delete_sessions m (a # as) = delete_sessions (delete_one m a) as"
  by (simp add: delete_one_def)

lemma delete_sessions_result:
  assumes "table_inv m" "distinct as" "\<forall>a \<in> set as. byIndex m (localIndex (heap m a)) = Some a"
  shows "table_inv (delete_sessions m as) \<and> heap (delete_sessions m as) = heap m \<and>
    byIndex (delete_sessions m as) i =
      (case byIndex m i of None \<Rightarrow> None | Some a \<Rightarrow> if a \<in> set as then None else Some a)"
  using assms
proof (induction as arbitrary: m)
  case Nil
  then show ?case by (auto split: option.split)
next
  case (Cons a as)
  note inv = Cons.prems(1)
  have r: "byIndex m (localIndex (heap m a)) = Some a" using Cons.prems(3) by simp
  have "\<forall>b \<in> set as. byIndex (delete_one m a) (localIndex (heap (delete_one m a) b)) = Some b"
  proof
    fix b assume b: "b \<in> set as"
    then have "a \<noteq> b" and rb: "byIndex m (localIndex (heap m b)) = Some b"
      using Cons.prems(2,3) by auto
    then have "localIndex (heap m b) \<noteq> localIndex (heap m a)"
      using registered_inj(1) [OF inv r rb] by metis
    with rb show "byIndex (delete_one m a) (localIndex (heap (delete_one m a) b)) = Some b" by simp
  qed
  moreover have "distinct as" using Cons.prems(2) by simp
  ultimately have IH0: "table_inv (delete_sessions (delete_one m a) as) \<and>
    heap (delete_sessions (delete_one m a) as) = heap (delete_one m a) \<and>
    byIndex (delete_sessions (delete_one m a) as) i =
      (case byIndex (delete_one m a) i of None \<Rightarrow> None | Some b \<Rightarrow> if b \<in> set as then None else Some b)"
    using Cons.IH [OF table_inv_delete_one [OF inv r]] by blast
  have IH: "table_inv (delete_sessions (delete_one m a) as)"
    "heap (delete_sessions (delete_one m a) as) = heap m"
    "byIndex (delete_sessions (delete_one m a) as) i =
      (case byIndex (delete_one m a) i of None \<Rightarrow> None | Some b \<Rightarrow> if b \<in> set as then None else Some b)"
    using IH0 by (simp_all only: delete_one_simps(1))
  have k: "i = localIndex (heap m a) \<longleftrightarrow> b = a" if "byIndex m i = Some b" for b
  proof
    assume "i = localIndex (heap m a)"
    then show "b = a" using r that by (metis option.inject)
  next
    assume "b = a"
    then show "i = localIndex (heap m a)" using table_invD(1) [OF inv that] by metis
  qed
  have "byIndex (delete_sessions (delete_one m a) as) i =
      (case byIndex m i of None \<Rightarrow> None | Some b \<Rightarrow> if b \<in> set (a # as) then None else Some b)"
  proof (cases "byIndex m i")
    case None
    then show ?thesis unfolding IH(3) by simp
  next
    case (Some b)
    with k [OF Some] show ?thesis unfolding IH(3) by (cases "b = a") simp_all
  qed
  with IH(1,2) show ?case unfolding delete_sessions_Cons by blast
qed

lemma expired_list:
  assumes "table_inv m" "distinct order"
  shows "distinct (List.map_filter (byIndex m) order)"
    and "a \<in> set (List.map_filter (byIndex m) order) \<Longrightarrow> byIndex m (localIndex (heap m a)) = Some a"
    and "a \<in> set (List.map_filter (byIndex m) order) \<longleftrightarrow> (\<exists>i \<in> set order. byIndex m i = Some a)"
proof -
  show e: "a \<in> set (List.map_filter (byIndex m) order) \<longleftrightarrow> (\<exists>i \<in> set order. byIndex m i = Some a)" for a
    by (induction order) (auto simp: List.map_filter_simps split: option.splits)
  show "a \<in> set (List.map_filter (byIndex m) order) \<Longrightarrow> byIndex m (localIndex (heap m a)) = Some a"
    using e table_invD(1) [OF assms(1)] by force
  show "distinct (List.map_filter (byIndex m) order)"
    using assms(2)
  proof (induction order)
    case (Cons i order)
    have "(\<exists>j \<in> set order. byIndex m j = Some b) \<Longrightarrow> byIndex m i = Some b \<Longrightarrow> False" for b
      using Cons.prems table_invD(1) [OF assms(1), of _ b] by (metis distinct.simps(2))
    moreover have "b \<in> set (List.map_filter (byIndex m) order) \<longleftrightarrow> (\<exists>j \<in> set order. byIndex m j = Some b)" for b
      by (induction order) (auto simp: List.map_filter_simps split: option.splits)
    ultimately show ?case
      using Cons by (auto simp: List.map_filter_simps split: option.splits)
  qed (simp add: List.map_filter_simps)
qed

lemma ExpireSessions_result:
  assumes "table_inv m" "distinct order" "set order = dom (byIndex m)"
  shows "table_inv (snd (ExpireSessions now order m))"
    and "byIndex (snd (ExpireSessions now order m)) i =
      (case byIndex m i of None \<Rightarrow> None
       | Some a \<Rightarrow> if IsExpired now (heap m a) then None else Some a)"
proof -
  let ?as = "filter (\<lambda>a. IsExpired now (heap m a)) (List.map_filter (byIndex m) order)"
  have "distinct ?as" "\<forall>a \<in> set ?as. byIndex m (localIndex (heap m a)) = Some a"
    using expired_list [OF assms(1,2)] by auto
  note R = delete_sessions_result [OF assms(1) this]
  show "table_inv (snd (ExpireSessions now order m))"
    using R by (simp add: ExpireSessions_def Let_def)
  have "a \<in> set ?as \<longleftrightarrow> IsExpired now (heap m a)" if "byIndex m i = Some a" for a
    using that assms(3) expired_list(3) [OF assms(1,2)] by auto
  then show "byIndex (snd (ExpireSessions now order m)) i =
      (case byIndex m i of None \<Rightarrow> None
       | Some a \<Rightarrow> if IsExpired now (heap m a) then None else Some a)"
    using R by (auto simp: ExpireSessions_def Let_def split: option.split)
qed

section \<open>Histories of the manager\<close>

text \<open>
  \<open>table_reach A m\<close>: \<open>m\<close> arises from an empty manager by any sequence of its operations, of
  operations on the session objects, and of creations of sessions outside the manager.
\<close>

inductive table_reach :: "aead \<Rightarrow> session_manager \<Rightarrow> bool" for A where
  start: "table_reach A (NewSessionManager h a)"
| create: "table_reach A m \<Longrightarrow> CreateSession A now m pk sk rk = Some (r, m') \<Longrightarrow> table_reach A m'"
| external: "table_reach A m \<Longrightarrow>
     table_reach A (m\<lparr>heap := (heap m)(nextAddr m := s), nextAddr := nextAddr m + 1\<rparr>)"
| register: "table_reach A m \<Longrightarrow> a < nextAddr m \<Longrightarrow> table_reach A (snd (RegisterSession m a))"
| use_session: "table_reach A m \<Longrightarrow>
     table_reach A (m\<lparr>heap := (heap m)(a := snd (session_step A (heap m a) op))\<rparr>)"
| remove: "table_reach A m \<Longrightarrow> table_reach A (RemoveSession m i)"
| remove_pk: "table_reach A m \<Longrightarrow> table_reach A (RemoveByPubkey m pk)"
| expire: "table_reach A m \<Longrightarrow> distinct order \<Longrightarrow> set order = dom (byIndex m) \<Longrightarrow>
     table_reach A (snd (ExpireSessions now order m))"
| clear: "table_reach A m \<Longrightarrow> table_reach A (Clear m)"

lemma session_step_identity:
  "localIndex (snd (session_step A s op)) = localIndex s"
  "remotePK (snd (session_step A s op)) = remotePK s"
  by (cases op; simp add: session_defs Let_def split: prod.split sum.split option.split)+

lemma CreateSession_result:
  assumes inv: "table_inv m"
  obtains r m' where "CreateSession A now m pk sk rk = Some (r, m')" "table_inv m'"
    "case r of
       Inr a \<Rightarrow> byPubkey m' pk = Some a \<and> remotePK (heap m' a) = pk \<and>
         localIndex (heap m' a) \<noteq> 0 \<and> byIndex m (localIndex (heap m' a)) = None \<and>
         byIndex m' (localIndex (heap m' a)) = Some a \<and>
         (\<forall>b. byPubkey m pk = Some b \<longrightarrow> byIndex m' (localIndex (heap m b)) = None)
     | Inl e \<Rightarrow> byIndex m' = byIndex m \<and> byPubkey m' = byPubkey m \<and>
         (e = NoFreeIndex \<longrightarrow> (\<forall>x. x \<noteq> 0 \<longrightarrow> byIndex m x \<noteq> None))"
proof -
  obtain i n where al: "allocateIndex m = Some (i, m\<lparr>nextIndex := n\<rparr>)" "n \<noteq> 0"
    and i0: "i = 0 \<longleftrightarrow> (\<forall>x. x \<noteq> 0 \<longrightarrow> byIndex m x \<noteq> None)" and i1: "i \<noteq> 0 \<Longrightarrow> byIndex m i = None"
    using allocateIndex_result [OF table_invD(6) [OF inv]] by metis
  let ?m1 = "m\<lparr>nextIndex := n\<rparr>"
  let ?cfg = "\<lparr>cfgLocalIndex = i, cfgRemoteIndex = 0, cfgSendKey = sk, cfgRecvKey = rk, cfgRemotePK = pk\<rparr>"
  have inv1: "table_inv ?m1" using table_inv_nextIndex [OF inv al(2)] .
  show ?thesis
  proof (cases "i = 0")
    case True
    then show ?thesis
      using al i0 inv1 by (intro that [of "Inl NoFreeIndex" ?m1]) (auto simp: CreateSession_def)
  next
    case False
    show ?thesis
    proof (cases "NewSession A now ?cfg")
      case (Inl e)
      then show ?thesis
        using al False inv1
        by (intro that [of "Inl (SessionError e)" ?m1]) (auto simp: CreateSession_def)
    next
      case (Inr s)
      let ?m2 = "?m1\<lparr>heap := (heap ?m1)(nextAddr ?m1 := s), nextAddr := nextAddr ?m1 + 1\<rparr>"
      let ?a = "nextAddr m"
      have s: "localIndex s = i" "remotePK s = pk"
        using Inr by (auto simp: NewSession_def split: if_splits)
      have inv2: "table_inv ?m2" using table_inv_alloc_heap [OF inv1, of s] .
      have "table_inv (install ?m2 ?a)"
        by (rule table_inv_install [OF inv2]) (use i1 [OF False] s in simp_all)
      moreover have "byIndex (install ?m2 ?a) (localIndex (heap m b)) = None"
        if b: "byPubkey m pk = Some b" for b
      proof -
        have "b < ?a" "byIndex m (localIndex (heap m b)) = Some b"
          using table_invD(3,5) [OF inv] b by blast+
        then have "b \<noteq> ?a" "localIndex (heap m b) \<noteq> i" using i1 [OF False] by auto
        then show ?thesis using b s by (simp add: byIndex_install)
      qed
      ultimately show ?thesis
        using al False Inr s i1 [OF False]
        by (intro that [of "Inr ?a" "install ?m2 ?a"])
          (simp_all add: CreateSession_def byIndex_install Let_def)
    qed
  qed
qed

lemma table_reach_inv: "table_reach A m \<Longrightarrow> table_inv m"
proof (induction rule: table_reach.induct)
  case (create m now pk sk rk r m')
  then show ?case using CreateSession_result [OF create.IH, of A now pk sk rk] by (metis option.inject prod.inject)
next
  case (external m s)
  show ?case by (rule table_inv_alloc_heap [OF external.IH])
next
  case (register m a)
  then show ?case by (simp add: RegisterSession_def table_inv_install)
next
  case (use_session m a op)
  then show ?case by (simp add: table_inv_use session_step_identity)
next
  case (expire m order now)
  then show ?case by (simp add: ExpireSessions_result)
next
  case (clear m)
  then show ?case by (simp add: table_inv_def Clear_def)
qed (simp_all add: table_inv_new RemoveSession_inv RemoveByPubkey_inv)

section \<open>Properties\<close>

text \<open>
  C24: In every history of the manager the two lookups agree: a session found by index carries
  that index and is the one found for its peer, a session found for a peer belongs to that peer and
  is found under its own index, and no two indices lead to sessions of the same peer.
\<close>

theorem session_table_consistent:
  assumes "table_reach A m"
  shows "(GetByIndex m i = Some a \<longrightarrow>
      localIndex (heap m a) = i \<and> GetByPubkey m (remotePK (heap m a)) = Some a) \<and>
    (GetByPubkey m pk = Some b \<longrightarrow>
      remotePK (heap m b) = pk \<and> GetByIndex m (localIndex (heap m b)) = Some b) \<and>
    (GetByIndex m i = Some a \<and> GetByIndex m j = Some c \<and>
      remotePK (heap m a) = remotePK (heap m c) \<longrightarrow> i = j)"
proof (intro conjI impI)
  note inv = table_invD [OF table_reach_inv [OF assms], folded GetByIndex_def GetByPubkey_def]
  show "localIndex (heap m a) = i" if "GetByIndex m i = Some a" using inv(1) that .
  show "GetByPubkey m (remotePK (heap m a)) = Some a" if "GetByIndex m i = Some a"
    using inv(2) that .
  show "remotePK (heap m b) = pk" if "GetByPubkey m pk = Some b" using inv(4) that .
  show "GetByIndex m (localIndex (heap m b)) = Some b" if "GetByPubkey m pk = Some b"
    using inv(5) that .
  show "i = j" if h: "GetByIndex m i = Some a \<and> GetByIndex m j = Some c \<and>
      remotePK (heap m a) = remotePK (heap m c)"
  proof -
    have "GetByPubkey m (remotePK (heap m a)) = Some a"
      "GetByPubkey m (remotePK (heap m a)) = Some c" using inv(2) h by metis+
    then have "a = c" by simp
    moreover have "localIndex (heap m a) = i" "localIndex (heap m c) = j" using inv(1) h by blast+
    ultimately show "i = j" by simp
  qed
qed

text \<open>
  C25: \<open>CreateSession\<close> always returns, whatever the state of the index counter and even when it
  wraps: it installs a session for the peer under a fresh non-zero index, making the peer's previous
  session unreachable by index, or changes neither map, and it reports \<open>ErrNoFreeIndex\<close> only when
  every non-zero index is taken.
\<close>

theorem create_session_total:
  assumes "table_reach A m"
  shows "\<exists>r m'. CreateSession A now m pk sk rk = Some (r, m') \<and>
    (case r of
       Inr a \<Rightarrow> GetByPubkey m' pk = Some a \<and> remotePK (heap m' a) = pk \<and>
         localIndex (heap m' a) \<noteq> 0 \<and> GetByIndex m (localIndex (heap m' a)) = None \<and>
         GetByIndex m' (localIndex (heap m' a)) = Some a \<and>
         (\<forall>b. GetByPubkey m pk = Some b \<longrightarrow> GetByIndex m' (localIndex (heap m b)) = None)
     | Inl e \<Rightarrow> byIndex m' = byIndex m \<and> byPubkey m' = byPubkey m \<and>
         (e = NoFreeIndex \<longrightarrow> (\<forall>x. x \<noteq> 0 \<longrightarrow> GetByIndex m x \<noteq> None)))"
  unfolding GetByIndex_def GetByPubkey_def
  by (rule CreateSession_result [OF table_reach_inv [OF assms], of A now pk sk rk]) blast

text \<open>
  \<open>ExpireSessions\<close> removes exactly the expired sessions, whatever order the map is visited in:
  a session remains reachable by index if and only if it was and is not expired.
\<close>

theorem expire_sessions_exact:
  assumes "table_reach A m" and "distinct order" and "set order = dom (byIndex m)"
  shows "GetByIndex (snd (ExpireSessions now order m)) i = Some a \<longleftrightarrow>
    GetByIndex m i = Some a \<and> \<not> IsExpired now (heap m a)"
  using ExpireSessions_result(2) [OF table_reach_inv [OF assms(1)] assms(2,3)]
  by (auto simp: GetByIndex_def split: option.splits if_splits)

definition demo_manager :: session_manager where
  "demo_manager = NewSessionManager (\<lambda>_. demo_session) 0"

lemma demo_manager_reach: "table_reach A demo_manager"
  unfolding demo_manager_def by (rule table_reach.start)

definition demo_manager1 :: session_manager where
  "demo_manager1 = snd (the (CreateSession tag_aead 5 demo_manager (replicate 32 4)
     (replicate 32 1) (replicate 32 2)))"

lemma demo_manager1_create:
  "CreateSession tag_aead 5 demo_manager (replicate 32 4) (replicate 32 1) (replicate 32 2)
     = Some (Inr 0, demo_manager1)"
  by (simp add: demo_manager1_def CreateSession_def allocateIndex_def allocate_loop.simps
      demo_manager_def NewSessionManager_def NewSession_def tag_aead_def KeySize_def Let_def)

lemma demo_manager1_reach: "table_reach tag_aead demo_manager1"
  by (rule table_reach.create [OF demo_manager_reach demo_manager1_create])

lemma demo_manager1_byIndex: "byIndex demo_manager1 = [1 \<mapsto> 0]"
  by (auto simp: demo_manager1_def CreateSession_def allocateIndex_def allocate_loop.simps
      demo_manager_def NewSessionManager_def NewSession_def tag_aead_def KeySize_def Let_def
      install_def dropExisting_def)

theorem session_table_consistent_witness:
  "localIndex (heap demo_manager1 0) = 1 \<and>
   GetByPubkey demo_manager1 (remotePK (heap demo_manager1 0)) = Some 0"
  using session_table_consistent [OF demo_manager1_reach, of 1 0]
  by (simp add: GetByIndex_def demo_manager1_byIndex)

theorem create_session_total_witness:
  "\<exists>r m'. CreateSession tag_aead 6 demo_manager1 (replicate 32 4) [] [] = Some (r, m')"
  using create_session_total [OF demo_manager1_reach] by blast

theorem expire_sessions_exact_witness:
  "GetByIndex (snd (ExpireSessions (10 ^ 12) [1] demo_manager1)) 1 = Some 0 \<longleftrightarrow>
   GetByIndex demo_manager1 1 = Some 0 \<and> \<not> IsExpired (10 ^ 12) (heap demo_manager1 0)"
  by (rule expire_sessions_exact [OF demo_manager1_reach]) (auto simp: demo_manager1_byIndex)

end
