(* ===== verification/Buffers.thy ===== *)
theory Buffers
  imports Prelude "HOL-Library.Sublist"
begin

text \<open>
  \<open>pkg/buffer\<close>: the growable buffer (\<open>buffer.go\<close>), the ring buffer that overwrites its oldest
  elements (\<open>ring_buffer.go\<close>) and the bounded blocking buffer (\<open>block_buffer.go\<close>).  Every method
  holds the mutex except while it waits, so a method is one step; a call that has to wait ends
  its step with \<open>WouldBlock\<close>, and being woken is calling it again, since the checks after the
  wait are those at its start.  The counters \<open>head\<close> and \<open>tail\<close> are \<open>int64\<close> in the code and count
  every element that ever passed through; they are integers here, which is exact below \<open>2^63\<close>
  elements.  The locale \<open>fifo_buffer\<close> is the contract of the interface \<open>BytesBuffer\<close>
  (\<open>bytes.go\<close>), which all three types implement.
\<close>

section \<open>Results\<close>

datatype close_error = ErrClosedPipe | OtherError string

datatype buffer_error =
  EOF | IteratorDone | ReadClosed close_error | WriteClosed close_error | SkipClosed close_error

text \<open>
  \<open>Failed n e\<close> is a return of \<open>n\<close> with the error \<open>e\<close>; \<open>WouldBlock n\<close> a call that waits after it
  has dealt with \<open>n\<close> elements; \<open>Panic\<close> a run-time panic.
\<close>

datatype 'r outcome = Ok 'r | Failed nat buffer_error | WouldBlock nat | Panic

section \<open>The growable buffer\<close>

record 'a growable =
  gnotify :: bool
  gcloseWrite :: bool
  gcloseErr :: "close_error option"
  gbuf :: "'a list"

definition N :: "'a growable" where
  "N = \<lparr>gnotify = False, gcloseWrite = False, gcloseErr = None, gbuf = []\<rparr>"

definition gb_Write :: "'a growable \<Rightarrow> 'a list \<Rightarrow> nat outcome \<times> 'a growable" where
  "gb_Write b p =
     (case gcloseErr b of
        Some e \<Rightarrow> (Failed 0 (WriteClosed e), b)
      | None \<Rightarrow>
          if gcloseWrite b then (Failed 0 (WriteClosed ErrClosedPipe), b)
          else (Ok (length p), b\<lparr>gnotify := True, gbuf := gbuf b @ p\<rparr>))"

text \<open>A negative count panics in the slice expression.\<close>

definition gb_Discard :: "'a growable \<Rightarrow> int \<Rightarrow> unit outcome \<times> 'a growable" where
  "gb_Discard b n =
     (case gcloseErr b of
        Some e \<Rightarrow> (Failed 0 (SkipClosed e), b)
      | None \<Rightarrow>
          if int (length (gbuf b)) < n then (Ok (), b\<lparr>gbuf := []\<rparr>)
          else if n < 0 then (Panic, b)
          else (Ok (), b\<lparr>gbuf := drop (nat n) (gbuf b)\<rparr>))"

text \<open>\<open>Read\<close> into a slice of \<open>k\<close> elements returns the elements copied.\<close>

definition gb_Read :: "'a growable \<Rightarrow> nat \<Rightarrow> 'a list outcome \<times> 'a growable" where
  "gb_Read b k =
     (case gcloseErr b of
        Some e \<Rightarrow> (Failed 0 (ReadClosed e), b)
      | None \<Rightarrow>
          if gbuf b = [] then
            (if gcloseWrite b then (Failed 0 EOF, b) else (WouldBlock 0, b\<lparr>gnotify := False\<rparr>))
          else (Ok (take k (gbuf b)), b\<lparr>gbuf := drop k (gbuf b)\<rparr>))"

definition gb_CloseWithError :: "'a growable \<Rightarrow> close_error option \<Rightarrow> 'a growable" where
  "gb_CloseWithError b err =
     (if gcloseErr b \<noteq> None then b
      else b\<lparr>gcloseErr := Some (case err of None \<Rightarrow> ErrClosedPipe | Some e \<Rightarrow> e),
             gbuf := [], gcloseWrite := True\<rparr>)"

definition gb_CloseWrite :: "'a growable \<Rightarrow> 'a growable" where
  "gb_CloseWrite b = (if gcloseWrite b then b else b\<lparr>gcloseWrite := True\<rparr>)"

definition gb_Next :: "'a growable \<Rightarrow> 'a outcome \<times> 'a growable" where
  "gb_Next b =
     (case gcloseErr b of
        Some e \<Rightarrow> (Failed 0 (ReadClosed e), b)
      | None \<Rightarrow>
          case gbuf b of
            [] \<Rightarrow> (if gcloseWrite b then (Failed 0 IteratorDone, b)
                   else (WouldBlock 0, b\<lparr>gnotify := False\<rparr>))
          | t # ts \<Rightarrow> (Ok t, b\<lparr>gbuf := ts\<rparr>))"

definition gb_Add :: "'a growable \<Rightarrow> 'a \<Rightarrow> unit outcome \<times> 'a growable" where
  "gb_Add b t =
     (case gcloseErr b of
        Some e \<Rightarrow> (Failed 0 (WriteClosed e), b)
      | None \<Rightarrow>
          if gcloseWrite b then (Failed 0 (WriteClosed ErrClosedPipe), b)
          else (Ok (), b\<lparr>gbuf := gbuf b @ [t], gnotify := True\<rparr>))"

definition gb_Reset :: "'a growable \<Rightarrow> 'a growable" where
  "gb_Reset b = b\<lparr>gbuf := []\<rparr>"

section \<open>Circular storage\<close>

text \<open>
  The fields that \<open>RingBuffer\<close> and \<open>BlockBuffer\<close> share; a ring buffer adds the one-place
  channel \<open>writeNotify\<close>, whose token is the boolean \<open>cnotify\<close>.
\<close>

record 'a circ =
  cbuf :: "'a list"
  chead :: int
  ctail :: int
  ccloseWrite :: bool
  ccloseErr :: "close_error option"

record 'a ring = "'a circ" +
  cnotify :: bool

definition cells :: "('a, 'z) circ_scheme \<Rightarrow> int" where
  "cells b = int (length (cbuf b))"

definition slot :: "('a, 'z) circ_scheme \<Rightarrow> int \<Rightarrow> nat" where
  "slot b c = nat (c mod cells b)"

text \<open>\<open>copy(buf[a:b], src)\<close>.\<close>

definition copy_range :: "'a list \<Rightarrow> nat \<Rightarrow> nat \<Rightarrow> 'a list \<Rightarrow> 'a list" where
  "copy_range buf a b src = copy_at buf a (take (b - a) src)"

text \<open>The part of \<open>Read\<close> that copies out of the storage, for a slice of \<open>k\<close> elements.\<close>

definition circ_read :: "('a, 'z) circ_scheme \<Rightarrow> nat \<Rightarrow> 'a list" where
  "circ_read b k =
     (let avail = nat (ctail b - chead b); head = slot b (chead b) in
        if head + avail \<le> length (cbuf b) then take k (take avail (drop head (cbuf b)))
        else let xs = take k (drop head (cbuf b))
          in xs @ take (k - length xs) (take (avail - length xs) (cbuf b)))"

text \<open>
  The part of \<open>Write\<close> that copies into the free cells: the new storage and the number copied.
\<close>

definition circ_fill :: "('a, 'z) circ_scheme \<Rightarrow> 'a list \<Rightarrow> 'a list \<times> nat" where
  "circ_fill b p =
     (let avail = nat (cells b - (ctail b - chead b)); tail = slot b (ctail b) in
        if tail + avail \<le> length (cbuf b)
        then (copy_range (cbuf b) tail (tail + avail) p, min avail (length p))
        else let wn = min (length (cbuf b) - tail) (length p);
                 buf1 = copy_range (cbuf b) tail (length (cbuf b)) p
          in (copy_range buf1 0 (avail - wn) (drop wn p),
              wn + min (avail - wn) (length p - wn)))"

definition circ_Bytes :: "('a, 'z) circ_scheme \<Rightarrow> 'a list outcome" where
  "circ_Bytes b =
     (if cbuf b = [] then Panic
      else let h = slot b (chead b); t = slot b (ctail b) in
        Ok (if h < t then take (t - h) (drop h (cbuf b))
            else drop h (cbuf b) @ take t (cbuf b)))"

text \<open>The count is taken as non-negative: nothing else moves \<open>head\<close> back.\<close>

definition circ_Discard :: "('a, 'z) circ_scheme \<Rightarrow> nat \<Rightarrow> unit outcome \<times> ('a, 'z) circ_scheme" where
  "circ_Discard b n =
     (case ccloseErr b of
        Some e \<Rightarrow> (Failed 0 (SkipClosed e), b)
      | None \<Rightarrow>
          if ctail b - chead b < int n then (Ok (), b\<lparr>chead := ctail b\<rparr>)
          else (Ok (), b\<lparr>chead := chead b + int n\<rparr>))"

definition circ_CloseWithError ::
  "('a, 'z) circ_scheme \<Rightarrow> close_error option \<Rightarrow> ('a, 'z) circ_scheme" where
  "circ_CloseWithError b err =
     (if ccloseErr b \<noteq> None then b
      else b\<lparr>ccloseErr := Some (case err of None \<Rightarrow> ErrClosedPipe | Some e \<Rightarrow> e),
             ccloseWrite := True\<rparr>)"

definition circ_CloseWrite :: "('a, 'z) circ_scheme \<Rightarrow> ('a, 'z) circ_scheme" where
  "circ_CloseWrite b = (if ccloseWrite b then b else b\<lparr>ccloseWrite := True\<rparr>)"

definition circ_Reset :: "('a, 'z) circ_scheme \<Rightarrow> ('a, 'z) circ_scheme" where
  "circ_Reset b = b\<lparr>chead := 0, ctail := 0\<rparr>"

definition circ_Len :: "('a, 'z) circ_scheme \<Rightarrow> int" where
  "circ_Len b = ctail b - chead b"

section \<open>The ring buffer\<close>

definition RingN :: "'a list \<Rightarrow> 'a ring" where
  "RingN store = \<lparr>cbuf = store, chead = 0, ctail = 0, ccloseWrite = False, ccloseErr = None,
     cnotify = False\<rparr>"

definition rb_Read :: "'a ring \<Rightarrow> nat \<Rightarrow> 'a list outcome \<times> 'a ring" where
  "rb_Read b k =
     (case ccloseErr b of
        Some e \<Rightarrow> (Failed 0 (ReadClosed e), b)
      | None \<Rightarrow>
          if chead b = ctail b then
            (if ccloseWrite b then (Failed 0 EOF, b) else (WouldBlock 0, b\<lparr>cnotify := False\<rparr>))
          else if cbuf b = [] then (Panic, b)
          else let xs = circ_read b k in (Ok xs, b\<lparr>chead := chead b + int (length xs)\<rparr>))"

text \<open>
  The second half of \<open>Write\<close>, for the elements that found no free cell: the last full turn of
  them replaces the oldest contents, \<open>cbuf\<close> at the end and \<open>bbuf\<close> before it.
\<close>

definition rb_overwrite :: "'a ring \<Rightarrow> 'a list \<Rightarrow> nat \<Rightarrow> 'a ring" where
  "rb_overwrite b p leftn =
     (let n = length (cbuf b);
          cn = (if leftn \<le> n then leftn else leftn mod n);
          cs = drop (length p - cn) p;
          bs = (if leftn \<le> n then [] else take (n - cn) (drop (length p - n) p));
          head = slot b (chead b);
          cp1 = min (n - head) (length cs);
          buf1 = copy_at (cbuf b) head cs;
          buf2 = (if cp1 < length cs
                  then let cp2 = min n (length cs - cp1)
                    in copy_at (copy_at buf1 0 (drop cp1 cs)) cp2 bs
                  else let bp1 = min (n - (head + cp1)) (length bs)
                    in copy_at (copy_at buf1 (head + cp1) bs) 0 (drop bp1 bs))
      in b\<lparr>cbuf := buf2, chead := chead b + int (length cs), ctail := ctail b + int (length cs)\<rparr>)"

definition rb_Write :: "'a ring \<Rightarrow> 'a list \<Rightarrow> nat outcome \<times> 'a ring" where
  "rb_Write b p =
     (case ccloseErr b of
        Some e \<Rightarrow> (Failed 0 (WriteClosed e), b)
      | None \<Rightarrow>
          if ccloseWrite b then (Failed 0 (WriteClosed ErrClosedPipe), b)
          else if cbuf b = [] then (Panic, b)
          else let (buf1, wn) = (if ctail b - chead b < cells b then circ_fill b p else (cbuf b, 0));
                   b1 = b\<lparr>cbuf := buf1, ctail := ctail b + int wn\<rparr>;
                   leftn = length p - wn
            in if leftn = 0 then (Ok wn, b1)
               else (Ok (length p), rb_overwrite b1 p leftn))"

definition rb_Next :: "'a ring \<Rightarrow> 'a outcome \<times> 'a ring" where
  "rb_Next b =
     (case ccloseErr b of
        Some e \<Rightarrow> (Failed 0 (ReadClosed e), b)
      | None \<Rightarrow>
          if chead b = ctail b then
            (if ccloseWrite b then (Failed 0 IteratorDone, b)
             else (WouldBlock 0, b\<lparr>cnotify := False\<rparr>))
          else if cbuf b = [] then (Panic, b)
          else (Ok (cbuf b ! slot b (chead b)), b\<lparr>chead := chead b + 1\<rparr>))"

definition rb_Add :: "'a ring \<Rightarrow> 'a \<Rightarrow> unit outcome \<times> 'a ring" where
  "rb_Add b t =
     (case ccloseErr b of
        Some e \<Rightarrow> (Failed 0 (WriteClosed e), b)
      | None \<Rightarrow>
          if ccloseWrite b then (Failed 0 (WriteClosed ErrClosedPipe), b)
          else if cbuf b = [] then (Panic, b)
          else let b1 = b\<lparr>cbuf := (cbuf b)[slot b (ctail b) := t], ctail := ctail b + 1\<rparr>;
                   b2 = (if cells b < ctail b1 - chead b1 then b1\<lparr>chead := chead b1 + 1\<rparr> else b1)
            in (Ok (), b2\<lparr>cnotify := True\<rparr>))"

section \<open>The blocking buffer\<close>

definition Block :: "'a list \<Rightarrow> 'a circ" where
  "Block store = \<lparr>cbuf = store, chead = 0, ctail = 0, ccloseWrite = False, ccloseErr = None\<rparr>"

definition bb_Read :: "'a circ \<Rightarrow> nat \<Rightarrow> 'a list outcome \<times> 'a circ" where
  "bb_Read b k =
     (case ccloseErr b of
        Some e \<Rightarrow> (Failed 0 (ReadClosed e), b)
      | None \<Rightarrow>
          if chead b = ctail b then
            (if ccloseWrite b then (Failed 0 EOF, b) else (WouldBlock 0, b))
          else if cbuf b = [] then (Panic, b)
          else let xs = circ_read b k in (Ok xs, b\<lparr>chead := chead b + int (length xs)\<rparr>))"

text \<open>
  The loop of \<open>Write\<close>, with the number \<open>wn\<close> of elements already written.  Each turn fills the
  free cells; the argument \<open>fuel\<close> counts turns, and \<open>length p + 1\<close> of them are enough whenever
  the counters are in order, since every turn that does not wait writes something.
\<close>

fun bb_WriteLoop :: "nat \<Rightarrow> 'a circ \<Rightarrow> 'a list \<Rightarrow> nat \<Rightarrow> (nat outcome \<times> 'a circ) option" where
  "bb_WriteLoop 0 b p wn = None"
| "bb_WriteLoop (Suc fuel) b p wn =
     (if p = [] then Some (Ok wn, b)
      else if ctail b - chead b = cells b then Some (WouldBlock wn, b)
      else if cbuf b = [] then Some (Panic, b)
      else let (buf1, n) = circ_fill b p
        in bb_WriteLoop fuel (b\<lparr>cbuf := buf1, ctail := ctail b + int n\<rparr>) (drop n p) (wn + n))"

definition bb_WriteFrom :: "'a circ \<Rightarrow> 'a list \<Rightarrow> nat \<Rightarrow> (nat outcome \<times> 'a circ) option" where
  "bb_WriteFrom b p wn =
     (case ccloseErr b of
        Some e \<Rightarrow> Some (Failed wn (WriteClosed e), b)
      | None \<Rightarrow>
          if ccloseWrite b then Some (Failed wn (WriteClosed ErrClosedPipe), b)
          else bb_WriteLoop (length p + 1) b p wn)"

definition bb_Write :: "'a circ \<Rightarrow> 'a list \<Rightarrow> (nat outcome \<times> 'a circ) option" where
  "bb_Write b p = bb_WriteFrom b p 0"

definition bb_Next :: "'a circ \<Rightarrow> 'a outcome \<times> 'a circ" where
  "bb_Next b =
     (case ccloseErr b of
        Some e \<Rightarrow> (Failed 0 (ReadClosed e), b)
      | None \<Rightarrow>
          if chead b = ctail b then
            (if ccloseWrite b then (Failed 0 IteratorDone, b) else (WouldBlock 0, b))
          else if cbuf b = [] then (Panic, b)
          else (Ok (cbuf b ! slot b (chead b)), b\<lparr>chead := chead b + 1\<rparr>))"

definition bb_Add :: "'a circ \<Rightarrow> 'a \<Rightarrow> unit outcome \<times> 'a circ" where
  "bb_Add b t =
     (case ccloseErr b of
        Some e \<Rightarrow> (Failed 0 (WriteClosed e), b)
      | None \<Rightarrow>
          if ccloseWrite b then (Failed 0 (WriteClosed ErrClosedPipe), b)
          else if ctail b - chead b = cells b then (WouldBlock 0, b)
          else if cbuf b = [] then (Panic, b)
          else (Ok (), b\<lparr>cbuf := (cbuf b)[slot b (ctail b) := t], ctail := ctail b + 1\<rparr>))"

section \<open>The contents of circular storage\<close>

definition contents :: "('a, 'z) circ_scheme \<Rightarrow> 'a list" where
  "contents b = map (\<lambda>i. cbuf b ! slot b (chead b + int i)) [0..<nat (ctail b - chead b)]"

definition circ_ok :: "('a, 'z) circ_scheme \<Rightarrow> bool" where
  "circ_ok b \<longleftrightarrow> cbuf b \<noteq> [] \<and> 0 \<le> chead b \<and> chead b \<le> ctail b \<and> ctail b - chead b \<le> cells b"

definition circ_put :: "'a list \<Rightarrow> int \<Rightarrow> 'a list \<Rightarrow> 'a list" where
  "circ_put buf s xs = map (\<lambda>j. let k = nat ((int j - s) mod int (length buf)) in
     if k < length xs then xs ! k else buf ! j) [0..<length buf]"

lemma length_circ_put [simp]: "length (circ_put buf s xs) = length buf"
  by (simp add: circ_put_def)

lemma circ_put_Nil [simp]: "circ_put buf s [] = buf"
  by (simp add: circ_put_def map_nth)

lemma nth_circ_put_slot:
  assumes "buf \<noteq> []"
  shows "circ_put buf s xs ! nat (c mod int (length buf)) =
    (if nat ((c - s) mod int (length buf)) < length xs
     then xs ! nat ((c - s) mod int (length buf)) else buf ! nat (c mod int (length buf)))"
proof -
  have n: "0 < int (length buf)" using assms by simp
  have "0 \<le> c mod int (length buf)" "c mod int (length buf) < int (length buf)"
    using n by simp_all
  moreover have "(c mod int (length buf) - s) mod int (length buf) = (c - s) mod int (length buf)"
    by (simp add: mod_diff_left_eq)
  ultimately show ?thesis by (simp add: circ_put_def Let_def)
qed

lemma copy_two_chunks:
  assumes "t \<le> length buf" "s mod int (length buf) = int t mod int (length buf)"
    and "length xs \<le> length buf"
  shows "copy_at (copy_at buf t xs) 0 (drop (length buf - t) xs) = circ_put buf s xs"
proof (rule nth_equalityI)
  show "length (copy_at (copy_at buf t xs) 0 (drop (length buf - t) xs)) = length (circ_put buf s xs)"
    using assms(1) by simp
next
  fix j assume "j < length (copy_at (copy_at buf t xs) 0 (drop (length buf - t) xs))"
  then have j: "j < length buf" using assms(1) by simp
  have "(int j - s) mod int (length buf) = (int j - int t) mod int (length buf)"
    using assms(2) by (metis mod_diff_right_eq)
  also have "\<dots> = (if t \<le> j then int j - int t else int j - int t + int (length buf))"
  proof (cases "t \<le> j")
    case True
    then show ?thesis using j by simp
  next
    case False
    have "(int j - int t) mod int (length buf) = (int j - int t + int (length buf)) mod int (length buf)"
      by simp
    with False show ?thesis using j assms(1) by (simp del: mod_add_self2)
  qed
  finally have "nat ((int j - s) mod int (length buf)) = (if t \<le> j then j - t else length buf + j - t)"
    using assms(1) by auto
  then show "copy_at (copy_at buf t xs) 0 (drop (length buf - t) xs) ! j = circ_put buf s xs ! j"
    using j assms(1,3) by (auto simp: circ_put_def nth_copy_at Let_def)
qed

lemma slot_less: "cbuf b \<noteq> [] \<Longrightarrow> slot b c < length (cbuf b)"
  by (simp add: slot_def cells_def nat_less_iff)

lemma int_slot: "cbuf b \<noteq> [] \<Longrightarrow> int (slot b c) = c mod cells b"
  by (simp add: slot_def cells_def)

lemma contents_put:
  assumes ok: "circ_ok b" and "int (length xs) \<le> cells b - (ctail b - chead b)"
  shows "contents (b\<lparr>cbuf := circ_put (cbuf b) (ctail b) xs, ctail := ctail b + int (length xs)\<rparr>)
    = contents b @ xs"
proof (rule nth_equalityI)
  let ?b = "b\<lparr>cbuf := circ_put (cbuf b) (ctail b) xs, ctail := ctail b + int (length xs)\<rparr>"
  have ne: "cbuf b \<noteq> []" and le: "chead b \<le> ctail b" using ok by (simp_all add: circ_ok_def)
  show "length (contents ?b) = length (contents b @ xs)"
    using le by (simp add: contents_def)
  fix i assume "i < length (contents ?b)"
  then have i: "int i < ctail b - chead b + int (length xs)" by (simp add: contents_def)
  let ?n = "int (length (cbuf b))"
  have r: "contents ?b ! i = circ_put (cbuf b) (ctail b) xs ! nat ((chead b + int i) mod ?n)"
  proof -
    have "i < nat (ctail b + int (length xs) - chead b)" using i by linarith
    then show ?thesis by (simp add: contents_def slot_def cells_def)
  qed
  show "contents ?b ! i = (contents b @ xs) ! i"
  proof (cases "int i < ctail b - chead b")
    case True
    have "(chead b + int i - ctail b) mod ?n = (chead b + int i - ctail b + ?n) mod ?n" by simp
    also have "\<dots> = chead b + int i - ctail b + ?n"
      using True assms(2) by (intro mod_pos_pos_trivial) (auto simp: cells_def)
    finally have "\<not> nat ((chead b + int i - ctail b) mod ?n) < length xs"
      using assms(2) by (simp add: cells_def)
    moreover have "i < nat (ctail b - chead b)" using True by linarith
    ultimately show ?thesis
      unfolding r nth_circ_put_slot [OF ne]
      by (simp add: nth_append contents_def slot_def cells_def)
  next
    case False
    have "(chead b + int i - ctail b) mod ?n = chead b + int i - ctail b"
      using False i assms(2) le by (intro mod_pos_pos_trivial) (auto simp: cells_def)
    moreover have "nat (chead b + int i - ctail b) = i - nat (ctail b - chead b)"
      using False le by linarith
    moreover have "\<not> i < nat (ctail b - chead b)" "i - nat (ctail b - chead b) < length xs"
      using False i le by linarith+
    ultimately show ?thesis
      unfolding r nth_circ_put_slot [OF ne] by (simp add: nth_append contents_def)
  qed
qed

lemma slot_plus:
  assumes ne: "cbuf b \<noteq> []" and i: "i \<le> length (cbuf b)"
  shows "slot b (c + int i) = (if slot b c + i < length (cbuf b) then slot b c + i
    else slot b c + i - length (cbuf b))"
proof -
  let ?n = "length (cbuf b)" and ?h = "slot b c"
  have h: "?h < ?n" using slot_less [OF ne] .
  have "int (slot b (c + int i)) = (int ?h + int i) mod int ?n"
    by (simp add: int_slot [OF ne] cells_def mod_add_left_eq)
  also have "\<dots> = int ((?h + i) mod ?n)" by (simp add: zmod_int)
  also have "(?h + i) mod ?n = (if ?h + i < ?n then ?h + i else ?h + i - ?n)"
  proof (cases "?h + i < ?n")
    case False
    then have "(?h + i) mod ?n = (?h + i - ?n) mod ?n" by (simp add: le_mod_geq)
    also have "\<dots> = ?h + i - ?n" using h i by (intro mod_less) linarith
    finally show ?thesis using False by simp
  qed simp
  finally show ?thesis by (simp only: of_nat_eq_iff)
qed

lemma contents_take:
  assumes ok: "circ_ok b"
  shows "contents b = take (nat (ctail b - chead b)) (drop (slot b (chead b)) (cbuf b) @ cbuf b)"
proof (rule nth_equalityI)
  let ?a = "nat (ctail b - chead b)"
  have ne: "cbuf b \<noteq> []" and a: "?a \<le> length (cbuf b)"
    using ok by (auto simp: circ_ok_def cells_def)
  have h: "slot b (chead b) < length (cbuf b)" using slot_less [OF ne] .
  show "length (contents b) = length (take ?a (drop (slot b (chead b)) (cbuf b) @ cbuf b))"
    using a h by (simp add: contents_def)
  fix i assume "i < length (contents b)"
  then have i: "i < ?a" by (simp add: contents_def)
  then show "contents b ! i = take ?a (drop (slot b (chead b)) (cbuf b) @ cbuf b) ! i"
    using slot_plus [OF ne, of i "chead b"] a h by (auto simp: contents_def nth_append add.commute)
qed

lemma circ_read_contents:
  assumes ok: "circ_ok b"
  shows "circ_read b k = take k (contents b)"
proof -
  let ?n = "length (cbuf b)" and ?h = "slot b (chead b)" and ?a = "nat (ctail b - chead b)"
  have ne: "cbuf b \<noteq> []" using ok by (simp add: circ_ok_def)
  have h: "?h < ?n" using slot_less [OF ne] .
  note c = contents_take [OF ok]
  show ?thesis
  proof (cases "?h + ?a \<le> ?n")
    case True
    then have "?a - (?n - ?h) = 0" by simp
    with True show ?thesis unfolding c circ_read_def Let_def by simp
  next
    case False
    then have f: "?n - ?h < ?a" using h by linarith
    show ?thesis
    proof (cases "k \<le> ?n - ?h")
      case True
      then have "min k ?a = k" "k - (?n - ?h) = 0" using f by simp_all
      with True False show ?thesis unfolding c circ_read_def Let_def by simp
    next
      case k: False
      then have "take k (drop ?h (cbuf b)) = drop ?h (cbuf b)" by simp
      moreover have "min k ?a - (?n - ?h) = min (k - (?n - ?h)) (?a - (?n - ?h))"
        by arith
      ultimately show ?thesis
        using k False f unfolding c circ_read_def Let_def by (simp add: min_def)
    qed
  qed
qed

lemma circ_fill_put:
  assumes ok: "circ_ok b"
  shows "circ_fill b p =
    (circ_put (cbuf b) (ctail b) (take (nat (cells b - (ctail b - chead b))) p),
     min (nat (cells b - (ctail b - chead b))) (length p))"
proof -
  let ?n = "length (cbuf b)" and ?t = "slot b (ctail b)"
  define a where "a = nat (cells b - (ctail b - chead b))"
  have ne: "cbuf b \<noteq> []" using ok by (simp add: circ_ok_def)
  have t: "?t < ?n" using slot_less [OF ne] .
  have a: "a \<le> ?n" using ok by (auto simp: circ_ok_def cells_def a_def)
  have m: "ctail b mod int ?n = int ?t mod int ?n"
    by (simp add: int_slot [OF ne] cells_def)
  have put: "circ_put (cbuf b) (ctail b) (take a p)
      = copy_at (copy_at (cbuf b) ?t (take a p)) 0 (drop (?n - ?t) (take a p))"
    by (rule copy_two_chunks [symmetric]) (use t m a in auto)
  show ?thesis
  proof (cases "?t + a \<le> ?n")
    case True
    then have "drop (?n - ?t) (take a p) = []" by simp
    with True put show ?thesis
      by (simp add: circ_fill_def Let_def copy_range_def a_def [symmetric])
  next
    case False
    with t have f: "?n - ?t < a" by linarith
    let ?wn = "min (?n - ?t) (length p)"
    have c1: "copy_at (cbuf b) ?t (take (?n - ?t) p) = copy_at (cbuf b) ?t (take a p)"
      using f by (simp add: copy_at_def min_def)
    have c2: "take (a - ?wn) (drop ?wn p) = drop (?n - ?t) (take a p)"
      using f by (auto simp: drop_take min_def)
    have "?wn + min (a - ?wn) (length p - ?wn) = min a (length p)"
      using f by (cases "length p \<le> ?n - ?t") (simp_all add: min_def, linarith?)
    then show ?thesis
      using False put c1 c2
      by (simp add: circ_fill_def Let_def copy_range_def a_def [symmetric])
  qed
qed

lemma contents_fill:
  assumes ok: "circ_ok b" and f: "circ_fill b p = (buf, n)"
  shows "contents (b\<lparr>cbuf := buf, ctail := ctail b + int n\<rparr>) = contents b @ take n p"
    and "circ_ok (b\<lparr>cbuf := buf, ctail := ctail b + int n\<rparr>)"
    and "n = min (nat (cells b - (ctail b - chead b))) (length p)"
    and "length buf = length (cbuf b)"
proof -
  let ?a = "nat (cells b - (ctail b - chead b))"
  have buf: "buf = circ_put (cbuf b) (ctail b) (take ?a p)" and n: "n = min ?a (length p)"
    using f circ_fill_put [OF ok] by auto
  have t: "take ?a p = take n p" by (simp add: n min_def)
  have le: "int (length (take n p)) \<le> cells b - (ctail b - chead b)"
    using ok by (auto simp: n circ_ok_def)
  have len: "length (take n p) = n" by (simp add: n)
  show "contents (b\<lparr>cbuf := buf, ctail := ctail b + int n\<rparr>) = contents b @ take n p"
    using contents_put [OF ok le] by (simp only: buf t len)
  show lb: "length buf = length (cbuf b)" by (simp add: buf)
  have "buf \<noteq> []" using lb ok by (metis circ_ok_def length_0_conv)
  moreover have "int n \<le> cells b - (ctail b - chead b)" using le len by simp
  ultimately show "circ_ok (b\<lparr>cbuf := buf, ctail := ctail b + int n\<rparr>)"
    using ok by (simp add: circ_ok_def cells_def lb)
  show "n = min ?a (length p)" by (rule n)
qed

lemma length_contents: "circ_ok b \<Longrightarrow> int (length (contents b)) = ctail b - chead b"
  by (simp add: contents_def circ_ok_def)

lemma contents_advance:
  assumes "0 \<le> n" "n \<le> ctail b - chead b"
  shows "contents (b\<lparr>chead := chead b + n\<rparr>) = drop (nat n) (contents b)"
  by (rule nth_equalityI) (use assms in \<open>auto simp: contents_def slot_def cells_def add.assoc nat_diff_distrib\<close>)

lemma circ_ok_advance:
  "circ_ok b \<Longrightarrow> 0 \<le> n \<Longrightarrow> n \<le> ctail b - chead b \<Longrightarrow> circ_ok (b\<lparr>chead := chead b + n\<rparr>)"
  by (simp add: circ_ok_def cells_def)

section \<open>Overwriting a full ring\<close>

lemma rb_overwrite_storage:
  assumes ok: "circ_ok b" and "leftn \<le> length p" and "0 < leftn"
  defines "n \<equiv> length (cbuf b)"
  defines "cn \<equiv> (if leftn \<le> n then leftn else leftn mod n)"
  defines "bs \<equiv> (if leftn \<le> n then [] else take (n - cn) (drop (length p - n) p))"
  shows "rb_overwrite b p leftn =
    b\<lparr>cbuf := circ_put (circ_put (cbuf b) (chead b) (drop (length p - cn) p)) (chead b + int cn) bs,
      chead := chead b + int cn, ctail := ctail b + int cn\<rparr>"
proof -
  let ?h = "slot b (chead b)" and ?cs = "drop (length p - cn) p"
  have ne: "cbuf b \<noteq> []" using ok by (simp add: circ_ok_def)
  have h: "?h < n" using slot_less [OF ne] by (simp add: n_def)
  have cn: "cn \<le> n" "cn \<le> length p"
    using h assms(2) by (auto simp: cn_def intro: order_trans [OF mod_le_divisor] mod_less_eq_dividend order_trans)
  then have cs: "length ?cs = cn" by simp
  have bs: "length bs \<le> n - cn" by (simp add: bs_def)
  have hm: "chead b mod int n = int ?h mod int n"
    by (simp add: int_slot [OF ne] cells_def n_def)
  have m2: "(chead b + int cn) mod int n = (int ?h + int cn) mod int n"
    using hm by (metis mod_add_left_eq)
  have put1: "copy_at (copy_at (cbuf b) ?h ?cs) 0 (drop (n - ?h) ?cs) = circ_put (cbuf b) (chead b) ?cs"
    unfolding n_def by (rule copy_two_chunks) (use h hm cs cn in \<open>simp_all add: n_def\<close>)
  let ?buf1 = "copy_at (cbuf b) ?h ?cs"
  have buf2: "(if min (n - ?h) (length ?cs) < length ?cs
      then copy_at (copy_at ?buf1 0 (drop (min (n - ?h) (length ?cs)) ?cs))
             (min n (length ?cs - min (n - ?h) (length ?cs))) bs
      else copy_at (copy_at ?buf1 (?h + min (n - ?h) (length ?cs)) bs) 0
             (drop (min (n - (?h + min (n - ?h) (length ?cs))) (length bs)) bs))
    = circ_put (circ_put (cbuf b) (chead b) ?cs) (chead b + int cn) bs"
  proof (cases "n - ?h < cn")
    case True
    let ?c2 = "cn - (n - ?h)"
    have len: "length (circ_put (cbuf b) (chead b) ?cs) = n" by (simp add: n_def)
    have d: "drop (n - ?c2) bs = []" using bs True h cn by simp
    have "int ?h + int cn = int ?c2 + int n" using True h by simp
    then have "(chead b + int cn) mod int n = int ?c2 mod int n" unfolding m2 by simp
    then have "copy_at (circ_put (cbuf b) (chead b) ?cs) ?c2 bs
      = circ_put (circ_put (cbuf b) (chead b) ?cs) (chead b + int cn) bs"
      using copy_two_chunks [of ?c2 "circ_put (cbuf b) (chead b) ?cs" "chead b + int cn" bs]
        d cn bs h len by simp
    moreover have "min n ?c2 = ?c2" "min (n - ?h) cn = n - ?h" using True cn h by simp_all
    ultimately show ?thesis using True put1 cs by simp
  next
    case False
    then have d: "drop (n - ?h) ?cs = []" using cs by simp
    with put1 have p1: "?buf1 = circ_put (cbuf b) (chead b) ?cs" by simp
    have e: "min (n - ?h) cn = cn" using False by simp
    have dr: "drop (min (n - (?h + cn)) (length bs)) bs = drop (n - (?h + cn)) bs"
      by (cases "n - (?h + cn) \<le> length bs") simp_all
    have "copy_at (copy_at ?buf1 (?h + cn) bs) 0 (drop (n - (?h + cn)) bs)
      = circ_put ?buf1 (chead b + int cn) bs"
      using copy_two_chunks [of "?h + cn" ?buf1 "chead b + int cn" bs] False h m2 bs
      by (simp add: n_def)
    then show ?thesis using e cs dr by (simp add: p1)
  qed
  have L: "length (cbuf b) = n" by (simp add: n_def)
  show ?thesis
    unfolding rb_overwrite_def Let_def L cn_def [symmetric] bs_def [symmetric] cs buf2 [unfolded cs] ..
qed

lemma contents_rb_overwrite:
  assumes ok: "circ_ok b" and "leftn \<le> length p" "0 < leftn" and full: "ctail b - chead b = cells b"
  shows "contents (rb_overwrite b p leftn) =
      (if leftn \<le> length (cbuf b) then drop leftn (contents b) @ drop (length p - leftn) p
       else drop (length p - length (cbuf b)) p)"
    and "circ_ok (rb_overwrite b p leftn)" and "ccloseErr (rb_overwrite b p leftn) = ccloseErr b"
    and "ccloseWrite (rb_overwrite b p leftn) = ccloseWrite b"
    and "cnotify (rb_overwrite b p leftn) = cnotify b"
    and "length (cbuf (rb_overwrite b p leftn)) = length (cbuf b)"
proof -
  define n where "n = length (cbuf b)"
  define cn where "cn = (if leftn \<le> n then leftn else leftn mod n)"
  define bs where "bs = (if leftn \<le> n then [] else take (n - cn) (drop (length p - n) p))"
  let ?cs = "drop (length p - cn) p" and ?N = "int (length (cbuf b))"
  let ?b = "rb_overwrite b p leftn"
  have ne: "cbuf b \<noteq> []" using ok by (simp add: circ_ok_def)
  then have n0: "0 < n" by (simp add: n_def)
  have cn: "cn \<le> n" "cn \<le> length p"
    using n0 assms(2) by (auto simp: cn_def intro: order_trans [OF mod_le_divisor] mod_less_eq_dividend order_trans)
  have R: "?b = b\<lparr>cbuf := circ_put (circ_put (cbuf b) (chead b) ?cs) (chead b + int cn) bs,
      chead := chead b + int cn, ctail := ctail b + int cn\<rparr>"
    using rb_overwrite_storage [OF ok assms(2,3)] unfolding n_def [symmetric] cn_def [symmetric] bs_def [symmetric] .
  show len: "length (cbuf ?b) = length (cbuf b)" by (simp add: R)
  have "cbuf ?b \<noteq> []" using len ne by (metis length_0_conv)
  then show "circ_ok ?b" using ok R by (simp add: circ_ok_def cells_def)
  show "ccloseErr ?b = ccloseErr b" "ccloseWrite ?b = ccloseWrite b" "cnotify ?b = cnotify b"
    by (simp_all add: R)
  have lb: "length bs = (if leftn \<le> n then 0 else n - cn)"
    using assms(2) by (auto simp: bs_def min_def)
  have put1: "circ_put (cbuf b) (chead b) ?cs \<noteq> []" using ne by (metis length_circ_put length_0_conv)
  have el: "contents ?b ! i = (if i < n - cn then (if leftn \<le> n then contents b ! (cn + i) else bs ! i)
      else ?cs ! (i - (n - cn)))" if i: "i < n" for i
  proof -
    have c: "contents ?b ! i = circ_put (circ_put (cbuf b) (chead b) ?cs) (chead b + int cn) bs
        ! nat ((chead b + int cn + int i) mod ?N)"
      using i full by (simp add: contents_def R slot_def cells_def n_def)
    have k2: "nat ((chead b + int cn + int i - (chead b + int cn)) mod ?N) = i"
      using i by (simp add: n_def)
    have k1: "nat ((chead b + int cn + int i - chead b) mod ?N) = (if i < n - cn then cn + i else i - (n - cn))"
    proof (cases "i < n - cn")
      case True
      then show ?thesis by (simp add: n_def flip: of_nat_add zmod_int)
    next
      case False
      then have "cn + i = n + (i - (n - cn))" using cn by simp
      then have "(cn + i) mod n = i - (n - cn)" using i cn by (metis add.commute diff_le_self less_imp_diff_less mod_add_self2 mod_less)
      with False show ?thesis by (simp add: n_def flip: of_nat_add zmod_int)
    qed
    have "\<not> cn + i < cn" by simp
    moreover have "contents b ! (cn + i) = cbuf b ! nat ((chead b + int cn + int i) mod ?N)" if "i < n - cn"
    proof -
      have "cn + i < length (cbuf b)" using that by (simp add: n_def)
      then show ?thesis using full by (simp add: contents_def slot_def cells_def n_def add.assoc)
    qed
    moreover have "i - (n - cn) < cn" if "\<not> i < n - cn" using that i by simp
    ultimately show ?thesis
      unfolding c nth_circ_put_slot [OF put1, unfolded length_circ_put] nth_circ_put_slot [OF ne] k2 k1
      using lb cn by auto
  qed
  have lc: "length (contents ?b) = n" "length (contents b) = n"
    using full by (simp_all add: contents_def R cells_def n_def)
  show "contents ?b = (if leftn \<le> length (cbuf b) then drop leftn (contents b) @ drop (length p - leftn) p
       else drop (length p - length (cbuf b)) p)"
  proof (cases "leftn \<le> n")
    case True
    then have "cn = leftn" by (simp add: cn_def)
    with True show ?thesis
      unfolding n_def [symmetric]
      by (intro nth_equalityI) (use el lc cn in \<open>auto simp: nth_append\<close>)
  next
    case False
    have "drop (length p - n) p ! i = (if i < n - cn then bs ! i else ?cs ! (i - (n - cn)))" if "i < n" for i
      using that False cn assms(2) by (auto simp: bs_def)
    with False show ?thesis
      unfolding n_def [symmetric]
      by (intro nth_equalityI) (use el lc assms(2) in auto)
  qed
qed

section \<open>One element at a time\<close>

lemma circ_put_single:
  assumes "buf \<noteq> []"
  shows "circ_put buf s [t] = buf[nat (s mod int (length buf)) := t]"
proof -
  have "copy_at buf k [t] = buf[k := t]" if "k < length buf" for k
    using that by (simp add: copy_at_def upd_conv_take_nth_drop)
  moreover have "nat (s mod int (length buf)) < length buf" using assms by (simp add: nat_less_iff)
  moreover have "circ_put buf s [t] = copy_at (copy_at buf (nat (s mod int (length buf))) [t]) 0
      (drop (length buf - nat (s mod int (length buf))) [t])"
    using assms calculation(2) by (intro copy_two_chunks [symmetric]) (auto simp: Suc_le_eq)
  ultimately show ?thesis by simp
qed

lemma contents_add:
  assumes ok: "circ_ok b" and "ctail b - chead b < cells b"
  shows "contents (b\<lparr>cbuf := (cbuf b)[slot b (ctail b) := t], ctail := ctail b + 1\<rparr>) = contents b @ [t]"
  using contents_put [OF ok, of "[t]"] assms
  by (simp add: circ_put_single circ_ok_def slot_def cells_def)

lemma contents_empty: "circ_ok b \<Longrightarrow> contents b = [] \<longleftrightarrow> chead b = ctail b"
  by (auto simp: contents_def circ_ok_def)

lemma contents_Next:
  assumes ok: "circ_ok b" and "chead b \<noteq> ctail b"
  shows "contents b = cbuf b ! slot b (chead b) # contents (b\<lparr>chead := chead b + 1\<rparr>)"
    and "circ_ok (b\<lparr>chead := chead b + 1\<rparr>)"
proof -
  have lt: "chead b < ctail b" using assms by (simp add: circ_ok_def)
  then have "contents (b\<lparr>chead := chead b + 1\<rparr>) = drop 1 (contents b)"
    using contents_advance [of 1 b] by simp
  moreover have "contents b ! 0 = cbuf b ! slot b (chead b)" "contents b \<noteq> []"
    using lt contents_empty [OF ok] by (simp_all add: contents_def)
  ultimately show "contents b = cbuf b ! slot b (chead b) # contents (b\<lparr>chead := chead b + 1\<rparr>)"
    by (metis Cons_nth_drop_Suc One_nat_def drop0 length_greater_0_conv)
  show "circ_ok (b\<lparr>chead := chead b + 1\<rparr>)" using circ_ok_advance [OF ok, of 1] lt by simp
qed

lemma contents_Read:
  assumes ok: "circ_ok b"
  shows "contents b = circ_read b k @ contents (b\<lparr>chead := chead b + int (length (circ_read b k))\<rparr>)"
    and "circ_ok (b\<lparr>chead := chead b + int (length (circ_read b k))\<rparr>)"
proof -
  let ?n = "length (circ_read b k)"
  have n: "?n = min k (length (contents b))" "int ?n \<le> ctail b - chead b"
    using circ_read_contents [OF ok, of k] length_contents [OF ok] by simp_all
  then show "circ_ok (b\<lparr>chead := chead b + int ?n\<rparr>)" by (intro circ_ok_advance [OF ok]) simp_all
  have "contents (b\<lparr>chead := chead b + int ?n\<rparr>) = drop ?n (contents b)"
    using n(2) contents_advance [of "int ?n" b] by simp
  then show "contents b = circ_read b k @ contents (b\<lparr>chead := chead b + int ?n\<rparr>)"
    using n(1) circ_read_contents [OF ok, of k] by (simp add: min_def)
qed

lemma contents_circ_admin [simp]:
  "contents (circ_CloseWrite b) = contents b" "circ_ok (circ_CloseWrite b) = circ_ok b"
  "contents (circ_CloseWithError b e) = contents b" "circ_ok (circ_CloseWithError b e) = circ_ok b"
  "contents (circ_Reset b) = []" "circ_ok (circ_Reset b) \<longleftrightarrow> cbuf b \<noteq> []"
  by (auto simp: circ_CloseWrite_def circ_CloseWithError_def circ_Reset_def contents_def circ_ok_def
      cells_def slot_def)

lemma circ_Discard_contents:
  assumes ok: "circ_ok b"
  shows "circ_ok (snd (circ_Discard b n))"
    and "contents (snd (circ_Discard b n)) =
      (if ccloseErr b = None then drop n (contents b) else contents b)"
proof -
  have le: "chead b \<le> ctail b" and len: "int (length (contents b)) = ctail b - chead b"
    using ok length_contents [OF ok] by (simp_all add: circ_ok_def)
  show "circ_ok (snd (circ_Discard b n))"
    using ok circ_ok_advance [OF ok, of "int n"]
    by (auto simp: circ_Discard_def circ_ok_def cells_def split: option.split)
  have "contents (b\<lparr>chead := ctail b\<rparr>) = []" by (simp add: contents_def)
  then show "contents (snd (circ_Discard b n)) =
      (if ccloseErr b = None then drop n (contents b) else contents b)"
    using contents_advance [of "int n" b] len
    by (auto simp: circ_Discard_def split: option.split)
qed

section \<open>Writing\<close>

lemma rb_Write_contents:
  assumes ok: "circ_ok b" and "ccloseErr b = None" "\<not> ccloseWrite b"
  shows "fst (rb_Write b p) = Ok (length p)"
    and "contents (snd (rb_Write b p)) =
      drop (length (contents b) + length p - length (cbuf b)) (contents b @ p)"
    and "circ_ok (snd (rb_Write b p))"
    and "cnotify (snd (rb_Write b p)) = cnotify b"
    and "length (cbuf (snd (rb_Write b p))) = length (cbuf b)"
proof -
  define buf1 where "buf1 = fst (circ_fill b p)"
  define wn where "wn = snd (circ_fill b p)"
  define b1 where "b1 = b\<lparr>cbuf := buf1, ctail := ctail b + int wn\<rparr>"
  have cf: "circ_fill b p = (buf1, wn)" by (simp add: buf1_def wn_def)
  note F = contents_fill [OF ok cf, folded b1_def]
  have ne: "cbuf b \<noteq> []" using ok by (simp add: circ_ok_def)
  have full: "circ_fill b p = (cbuf b, 0)" if "\<not> ctail b - chead b < cells b"
    using that by (simp add: circ_fill_put [OF ok])
  let ?l = "length p - wn"
  have W: "rb_Write b p = (if ?l = 0 then (Ok wn, b1) else (Ok (length p), rb_overwrite b1 p ?l))"
    using assms ne cf full by (auto simp: rb_Write_def Let_def b1_def)
  have fields: "ccloseErr b1 = None" "length (cbuf b1) = length (cbuf b)" "cnotify b1 = cnotify b"
    using assms F(4) by (simp_all add: b1_def)
  have lc: "int (length (contents b)) = ctail b - chead b" by (rule length_contents [OF ok])
  have wl: "wn \<le> length p" using F(3) by simp
  have "fst (rb_Write b p) = Ok (length p) \<and> contents (snd (rb_Write b p)) =
      drop (length (contents b) + length p - length (cbuf b)) (contents b @ p) \<and>
    circ_ok (snd (rb_Write b p)) \<and> cnotify (snd (rb_Write b p)) = cnotify b \<and>
    length (cbuf (snd (rb_Write b p))) = length (cbuf b)"
  proof (cases "?l = 0")
    case True
    then have "length (contents b) + length p \<le> length (cbuf b)"
      using F(3) lc wl ok by (auto simp: cells_def circ_ok_def)
    with True wl F fields show ?thesis unfolding W by simp
  next
    case False
    then have wn: "int wn = cells b - (ctail b - chead b)"
      using F(3) ok by (auto simp: circ_ok_def)
    then have fb: "ctail b1 - chead b1 = cells b1" using F(4) by (simp add: b1_def cells_def)
    have lw: "length (contents b) + wn = length (cbuf b)" using wn lc by (simp add: cells_def)
    note O = contents_rb_overwrite [OF F(2) diff_le_self _ fb, of p wn]
    have "contents (rb_overwrite b1 p ?l) =
        drop (length (contents b) + length p - length (cbuf b)) (contents b @ p)"
    proof (cases "?l \<le> length (cbuf b1)")
      case True
      have e: "length (contents b) + length p - length (cbuf b) = ?l" using lw wl by simp
      have z: "?l - length (contents b1) = 0" using True fields F(1) lw wl by simp
      have pw: "length p - ?l = wn" using wl by simp
      have "drop ?l (contents b1) @ drop (length p - ?l) p = drop ?l (contents b1 @ drop wn p)"
        by (simp only: drop_append z pw drop_0)
      also have "contents b1 @ drop wn p = contents b @ p" by (simp add: F(1))
      finally show ?thesis using O(1) True False e by simp
    next
      case f: False
      then have "length (contents b) + length p - length (cbuf b) - length (contents b)
        = length p - length (cbuf b)" "length (contents b) \<le> length (contents b) + length p - length (cbuf b)"
        using fields lw by simp_all
      then show ?thesis using O(1) f False fields by simp
    qed
    with O False fields show ?thesis unfolding W by simp
  qed
  then show "fst (rb_Write b p) = Ok (length p)"
    "contents (snd (rb_Write b p)) =
      drop (length (contents b) + length p - length (cbuf b)) (contents b @ p)"
    "circ_ok (snd (rb_Write b p))" "cnotify (snd (rb_Write b p)) = cnotify b"
    "length (cbuf (snd (rb_Write b p))) = length (cbuf b)" by blast+
qed

lemma rb_Add_contents:
  assumes ok: "circ_ok b" and "ccloseErr b = None" "\<not> ccloseWrite b"
  shows "fst (rb_Add b t) = Ok ()"
    and "contents (snd (rb_Add b t)) = drop (length (contents b) + 1 - length (cbuf b)) (contents b @ [t])"
    and "circ_ok (snd (rb_Add b t))"
proof -
  have ne: "cbuf b \<noteq> []" using ok by (simp add: circ_ok_def)
  have lc: "int (length (contents b)) = ctail b - chead b" by (rule length_contents [OF ok])
  have cong: "contents (c\<lparr>cnotify := x\<rparr>) = contents c" for c :: "'a ring" and x
    by (simp add: contents_def slot_def cells_def)
  show "fst (rb_Add b t) = Ok ()" using assms ne by (simp add: rb_Add_def Let_def)
  show "circ_ok (snd (rb_Add b t))"
    using assms ne by (auto simp: rb_Add_def Let_def circ_ok_def cells_def)
  show "contents (snd (rb_Add b t)) = drop (length (contents b) + 1 - length (cbuf b)) (contents b @ [t])"
  proof (cases "ctail b - chead b < cells b")
    case True
    then have "length (contents b) + 1 - length (cbuf b) = 0" using lc by (simp add: cells_def)
    with True show ?thesis
      using assms ne contents_add [OF ok True, of t] by (simp add: rb_Add_def Let_def cong)
  next
    case False
    then have full: "ctail b - chead b = cells b" using ok by (simp add: circ_ok_def)
    moreover have "0 < cells b" using ne by (simp add: cells_def)
    ultimately have lt: "chead b < ctail b" by linarith
    let ?c = "b\<lparr>chead := chead b + 1\<rparr>"
    have c: "circ_ok ?c" "contents ?c = drop 1 (contents b)"
      using circ_ok_advance [OF ok, of 1] contents_advance [of 1 b] lt by simp_all
    have d: "length (contents b) + 1 - length (cbuf b) = 1" using lc full by (simp add: cells_def)
    have "contents b \<noteq> []" using contents_empty [OF ok] lt by simp
    have s: "slot ?c x = slot b x" "cells ?c = cells b" for x by (simp_all add: slot_def cells_def)
    have "contents (?c\<lparr>cbuf := (cbuf ?c)[slot ?c (ctail ?c) := t], ctail := ctail ?c + 1\<rparr>) = contents ?c @ [t]"
      by (rule contents_add [OF c(1)]) (use full in \<open>simp add: cells_def\<close>)
    then have "contents (?c\<lparr>cbuf := (cbuf b)[slot b (ctail b) := t], ctail := ctail b + 1\<rparr>)
        = drop 1 (contents b @ [t])"
      using c(2) s \<open>contents b \<noteq> []\<close> by (cases "contents b") simp_all
    moreover have "snd (rb_Add b t) =
        ?c\<lparr>cbuf := (cbuf b)[slot b (ctail b) := t], ctail := ctail b + 1, cnotify := True\<rparr>"
      using assms ne full by (simp add: rb_Add_def Let_def)
    ultimately show ?thesis
      using d cong [of True "?c\<lparr>cbuf := (cbuf b)[slot b (ctail b) := t], ctail := ctail b + 1\<rparr>"]
      by simp
  qed
qed

lemma bb_WriteLoop_result:
  assumes "circ_ok b" and "length p < fuel"
  shows "\<exists>r b'. bb_WriteLoop fuel b p wn = Some (r, b') \<and> circ_ok b' \<and>
    length (cbuf b') = length (cbuf b) \<and> chead b' = chead b \<and>
    (let n = min (length p) (length (cbuf b) - length (contents b)) in
       contents b' = contents b @ take n p \<and>
       r = (if n = length p then Ok (wn + n) else WouldBlock (wn + n)))"
  using assms
proof (induction fuel arbitrary: b p wn)
  case (Suc fuel)
  note ok = Suc.prems(1)
  have lc: "int (length (contents b)) = ctail b - chead b" by (rule length_contents [OF ok])
  have ne: "cbuf b \<noteq> []" and le: "length (contents b) \<le> length (cbuf b)"
    using ok lc by (simp_all add: circ_ok_def cells_def)
  show ?case
  proof (cases "p = [] \<or> ctail b - chead b = cells b")
    case True
    then have "ctail b - chead b = cells b \<Longrightarrow> length (cbuf b) - length (contents b) = 0"
      using lc by (simp add: cells_def)
    with True ok show ?thesis by (auto simp: Let_def)
  next
    case False
    obtain buf1 n where cf: "circ_fill b p = (buf1, n)" by fastforce
    let ?b = "b\<lparr>cbuf := buf1, ctail := ctail b + int n\<rparr>"
    note F = contents_fill [OF ok cf]
    have n: "n = min (length (cbuf b) - length (contents b)) (length p)"
      using F(3) lc by (simp add: cells_def nat_diff_distrib)
    have "length (contents b) \<noteq> length (cbuf b)" using False lc by (auto simp: cells_def)
    then have pos: "0 < n" using n False le by auto
    have loop: "bb_WriteLoop (Suc fuel) b p wn = bb_WriteLoop fuel ?b (drop n p) (wn + n)"
      using False ne cf by simp
    have "length (drop n p) < fuel" using pos False Suc.prems(2) n by (cases p) auto
    from Suc.IH [OF F(2) this, of "wn + n"] obtain r b' where
      R: "bb_WriteLoop fuel ?b (drop n p) (wn + n) = Some (r, b')" "circ_ok b'"
      "length (cbuf b') = length (cbuf ?b)" "chead b' = chead ?b" and
      R2: "let m = min (length (drop n p)) (length (cbuf ?b) - length (contents ?b)) in
         contents b' = contents ?b @ take m (drop n p) \<and>
         r = (if m = length (drop n p) then Ok (wn + n + m) else WouldBlock (wn + n + m))"
      by blast
    have lb: "length (contents ?b) = length (contents b) + n" "length (cbuf ?b) = length (cbuf b)"
      using F(1,4) n by simp_all
    have m: "min (length (drop n p)) (length (cbuf ?b) - length (contents ?b)) = 0"
      unfolding lb using n by auto
    have l: "min (length p) (length (cbuf b) - length (contents b)) = n" by (simp add: n min.commute)
    show ?thesis
    proof -
      have "contents b' = contents b @ take n p"
        "r = (if 0 = length p - n then Ok (wn + n) else WouldBlock (wn + n))"
        using R2 F(1) unfolding Let_def m by simp_all
      moreover have "0 = length p - n \<longleftrightarrow> n = length p" using n by auto
      ultimately show ?thesis unfolding loop l Let_def using R lb by auto
    qed
  qed
qed simp

section \<open>What every buffer promises\<close>

text \<open>
  A call of one of the methods of \<open>BytesBuffer\<close>, and what it took in and gave out.
\<close>

datatype 'a buffer_op =
  BWrite "'a list" | BAdd 'a | BRead nat | BNext | BDiscard nat | BReset | BCloseWrite
| BClose "close_error option"

fun keeps :: "'a buffer_op \<Rightarrow> bool" where
  "keeps (BDiscard n) = False"
| "keeps BReset = False"
| "keeps (BClose e) = False"
| "keeps _ = True"

fun buffer_run ::
  "('s \<Rightarrow> 'a buffer_op \<Rightarrow> ('a list \<times> 'a list) \<times> 's) \<Rightarrow> 's \<Rightarrow> 'a buffer_op list
     \<Rightarrow> ('a list \<times> 'a list) \<times> 's" where
  "buffer_run step s [] = (([], []), s)"
| "buffer_run step s (oper # ops) =
     (let ((acc, del), s1) = step s oper; ((accs, dels), s2) = buffer_run step s1 ops
      in ((acc @ accs, del @ dels), s2))"

text \<open>
  The contract of a buffer that may lose elements but never reorders or invents any, and of one
  that moreover loses none unless it is told to.
\<close>

locale fifo_buffer =
  fixes inv :: "'s \<Rightarrow> bool"
    and stored :: "'s \<Rightarrow> 'a list"
    and step :: "'s \<Rightarrow> 'a buffer_op \<Rightarrow> ('a list \<times> 'a list) \<times> 's"
  assumes step_inv: "inv s \<Longrightarrow> inv (snd (step s oper))"
    and step_order: "inv s \<Longrightarrow> subseq (snd (fst (step s oper)) @ stored (snd (step s oper)))
      (stored s @ fst (fst (step s oper)))"
begin

lemma run_order:
  assumes "inv s" "buffer_run step s ops = ((accs, dels), s')"
  shows "inv s' \<and> subseq (dels @ stored s') (stored s @ accs)"
  using assms
proof (induction ops arbitrary: s accs dels)
  case (Cons oper ops)
  obtain acc del s1 where st: "step s oper = ((acc, del), s1)" by (metis prod.collapse)
  obtain accs1 dels1 where r: "buffer_run step s1 ops = ((accs1, dels1), s')"
    and a: "accs = acc @ accs1" "dels = del @ dels1"
    using Cons.prems(2) st by (auto split: prod.splits)
  have i: "inv s1" and o1: "subseq (del @ stored s1) (stored s @ acc)"
    using step_inv [OF Cons.prems(1), of oper] step_order [OF Cons.prems(1), of oper] st by simp_all
  have "inv s'" "subseq (dels1 @ stored s') (stored s1 @ accs1)" using Cons.IH [OF i r] by simp_all
  then have "subseq (del @ dels1 @ stored s') (del @ stored s1 @ accs1)"
    by (intro list_emb_append_mono [OF subseq_order.order_refl])
  also have "subseq \<dots> (stored s @ acc @ accs1)"
    using list_emb_append_mono [OF o1, of accs1 accs1] by simp
  finally show ?case using \<open>inv s'\<close> a by simp
qed auto

end

locale lossless_buffer = fifo_buffer +
  assumes step_keeps: "inv s \<Longrightarrow> keeps oper \<Longrightarrow>
    snd (fst (step s oper)) @ stored (snd (step s oper)) = stored s @ fst (fst (step s oper))"
begin

lemma run_keeps:
  assumes "inv s" "list_all keeps ops" "buffer_run step s ops = ((accs, dels), s')"
  shows "inv s' \<and> dels @ stored s' = stored s @ accs"
  using assms
proof (induction ops arbitrary: s accs dels)
  case (Cons oper ops)
  obtain acc del s1 where st: "step s oper = ((acc, del), s1)" by (metis prod.collapse)
  obtain accs1 dels1 where r: "buffer_run step s1 ops = ((accs1, dels1), s')"
    and a: "accs = acc @ accs1" "dels = del @ dels1"
    using Cons.prems(3) st by (auto split: prod.splits)
  have i: "inv s1" and k: "del @ stored s1 = stored s @ acc"
    using step_inv [OF Cons.prems(1), of oper] step_keeps [OF Cons.prems(1), of oper]
      Cons.prems(2) st by simp_all
  have "inv s'" "dels1 @ stored s' = stored s1 @ accs1"
    using Cons.IH [OF i _ r] Cons.prems(2) by simp_all
  then show ?case using a k by (metis append.assoc)
qed auto

end

fun taken :: "nat outcome \<Rightarrow> 'a list \<Rightarrow> 'a list" where
  "taken (Ok n) p = take n p"
| "taken (WouldBlock n) p = take n p"
| "taken (Failed n e) p = take n p"
| "taken Panic p = []"

fun given :: "'a list outcome \<Rightarrow> 'a list" where
  "given (Ok xs) = xs"
| "given _ = []"

fun growable_step :: "'a growable \<Rightarrow> 'a buffer_op \<Rightarrow> ('a list \<times> 'a list) \<times> 'a growable" where
  "growable_step b (BWrite p) = (let (r, b') = gb_Write b p in ((taken r p, []), b'))"
| "growable_step b (BAdd t) =
     (let (r, b') = gb_Add b t in ((if r = Ok () then [t] else [], []), b'))"
| "growable_step b (BRead k) = (let (r, b') = gb_Read b k in (([], given r), b'))"
| "growable_step b BNext =
     (let (r, b') = gb_Next b in (([], case r of Ok t \<Rightarrow> [t] | _ \<Rightarrow> []), b'))"
| "growable_step b (BDiscard n) = (([], []), snd (gb_Discard b (int n)))"
| "growable_step b BReset = (([], []), gb_Reset b)"
| "growable_step b BCloseWrite = (([], []), gb_CloseWrite b)"
| "growable_step b (BClose e) = (([], []), gb_CloseWithError b e)"

fun ring_step :: "'a ring \<Rightarrow> 'a buffer_op \<Rightarrow> ('a list \<times> 'a list) \<times> 'a ring" where
  "ring_step b (BWrite p) = (let (r, b') = rb_Write b p in ((taken r p, []), b'))"
| "ring_step b (BAdd t) =
     (let (r, b') = rb_Add b t in ((if r = Ok () then [t] else [], []), b'))"
| "ring_step b (BRead k) = (let (r, b') = rb_Read b k in (([], given r), b'))"
| "ring_step b BNext =
     (let (r, b') = rb_Next b in (([], case r of Ok t \<Rightarrow> [t] | _ \<Rightarrow> []), b'))"
| "ring_step b (BDiscard n) = (([], []), snd (circ_Discard b n))"
| "ring_step b BReset = (([], []), circ_Reset b)"
| "ring_step b BCloseWrite = (([], []), circ_CloseWrite b)"
| "ring_step b (BClose e) = (([], []), circ_CloseWithError b e)"

fun block_step :: "'a circ \<Rightarrow> 'a buffer_op \<Rightarrow> ('a list \<times> 'a list) \<times> 'a circ" where
  "block_step b (BWrite p) =
     (case bb_Write b p of Some (r, b') \<Rightarrow> ((taken r p, []), b') | None \<Rightarrow> (([], []), b))"
| "block_step b (BAdd t) =
     (let (r, b') = bb_Add b t in ((if r = Ok () then [t] else [], []), b'))"
| "block_step b (BRead k) = (let (r, b') = bb_Read b k in (([], given r), b'))"
| "block_step b BNext =
     (let (r, b') = bb_Next b in (([], case r of Ok t \<Rightarrow> [t] | _ \<Rightarrow> []), b'))"
| "block_step b (BDiscard n) = (([], []), snd (circ_Discard b n))"
| "block_step b BReset = (([], []), circ_Reset b)"
| "block_step b BCloseWrite = (([], []), circ_CloseWrite b)"
| "block_step b (BClose e) = (([], []), circ_CloseWithError b e)"

interpretation growable: lossless_buffer "\<lambda>_. True" gbuf growable_step
proof
  fix b :: "'a growable" and oper :: "'a buffer_op"
  show keep: "snd (fst (growable_step b oper)) @ gbuf (snd (growable_step b oper))
      = gbuf b @ fst (fst (growable_step b oper))" if "keeps oper"
    using that by (cases oper)
      (auto simp: gb_Write_def gb_Add_def gb_Read_def gb_Next_def gb_CloseWrite_def
        split: option.split list.split)
  show "subseq (snd (fst (growable_step b oper)) @ gbuf (snd (growable_step b oper)))
      (gbuf b @ fst (fst (growable_step b oper)))"
  proof (cases "keeps oper")
    case True
    with keep show ?thesis by simp
  next
    case False
    then show ?thesis
      by (cases oper) (auto simp: gb_Discard_def gb_Reset_def gb_CloseWithError_def
        intro: suffix_imp_subseq suffix_drop split: option.split)
  qed
qed simp
lemma subseq_drop [simp]: "subseq (drop n xs) xs"
  by (intro suffix_imp_subseq suffix_drop)

lemma contents_cnotify [simp]:
  "contents (b\<lparr>cnotify := x\<rparr>) = contents b" "circ_ok (b\<lparr>cnotify := x\<rparr>) = circ_ok b"
  by (simp_all add: contents_def slot_def cells_def circ_ok_def)

lemma ring_step_order:
  assumes ok: "circ_ok b"
  shows "circ_ok (snd (ring_step b oper)) \<and> subseq (snd (fst (ring_step b oper)) @ contents (snd (ring_step b oper)))
      (contents b @ fst (fst (ring_step b oper)))"
proof -
  have ne: "cbuf b \<noteq> []" using ok by (simp add: circ_ok_def)
  show ?thesis
  proof (cases oper)
    case (BWrite p)
    show ?thesis
    proof (cases "ccloseErr b = None \<and> \<not> ccloseWrite b")
      case True
      then show ?thesis
        using BWrite rb_Write_contents [OF ok] by (simp add: case_prod_unfold del: drop_append)
    next
      case False
      then show ?thesis using BWrite ok by (auto simp: rb_Write_def split: option.split)
    qed
  next
    case (BAdd t)
    show ?thesis
    proof (cases "ccloseErr b = None \<and> \<not> ccloseWrite b")
      case True
      then show ?thesis
        using BAdd rb_Add_contents [OF ok] by (simp add: case_prod_unfold del: drop_append)
    next
      case False
      then show ?thesis using BAdd ok by (auto simp: rb_Add_def split: option.split)
    qed
  next
    case (BRead k)
    then show ?thesis
      using ok ne contents_Read [OF ok, of k] by (auto simp: rb_Read_def Let_def split: option.split)
  next
    case BNext
    then show ?thesis
      using ok ne contents_Next [OF ok] by (auto simp: rb_Next_def Let_def split: option.split)
  next
    case (BDiscard n)
    then show ?thesis using circ_Discard_contents [OF ok, of n] by simp
  qed (use ok ne in simp_all)
qed

lemma bb_Write_contents:
  assumes ok: "circ_ok b" and open_: "ccloseErr b = None" "\<not> ccloseWrite b"
  shows "\<exists>r b'. bb_Write b p = Some (r, b') \<and> circ_ok b' \<and>
    length (cbuf b') = length (cbuf b) \<and>
    (let n = min (length p) (length (cbuf b) - length (contents b)) in
       contents b' = contents b @ take n p \<and> r = (if n = length p then Ok n else WouldBlock n))"
  using bb_WriteLoop_result [OF ok, of p "length p + 1" 0]
  by (auto simp: bb_Write_def bb_WriteFrom_def open_ Let_def simp del: bb_WriteLoop.simps)

lemma block_step_inv_keeps:
  assumes ok: "circ_ok b"
  shows "circ_ok (snd (block_step b oper)) \<and> (keeps oper \<longrightarrow>
    snd (fst (block_step b oper)) @ contents (snd (block_step b oper))
      = contents b @ fst (fst (block_step b oper)))"
proof -
  have ne: "cbuf b \<noteq> []" and le: "ctail b - chead b \<le> cells b" using ok by (simp_all add: circ_ok_def)
  show ?thesis
  proof (cases oper)
    case (BWrite p)
    show ?thesis
    proof (cases "ccloseErr b = None \<and> \<not> ccloseWrite b")
      case True
      then obtain r b' where "bb_Write b p = Some (r, b')" "circ_ok b'"
        "let n = min (length p) (length (cbuf b) - length (contents b)) in
           contents b' = contents b @ take n p \<and> r = (if n = length p then Ok n else WouldBlock n)"
        using bb_Write_contents [OF ok] by blast
      then show ?thesis using BWrite by (auto simp: Let_def split: if_splits)
    next
      case False
      then show ?thesis
        using BWrite ok by (auto simp: bb_Write_def bb_WriteFrom_def split: option.split)
    qed
  next
    case (BAdd t)
    have "circ_ok (b\<lparr>cbuf := (cbuf b)[slot b (ctail b) := t], ctail := ctail b + 1\<rparr>)"
      if "ctail b - chead b \<noteq> cells b" using ok that by (simp add: circ_ok_def cells_def)
    then show ?thesis
      using BAdd ok ne le contents_add [OF ok] by (auto simp: bb_Add_def split: option.split)
  next
    case (BRead k)
    then show ?thesis
      using ok ne contents_Read [OF ok, of k] by (auto simp: bb_Read_def Let_def split: option.split)
  next
    case BNext
    then show ?thesis
      using ok ne contents_Next [OF ok] by (auto simp: bb_Next_def Let_def split: option.split)
  next
    case (BDiscard n)
    then show ?thesis using circ_Discard_contents [OF ok, of n] by simp
  qed (use ok ne in simp_all)
qed

interpretation ring: fifo_buffer circ_ok contents ring_step
  by unfold_locales (simp_all add: ring_step_order)

interpretation block: lossless_buffer circ_ok contents block_step
proof
  fix b :: "'a circ" and oper :: "'a buffer_op"
  assume ok: "circ_ok b"
  note R = block_step_inv_keeps [OF ok, of oper]
  show "circ_ok (snd (block_step b oper))" using R by simp
  show "subseq (snd (fst (block_step b oper)) @ contents (snd (block_step b oper)))
      (contents b @ fst (fst (block_step b oper)))"
  proof (cases "keeps oper")
    case True
    with R show ?thesis by simp
  next
    case False
    then show ?thesis using circ_Discard_contents [OF ok] by (cases oper) simp_all
  qed
qed (use block_step_inv_keeps in blast)

section \<open>Properties\<close>

text \<open>
  The blocking buffer and the growable buffer are lossless queues: whatever sequence of writes,
  adds, reads, nexts and \<open>CloseWrite\<close> calls reaches them, in whatever interleaving and with whatever
  calls blocked half-way, what was given out followed by what is stored is exactly what was taken in.
\<close>

theorem queue_buffers_lossless:
  assumes "store \<noteq> []" and "list_all keeps ops"
  shows "(case buffer_run block_step (Block store) ops of ((accs, dels), b) \<Rightarrow> dels @ contents b = accs) \<and>
    (case buffer_run growable_step N ops of ((accs, dels), g) \<Rightarrow> dels @ gbuf g = accs)"
proof -
  have "circ_ok (Block store)" "contents (Block store) = []"
    using assms(1) by (simp_all add: circ_ok_def Block_def contents_def cells_def)
  then show ?thesis
    using block.run_keeps [OF _ assms(2), of "Block store"] growable.run_keeps [OF _ assms(2), of N]
    by (auto simp: N_def split: prod.split)
qed

theorem queue_buffers_lossless_witness:
  "fst (fst (buffer_run block_step (Block [0, 0]) [BWrite [7, 8, 9 :: nat], BNext, BAdd 5, BRead 4]))
     = [7, 8, 5] \<and>
   snd (fst (buffer_run block_step (Block [0, 0]) [BWrite [7, 8, 9 :: nat], BNext, BAdd 5, BRead 4]))
     @ contents (snd (buffer_run block_step (Block [0, 0]) [BWrite [7, 8, 9 :: nat], BNext, BAdd 5, BRead 4]))
     = [7, 8, 5]"
proof -
  let ?R = "buffer_run block_step (Block [0, 0]) [BWrite [7, 8, 9 :: nat], BNext, BAdd 5, BRead 4]"
  have keep: "list_all keeps [BWrite [7, 8, 9 :: nat], BNext, BAdd 5, BRead 4]" by simp
  have "fst (fst ?R) = [7, 8, 5]" by code_simp
  moreover have "snd (fst ?R) @ contents (snd ?R) = fst (fst ?R)"
    using queue_buffers_lossless [of "[0, 0 :: nat]", OF _ keep] unfolding case_prod_unfold by blast
  ultimately show ?thesis by simp
qed

text \<open>
  C00: A ring buffer keeps exactly the newest elements that fit: a write always takes everything,
  and leaves the last \<open>capacity\<close> elements of the old contents followed by the new ones, also
  when the data wraps around the storage or is longer than it.
\<close>

theorem ring_write_keeps_newest:
  assumes "circ_ok b" and "ccloseErr b = None" and "\<not> ccloseWrite b"
  shows "fst (rb_Write b p) = Ok (length p) \<and> circ_ok (snd (rb_Write b p)) \<and>
    contents (snd (rb_Write b p)) =
      drop (length (contents b) + length p - length (cbuf b)) (contents b @ p) \<and>
    contents (snd (rb_Add b t)) = drop (length (contents b) + 1 - length (cbuf b)) (contents b @ [t])"
  using rb_Write_contents [OF assms] rb_Add_contents [OF assms] by simp

theorem ring_write_keeps_newest_witness:
  "contents (snd (rb_Write (snd (rb_Write (RingN [0, 0, 0 :: nat]) [1, 2])) [3, 4, 5, 6, 7])) = [5, 6, 7]"
proof -
  let ?b = "snd (rb_Write (RingN [0, 0, 0 :: nat]) [1, 2])"
  have ok: "circ_ok (RingN [0, 0, 0 :: nat])" by (simp add: circ_ok_def RingN_def cells_def)
  have o: "ccloseErr (RingN [0, 0, 0 :: nat]) = None" "\<not> ccloseWrite (RingN [0, 0, 0 :: nat])"
    by (simp_all add: RingN_def)
  have "contents ?b = [1, 2]" "ccloseErr ?b = None" "\<not> ccloseWrite ?b" "length (cbuf ?b) = 3"
    by code_simp+
  moreover have "circ_ok ?b" using rb_Write_contents(3) [OF ok o] .
  ultimately show ?thesis
    using ring_write_keeps_newest [of ?b "[3, 4, 5, 6, 7]"] by simp
qed

text \<open>
  A ring buffer never reorders or invents data: over any history of its operations, what was
  given out followed by what is stored is a subsequence of what was taken in, and never more than
  the capacity is stored.
\<close>

theorem ring_delivers_in_order:
  assumes "store \<noteq> []"
  shows "case buffer_run ring_step (RingN store) ops of
      ((accs, dels), b) \<Rightarrow> subseq (dels @ contents b) accs \<and> length (contents b) \<le> length (cbuf b)"
proof -
  have ok: "circ_ok (RingN store)" "contents (RingN store) = []"
    using assms by (simp_all add: circ_ok_def RingN_def contents_def cells_def)
  obtain accs dels b where r: "buffer_run ring_step (RingN store) ops = ((accs, dels), b)"
    by (metis prod.collapse)
  note R = ring.run_order [OF ok(1) r]
  then have "int (length (contents b)) \<le> cells b"
    using length_contents [of b] unfolding circ_ok_def by linarith
  with R ok(2) r show ?thesis by (simp add: cells_def)
qed

theorem ring_delivers_in_order_witness:
  "subseq (snd (fst (buffer_run ring_step (RingN [0, 0]) [BWrite [1, 2, 3 :: nat], BNext, BAdd 4, BReset, BAdd 5, BRead 1]))) [1, 2, 3, 4, 5]"
proof -
  let ?R = "buffer_run ring_step (RingN [0, 0]) [BWrite [1, 2, 3 :: nat], BNext, BAdd 4, BReset, BAdd 5, BRead 1]"
  have R: "fst (fst ?R) = [1, 2, 3, 4, 5]" by code_simp
  have o: "subseq (snd (fst ?R) @ contents (snd ?R)) (fst (fst ?R))"
    using ring_delivers_in_order [of "[0, 0 :: nat]" "[BWrite [1, 2, 3], BNext, BAdd 4, BReset, BAdd 5, BRead 1]"]
    unfolding case_prod_unfold by blast
  have p: "subseq (snd (fst ?R)) (snd (fst ?R) @ contents (snd ?R))"
    by (rule prefix_imp_subseq) simp
  show ?thesis
    using subseq_order.order_trans [OF p o] unfolding R .
qed

text \<open>
  \<open>Bytes\<close> of a ring or blocking buffer returns the stored elements unless there are none: an
  empty buffer makes it return the whole storage, stale elements included, because the positions
  of head and tail coincide when the buffer is empty just as when it is full.
\<close>

theorem circ_bytes_stale_when_empty:
  assumes "circ_ok b"
  shows "circ_Bytes b = Ok (if chead b = ctail b then rotate (slot b (chead b)) (cbuf b) else contents b)"
proof -
  let ?n = "length (cbuf b)" and ?h = "slot b (chead b)" and ?a = "nat (ctail b - chead b)"
  have ne: "cbuf b \<noteq> []" and a: "?a \<le> ?n" and t: "ctail b = chead b + int ?a"
    using assms by (auto simp: circ_ok_def cells_def)
  have h: "?h < ?n" using slot_less [OF ne] .
  have sl: "slot b (ctail b) = (if ?h + ?a < ?n then ?h + ?a else ?h + ?a - ?n)"
    using slot_plus [OF ne a, of "chead b"] t by simp
  consider "chead b = ctail b" | "0 < ?a" "?h + ?a < ?n" | "0 < ?a" "\<not> ?h + ?a < ?n"
    using t by (cases "?a = 0") auto
  then show ?thesis
  proof cases
    case 1
    then show ?thesis using ne h by (simp add: circ_Bytes_def Let_def rotate_drop_take)
  next
    case 2
    then have "chead b \<noteq> ctail b" "?a - (?n - ?h) = 0" by auto
    with 2 show ?thesis
      unfolding contents_take [OF assms] circ_Bytes_def Let_def sl using ne by simp
  next
    case 3
    then have ht: "chead b \<noteq> ctail b" and f: "?n - ?h \<le> ?a"
      and e: "?h + ?a - ?n = ?a - (?n - ?h)" using a h by auto
    have "(?h < ?h + ?a - ?n) = False" using a h by simp
    then show ?thesis
      unfolding contents_take [OF assms] circ_Bytes_def Let_def sl
      using ne ht f 3(2) by (simp add: e)
  qed
qed

theorem circ_bytes_stale_when_empty_witness:
  "circ_Bytes (snd (rb_Next (snd (rb_Write (RingN [0, 0, 0 :: nat]) [7])))) = Ok [0, 0, 7]"
proof -
  let ?b = "snd (rb_Next (snd (rb_Write (RingN [0, 0, 0 :: nat]) [7])))"
  have "cbuf ?b = [7, 0, 0]" "chead ?b = 1" "ctail ?b = 1" by code_simp+
  then show ?thesis
    using circ_bytes_stale_when_empty [of ?b]
    by (simp add: circ_ok_def cells_def slot_def rotate1_def eval_nat_numeral)
qed

text \<open>
  A write into the ring buffer wakes nobody: after a reader found the buffer empty and began
  to wait, \<open>Write\<close> stores data without the token the reader waits for, whereas \<open>Add\<close> and the
  growable buffer's \<open>Write\<close> leave it.
\<close>

theorem ring_write_loses_wakeup:
  assumes "circ_ok b" and "contents b = []" and "ccloseErr b = None" and "\<not> ccloseWrite b" and "p \<noteq> []"
  shows "(case rb_Read b k of (r, b1) \<Rightarrow> r = WouldBlock 0 \<and>
      contents (snd (rb_Write b1 p)) \<noteq> [] \<and> \<not> cnotify (snd (rb_Write b1 p)) \<and>
      cnotify (snd (rb_Add b1 t))) \<and> gnotify (snd (gb_Write N p))"
proof -
  have ht: "chead b = ctail b" using contents_empty [OF assms(1)] assms(2) by simp
  let ?b1 = "b\<lparr>cnotify := False\<rparr>"
  have R: "rb_Read b k = (WouldBlock 0, ?b1)" using assms(3,4) ht by (simp add: rb_Read_def)
  have ok: "circ_ok ?b1" "ccloseErr ?b1 = None" "\<not> ccloseWrite ?b1" using assms by simp_all
  have "cbuf b \<noteq> []" using assms(1) by (simp add: circ_ok_def)
  then have "length p - length (cbuf b) < length p" using assms(5) by simp
  then have "contents (snd (rb_Write ?b1 p)) \<noteq> []"
    using rb_Write_contents(2) [OF ok, of p] assms(2) by simp
  moreover have "\<not> cnotify (snd (rb_Write ?b1 p))" using rb_Write_contents(4) [OF ok, of p] by simp
  moreover have "cnotify (snd (rb_Add ?b1 t))"
    using ok \<open>cbuf b \<noteq> []\<close> by (simp add: rb_Add_def Let_def)
  ultimately show ?thesis unfolding R by (simp add: gb_Write_def N_def)
qed

theorem ring_write_loses_wakeup_witness:
  "contents (snd (rb_Write (snd (rb_Read (RingN [0, 0 :: nat]) 1)) [7])) \<noteq> [] \<and>
   \<not> cnotify (snd (rb_Write (snd (rb_Read (RingN [0, 0 :: nat]) 1)) [7]))"
proof -
  have "circ_ok (RingN [0, 0 :: nat])" "contents (RingN [0, 0 :: nat]) = []"
    "ccloseErr (RingN [0, 0 :: nat]) = None" "\<not> ccloseWrite (RingN [0, 0 :: nat])" "[7 :: nat] \<noteq> []"
    by (simp_all add: circ_ok_def RingN_def cells_def contents_def)
  from ring_write_loses_wakeup [OF this, of 1] show ?thesis unfolding case_prod_unfold by blast
qed

text \<open>
  \<open>Write\<close> on a blocking buffer always comes back or blocks with all free cells filled: it
  takes exactly what fits, never stores more than the capacity and blocks precisely when something
  is left over.
\<close>

theorem block_write_exact:
  assumes "circ_ok b" and "ccloseErr b = None" and "\<not> ccloseWrite b"
  shows "\<exists>r b'. bb_Write b p = Some (r, b') \<and>
    (let n = min (length p) (length (cbuf b) - length (contents b)) in
       contents b' = contents b @ take n p \<and> length (contents b') \<le> length (cbuf b') \<and>
       r = (if n = length p then Ok n else WouldBlock n))"
proof -
  obtain r b' where W: "bb_Write b p = Some (r, b')" "circ_ok b'" "length (cbuf b') = length (cbuf b)"
    "let n = min (length p) (length (cbuf b) - length (contents b)) in
       contents b' = contents b @ take n p \<and> r = (if n = length p then Ok n else WouldBlock n)"
    using bb_Write_contents [OF assms] by blast
  have "length (contents b') \<le> length (cbuf b')"
    using length_contents [OF W(2)] W(2) by (simp add: circ_ok_def cells_def)
  with W(1,4) show ?thesis unfolding Let_def by blast
qed

theorem block_write_exact_witness:
  "\<exists>b'. bb_Write (Block [0, 0 :: nat]) [7, 8, 9] = Some (WouldBlock 2, b') \<and> contents b' = [7, 8]"
proof -
  have "circ_ok (Block [0, 0 :: nat])" "ccloseErr (Block [0, 0 :: nat]) = None"
    "\<not> ccloseWrite (Block [0, 0 :: nat])" "contents (Block [0, 0 :: nat]) = []"
    by (simp_all add: circ_ok_def Block_def cells_def contents_def)
  with block_write_exact [of "Block [0, 0 :: nat]" "[7, 8, 9]"] show ?thesis
    by (auto simp: Let_def Block_def)
qed

end
