(* ===== verification/KVStore.thy ===== *)
theory KVStore
  imports Prelude "HOL-Library.List_Lexorder" "HOL-Library.Char_ord" "HOL-Library.AList"
begin

text \<open>
  \<open>pkg/store/kv\<close>: hierarchical keys and their encoding (\<open>kv.go\<close>), the in-memory store
  (\<open>memory.go\<close>) and the prefixed view of another store (\<open>prefix.go\<close>).  A Go string is a \<open>string\<close>,
  whose characters are bytes.  The interface \<open>Store\<close> is the record \<open>store\<close> of its operations over
  a state type, the locale \<open>kv_store\<close> is what its clients rely on, and both implementations are
  interpretations of it.  Every call gets the clock reading and the error of its context; the
  map of the in-memory store is an association list, the order of which no operation shows.
\<close>

section \<open>Keys\<close>

type_synonym kv_key = "string list"

definition DefaultSeparator :: char where "DefaultSeparator = CHR '':''"

text \<open>\<open>None\<close> stands for nil options or a zero separator byte.\<close>

definition opt_sep :: "char option \<Rightarrow> char" where
  "opt_sep o1 = (case o1 of Some c \<Rightarrow> if c \<noteq> CHR 0x00 then c else DefaultSeparator
    | None \<Rightarrow> DefaultSeparator)"

definition clean :: "char \<Rightarrow> kv_key \<Rightarrow> bool" where
  "clean s k \<longleftrightarrow> (\<forall>seg \<in> set k. s \<notin> set seg)"

text \<open>\<open>None\<close> is the panic on a segment that contains the separator.\<close>

definition kv_encode :: "char \<Rightarrow> kv_key \<Rightarrow> string option" where
  "kv_encode s k = (if \<exists>seg \<in> set k. s \<in> set seg then None else Some (join_on s k))"

definition kv_decode :: "char \<Rightarrow> string \<Rightarrow> kv_key" where
  "kv_decode s b = split_on s b"

definition Key_String :: "kv_key \<Rightarrow> string" where
  "Key_String k = join_on (CHR '':'') k"

section \<open>The store interface\<close>

datatype kv_error = KeyNotFound | InvalidDeadline | ContextDone | OutsidePrefix kv_key

datatype 'a res = Val 'a | Err kv_error | Panics

record call_env =
  ce_ctx :: "kv_error option"
  ce_now :: int

record kv_entry =
  ekey :: kv_key
  evalue :: "byte list"
  edeadline :: "int option"

text \<open>
  The items an iteration of \<open>List\<close> yields are errors or entries.  \<open>sListAfter\<close> is the optional
  method \<open>ListAfter\<close>, absent when the store does not implement \<open>listAfterStore\<close>.
\<close>

record 's store =
  sGet :: "call_env \<Rightarrow> 's \<Rightarrow> kv_key \<Rightarrow> byte list res \<times> 's"
  sSet :: "call_env \<Rightarrow> 's \<Rightarrow> kv_key \<Rightarrow> byte list \<Rightarrow> unit res \<times> 's"
  sDelete :: "call_env \<Rightarrow> 's \<Rightarrow> kv_key \<Rightarrow> unit res \<times> 's"
  sList :: "call_env \<Rightarrow> 's \<Rightarrow> kv_key \<Rightarrow> (kv_error + kv_entry) list res"
  sBatchSet :: "call_env \<Rightarrow> 's \<Rightarrow> kv_entry list \<Rightarrow> unit res \<times> 's"
  sBatchDelete :: "call_env \<Rightarrow> 's \<Rightarrow> kv_key list \<Rightarrow> unit res \<times> 's"
  sListAfter :: "(call_env \<Rightarrow> 's \<Rightarrow> kv_key \<Rightarrow> kv_key \<Rightarrow> int \<Rightarrow> kv_entry list res) option"

text \<open>
  The paging loop over an iteration: it skips entries up to \<open>after\<close>, stops at an error, and stops
  once \<open>limit\<close> entries are collected.
\<close>

fun page_loop ::
  "kv_key \<Rightarrow> int \<Rightarrow> kv_entry list \<Rightarrow> (kv_error + kv_entry) list \<Rightarrow> kv_entry list res" where
  "page_loop after limit acc [] = Val acc"
| "page_loop after limit acc (Inl e # items) = Err e"
| "page_loop after limit acc (Inr e # items) =
     (if after \<noteq> [] \<and> Key_String (ekey e) \<le> Key_String after
      then page_loop after limit acc items
      else if limit \<le> int (length (acc @ [e])) then Val (acc @ [e])
      else page_loop after limit (acc @ [e]) items)"

definition ListAfter ::
  "call_env \<Rightarrow> 's store \<Rightarrow> 's \<Rightarrow> kv_key \<Rightarrow> kv_key \<Rightarrow> int \<Rightarrow> kv_entry list res" where
  "ListAfter env St s prefix after limit =
     (if limit \<le> 0 then Val []
      else case ce_ctx env of
        Some e \<Rightarrow> Err e
      | None \<Rightarrow>
          case sListAfter St of
            Some pager \<Rightarrow> pager env s prefix after limit
          | None \<Rightarrow>
              case sList St env s prefix of
                Val items \<Rightarrow> page_loop after limit [] items
              | Err e \<Rightarrow> Err e
              | Panics \<Rightarrow> Panics)"

section \<open>The in-memory store\<close>

record memory_entry =
  mvalue :: "byte list"
  mexpiresAt :: "int option"

record kv_memory =
  mdata :: "(string \<times> memory_entry) list"
  mopts :: "char option"

definition NewMemory :: "char option \<Rightarrow> kv_memory" where
  "NewMemory opts = \<lparr>mdata = [], mopts = opts\<rparr>"

definition entry_expired :: "memory_entry \<Rightarrow> int \<Rightarrow> bool" where
  "entry_expired e t = (case mexpiresAt e of None \<Rightarrow> False | Some d \<Rightarrow> d \<le> t)"

definition mem_Get :: "call_env \<Rightarrow> kv_memory \<Rightarrow> kv_key \<Rightarrow> byte list res \<times> kv_memory" where
  "mem_Get env m key =
     (case ce_ctx env of
        Some e \<Rightarrow> (Err e, m)
      | None \<Rightarrow>
          case kv_encode (opt_sep (mopts m)) key of
            None \<Rightarrow> (Panics, m)
          | Some k \<Rightarrow>
              case map_of (mdata m) k of
                None \<Rightarrow> (Err KeyNotFound, m)
              | Some e \<Rightarrow>
                  if entry_expired e (ce_now env)
                  then (Err KeyNotFound, m\<lparr>mdata := AList.delete k (mdata m)\<rparr>)
                  else (Val (mvalue e), m))"

definition mem_Set :: "call_env \<Rightarrow> kv_memory \<Rightarrow> kv_key \<Rightarrow> byte list \<Rightarrow> unit res \<times> kv_memory" where
  "mem_Set env m key value =
     (case ce_ctx env of
        Some e \<Rightarrow> (Err e, m)
      | None \<Rightarrow>
          case kv_encode (opt_sep (mopts m)) key of
            None \<Rightarrow> (Panics, m)
          | Some k \<Rightarrow>
              (Val (), m\<lparr>mdata := AList.update k \<lparr>mvalue = value, mexpiresAt = None\<rparr> (mdata m)\<rparr>))"

definition mem_Delete :: "call_env \<Rightarrow> kv_memory \<Rightarrow> kv_key \<Rightarrow> unit res \<times> kv_memory" where
  "mem_Delete env m key =
     (case ce_ctx env of
        Some e \<Rightarrow> (Err e, m)
      | None \<Rightarrow>
          case kv_encode (opt_sep (mopts m)) key of
            None \<Rightarrow> (Panics, m)
          | Some k \<Rightarrow> (Val (), m\<lparr>mdata := AList.delete k (mdata m)\<rparr>))"

definition has_prefix :: "'a list \<Rightarrow> 'a list \<Rightarrow> bool" where
  "has_prefix xs p \<longleftrightarrow> take (length p) xs = p"

definition mem_matches :: "kv_memory \<Rightarrow> int \<Rightarrow> string \<Rightarrow> (string \<times> memory_entry) list" where
  "mem_matches m t prefixBytes =
     filter (\<lambda>(k, e). \<not> entry_expired e t \<and> (prefixBytes = [] \<or> has_prefix k prefixBytes)) (mdata m)"

definition mem_List :: "call_env \<Rightarrow> kv_memory \<Rightarrow> kv_key \<Rightarrow> (kv_error + kv_entry) list res" where
  "mem_List env m prefix =
     (case ce_ctx env of
        Some e \<Rightarrow> Val [Inl e]
      | None \<Rightarrow>
          case kv_encode (opt_sep (mopts m)) prefix of
            None \<Rightarrow> Panics
          | Some p \<Rightarrow>
              let pb = (if p \<noteq> [] then p @ [opt_sep (mopts m)] else [])
              in Val (map (\<lambda>(k, e). Inr \<lparr>ekey = kv_decode (opt_sep (mopts m)) k, evalue = mvalue e,
                        edeadline = None\<rparr>)
                   (sort_key fst (mem_matches m (ce_now env) pb))))"

definition mem_ListAfter ::
  "call_env \<Rightarrow> kv_memory \<Rightarrow> kv_key \<Rightarrow> kv_key \<Rightarrow> int \<Rightarrow> kv_entry list res" where
  "mem_ListAfter env m prefix after limit =
     (if limit \<le> 0 then Val []
      else case ce_ctx env of
        Some e \<Rightarrow> Err e
      | None \<Rightarrow>
          case mem_List env m prefix of
            Val items \<Rightarrow> page_loop after limit [] items
          | Err e \<Rightarrow> Err e
          | Panics \<Rightarrow> Panics)"

text \<open>The first loop of \<open>BatchSet\<close>, which checks and encodes every entry before any is stored.\<close>

fun batch_prepare ::
  "char \<Rightarrow> int \<Rightarrow> kv_entry list \<Rightarrow> (string \<times> memory_entry) list res" where
  "batch_prepare s t [] = Val []"
| "batch_prepare s t (e # es) =
     (if (case edeadline e of None \<Rightarrow> False | Some d \<Rightarrow> d \<le> t) then Err InvalidDeadline
      else case kv_encode s (ekey e) of
          None \<Rightarrow> Panics
        | Some k \<Rightarrow>
            case batch_prepare s t es of
              Val ps \<Rightarrow> Val ((k, \<lparr>mvalue = evalue e, mexpiresAt = edeadline e\<rparr>) # ps)
            | Err x \<Rightarrow> Err x
            | Panics \<Rightarrow> Panics)"

definition mem_BatchSet :: "call_env \<Rightarrow> kv_memory \<Rightarrow> kv_entry list \<Rightarrow> unit res \<times> kv_memory" where
  "mem_BatchSet env m entries =
     (case ce_ctx env of
        Some e \<Rightarrow> (Err e, m)
      | None \<Rightarrow>
          case batch_prepare (opt_sep (mopts m)) (ce_now env) entries of
            Val ps \<Rightarrow> (Val (), m\<lparr>mdata := fold (\<lambda>(k, e). AList.update k e) ps (mdata m)\<rparr>)
          | Err x \<Rightarrow> (Err x, m)
          | Panics \<Rightarrow> (Panics, m))"

text \<open>A panic in \<open>BatchDelete\<close> leaves the keys before the offending one deleted.\<close>

fun batch_delete_loop :: "kv_memory \<Rightarrow> kv_key list \<Rightarrow> unit res \<times> kv_memory" where
  "batch_delete_loop m [] = (Val (), m)"
| "batch_delete_loop m (key # ks) =
     (case kv_encode (opt_sep (mopts m)) key of
        None \<Rightarrow> (Panics, m)
      | Some k \<Rightarrow> batch_delete_loop (m\<lparr>mdata := AList.delete k (mdata m)\<rparr>) ks)"

definition mem_BatchDelete :: "call_env \<Rightarrow> kv_memory \<Rightarrow> kv_key list \<Rightarrow> unit res \<times> kv_memory" where
  "mem_BatchDelete env m ks =
     (case ce_ctx env of Some e \<Rightarrow> (Err e, m) | None \<Rightarrow> batch_delete_loop m ks)"

definition Memory :: "kv_memory store" where
  "Memory = \<lparr>sGet = mem_Get, sSet = mem_Set, sDelete = mem_Delete, sList = mem_List,
     sBatchSet = mem_BatchSet, sBatchDelete = mem_BatchDelete, sListAfter = Some mem_ListAfter\<rparr>"

section \<open>The prefixed view\<close>

fun has_key_prefix :: "kv_key \<Rightarrow> kv_key \<Rightarrow> bool" where
  "has_key_prefix key [] = True"
| "has_key_prefix [] (p # ps) = False"
| "has_key_prefix (k # ks) (p # ps) \<longleftrightarrow> k = p \<and> has_key_prefix ks ps"

definition localKey :: "kv_key \<Rightarrow> kv_key \<Rightarrow> kv_error + kv_key" where
  "localKey prefix key =
     (if has_key_prefix key prefix then Inr (drop (length prefix) key) else Inl (OutsidePrefix key))"

definition local_item :: "kv_key \<Rightarrow> kv_error + kv_entry \<Rightarrow> kv_error + kv_entry" where
  "local_item prefix item =
     (case item of
        Inl e \<Rightarrow> Inl e
      | Inr e \<Rightarrow> (case localKey prefix (ekey e) of Inl x \<Rightarrow> Inl x | Inr k \<Rightarrow> Inr (e\<lparr>ekey := k\<rparr>)))"

definition pre_List ::
  "'s store \<Rightarrow> kv_key \<Rightarrow> call_env \<Rightarrow> 's \<Rightarrow> kv_key \<Rightarrow> (kv_error + kv_entry) list res" where
  "pre_List base prefix env s p =
     (case sList base env s (prefix @ p) of
        Val items \<Rightarrow> Val (map (local_item prefix) items) | Err e \<Rightarrow> Err e | Panics \<Rightarrow> Panics)"

fun localize :: "kv_key \<Rightarrow> kv_entry list \<Rightarrow> kv_entry list res" where
  "localize prefix [] = Val []"
| "localize prefix (e # es) =
     (case localKey prefix (ekey e) of
        Inl x \<Rightarrow> Err x
      | Inr k \<Rightarrow>
          case localize prefix es of
            Val rs \<Rightarrow> Val (e\<lparr>ekey := k\<rparr> # rs) | Err x \<Rightarrow> Err x | Panics \<Rightarrow> Panics)"

definition pre_ListAfter ::
  "'s store \<Rightarrow> kv_key \<Rightarrow> call_env \<Rightarrow> 's \<Rightarrow> kv_key \<Rightarrow> kv_key \<Rightarrow> int \<Rightarrow> kv_entry list res" where
  "pre_ListAfter base prefix env s p after limit =
     (case ListAfter env base s (prefix @ p) (if after \<noteq> [] then prefix @ after else []) limit of
        Val es \<Rightarrow> localize prefix es | Err e \<Rightarrow> Err e | Panics \<Rightarrow> Panics)"

definition Prefixed :: "'s store \<Rightarrow> kv_key \<Rightarrow> 's store" where
  "Prefixed base prefix =
     \<lparr>sGet = (\<lambda>env s k. sGet base env s (prefix @ k)),
      sSet = (\<lambda>env s k v. sSet base env s (prefix @ k) v),
      sDelete = (\<lambda>env s k. sDelete base env s (prefix @ k)),
      sList = pre_List base prefix,
      sBatchSet = (\<lambda>env s es. sBatchSet base env s
        (map (\<lambda>e. \<lparr>ekey = prefix @ ekey e, evalue = evalue e, edeadline = edeadline e\<rparr>) es)),
      sBatchDelete = (\<lambda>env s ks. sBatchDelete base env s (map (\<lambda>k. prefix @ k) ks)),
      sListAfter = Some (pre_ListAfter base prefix)\<rparr>"

section \<open>Encoded keys\<close>

lemma split_on_append: "split_on s (xs @ s # ys) = split_on s xs @ split_on s ys"
  by (induction xs) (auto split: list.split)

lemma clean_simps [simp]:
  "clean s []" "clean s (x # k) \<longleftrightarrow> s \<notin> set x \<and> clean s k"
  "clean s (k @ l) \<longleftrightarrow> clean s k \<and> clean s l"
  by (auto simp: clean_def)

lemma kv_encode_clean: "clean s k \<Longrightarrow> kv_encode s k = Some (join_on s k)"
  by (auto simp: kv_encode_def clean_def)

lemma kv_encode_unclean: "\<not> clean s k \<Longrightarrow> kv_encode s k = None"
  by (auto simp: kv_encode_def clean_def)

lemma kv_decode_join [simp]: "clean s k \<Longrightarrow> k \<noteq> [] \<Longrightarrow> kv_decode s (join_on s k) = k"
  by (simp add: kv_decode_def clean_def split_join)

lemma join_kv_decode [simp]: "join_on s (kv_decode s b) = b"
  by (simp add: kv_decode_def join_split)

lemma clean_kv_decode [simp]: "clean s (kv_decode s b)" "kv_decode s b \<noteq> []"
  by (auto simp: kv_decode_def clean_def dest: split_on_sep_free)

lemma join_eq_Nil: "join_on s p = [] \<longleftrightarrow> p = [] \<or> p = [[]]"
  by (cases p rule: list.exhaust; cases "tl p") auto

lemma has_prefix_append: "has_prefix xs p \<longleftrightarrow> (\<exists>ys. xs = p @ ys)"
  unfolding has_prefix_def by (metis append_eq_conv_conj append_take_drop_id)

lemma encoded_prefix:
  assumes "p \<noteq> []" "clean s p"
  shows "has_prefix b (join_on s p @ [s]) \<longleftrightarrow> (\<exists>x xs. kv_decode s b = p @ x # xs)"
proof
  assume "has_prefix b (join_on s p @ [s])"
  then obtain ys where b: "b = join_on s p @ s # ys" by (auto simp: has_prefix_append)
  have "split_on s (join_on s p) = p" using assms by (simp add: clean_def split_join)
  then have "kv_decode s b = p @ split_on s ys" by (simp add: b kv_decode_def split_on_append)
  then show "\<exists>x xs. kv_decode s b = p @ x # xs" by (metis list.exhaust split_on_not_Nil)
next
  assume "\<exists>x xs. kv_decode s b = p @ x # xs"
  then obtain x xs where "kv_decode s b = p @ x # xs" by blast
  then have "b = join_on s p @ s # join_on s (x # xs)"
    using join_kv_decode [of s b] assms(1) join_on_append [of p "x # xs" s] by simp
  then show "has_prefix b (join_on s p @ [s])" by (simp add: has_prefix_append)
qed

lemma append_le_cancel: "(xs @ a \<le> xs @ b) = (a \<le> (b :: 'a :: linorder list))"
  by (induction xs) auto

lemma join_le_cancel:
  assumes "k \<noteq> []" "l \<noteq> []"
  shows "(join_on (s :: 'a :: linorder) (p @ k) \<le> join_on s (p @ l)) = (join_on s k \<le> join_on s l)"
proof (cases "p = []")
  case False
  then show ?thesis using assms by (simp add: join_on_append append_le_cancel)
qed simp

section \<open>What a client relies on\<close>

text \<open>
  \<open>view t s\<close> is the map of live entries at time \<open>t\<close>.  The laws are for calls with clean non-empty
  keys and a context that is not done; a prefix whose encoding is empty (\<open>[""]\<close>) is left out,
  since \<open>List\<close> takes it for no prefix at all.
\<close>

definition under :: "kv_key \<Rightarrow> kv_key \<Rightarrow> bool" where
  "under p k \<longleftrightarrow> (\<exists>x xs. k = p @ x # xs)"

definition listed :: "kv_entry list \<Rightarrow> kv_key \<Rightarrow> byte list \<Rightarrow> bool" where
  "listed es k v \<longleftrightarrow> (\<exists>e \<in> set es. ekey e = k \<and> evalue e = v)"

definition put_entry ::
  "kv_entry \<Rightarrow> (kv_key \<Rightarrow> byte list option) \<Rightarrow> kv_key \<Rightarrow> byte list option" where
  "put_entry e f = f(ekey e \<mapsto> evalue e)"

locale kv_store =
  fixes St :: "'s store"
    and sep :: char
    and inv :: "'s \<Rightarrow> bool"
    and view :: "int \<Rightarrow> 's \<Rightarrow> kv_key \<Rightarrow> byte list option"
  assumes view_clean: "inv s \<Longrightarrow> view t s k = Some v \<Longrightarrow> clean sep k \<and> k \<noteq> []"
    and get_law: "inv s \<Longrightarrow> clean sep k \<Longrightarrow> k \<noteq> [] \<Longrightarrow> ce_ctx env = None \<Longrightarrow>
      fst (sGet St env s k) = (case view (ce_now env) s k of None \<Rightarrow> Err KeyNotFound | Some v \<Rightarrow> Val v) \<and>
      inv (snd (sGet St env s k)) \<and>
      (\<forall>t \<ge> ce_now env. view t (snd (sGet St env s k)) = view t s)"
    and set_law: "inv s \<Longrightarrow> clean sep k \<Longrightarrow> k \<noteq> [] \<Longrightarrow> ce_ctx env = None \<Longrightarrow>
      fst (sSet St env s k v) = Val () \<and> inv (snd (sSet St env s k v)) \<and>
      view t (snd (sSet St env s k v)) = (view t s)(k \<mapsto> v)"
    and delete_law: "inv s \<Longrightarrow> clean sep k \<Longrightarrow> k \<noteq> [] \<Longrightarrow> ce_ctx env = None \<Longrightarrow>
      fst (sDelete St env s k) = Val () \<and> inv (snd (sDelete St env s k)) \<and>
      view t (snd (sDelete St env s k)) = (view t s)(k := None)"
    and list_law: "inv s \<Longrightarrow> clean sep p \<Longrightarrow> p \<noteq> [[]] \<Longrightarrow> ce_ctx env = None \<Longrightarrow>
      \<exists>es. sList St env s p = Val (map Inr es) \<and>
        sorted_wrt (\<lambda>e f. join_on sep (ekey e) < join_on sep (ekey f)) es \<and>
        (\<forall>k v. listed es k v \<longleftrightarrow> view (ce_now env) s k = Some v \<and> under p k)"
    and batch_set_law: "inv s \<Longrightarrow> \<forall>e \<in> set es. clean sep (ekey e) \<and> ekey e \<noteq> [] \<and> edeadline e = None \<Longrightarrow>
      ce_ctx env = None \<Longrightarrow>
      fst (sBatchSet St env s es) = Val () \<and> inv (snd (sBatchSet St env s es)) \<and>
      view t (snd (sBatchSet St env s es)) = fold put_entry es (view t s)"
    and batch_delete_law: "inv s \<Longrightarrow> \<forall>k \<in> set ks. clean sep k \<and> k \<noteq> [] \<Longrightarrow> ce_ctx env = None \<Longrightarrow>
      fst (sBatchDelete St env s ks) = Val () \<and> inv (snd (sBatchDelete St env s ks)) \<and>
      view t (snd (sBatchDelete St env s ks)) = (\<lambda>k. if k \<in> set ks then None else view t s k)"
begin

lemma get_after_set:
  assumes "inv s" "clean sep k" "k \<noteq> []" "ce_ctx env = None"
  shows "fst (sGet St env (snd (sSet St env s k v)) k) = Val v"
  using set_law [OF assms, of v] get_law [of "snd (sSet St env s k v)" k env] assms by simp

lemma get_after_set_other:
  assumes "inv s" "clean sep k" "k \<noteq> []" "clean sep l" "l \<noteq> []" "k \<noteq> l" "ce_ctx env = None"
  shows "fst (sGet St env (snd (sSet St env s k v)) l) = fst (sGet St env s l)"
  using set_law [OF assms(1,2,3,7), of v] get_law [of "snd (sSet St env s k v)" l env]
    get_law [of s l env] assms by simp

end

section \<open>The in-memory store keeps the contract\<close>

definition mem_inv :: "char \<Rightarrow> kv_memory \<Rightarrow> bool" where
  "mem_inv s m \<longleftrightarrow> distinct (map fst (mdata m)) \<and> opt_sep (mopts m) = s"

definition mem_live :: "int \<Rightarrow> kv_memory \<Rightarrow> string \<Rightarrow> byte list option" where
  "mem_live t m b = (case map_of (mdata m) b of None \<Rightarrow> None
     | Some e \<Rightarrow> if entry_expired e t then None else Some (mvalue e))"

definition mem_view :: "char \<Rightarrow> int \<Rightarrow> kv_memory \<Rightarrow> kv_key \<Rightarrow> byte list option" where
  "mem_view s t m k = (if clean s k \<and> k \<noteq> [] then mem_live t m (join_on s k) else None)"

lemma join_inj:
  assumes "clean s k" "k \<noteq> []" "clean s l" "l \<noteq> []"
  shows "join_on s k = join_on s l \<longleftrightarrow> k = l"
  using assms by (metis kv_decode_join)

lemma mem_live_update:
  "mem_live t (m\<lparr>mdata := AList.update b e (mdata m)\<rparr>) =
     (mem_live t m)(b := (if entry_expired e t then None else Some (mvalue e)))"
  by (auto simp: mem_live_def update_conv')

lemma mem_live_delete:
  "mem_live t (m\<lparr>mdata := AList.delete b (mdata m)\<rparr>) = (mem_live t m)(b := None)"
  by (auto simp: mem_live_def delete_conv')

lemma mem_inv_update [simp]:
  "mem_inv s m \<Longrightarrow> mem_inv s (m\<lparr>mdata := AList.update b e (mdata m)\<rparr>)"
  "mem_inv s m \<Longrightarrow> mem_inv s (m\<lparr>mdata := AList.delete b (mdata m)\<rparr>)"
  by (simp_all add: mem_inv_def distinct_update distinct_delete)

lemma mem_view_upd:
  assumes "clean s k" "k \<noteq> []"
  shows "mem_live t m' = (mem_live t m)(join_on s k := x) \<Longrightarrow> mem_view s t m' = (mem_view s t m)(k := x)"
  using assms by (auto simp: mem_view_def fun_eq_iff join_inj)

lemma mem_Get_law:
  assumes "mem_inv s m" "clean s k" "k \<noteq> []" "ce_ctx env = None"
  shows "fst (mem_Get env m k) =
      (case mem_view s (ce_now env) m k of None \<Rightarrow> Err KeyNotFound | Some v \<Rightarrow> Val v)"
    and "mem_inv s (snd (mem_Get env m k))"
    and "ce_now env \<le> t \<Longrightarrow> mem_view s t (snd (mem_Get env m k)) = mem_view s t m"
proof -
  have s: "opt_sep (mopts m) = s" using assms(1) by (simp add: mem_inv_def)
  show "fst (mem_Get env m k) =
      (case mem_view s (ce_now env) m k of None \<Rightarrow> Err KeyNotFound | Some v \<Rightarrow> Val v)"
    using assms by (auto simp: mem_Get_def s kv_encode_clean mem_view_def mem_live_def split: option.split)
  show "mem_inv s (snd (mem_Get env m k))"
    using assms by (auto simp: mem_Get_def s kv_encode_clean split: option.split)
  assume t: "ce_now env \<le> t"
  have x: "mem_live t (m\<lparr>mdata := AList.delete (join_on s k) (mdata m)\<rparr>) = mem_live t m"
    if "map_of (mdata m) (join_on s k) = Some e" "entry_expired e (ce_now env)" for e
  proof -
    have "entry_expired e t" using that(2) t by (auto simp: entry_expired_def split: option.splits)
    then show ?thesis using that(1) unfolding mem_live_delete by (auto simp: mem_live_def)
  qed
  show "mem_view s t (snd (mem_Get env m k)) = mem_view s t m"
    using assms by (auto simp: mem_Get_def s kv_encode_clean mem_view_def fun_eq_iff x split: option.split)
qed

lemma batch_prepare_clean:
  assumes "\<forall>e \<in> set es. clean s (ekey e) \<and> ekey e \<noteq> [] \<and> edeadline e = None"
  shows "batch_prepare s t es =
    Val (map (\<lambda>e. (join_on s (ekey e), \<lparr>mvalue = evalue e, mexpiresAt = None\<rparr>)) es)"
  using assms by (induction es) (auto simp: kv_encode_clean)

lemma fold_update_view:
  assumes "mem_inv s m" "\<forall>e \<in> set es. clean s (ekey e) \<and> ekey e \<noteq> []"
  defines "ps \<equiv> map (\<lambda>e. (join_on s (ekey e), \<lparr>mvalue = evalue e, mexpiresAt = None\<rparr>)) es"
  shows "mem_inv s (m\<lparr>mdata := fold (\<lambda>(k, e). AList.update k e) ps (mdata m)\<rparr>) \<and>
    mem_view s t (m\<lparr>mdata := fold (\<lambda>(k, e). AList.update k e) ps (mdata m)\<rparr>)
      = fold put_entry es (mem_view s t m)"
  using assms(1,2) unfolding ps_def
proof (induction es arbitrary: m)
  case (Cons e es)
  let ?m = "m\<lparr>mdata := AList.update (join_on s (ekey e)) \<lparr>mvalue = evalue e, mexpiresAt = None\<rparr> (mdata m)\<rparr>"
  have "mem_view s t ?m = put_entry e (mem_view s t m)"
    unfolding put_entry_def
    by (rule mem_view_upd) (use Cons.prems in \<open>simp_all add: mem_live_update entry_expired_def\<close>)
  moreover have "mem_inv s ?m" using Cons.prems by simp
  ultimately show ?case using Cons.IH [of ?m] Cons.prems by simp
qed simp

lemma batch_delete_view:
  assumes "mem_inv s m" "\<forall>k \<in> set ks. clean s k \<and> k \<noteq> []"
  shows "fst (batch_delete_loop m ks) = Val () \<and> mem_inv s (snd (batch_delete_loop m ks)) \<and>
    mem_view s t (snd (batch_delete_loop m ks)) = (\<lambda>k. if k \<in> set ks then None else mem_view s t m k)"
  using assms
proof (induction ks arbitrary: m)
  case (Cons k ks)
  let ?m = "m\<lparr>mdata := AList.delete (join_on s k) (mdata m)\<rparr>"
  have "opt_sep (mopts m) = s" using Cons.prems by (simp add: mem_inv_def)
  moreover have "mem_view s t ?m = (mem_view s t m)(k := None)"
    by (rule mem_view_upd) (use Cons.prems in \<open>simp_all add: mem_live_delete\<close>)
  moreover have "mem_inv s ?m" using Cons.prems by simp
  ultimately show ?case using Cons.IH [of ?m] Cons.prems by (auto simp: kv_encode_clean)
qed simp

lemma mem_List_law:
  assumes "mem_inv s m" "clean s p" "p \<noteq> [[]]" "ce_ctx env = None"
  shows "\<exists>es. mem_List env m p = Val (map Inr es) \<and>
    sorted_wrt (\<lambda>e f. join_on s (ekey e) < join_on s (ekey f)) es \<and>
    (\<forall>k v. listed es k v \<longleftrightarrow> mem_view s (ce_now env) m k = Some v \<and> under p k)"
proof -
  have s: "opt_sep (mopts m) = s" and d: "distinct (map fst (mdata m))"
    using assms(1) by (simp_all add: mem_inv_def)
  let ?t = "ce_now env"
  define pb where "pb = (if join_on s p \<noteq> [] then join_on s p @ [s] else [])"
  define ms where "ms = sort_key fst (mem_matches m ?t pb)"
  define f :: "string \<times> memory_entry \<Rightarrow> kv_entry" where "f = (\<lambda>(k, e). \<lparr>ekey = kv_decode s k, evalue = mvalue e, edeadline = None\<rparr>)"
  have L: "mem_List env m p = Val (map Inr (map f ms))"
    using assms by (simp add: mem_List_def s kv_encode_clean Let_def pb_def ms_def f_def comp_def
        case_prod_unfold)
  have fk: "join_on s (ekey (f x)) = fst x" for x by (simp add: f_def case_prod_unfold)
  have pbu: "pb = [] \<or> has_prefix b pb \<longleftrightarrow> under p (kv_decode s b)" for b
  proof (cases "p = []")
    case True
    then show ?thesis
      by (auto simp: pb_def under_def intro: list.exhaust [of "kv_decode s b"])
  next
    case False
    then show ?thesis using assms(2,3) encoded_prefix [of p s b] join_eq_Nil [of s p]
      by (auto simp: pb_def under_def)
  qed
  have el: "(b, e) \<in> set ms \<longleftrightarrow> (b, e) \<in> set (mdata m) \<and> \<not> entry_expired e ?t \<and> under p (kv_decode s b)" for b e
    using pbu [of b] by (auto simp: ms_def mem_matches_def)
  have "sorted (map fst ms)" by (simp add: ms_def)
  moreover have "distinct (map fst ms)"
    using d by (auto simp: ms_def mem_matches_def distinct_map intro: inj_on_subset)
  ultimately have "sorted_wrt (<) (map fst ms)" by (simp add: strict_sorted_iff)
  then have so: "sorted_wrt (\<lambda>e g. join_on s (ekey e) < join_on s (ekey g)) (map f ms)"
    by (simp add: sorted_wrt_map fk)
  have "listed (map f ms) k v \<longleftrightarrow> mem_view s ?t m k = Some v \<and> under p k" for k v
  proof
    assume "listed (map f ms) k v"
    then obtain b e where be: "(b, e) \<in> set ms" "kv_decode s b = k" "mvalue e = v"
      by (auto simp: listed_def f_def)
    then have "map_of (mdata m) b = Some e" "\<not> entry_expired e ?t" "under p k"
      using el d by (auto intro: map_of_is_SomeI)
    with be show "mem_view s ?t m k = Some v \<and> under p k"
      by (auto simp: mem_view_def mem_live_def)
  next
    assume r: "mem_view s ?t m k = Some v \<and> under p k"
    then obtain e where e: "map_of (mdata m) (join_on s k) = Some e" "\<not> entry_expired e ?t" "mvalue e = v"
      and k: "kv_decode s (join_on s k) = k"
      by (auto simp: mem_view_def mem_live_def split: if_splits option.splits)
    then have "(join_on s k, e) \<in> set ms" using el r map_of_SomeD by simp
    then show "listed (map f ms) k v" using e k
      by (force simp: listed_def f_def)
  qed
  with L so show ?thesis by blast
qed

interpretation memory: kv_store Memory s "mem_inv s" "mem_view s" for s
proof
  fix m k t v es ks and env :: call_env
  show "clean s k \<and> k \<noteq> []" if "mem_view s t m k = Some v"
    using that by (simp add: mem_view_def split: if_splits)
  assume i: "mem_inv s m"
  then have sp: "opt_sep (mopts m) = s" by (simp add: mem_inv_def)
  assume c: "ce_ctx env = None"
  show "\<exists>es. sList Memory env m k = Val (map Inr es) \<and>
      sorted_wrt (\<lambda>e f. join_on s (ekey e) < join_on s (ekey f)) es \<and>
      (\<forall>l v. listed es l v \<longleftrightarrow> mem_view s (ce_now env) m l = Some v \<and> under k l)"
    if "clean s k" "k \<noteq> [[]]"
    using mem_List_law [OF i that c] by (simp add: Memory_def)
  show "fst (sBatchSet Memory env m es) = Val () \<and> mem_inv s (snd (sBatchSet Memory env m es)) \<and>
      mem_view s t (snd (sBatchSet Memory env m es)) = fold put_entry es (mem_view s t m)"
    if "\<forall>e \<in> set es. clean s (ekey e) \<and> ekey e \<noteq> [] \<and> edeadline e = None"
    using that c fold_update_view [OF i, of es t]
    by (simp add: Memory_def mem_BatchSet_def sp batch_prepare_clean)
  show "fst (sBatchDelete Memory env m ks) = Val () \<and> mem_inv s (snd (sBatchDelete Memory env m ks)) \<and>
      mem_view s t (snd (sBatchDelete Memory env m ks)) = (\<lambda>k. if k \<in> set ks then None else mem_view s t m k)"
    if "\<forall>k \<in> set ks. clean s k \<and> k \<noteq> []"
    using batch_delete_view [OF i that] c by (simp add: Memory_def mem_BatchDelete_def)
  assume k: "clean s k" "k \<noteq> []"
  show "fst (sGet Memory env m k) =
      (case mem_view s (ce_now env) m k of None \<Rightarrow> Err KeyNotFound | Some v \<Rightarrow> Val v) \<and>
      mem_inv s (snd (sGet Memory env m k)) \<and>
      (\<forall>t \<ge> ce_now env. mem_view s t (snd (sGet Memory env m k)) = mem_view s t m)"
    using mem_Get_law [OF i k c] by (simp add: Memory_def)
  show "fst (sSet Memory env m k v) = Val () \<and> mem_inv s (snd (sSet Memory env m k v)) \<and>
      mem_view s t (snd (sSet Memory env m k v)) = (mem_view s t m)(k \<mapsto> v)"
    using i c k mem_view_upd [OF k]
    by (simp add: Memory_def mem_Set_def sp kv_encode_clean mem_live_update entry_expired_def)
  show "fst (sDelete Memory env m k) = Val () \<and> mem_inv s (snd (sDelete Memory env m k)) \<and>
      mem_view s t (snd (sDelete Memory env m k)) = (mem_view s t m)(k := None)"
    using i c k mem_view_upd [OF k]
    by (simp add: Memory_def mem_Delete_def sp kv_encode_clean mem_live_delete)
qed

section \<open>A prefixed view of a store is a store\<close>

lemma has_key_prefix_append [simp]: "has_key_prefix (p @ k) p"
  by (induction p) auto

lemma localKey_append [simp]: "localKey p (p @ k) = Inr k"
  by (simp add: localKey_def)

lemma fold_shift_keys:
  assumes "\<forall>e \<in> set es. ekey e \<noteq> []"
  shows "(\<lambda>k. if k = [] then None else fold put_entry
      (map (\<lambda>e. \<lparr>ekey = p @ ekey e, evalue = evalue e, edeadline = edeadline e\<rparr>) es) f (p @ k))
    = fold put_entry es (\<lambda>k. if k = [] then None else f (p @ k))"
  using assms
proof (induction es arbitrary: f)
  case (Cons e es)
  let ?G = "\<lambda>e. \<lparr>ekey = p @ ekey e, evalue = evalue e, edeadline = edeadline e\<rparr>"
  have u: "(\<lambda>k. if k = [] then None else put_entry (?G e) f (p @ k))
      = put_entry e (\<lambda>k. if k = [] then None else f (p @ k))"
    using Cons.prems by (auto simp: fun_eq_iff put_entry_def)
  have "\<forall>e \<in> set es. ekey e \<noteq> []" using Cons.prems by simp
  from Cons.IH [OF this, of "put_entry (?G e) f"] show ?case
    unfolding u by (simp cong: if_cong)
qed (simp cong: if_cong)

context kv_store
begin

lemma prefixed_list:
  assumes "inv s" "clean sep pre" "pre \<noteq> [[]]" "clean sep p" "p \<noteq> [[]]" "ce_ctx env = None"
  shows "\<exists>es. pre_List St pre env s p = Val (map Inr es) \<and>
    sorted_wrt (\<lambda>e f. join_on sep (ekey e) < join_on sep (ekey f)) es \<and>
    (\<forall>k v. listed es k v \<longleftrightarrow> view (ce_now env) s (pre @ k) = Some v \<and> under p k)"
proof -
  have "pre @ p \<noteq> [[]]" using assms(3,5) by (cases pre) auto
  then obtain es where L: "sList St env s (pre @ p) = Val (map Inr es)"
    and so: "sorted_wrt (\<lambda>e f. join_on sep (ekey e) < join_on sep (ekey f)) es"
    and el: "\<And>k v. listed es k v \<longleftrightarrow> view (ce_now env) s k = Some v \<and> under (pre @ p) k"
    using list_law [of s "pre @ p" env] assms by auto
  define loc :: "kv_entry \<Rightarrow> kv_entry" where "loc e = e\<lparr>ekey := drop (length pre) (ekey e)\<rparr>" for e
  have key: "\<exists>x xs. ekey e = pre @ p @ x # xs" if "e \<in> set es" for e
    using el [of "ekey e" "evalue e"] that by (auto simp: listed_def under_def)
  have item: "local_item pre (Inr e) = Inr (loc e)" if "e \<in> set es" for e
    using key [OF that] by (auto simp: local_item_def loc_def)
  then have "map (local_item pre) (map Inr es) = map Inr (map loc es)" by simp
  with L have "pre_List St pre env s p = Val (map Inr (map loc es))" by (simp add: pre_List_def)
  moreover have "sorted_wrt (\<lambda>e f. join_on sep (ekey e) < join_on sep (ekey f)) (map loc es)"
    unfolding sorted_wrt_map
  proof (rule sorted_wrt_mono_rel [OF _ so])
    fix e f assume m: "e \<in> set es" "f \<in> set es" and lt: "join_on sep (ekey e) < join_on sep (ekey f)"
    obtain k where k: "ekey e = pre @ k" "k \<noteq> []" using key [OF m(1)] by blast
    obtain l where l: "ekey f = pre @ l" "l \<noteq> []" using key [OF m(2)] by blast
    show "join_on sep (ekey (loc e)) < join_on sep (ekey (loc f))"
      using lt join_le_cancel [OF l(2) k(2), of sep pre] by (simp add: k l loc_def not_le [symmetric])
  qed
  moreover have "listed (map loc es) k v \<longleftrightarrow> view (ce_now env) s (pre @ k) = Some v \<and> under p k" for k v
  proof -
    have "listed (map loc es) k v \<longleftrightarrow> listed es (pre @ k) v"
    proof
      assume "listed (map loc es) k v"
      then obtain e where e: "e \<in> set es" "ekey (loc e) = k" "evalue e = v"
        by (auto simp: listed_def loc_def)
      then have "ekey e = pre @ k" using key [OF e(1)] by (auto simp: loc_def)
      then show "listed es (pre @ k) v" using e by (auto simp: listed_def)
    next
      assume "listed es (pre @ k) v"
      then show "listed (map loc es) k v" by (force simp: listed_def loc_def)
    qed
    moreover have "under (pre @ p) (pre @ k) \<longleftrightarrow> under p k" by (simp add: under_def)
    ultimately show ?thesis using el by simp
  qed
  ultimately show ?thesis by blast
qed

lemma prefixed_store:
  assumes pre: "clean sep pre" "pre \<noteq> [[]]"
  shows "kv_store (Prefixed St pre) sep inv (\<lambda>t s k. if k = [] then None else view t s (pre @ k))"
proof
  fix s k v t es ks and env :: call_env
  assume i: "inv s"
  show "clean sep k \<and> k \<noteq> []" if "(if k = [] then None else view t s (pre @ k)) = Some v"
    using view_clean [OF i, of t "pre @ k" v] that by (auto split: if_splits)
  assume c: "ce_ctx env = None"
  show "\<exists>es. sList (Prefixed St pre) env s k = Val (map Inr es) \<and>
      sorted_wrt (\<lambda>e f. join_on sep (ekey e) < join_on sep (ekey f)) es \<and>
      (\<forall>l v. listed es l v \<longleftrightarrow>
        (if l = [] then None else view (ce_now env) s (pre @ l)) = Some v \<and> under k l)"
    if "clean sep k" "k \<noteq> [[]]"
    using prefixed_list [OF i pre that c] by (auto simp: Prefixed_def under_def)
  show "fst (sBatchSet (Prefixed St pre) env s es) = Val () \<and> inv (snd (sBatchSet (Prefixed St pre) env s es)) \<and>
      (\<lambda>k. if k = [] then None else view t (snd (sBatchSet (Prefixed St pre) env s es)) (pre @ k)) =
        fold put_entry es (\<lambda>k. if k = [] then None else view t s (pre @ k))"
    if es: "\<forall>e \<in> set es. clean sep (ekey e) \<and> ekey e \<noteq> [] \<and> edeadline e = None"
  proof -
    let ?es = "map (\<lambda>e. \<lparr>ekey = pre @ ekey e, evalue = evalue e, edeadline = edeadline e\<rparr>) es"
    have "\<forall>e \<in> set ?es. clean sep (ekey e) \<and> ekey e \<noteq> [] \<and> edeadline e = None" using es pre by auto
    from batch_set_law [OF i this c, of t] fold_shift_keys [of es pre "view t s"]
    show ?thesis using es by (simp add: Prefixed_def cong: if_cong)
  qed
  show "fst (sBatchDelete (Prefixed St pre) env s ks) = Val () \<and> inv (snd (sBatchDelete (Prefixed St pre) env s ks)) \<and>
      (\<lambda>k. if k = [] then None else view t (snd (sBatchDelete (Prefixed St pre) env s ks)) (pre @ k)) =
        (\<lambda>k. if k \<in> set ks then None else if k = [] then None else view t s (pre @ k))"
    if ks: "\<forall>k \<in> set ks. clean sep k \<and> k \<noteq> []"
  proof -
    have "\<forall>k \<in> set (map (\<lambda>k. pre @ k) ks). clean sep k \<and> k \<noteq> []" using ks pre by auto
    from batch_delete_law [OF i this c, of t] show ?thesis
      by (auto simp: Prefixed_def fun_eq_iff)
  qed
  assume k: "clean sep k" "k \<noteq> []"
  then have pk: "clean sep (pre @ k)" "pre @ k \<noteq> []" using pre by simp_all
  show "fst (sGet (Prefixed St pre) env s k) =
      (case if k = [] then None else view (ce_now env) s (pre @ k) of None \<Rightarrow> Err KeyNotFound | Some v \<Rightarrow> Val v) \<and>
      inv (snd (sGet (Prefixed St pre) env s k)) \<and>
      (\<forall>t \<ge> ce_now env. (\<lambda>l. if l = [] then None else view t (snd (sGet (Prefixed St pre) env s k)) (pre @ l))
        = (\<lambda>l. if l = [] then None else view t s (pre @ l)))"
    using get_law [OF i pk c] k by (simp add: Prefixed_def cong: if_cong)
  show "fst (sSet (Prefixed St pre) env s k v) = Val () \<and> inv (snd (sSet (Prefixed St pre) env s k v)) \<and>
      (\<lambda>l. if l = [] then None else view t (snd (sSet (Prefixed St pre) env s k v)) (pre @ l))
        = (\<lambda>l. if l = [] then None else view t s (pre @ l))(k \<mapsto> v)"
    using set_law [OF i pk c, of v t] k by (simp add: Prefixed_def fun_eq_iff)
  show "fst (sDelete (Prefixed St pre) env s k) = Val () \<and> inv (snd (sDelete (Prefixed St pre) env s k)) \<and>
      (\<lambda>l. if l = [] then None else view t (snd (sDelete (Prefixed St pre) env s k)) (pre @ l))
        = (\<lambda>l. if l = [] then None else view t s (pre @ l))(k := None)"
    using delete_law [OF i pk c, of t] k by (simp add: Prefixed_def fun_eq_iff)
qed

end

section \<open>Paging\<close>

definition after_key :: "kv_key \<Rightarrow> kv_entry \<Rightarrow> bool" where
  "after_key after e \<longleftrightarrow> after = [] \<or> Key_String after < Key_String (ekey e)"

lemma page_loop_result:
  assumes "int (length acc) < limit"
  shows "page_loop after limit acc (map Inr es) =
    Val (acc @ take (nat limit - length acc) (filter (after_key after) es))"
  using assms
proof (induction es arbitrary: acc)
  case (Cons e es)
  have sk: "(after \<noteq> [] \<and> Key_String (ekey e) \<le> Key_String after) = (\<not> after_key after e)"
    by (auto simp: after_key_def not_le)
  have p: "nat limit - length acc = Suc (nat limit - length (acc @ [e]))" using Cons.prems by simp
  show ?case
  proof (cases "after_key after e \<and> \<not> limit \<le> int (length (acc @ [e]))")
    case True
    then have "int (length (acc @ [e])) < limit" by simp
    from Cons.IH [OF this] show ?thesis using True unfolding p by (simp add: sk)
  next
    case False
    then show ?thesis using Cons.IH [OF Cons.prems] unfolding p by (auto simp: sk)
  qed
qed simp

lemma mem_ListAfter_result:
  assumes "0 < limit" "ce_ctx env = None" "mem_List env m p = Val (map Inr es)"
  shows "ListAfter env Memory m p after limit = Val (take (nat limit) (filter (after_key after) es))"
  using assms page_loop_result [of "[]" limit after es]
  by (simp add: ListAfter_def Memory_def mem_ListAfter_def)

text \<open>What an entry of a batch reads as at time \<open>t\<close>.\<close>

definition value_at :: "int \<Rightarrow> kv_entry \<Rightarrow> byte list option" where
  "value_at t e = (case edeadline e of None \<Rightarrow> Some (evalue e)
     | Some d \<Rightarrow> if d \<le> t then None else Some (evalue e))"

definition live_value :: "int \<Rightarrow> memory_entry \<Rightarrow> byte list option" where
  "live_value t e = (if entry_expired e t then None else Some (mvalue e))"

lemma live_value_at: "live_value t \<lparr>mvalue = evalue e, mexpiresAt = edeadline e\<rparr> = value_at t e"
  by (simp add: live_value_def value_at_def entry_expired_def split: option.split)

lemma batch_prepare_result:
  assumes "batch_prepare s now es = Val ps"
  shows "(\<forall>e \<in> set es. clean s (ekey e)) \<and>
    fold (\<lambda>p f. f(fst p := live_value t (snd p))) ps f =
    fold (\<lambda>e f. f(join_on s (ekey e) := value_at t e)) es f"
  using assms
proof (induction es arbitrary: ps f)
  case (Cons e es)
  then obtain qs where qs: "batch_prepare s now es = Val qs"
    and ps: "ps = (join_on s (ekey e), \<lparr>mvalue = evalue e, mexpiresAt = edeadline e\<rparr>) # qs"
    and c: "clean s (ekey e)"
    by (auto simp: kv_encode_def clean_def split: if_splits res.splits option.splits)
  show ?case using Cons.IH [OF qs] c by (simp add: ps live_value_at cong: if_cong)
qed simp

lemma mem_live_fold:
  "mem_live t (m\<lparr>mdata := fold (\<lambda>(b, e). AList.update b e) ps (mdata m)\<rparr>) =
     fold (\<lambda>p f. f(fst p := live_value t (snd p))) ps (mem_live t m)"
proof (induction ps arbitrary: m)
  case (Cons p ps)
  obtain b e where p: "p = (b, e)" by fastforce
  have "mem_live t (m\<lparr>mdata := AList.update b e (mdata m)\<rparr>) = (mem_live t m)(b := live_value t e)"
    by (simp add: mem_live_update live_value_def)
  then show ?case
    using Cons.IH [of "m\<lparr>mdata := AList.update b e (mdata m)\<rparr>"] by (simp add: p cong: if_cong)
qed simp

section \<open>Properties\<close>

text \<open>
  C35: Encoding and decoding keys are inverse to each other: a key encodes exactly to the string that
  decodes to it (the empty key, which encodes like the key of one empty segment, is the only
  exception), and encoding panics exactly when a segment contains the separator.
\<close>

theorem key_encoding_exact:
  "(kv_encode s k = Some b \<longleftrightarrow> kv_decode s b = k \<or> (k = [] \<and> b = [])) \<and>
   (kv_encode s k = None \<longleftrightarrow> (\<exists>seg \<in> set k. s \<in> set seg))"
proof -
  have "kv_encode s k = Some b \<longleftrightarrow> clean s k \<and> b = join_on s k"
    by (auto simp: kv_encode_def clean_def)
  moreover have "clean s k \<and> b = join_on s k \<longleftrightarrow> kv_decode s b = k \<or> (k = [] \<and> b = [])"
    by (cases "k = []") (auto simp: clean_kv_decode)
  ultimately show ?thesis by (auto simp: kv_encode_def)
qed

text \<open>
  C33: \<open>List\<close> is exact, on the in-memory store and on any prefixed view of it: the iteration yields
  no error, is strictly ordered by encoded key, and contains a key with a value exactly when the
  base store holds that unexpired entry strictly below the prefix.
\<close>

theorem list_exact:
  assumes "mem_inv s m" and "clean s pre" and "pre \<noteq> [[]]" and "clean s p" and "p \<noteq> [[]]"
    and "ce_ctx env = None"
  shows "(\<exists>es. sList Memory env m p = Val (map Inr es) \<and>
      sorted_wrt (\<lambda>e f. join_on s (ekey e) < join_on s (ekey f)) es \<and>
      (\<forall>k v. listed es k v \<longleftrightarrow> mem_view s (ce_now env) m k = Some v \<and> under p k)) \<and>
    (\<exists>es. sList (Prefixed Memory pre) env m p = Val (map Inr es) \<and>
      sorted_wrt (\<lambda>e f. join_on s (ekey e) < join_on s (ekey f)) es \<and>
      (\<forall>k v. listed es k v \<longleftrightarrow> mem_view s (ce_now env) m (pre @ k) = Some v \<and> under p k))"
  using memory.list_law [OF assms(1,4,5,6)] memory.prefixed_list [OF assms]
  by (simp add: Prefixed_def)

definition demo_env :: call_env where
  "demo_env = \<lparr>ce_ctx = None, ce_now = 10\<rparr>"

definition demo_memory :: kv_memory where
  "demo_memory = \<lparr>mdata = [(''b'', \<lparr>mvalue = [1], mexpiresAt = None\<rparr>),
     (''a:c'', \<lparr>mvalue = [2], mexpiresAt = Some 5\<rparr>), (''a:b'', \<lparr>mvalue = [3], mexpiresAt = Some 20\<rparr>)],
     mopts = None\<rparr>"

lemma demo_memory_inv: "mem_inv (CHR '':'') demo_memory"
  by (simp add: mem_inv_def demo_memory_def opt_sep_def DefaultSeparator_def)

theorem list_exact_witness:
  "\<exists>es. sList Memory demo_env demo_memory [''a''] = Val (map Inr es) \<and> listed es [''a'', ''b''] [3] \<and>
     \<not> listed es [''a'', ''c''] [2]"
proof -
  obtain es where es: "sList Memory demo_env demo_memory [''a''] = Val (map Inr es)"
    and l: "\<forall>k v. listed es k v \<longleftrightarrow>
      mem_view (CHR '':'') (ce_now demo_env) demo_memory k = Some v \<and> under [''a''] k"
    using list_exact [OF demo_memory_inv, of "[]" "[''a'']" demo_env]
    by (auto simp: demo_env_def)
  have "listed es [''a'', ''b''] [3]" "\<not> listed es [''a'', ''c''] [2]"
    using l by (simp_all add: mem_view_def mem_live_def demo_memory_def entry_expired_def demo_env_def under_def)
  with es show ?thesis by blast
qed

text \<open>
  C34: Views with incomparable prefixes are isolated: what is written or deleted through one is read
  back through it and changes nothing that the other reads.
\<close>

theorem prefixed_views_isolated:
  assumes "mem_inv s m" and "clean s p" and "clean s q" and "p \<noteq> [[]]" and "q \<noteq> [[]]"
    and "\<forall>k l. p @ k \<noteq> q @ l"
    and "clean s k" and "k \<noteq> []" and "clean s l" and "l \<noteq> []" and "ce_ctx env = None"
  shows "fst (sGet (Prefixed Memory p) env (snd (sSet (Prefixed Memory p) env m k v)) k) = Val v \<and>
    fst (sGet (Prefixed Memory q) env (snd (sSet (Prefixed Memory p) env m k v)) l)
      = fst (sGet (Prefixed Memory q) env m l) \<and>
    fst (sGet (Prefixed Memory p) env (snd (sDelete (Prefixed Memory p) env m k)) k) = Err KeyNotFound \<and>
    fst (sGet (Prefixed Memory q) env (snd (sDelete (Prefixed Memory p) env m k)) l)
      = fst (sGet (Prefixed Memory q) env m l)"
proof -
  have pk: "clean s (p @ k)" "p @ k \<noteq> []" and ql: "clean s (q @ l)" "q @ l \<noteq> []" and ne: "p @ k \<noteq> q @ l"
    using assms by simp_all
  note D = memory.delete_law [OF assms(1) pk assms(11)]
  have "fst (sGet Memory env (snd (sDelete Memory env m (p @ k))) (p @ k)) = Err KeyNotFound"
    using memory.get_law [OF _ pk assms(11), of "snd (sDelete Memory env m (p @ k))"] D by simp
  moreover have "fst (sGet Memory env (snd (sDelete Memory env m (p @ k))) (q @ l)) = fst (sGet Memory env m (q @ l))"
    using memory.get_law [OF _ ql assms(11), of "snd (sDelete Memory env m (p @ k))"] D
      memory.get_law [OF assms(1) ql assms(11)] ne by simp
  ultimately show ?thesis
    using memory.get_after_set [OF assms(1) pk assms(11)]
      memory.get_after_set_other [OF assms(1) pk ql ne assms(11)]
    by (simp add: Prefixed_def)
qed

theorem prefixed_views_isolated_witness:
  "fst (sGet (Prefixed Memory [''a'']) demo_env (snd (sSet (Prefixed Memory [''b'']) demo_env demo_memory [''b''] [9])) [''b''])
     = Val [3]"
proof -
  have "fst (sGet (Prefixed Memory [''a'']) demo_env (snd (sSet (Prefixed Memory [''b'']) demo_env demo_memory [''b''] [9])) [''b''])
     = fst (sGet (Prefixed Memory [''a'']) demo_env demo_memory [''b''])"
    using prefixed_views_isolated [OF demo_memory_inv, of "[''b'']" "[''a'']" "[''b'']" "[''b'']" demo_env "[9]"]
    by (simp add: demo_env_def)
  also have "\<dots> = Val [3]"
    by (simp add: Prefixed_def Memory_def mem_Get_def demo_memory_def demo_env_def opt_sep_def
        DefaultSeparator_def kv_encode_def entry_expired_def)
  finally show ?thesis .
qed

text \<open>
  \<open>BatchSet\<close> is all or nothing: unless it succeeds the store is unchanged, and after a success
  every entry is live exactly until its deadline, later entries of the batch winning.
\<close>

theorem batch_set_atomic:
  "case mem_BatchSet env m es of
     (Val _, m') \<Rightarrow> ce_ctx env = None \<and> list_all (\<lambda>e. clean (opt_sep (mopts m)) (ekey e)) es \<and>
       mem_live t m' =
         fold (\<lambda>e f. f(join_on (opt_sep (mopts m)) (ekey e) := value_at t e)) es (mem_live t m)
   | (_, m') \<Rightarrow> m' = m"
proof (cases "fst (mem_BatchSet env m es) = Val ()")
  case True
  then obtain ps where ps: "batch_prepare (opt_sep (mopts m)) (ce_now env) es = Val ps"
    and r: "mem_BatchSet env m es = (Val (), m\<lparr>mdata := fold (\<lambda>(k, e). AList.update k e) ps (mdata m)\<rparr>)"
    and c: "ce_ctx env = None"
    by (auto simp: mem_BatchSet_def split: option.splits res.splits)
  show ?thesis using c batch_prepare_result [OF ps] mem_live_fold [of t ps m] unfolding r
    by (simp add: list_all_iff)
next
  case False
  then show ?thesis
    by (auto simp: mem_BatchSet_def split: option.splits res.splits)
qed

text \<open>
  With the default separator paging is complete: \<open>ListAfter\<close> the key of any listed entry returns
  exactly the next \<open>limit\<close> entries of the full listing.
\<close>

theorem paging_resumes:
  assumes "mem_inv DefaultSeparator m" and "clean DefaultSeparator p" and "p \<noteq> [[]]"
    and "ce_ctx env = None" and "0 < limit" and "mem_List env m p = Val (map Inr (xs @ e # ys))"
  shows "ListAfter env Memory m p (ekey e) limit = Val (take (nat limit) ys)"
proof -
  obtain es where L: "mem_List env m p = Val (map Inr es)"
    and so: "sorted_wrt (\<lambda>e f. join_on DefaultSeparator (ekey e) < join_on DefaultSeparator (ekey f)) es"
    and el: "\<forall>k v. listed es k v \<longleftrightarrow> mem_view DefaultSeparator (ce_now env) m k = Some v \<and> under p k"
    using mem_List_law [OF assms(1,2,3,4)] by blast
  have "map Inr es = (map Inr (xs @ e # ys) :: (kv_error + kv_entry) list)" using L assms(6) by simp
  then have es: "es = xs @ e # ys" by (simp add: inj_map_eq_map del: map_append)
  have "listed es (ekey e) (evalue e)" by (auto simp: es listed_def)
  then have ne: "ekey e \<noteq> []" using el by (auto simp: under_def)
  have "filter (after_key (ekey e)) es = ys"
    using so ne unfolding es
    by (auto simp: sorted_wrt_append after_key_def Key_String_def DefaultSeparator_def
        filter_empty_conv intro: filter_True dest: less_asym)
  then show ?thesis using mem_ListAfter_result [OF assms(5,4) L] by simp
qed

theorem paging_resumes_witness:
  "ListAfter demo_env Memory demo_memory [] [''a'', ''b''] 5 =
     Val [\<lparr>ekey = [''b''], evalue = [1], edeadline = None\<rparr>]"
proof -
  have "mem_List demo_env demo_memory [] = Val (map Inr ([] @
      \<lparr>ekey = [''a'', ''b''], evalue = [3], edeadline = None\<rparr> #
      [\<lparr>ekey = [''b''], evalue = [1], edeadline = None\<rparr>]))"
    by (simp add: mem_List_def demo_env_def kv_encode_def opt_sep_def DefaultSeparator_def
        demo_memory_def mem_matches_def entry_expired_def kv_decode_def less_eq_char_def)
  from paging_resumes [OF _ _ _ _ _ this, of 5] show ?thesis
    using demo_memory_inv by (simp add: DefaultSeparator_def demo_env_def)
qed

text \<open>
  With another separator paging loses entries: \<open>ListAfter\<close> compares keys joined with a colon
  whatever the store's separator, so the page after the first of two entries comes back empty.
\<close>

theorem paging_loses_entries:
  "\<exists>m. mem_inv (CHR ''/'') m \<and>
     ListAfter demo_env Memory m [] [] 1 = Val [\<lparr>ekey = [''a'', ''b''], evalue = [1], edeadline = None\<rparr>] \<and>
     ListAfter demo_env Memory m [] [''a'', ''b''] 1 = Val [] \<and>
     fst (sGet Memory demo_env m [''a0'']) = Val [2]"
proof -
  let ?m = "\<lparr>mdata = [(''a/b'', \<lparr>mvalue = [1], mexpiresAt = None\<rparr>),
    (''a0'', \<lparr>mvalue = [2], mexpiresAt = None\<rparr>)], mopts = Some (CHR ''/'')\<rparr>"
  have s: "opt_sep (Some (CHR ''/'')) = CHR ''/''" by (simp add: opt_sep_def)
  have "mem_inv (CHR ''/'') ?m" by (simp add: mem_inv_def s)
  moreover have "mem_List demo_env ?m [] = Val (map Inr
      [\<lparr>ekey = [''a'', ''b''], evalue = [1], edeadline = None\<rparr>,
       \<lparr>ekey = [''a0''], evalue = [2], edeadline = None\<rparr>])"
    by (simp add: mem_List_def demo_env_def kv_encode_def s mem_matches_def entry_expired_def
        kv_decode_def less_eq_char_def)
  from mem_ListAfter_result [OF _ _ this, of 1] have
    "ListAfter demo_env Memory ?m [] [] 1 = Val [\<lparr>ekey = [''a'', ''b''], evalue = [1], edeadline = None\<rparr>]"
    "ListAfter demo_env Memory ?m [] [''a'', ''b''] 1 = Val []"
    by (simp_all add: demo_env_def after_key_def Key_String_def less_char_def)
  moreover have "fst (sGet Memory demo_env ?m [''a0'']) = Val [2]"
    by (simp add: Memory_def mem_Get_def demo_env_def kv_encode_def s entry_expired_def)
  ultimately show ?thesis by blast
qed

end
