(* ===== verification/KVGraph.thy ===== *)
theory KVGraph
  imports KVStore
begin

text \<open>
  \<open>pkg/store/graph/kvgraph.go\<close>: an entity-relation graph over a key-value store, with a forward
  and a reverse index entry for every relation.  A graph is its configuration; its data is the
  state of the store it is given.  The specification is a set of relations and a map of entities;
  the lemmas are proved over the contract \<open>kv_store\<close> and hold for every store that keeps it.
  JSON encoding of attributes is a parameter.
\<close>

section \<open>The code\<close>

text \<open>Attributes are a Go map, or nil; \<open>'j\<close> stands for JSON values.\<close>

type_synonym 'j attrs = "(string \<Rightarrow> 'j option) option"

record 'j json =
  j_marshal :: "'j attrs \<Rightarrow> byte list option"
  j_unmarshal :: "byte list \<Rightarrow> 'j attrs option"

record 'j entity =
  elabel :: string
  eattrs :: "'j attrs"

record relation =
  rfrom :: string
  rto :: string
  rtype :: string

datatype graph_error = EntityNotFound | InvalidLabel | StoreError kv_error | JSONError

datatype 'a gres = GVal 'a | GErr graph_error | GPanics

record 's graph =
  gstore :: "'s store"
  gprefix :: kv_key
  gsep :: char

definition NewKVGraph :: "'s store \<Rightarrow> kv_key \<Rightarrow> char list \<Rightarrow> 's graph" where
  "NewKVGraph st prefix seps = \<lparr>gstore = st, gprefix = prefix,
     gsep = (case seps of [] \<Rightarrow> DefaultSeparator | s # _ \<Rightarrow> s)\<rparr>"

text \<open>
  \<open>validateSegments\<close> converts the separator, a byte, to a string: the UTF-8 encoding of the code point
  with that number, which is two bytes from 128 on.
\<close>

definition string_of_byte :: "char \<Rightarrow> string" where
  "string_of_byte c =
     (let n = of_char c :: nat
      in if n < 128 then [c] else [char_of (192 + n div 64), char_of (128 + n mod 64)])"

fun strings_Contains :: "string \<Rightarrow> string \<Rightarrow> bool" where
  "strings_Contains [] sub \<longleftrightarrow> sub = []"
| "strings_Contains (c # s) sub \<longleftrightarrow> take (length sub) (c # s) = sub \<or> strings_Contains s sub"

definition validateSegments :: "'s graph \<Rightarrow> string list \<Rightarrow> bool" where
  "validateSegments g segs \<longleftrightarrow> (\<forall>s \<in> set segs. \<not> strings_Contains s (string_of_byte (gsep g)))"

definition entityKey :: "'s graph \<Rightarrow> string \<Rightarrow> kv_key" where
  "entityKey g l = gprefix g @ [''e'', l]"

definition entityPrefix :: "'s graph \<Rightarrow> kv_key" where
  "entityPrefix g = gprefix g @ [''e'']"

definition fwdKey :: "'s graph \<Rightarrow> string \<Rightarrow> string \<Rightarrow> string \<Rightarrow> kv_key" where
  "fwdKey g from relType to = gprefix g @ [''r'', from, relType, to]"

definition fwdPrefix :: "'s graph \<Rightarrow> string \<Rightarrow> kv_key" where
  "fwdPrefix g from = gprefix g @ [''r'', from]"

definition revKey :: "'s graph \<Rightarrow> string \<Rightarrow> string \<Rightarrow> string \<Rightarrow> kv_key" where
  "revKey g to relType from = gprefix g @ [''ri'', to, relType, from]"

definition revPrefix :: "'s graph \<Rightarrow> string \<Rightarrow> kv_key" where
  "revPrefix g to = gprefix g @ [''ri'', to]"

fun lift_res :: "'a res \<Rightarrow> 'a gres" where
  "lift_res (Val x) = GVal x"
| "lift_res (Err e) = GErr (StoreError e)"
| "lift_res Panics = GPanics"

definition GetEntity ::
  "'j json \<Rightarrow> 's graph \<Rightarrow> call_env \<Rightarrow> 's \<Rightarrow> string \<Rightarrow> 'j entity gres \<times> 's" where
  "GetEntity J g env s label =
     (if \<not> validateSegments g [label] then (GErr InvalidLabel, s)
      else let (r, s1) = sGet (gstore g) env s (entityKey g label)
        in (case r of
              Err KeyNotFound \<Rightarrow> GErr EntityNotFound
            | Err e \<Rightarrow> GErr (StoreError e)
            | Panics \<Rightarrow> GPanics
            | Val data \<Rightarrow>
                if data = [] then GVal \<lparr>elabel = label, eattrs = None\<rparr>
                else case j_unmarshal J data of
                    None \<Rightarrow> GErr JSONError
                  | Some a \<Rightarrow> GVal \<lparr>elabel = label, eattrs = a\<rparr>, s1))"

definition SetEntity ::
  "'j json \<Rightarrow> 's graph \<Rightarrow> call_env \<Rightarrow> 's \<Rightarrow> 'j entity \<Rightarrow> unit gres \<times> 's" where
  "SetEntity J g env s e =
     (if \<not> validateSegments g [elabel e] then (GErr InvalidLabel, s)
      else case j_marshal J (eattrs e) of
          None \<Rightarrow> (GErr JSONError, s)
        | Some data \<Rightarrow>
            let (r, s1) = sSet (gstore g) env s (entityKey g (elabel e)) data in (lift_res r, s1))"

definition MergeAttrs ::
  "'j json \<Rightarrow> 's graph \<Rightarrow> call_env \<Rightarrow> 's \<Rightarrow> string \<Rightarrow> (string \<Rightarrow> 'j option) \<Rightarrow> unit gres \<times> 's" where
  "MergeAttrs J g env s label new =
     (if \<not> validateSegments g [label] then (GErr InvalidLabel, s)
      else case GetEntity J g env s label of
          (GErr e, s1) \<Rightarrow> (GErr e, s1)
        | (GPanics, s1) \<Rightarrow> (GPanics, s1)
        | (GVal e, s1) \<Rightarrow>
            let old = (case eattrs e of None \<Rightarrow> Map.empty | Some m \<Rightarrow> m)
            in SetEntity J g env s1 (e\<lparr>eattrs := Some (old ++ new)\<rparr>))"

definition AddRelation :: "'s graph \<Rightarrow> call_env \<Rightarrow> 's \<Rightarrow> relation \<Rightarrow> unit gres \<times> 's" where
  "AddRelation g env s r =
     (if \<not> validateSegments g [rfrom r, rto r, rtype r] then (GErr InvalidLabel, s)
      else let (x, s1) = sBatchSet (gstore g) env s
          [\<lparr>ekey = fwdKey g (rfrom r) (rtype r) (rto r), evalue = [], edeadline = None\<rparr>,
           \<lparr>ekey = revKey g (rto r) (rtype r) (rfrom r), evalue = [], edeadline = None\<rparr>]
        in (lift_res x, s1))"

definition RemoveRelation ::
  "'s graph \<Rightarrow> call_env \<Rightarrow> 's \<Rightarrow> string \<Rightarrow> string \<Rightarrow> string \<Rightarrow> unit gres \<times> 's" where
  "RemoveRelation g env s from to relType =
     (if \<not> validateSegments g [from, to, relType] then (GErr InvalidLabel, s)
      else let (x, s1) = sBatchDelete (gstore g) env s [fwdKey g from relType to, revKey g to relType from]
        in (lift_res x, s1))"

text \<open>
  A scan over an iteration of \<open>List\<close>: it stops at the first error, and \<open>pick\<close> says what an entry
  contributes, if anything.
\<close>

fun scan_items :: "(kv_key \<Rightarrow> 'b option) \<Rightarrow> (kv_error + kv_entry) list \<Rightarrow> 'b list gres" where
  "scan_items pick [] = GVal []"
| "scan_items pick (Inl e # items) = GErr (StoreError e)"
| "scan_items pick (Inr e # items) =
     (case scan_items pick items of
        GVal xs \<Rightarrow> GVal (case pick (ekey e) of None \<Rightarrow> xs | Some x \<Rightarrow> x # xs)
      | r \<Rightarrow> r)"

definition scan_store ::
  "'s graph \<Rightarrow> call_env \<Rightarrow> 's \<Rightarrow> kv_key \<Rightarrow> (kv_key \<Rightarrow> 'b option) \<Rightarrow> 'b list gres" where
  "scan_store g env s p pick =
     (case sList (gstore g) env s p of
        Val items \<Rightarrow> scan_items pick items | Err e \<Rightarrow> GErr (StoreError e) | Panics \<Rightarrow> GPanics)"

definition fwd_relation :: "nat \<Rightarrow> kv_key \<Rightarrow> relation option" where
  "fwd_relation plen k =
     (if length k \<noteq> plen + 4 then None
      else Some \<lparr>rfrom = k ! (plen + 1), rto = k ! (plen + 3), rtype = k ! (plen + 2)\<rparr>)"

definition rev_relation :: "nat \<Rightarrow> string \<Rightarrow> kv_key \<Rightarrow> relation option" where
  "rev_relation plen label k =
     (if length k \<noteq> plen + 4 then None
      else if k ! (plen + 3) = label then None
      else Some \<lparr>rfrom = k ! (plen + 3), rto = k ! (plen + 1), rtype = k ! (plen + 2)\<rparr>)"

definition Relations :: "'s graph \<Rightarrow> call_env \<Rightarrow> 's \<Rightarrow> string \<Rightarrow> relation list gres" where
  "Relations g env s label =
     (if \<not> validateSegments g [label] then GErr InvalidLabel
      else case scan_store g env s (fwdPrefix g label) (fwd_relation (length (gprefix g))) of
          GVal xs \<Rightarrow>
            (case scan_store g env s (revPrefix g label) (rev_relation (length (gprefix g)) label) of
               GVal ys \<Rightarrow> GVal (xs @ ys) | r \<Rightarrow> r)
        | r \<Rightarrow> r)"

definition DeleteEntity :: "'s graph \<Rightarrow> call_env \<Rightarrow> 's \<Rightarrow> string \<Rightarrow> unit gres \<times> 's" where
  "DeleteEntity g env s label =
     (if \<not> validateSegments g [label] then (GErr InvalidLabel, s)
      else case Relations g env s label of
          GErr e \<Rightarrow> (GErr e, s)
        | GPanics \<Rightarrow> (GPanics, s)
        | GVal rels \<Rightarrow>
            let (x, s1) = sBatchDelete (gstore g) env s
              (entityKey g label # concat (map (\<lambda>r. [fwdKey g (rfrom r) (rtype r) (rto r),
                 revKey g (rto r) (rtype r) (rfrom r)]) rels))
            in (lift_res x, s1))"

definition has_string_prefix :: "string \<Rightarrow> string \<Rightarrow> bool" where
  "has_string_prefix s p \<longleftrightarrow> length p \<le> length s \<and> take (length p) s = p"

text \<open>Items of \<open>ListEntities\<close>: an undecodable entity yields an error and the scan goes on.\<close>

fun entity_items ::
  "'j json \<Rightarrow> string \<Rightarrow> (kv_error + kv_entry) list \<Rightarrow> (graph_error + 'j entity) list" where
  "entity_items J p [] = []"
| "entity_items J p (Inl e # items) = [Inl (StoreError e)]"
| "entity_items J p (Inr e # items) =
     (let label = last (ekey e) in
        if p \<noteq> [] \<and> \<not> has_string_prefix label p then entity_items J p items
        else (if evalue e = [] then Inr \<lparr>elabel = label, eattrs = None\<rparr>
              else case j_unmarshal J (evalue e) of
                  None \<Rightarrow> Inl JSONError
                | Some a \<Rightarrow> Inr \<lparr>elabel = label, eattrs = a\<rparr>) # entity_items J p items)"

definition ListEntities ::
  "'j json \<Rightarrow> 's graph \<Rightarrow> call_env \<Rightarrow> 's \<Rightarrow> string \<Rightarrow> (graph_error + 'j entity) list gres" where
  "ListEntities J g env s p =
     (case sList (gstore g) env s (entityPrefix g) of
        Val items \<Rightarrow> GVal (entity_items J p items) | Err e \<Rightarrow> GErr (StoreError e) | Panics \<Rightarrow> GPanics)"

definition neighbor :: "nat \<Rightarrow> string list \<Rightarrow> kv_key \<Rightarrow> string option" where
  "neighbor plen relTypes k =
     (if length k \<noteq> plen + 4 then None
      else if relTypes \<noteq> [] \<and> k ! (plen + 2) \<notin> set relTypes then None
      else Some (k ! (plen + 3)))"

text \<open>The map \<open>seen\<close> is the list of labels found, which is sorted without duplicates at the end.\<close>

definition Neighbors :: "'s graph \<Rightarrow> call_env \<Rightarrow> 's \<Rightarrow> string \<Rightarrow> string list \<Rightarrow> string list gres" where
  "Neighbors g env s label relTypes =
     (if \<not> validateSegments g [label] then GErr InvalidLabel
      else if \<not> validateSegments g relTypes then GErr InvalidLabel
      else case scan_store g env s (fwdPrefix g label) (neighbor (length (gprefix g)) relTypes) of
          GVal xs \<Rightarrow>
            (case scan_store g env s (revPrefix g label) (neighbor (length (gprefix g)) relTypes) of
               GVal ys \<Rightarrow> GVal (sort (remdups (xs @ ys))) | r \<Rightarrow> r)
        | r \<Rightarrow> r)"

fun visit_all :: "string list \<Rightarrow> string list \<Rightarrow> string list \<Rightarrow> string list \<times> string list" where
  "visit_all visited nexts [] = (visited, nexts)"
| "visit_all visited nexts (n # ns) =
     (if n \<in> set visited then visit_all visited nexts ns
      else visit_all (n # visited) (nexts @ [n]) ns)"

fun expand_level ::
  "'s graph \<Rightarrow> call_env \<Rightarrow> 's \<Rightarrow> string list \<Rightarrow> string list \<Rightarrow> string list
     \<Rightarrow> (string list \<times> string list) gres" where
  "expand_level g env s visited nexts [] = GVal (visited, nexts)"
| "expand_level g env s visited nexts (label # frontier) =
     (case Neighbors g env s label [] of
        GVal ns \<Rightarrow> let (visited1, nexts1) = visit_all visited nexts ns
          in expand_level g env s visited1 nexts1 frontier
      | GErr e \<Rightarrow> GErr e
      | GPanics \<Rightarrow> GPanics)"

fun expand_loop ::
  "'s graph \<Rightarrow> call_env \<Rightarrow> 's \<Rightarrow> nat \<Rightarrow> string list \<Rightarrow> string list \<Rightarrow> string list gres" where
  "expand_loop g env s 0 visited frontier = GVal visited"
| "expand_loop g env s (Suc hops) visited frontier =
     (if frontier = [] then GVal visited
      else case expand_level g env s visited [] frontier of
          GVal (visited1, nexts) \<Rightarrow> expand_loop g env s hops visited1 nexts
        | GErr e \<Rightarrow> GErr e
        | GPanics \<Rightarrow> GPanics)"

definition Expand :: "'s graph \<Rightarrow> call_env \<Rightarrow> 's \<Rightarrow> string list \<Rightarrow> int \<Rightarrow> string list gres" where
  "Expand g env s labels hops =
     (if \<not> validateSegments g labels then GErr InvalidLabel
      else case expand_loop g env s (nat hops) (remdups labels) labels of
          GVal visited \<Rightarrow> GVal (sort visited) | GErr e \<Rightarrow> GErr e | GPanics \<Rightarrow> GPanics)"

section \<open>The graph a store holds\<close>

definition holds :: "'s graph \<Rightarrow> (kv_key \<Rightarrow> byte list option) \<Rightarrow> relation set" where
  "holds g V = {r. V (fwdKey g (rfrom r) (rtype r) (rto r)) \<noteq> None}"

definition indexed :: "'s graph \<Rightarrow> (kv_key \<Rightarrow> byte list option) \<Rightarrow> bool" where
  "indexed g V \<longleftrightarrow> (\<forall>f t r. (V (fwdKey g f r t) \<noteq> None) = (V (revKey g t r f) \<noteq> None))"

definition incident :: "relation \<Rightarrow> string \<Rightarrow> bool" where
  "incident r l \<longleftrightarrow> rfrom r = l \<or> rto r = l"

definition edges :: "relation set \<Rightarrow> string list \<Rightarrow> (string \<times> string) set" where
  "edges R types = {(a, b). \<exists>r \<in> R. (types = [] \<or> rtype r \<in> set types) \<and>
     ((rfrom r = a \<and> rto r = b) \<or> (rto r = a \<and> rfrom r = b))}"

lemmas graph_keys = entityKey_def entityPrefix_def fwdKey_def fwdPrefix_def revKey_def revPrefix_def

lemma graph_key_eq [simp]:
  "fwdKey g f r t = fwdKey g f' r' t' \<longleftrightarrow> f = f' \<and> r = r' \<and> t = t'"
  "revKey g t r f = revKey g t' r' f' \<longleftrightarrow> f = f' \<and> r = r' \<and> t = t'"
  "fwdKey g f r t \<noteq> revKey g t' r' f'" "revKey g t' r' f' \<noteq> fwdKey g f r t"
  "entityKey g l \<noteq> fwdKey g f r t" "entityKey g l \<noteq> revKey g t r f"
  "fwdKey g f r t \<noteq> entityKey g l" "revKey g t r f \<noteq> entityKey g l"
  "entityKey g l = entityKey g l' \<longleftrightarrow> l = l'"
  "fwdKey g f r t \<noteq> []" "revKey g t r f \<noteq> []" "entityKey g l \<noteq> []"
  "[] \<noteq> fwdKey g f r t" "[] \<noteq> revKey g t r f" "[] \<noteq> entityKey g l"
  by (auto simp: graph_keys)

lemma scan_items_ok:
  "scan_items pick (map Inr es) = GVal (List.map_filter (\<lambda>e. pick (ekey e)) es)"
  by (induction es) (auto simp: List.map_filter_simps split: option.split)

text \<open>An entry below an index prefix that is long enough for a relation is its index key.\<close>

lemma under_fwd:
  "under (fwdPrefix g l) k \<and> length k = length (gprefix g) + 4 \<longleftrightarrow> (\<exists>r t. k = fwdKey g l r t)"
proof
  assume "under (fwdPrefix g l) k \<and> length k = length (gprefix g) + 4"
  then obtain x xs where "k = gprefix g @ [''r'', l] @ x # xs" "length xs = 1"
    by (auto simp: under_def graph_keys)
  then show "\<exists>r t. k = fwdKey g l r t" by (auto simp: length_Suc_conv graph_keys)
qed (auto simp: under_def graph_keys)

lemma under_rev:
  "under (revPrefix g l) k \<and> length k = length (gprefix g) + 4 \<longleftrightarrow> (\<exists>r f. k = revKey g l r f)"
proof
  assume "under (revPrefix g l) k \<and> length k = length (gprefix g) + 4"
  then obtain x xs where "k = gprefix g @ [''ri'', l] @ x # xs" "length xs = 1"
    by (auto simp: under_def graph_keys)
  then show "\<exists>r f. k = revKey g l r f" by (auto simp: length_Suc_conv graph_keys)
qed (auto simp: under_def graph_keys)

lemma picks_on_keys [simp]:
  "fwd_relation (length (gprefix g)) (fwdKey g f r t) = Some \<lparr>rfrom = f, rto = t, rtype = r\<rparr>"
  "rev_relation (length (gprefix g)) l (revKey g t r f) =
     (if f = l then None else Some \<lparr>rfrom = f, rto = t, rtype = r\<rparr>)"
  "neighbor (length (gprefix g)) types (fwdKey g f r t) =
     (if types \<noteq> [] \<and> r \<notin> set types then None else Some t)"
  "neighbor (length (gprefix g)) types (revKey g t r f) =
     (if types \<noteq> [] \<and> r \<notin> set types then None else Some f)"
  by (simp_all add: fwd_relation_def rev_relation_def neighbor_def graph_keys nth_append)

lemma pick_length:
  "fwd_relation n k = Some r \<Longrightarrow> length k = n + 4"
  "rev_relation n l k = Some r \<Longrightarrow> length k = n + 4"
  "neighbor n types k = Some b \<Longrightarrow> length k = n + 4"
  by (simp_all add: fwd_relation_def rev_relation_def neighbor_def split: if_splits)

lemma distinct_map_filter_keys:
  assumes "distinct (map ekey es)"
    and "\<And>e f x. e \<in> set es \<Longrightarrow> f \<in> set es \<Longrightarrow> pick (ekey e) = Some x \<Longrightarrow> pick (ekey f) = Some x
      \<Longrightarrow> ekey e = ekey f"
  shows "distinct (List.map_filter (\<lambda>e. pick (ekey e)) es)"
  using assms
proof (induction es)
  case (Cons e es)
  have "distinct (List.map_filter (\<lambda>e. pick (ekey e)) es)"
    by (rule Cons.IH) (use Cons.prems in auto)
  moreover have "x \<notin> set (List.map_filter (\<lambda>e. pick (ekey e)) es)" if "pick (ekey e) = Some x" for x
  proof
    assume "x \<in> set (List.map_filter (\<lambda>e. pick (ekey e)) es)"
    then obtain f where "f \<in> set es" "pick (ekey f) = Some x"
      by (induction es) (auto simp: List.map_filter_simps split: option.splits)
    then show False using Cons.prems(2) [of e f x] that Cons.prems(1) by force
  qed
  ultimately show ?case by (auto simp: List.map_filter_simps split: option.split)
qed (simp add: List.map_filter_simps)

lemma set_map_filter: "set (List.map_filter f xs) = {y. \<exists>x \<in> set xs. f x = Some y}"
  by (induction xs) (auto simp: List.map_filter_simps split: option.splits)

definition ascii :: "char \<Rightarrow> bool" where
  "ascii c \<longleftrightarrow> of_char c < (128 :: nat)"

lemma Contains_byte: "strings_Contains s [c] \<longleftrightarrow> c \<in> set s"
  by (induction s) auto

text \<open>
  With a separator from 128 on, \<open>validateSegments\<close> looks for something else than the separator: it
  refuses labels the store would take, and passes labels at which the store panics.
\<close>

lemma high_separator_misjudged:
  assumes "gsep g = CHR 0xE9"
  shows "\<not> validateSegments g [[CHR 0xC3, CHR 0xA9]]" "kv_encode (gsep g) [[CHR 0xC3, CHR 0xA9]] \<noteq> None"
    "validateSegments g [[CHR 0xE9]]" "kv_encode (gsep g) [[CHR 0xE9]] = None"
  using assms by (simp_all add: validateSegments_def string_of_byte_def kv_encode_def char_of_def bit_0 bit_Suc)

context kv_store
begin

definition graph_on :: "'s graph \<Rightarrow> bool" where
  "graph_on g \<longleftrightarrow> gstore g = St \<and> gsep g = sep \<and> ascii sep \<and> clean sep (gprefix g) \<and>
     clean sep [''e'', ''r'', ''ri'']"

lemma graph_keys_clean:
  assumes "graph_on g"
  shows "clean sep (fwdKey g f r t) \<longleftrightarrow> clean sep [f, r, t]"
    "clean sep (revKey g t r f) \<longleftrightarrow> clean sep [f, r, t]"
    "clean sep (entityKey g l) \<longleftrightarrow> clean sep [l]"
    "clean sep (fwdPrefix g l) \<longleftrightarrow> clean sep [l]"
    "clean sep (revPrefix g l) \<longleftrightarrow> clean sep [l]"
    "fwdPrefix g l \<noteq> [[]]" "revPrefix g l \<noteq> [[]]"
  using assms by (auto simp: graph_on_def graph_keys)

lemma validate_clean: "graph_on g \<Longrightarrow> validateSegments g ls \<longleftrightarrow> clean sep ls"
  by (auto simp: graph_on_def validateSegments_def clean_def string_of_byte_def ascii_def Contains_byte)

lemma scan_result:
  assumes "inv s" "graph_on g" "clean sep p" "p \<noteq> [[]]" "ce_ctx env = None"
  obtains xs where "scan_store g env s p pick = GVal xs"
    "set xs = {x. \<exists>k. view (ce_now env) s k \<noteq> None \<and> under p k \<and> pick k = Some x}"
    "(\<And>k l x. under p k \<Longrightarrow> under p l \<Longrightarrow> pick k = Some x \<Longrightarrow> pick l = Some x \<Longrightarrow> k = l) \<Longrightarrow> distinct xs"
proof -
  obtain es where L: "sList St env s p = Val (map Inr es)"
    and so: "sorted_wrt (\<lambda>e f. join_on sep (ekey e) < join_on sep (ekey f)) es"
    and el: "\<forall>k v. listed es k v \<longleftrightarrow> view (ce_now env) s k = Some v \<and> under p k"
    using list_law [OF assms(1,3,4,5)] by blast
  have d: "distinct (map ekey es)" using so by (induction es) auto
  have u: "under p (ekey e) \<and> view (ce_now env) s (ekey e) = Some (evalue e)" if "e \<in> set es" for e
    using el that by (auto simp: listed_def)
  show ?thesis
  proof (rule that)
    show "scan_store g env s p pick = GVal (List.map_filter (\<lambda>e. pick (ekey e)) es)"
      using assms(2) L by (simp add: scan_store_def graph_on_def scan_items_ok)
    show "set (List.map_filter (\<lambda>e. pick (ekey e)) es)
        = {x. \<exists>k. view (ce_now env) s k \<noteq> None \<and> under p k \<and> pick k = Some x}"
    proof (intro set_eqI iffI)
      fix x assume "x \<in> set (List.map_filter (\<lambda>e. pick (ekey e)) es)"
      then obtain e where "e \<in> set es" "pick (ekey e) = Some x" unfolding set_map_filter by blast
      with u show "x \<in> {x. \<exists>k. view (ce_now env) s k \<noteq> None \<and> under p k \<and> pick k = Some x}" by blast
    next
      fix x assume "x \<in> {x. \<exists>k. view (ce_now env) s k \<noteq> None \<and> under p k \<and> pick k = Some x}"
      then obtain k v where k: "view (ce_now env) s k = Some v" "under p k" "pick k = Some x" by blast
      then have "listed es k v" using el by blast
      with k show "x \<in> set (List.map_filter (\<lambda>e. pick (ekey e)) es)"
        unfolding set_map_filter listed_def by blast
    qed
    show "distinct (List.map_filter (\<lambda>e. pick (ekey e)) es)"
      if "\<And>k l x. under p k \<Longrightarrow> under p l \<Longrightarrow> pick k = Some x \<Longrightarrow> pick l = Some x \<Longrightarrow> k = l"
      by (rule distinct_map_filter_keys [OF d]) (use u that in blast)
  qed
qed

lemma fwd_scan:
  assumes "inv s" "graph_on g" "sep \<notin> set l" "ce_ctx env = None"
    and pick: "\<And>k x. pick k = Some x \<Longrightarrow> length k = length (gprefix g) + 4"
  obtains xs where "scan_store g env s (fwdPrefix g l) pick = GVal xs"
    "set xs = {x. \<exists>r t. view (ce_now env) s (fwdKey g l r t) \<noteq> None \<and> pick (fwdKey g l r t) = Some x}"
    "(\<forall>r t r' t' x. pick (fwdKey g l r t) = Some x \<and> pick (fwdKey g l r' t') = Some x \<longrightarrow> r = r' \<and> t = t')
      \<longrightarrow> distinct xs"
proof -
  have c: "clean sep (fwdPrefix g l)" "fwdPrefix g l \<noteq> [[]]"
    using graph_keys_clean [OF assms(2)] assms(3) by simp_all
  have k: "under (fwdPrefix g l) k \<and> pick k = Some x \<longleftrightarrow> (\<exists>r t. k = fwdKey g l r t \<and> pick k = Some x)" for k x
    using under_fwd [of g l k] pick by blast
  obtain xs where xs: "scan_store g env s (fwdPrefix g l) pick = GVal xs"
    "set xs = {x. \<exists>k. view (ce_now env) s k \<noteq> None \<and> under (fwdPrefix g l) k \<and> pick k = Some x}"
    "(\<And>k l' x. under (fwdPrefix g l) k \<Longrightarrow> under (fwdPrefix g l) l' \<Longrightarrow> pick k = Some x \<Longrightarrow> pick l' = Some x
      \<Longrightarrow> k = l') \<Longrightarrow> distinct xs"
    using scan_result [OF assms(1,2) c assms(4)] by metis
  show ?thesis
  proof (rule that [OF xs(1)])
    show "set xs = {x. \<exists>r t. view (ce_now env) s (fwdKey g l r t) \<noteq> None \<and> pick (fwdKey g l r t) = Some x}"
    proof (intro set_eqI iffI)
      fix x assume "x \<in> set xs"
      then obtain k' where "view (ce_now env) s k' \<noteq> None" "under (fwdPrefix g l) k' \<and> pick k' = Some x"
        unfolding xs(2) by blast
      with k [of k' x] show "x \<in> {x. \<exists>r t. view (ce_now env) s (fwdKey g l r t) \<noteq> None \<and> pick (fwdKey g l r t) = Some x}"
        by blast
    next
      fix x assume "x \<in> {x. \<exists>r t. view (ce_now env) s (fwdKey g l r t) \<noteq> None \<and> pick (fwdKey g l r t) = Some x}"
      then obtain r t where "view (ce_now env) s (fwdKey g l r t) \<noteq> None" "pick (fwdKey g l r t) = Some x"
        by blast
      with k [of "fwdKey g l r t" x] show "x \<in> set xs" unfolding xs(2) by blast
    qed
    show "(\<forall>r t r' t' x. pick (fwdKey g l r t) = Some x \<and> pick (fwdKey g l r' t') = Some x \<longrightarrow> r = r' \<and> t = t')
      \<longrightarrow> distinct xs"
    proof
      assume inj: "\<forall>r t r' t' x. pick (fwdKey g l r t) = Some x \<and> pick (fwdKey g l r' t') = Some x
        \<longrightarrow> r = r' \<and> t = t'"
      show "distinct xs" by (rule xs(3)) (use k inj in metis)
    qed
  qed
qed

lemma rev_scan:
  assumes "inv s" "graph_on g" "sep \<notin> set l" "ce_ctx env = None"
    and pick: "\<And>k x. pick k = Some x \<Longrightarrow> length k = length (gprefix g) + 4"
  obtains xs where "scan_store g env s (revPrefix g l) pick = GVal xs"
    "set xs = {x. \<exists>r f. view (ce_now env) s (revKey g l r f) \<noteq> None \<and> pick (revKey g l r f) = Some x}"
    "(\<forall>r t r' t' x. pick (revKey g l r t) = Some x \<and> pick (revKey g l r' t') = Some x \<longrightarrow> r = r' \<and> t = t')
      \<longrightarrow> distinct xs"
proof -
  have c: "clean sep (revPrefix g l)" "revPrefix g l \<noteq> [[]]"
    using graph_keys_clean [OF assms(2)] assms(3) by simp_all
  have k: "under (revPrefix g l) k \<and> pick k = Some x \<longleftrightarrow> (\<exists>r t. k = revKey g l r t \<and> pick k = Some x)" for k x
    using under_rev [of g l k] pick by blast
  obtain xs where xs: "scan_store g env s (revPrefix g l) pick = GVal xs"
    "set xs = {x. \<exists>k. view (ce_now env) s k \<noteq> None \<and> under (revPrefix g l) k \<and> pick k = Some x}"
    "(\<And>k l' x. under (revPrefix g l) k \<Longrightarrow> under (revPrefix g l) l' \<Longrightarrow> pick k = Some x \<Longrightarrow> pick l' = Some x
      \<Longrightarrow> k = l') \<Longrightarrow> distinct xs"
    using scan_result [OF assms(1,2) c assms(4)] by metis
  show ?thesis
  proof (rule that [OF xs(1)])
    show "set xs = {x. \<exists>r f. view (ce_now env) s (revKey g l r f) \<noteq> None \<and> pick (revKey g l r f) = Some x}"
    proof (intro set_eqI iffI)
      fix x assume "x \<in> set xs"
      then obtain k' where "view (ce_now env) s k' \<noteq> None" "under (revPrefix g l) k' \<and> pick k' = Some x"
        unfolding xs(2) by blast
      with k [of k' x] show "x \<in> {x. \<exists>r t. view (ce_now env) s (revKey g l r t) \<noteq> None \<and> pick (revKey g l r t) = Some x}"
        by blast
    next
      fix x assume "x \<in> {x. \<exists>r t. view (ce_now env) s (revKey g l r t) \<noteq> None \<and> pick (revKey g l r t) = Some x}"
      then obtain r t where "view (ce_now env) s (revKey g l r t) \<noteq> None" "pick (revKey g l r t) = Some x"
        by blast
      with k [of "revKey g l r t" x] show "x \<in> set xs" unfolding xs(2) by blast
    qed
    show "(\<forall>r t r' t' x. pick (revKey g l r t) = Some x \<and> pick (revKey g l r' t') = Some x \<longrightarrow> r = r' \<and> t = t')
      \<longrightarrow> distinct xs"
    proof
      assume inj: "\<forall>r t r' t' x. pick (revKey g l r t) = Some x \<and> pick (revKey g l r' t') = Some x
        \<longrightarrow> r = r' \<and> t = t'"
      show "distinct xs" by (rule xs(3)) (use k inj in metis)
    qed
  qed
qed

lemma Relations_exact:
  assumes "inv s" "graph_on g" "sep \<notin> set l" "ce_ctx env = None"
    and ix: "indexed g (view (ce_now env) s)"
  obtains rs where "Relations g env s l = GVal rs" "distinct rs"
    "set rs = {r \<in> holds g (view (ce_now env) s). incident r l}"
proof -
  let ?V = "view (ce_now env) s" and ?n = "length (gprefix g)"
  obtain xs where xs: "scan_store g env s (fwdPrefix g l) (fwd_relation ?n) = GVal xs"
    "set xs = {x. \<exists>r t. ?V (fwdKey g l r t) \<noteq> None \<and> fwd_relation ?n (fwdKey g l r t) = Some x}"
    and dx: "(\<forall>r t r' t' x. fwd_relation ?n (fwdKey g l r t) = Some x \<and>
      fwd_relation ?n (fwdKey g l r' t') = Some x \<longrightarrow> r = r' \<and> t = t') \<longrightarrow> distinct xs"
    by (rule fwd_scan [OF assms(1-4), of "fwd_relation ?n"], erule pick_length(1), rule that)
  obtain ys where ys: "scan_store g env s (revPrefix g l) (rev_relation ?n l) = GVal ys"
    "set ys = {x. \<exists>r f. ?V (revKey g l r f) \<noteq> None \<and> rev_relation ?n l (revKey g l r f) = Some x}"
    and dy: "(\<forall>r t r' t' x. rev_relation ?n l (revKey g l r t) = Some x \<and>
      rev_relation ?n l (revKey g l r' t') = Some x \<longrightarrow> r = r' \<and> t = t') \<longrightarrow> distinct ys"
    by (rule rev_scan [OF assms(1-4), of "rev_relation ?n l"], erule pick_length(2), rule that)
  have dxs: "distinct xs" by (rule dx [THEN mp]) auto
  have dys: "distinct ys" by (rule dy [THEN mp]) (auto split: if_splits)
  have sx: "set xs = {r \<in> holds g ?V. rfrom r = l}"
  proof (rule set_eqI)
    fix x :: relation show "x \<in> set xs \<longleftrightarrow> x \<in> {r \<in> holds g ?V. rfrom r = l}"
      unfolding xs(2) holds_def by (cases x) auto
  qed
  have ixr: "?V (revKey g l r f) = None \<longleftrightarrow> ?V (fwdKey g f r l) = None" for r f
    using ix unfolding indexed_def by blast
  have sy: "set ys = {r \<in> holds g ?V. rto r = l \<and> rfrom r \<noteq> l}"
  proof (rule set_eqI)
    fix x :: relation show "x \<in> set ys \<longleftrightarrow> x \<in> {r \<in> holds g ?V. rto r = l \<and> rfrom r \<noteq> l}"
      unfolding ys(2) holds_def ixr by (cases x) auto
  qed
  have "Relations g env s l = GVal (xs @ ys)"
    using assms(2,3) xs(1) ys(1) by (simp add: Relations_def validate_clean)
  moreover have "distinct (xs @ ys)" using dxs dys sx sy by auto
  moreover have "set (xs @ ys) = {r \<in> holds g ?V. incident r l}" using sx sy by (auto simp: incident_def)
  ultimately show ?thesis using that by blast
qed

lemma Neighbors_exact:
  assumes "inv s" "graph_on g" "sep \<notin> set l" "clean sep types" "ce_ctx env = None"
    and ix: "indexed g (view (ce_now env) s)"
  obtains ns where "Neighbors g env s l types = GVal ns" "sorted ns" "distinct ns"
    "set ns = edges (holds g (view (ce_now env) s)) types `` {l}"
proof -
  let ?V = "view (ce_now env) s" and ?n = "length (gprefix g)"
  obtain xs where xs: "scan_store g env s (fwdPrefix g l) (neighbor ?n types) = GVal xs"
    "set xs = {x. \<exists>r t. ?V (fwdKey g l r t) \<noteq> None \<and> neighbor ?n types (fwdKey g l r t) = Some x}"
    by (rule fwd_scan [OF assms(1,2,3,5), of "neighbor ?n types"], erule pick_length(3), rule that)
  obtain ys where ys: "scan_store g env s (revPrefix g l) (neighbor ?n types) = GVal ys"
    "set ys = {x. \<exists>r t. ?V (revKey g l r t) \<noteq> None \<and> neighbor ?n types (revKey g l r t) = Some x}"
    by (rule rev_scan [OF assms(1,2,3,5), of "neighbor ?n types"], erule pick_length(3), rule that)
  have ixr: "?V (revKey g l r f) = None \<longleftrightarrow> ?V (fwdKey g f r l) = None" for r f
    using ix unfolding indexed_def by blast
  have rel: "(\<exists>r \<in> holds g ?V. (types = [] \<or> rtype r \<in> set types) \<and> rfrom r = a \<and> rto r = b) \<longleftrightarrow>
      (\<exists>r. ?V (fwdKey g a r b) \<noteq> None \<and> (types = [] \<or> r \<in> set types))" for a b
  proof
    assume "\<exists>r. ?V (fwdKey g a r b) \<noteq> None \<and> (types = [] \<or> r \<in> set types)"
    then obtain r where "?V (fwdKey g a r b) \<noteq> None" "types = [] \<or> r \<in> set types" by blast
    then show "\<exists>r \<in> holds g ?V. (types = [] \<or> rtype r \<in> set types) \<and> rfrom r = a \<and> rto r = b"
      by (intro bexI [of _ "\<lparr>rfrom = a, rto = b, rtype = r\<rparr>"]) (simp_all add: holds_def)
  qed (auto simp: holds_def)
  have "edges (holds g ?V) types `` {l} = {b. \<exists>r. ?V (fwdKey g l r b) \<noteq> None \<and> (types = [] \<or> r \<in> set types)}
      \<union> {b. \<exists>r. ?V (fwdKey g b r l) \<noteq> None \<and> (types = [] \<or> r \<in> set types)}"
    unfolding edges_def rel [symmetric] by auto
  moreover have "set xs = {b. \<exists>r. ?V (fwdKey g l r b) \<noteq> None \<and> (types = [] \<or> r \<in> set types)}"
    unfolding xs(2) by (intro set_eqI) auto
  moreover have "set ys = {b. \<exists>r. ?V (fwdKey g b r l) \<noteq> None \<and> (types = [] \<or> r \<in> set types)}"
    unfolding ys(2) ixr by (intro set_eqI) auto
  ultimately have "set (sort (remdups (xs @ ys))) = edges (holds g ?V) types `` {l}" by simp
  moreover have "Neighbors g env s l types = GVal (sort (remdups (xs @ ys)))"
    using assms(2,3,4) xs(1) ys(1) by (simp add: Neighbors_def validate_clean)
  ultimately show ?thesis using that [of "sort (remdups (xs @ ys))"] by simp
qed

lemma edges_clean:
  assumes "inv s" "graph_on g" "(a, b) \<in> edges (holds g (view t s)) types"
  shows "sep \<notin> set b"
proof -
  obtain r where r: "r \<in> holds g (view t s)" "b = rfrom r \<or> b = rto r"
    using assms(3) by (auto simp: edges_def)
  then obtain v where "view t s (fwdKey g (rfrom r) (rtype r) (rto r)) = Some v" by (auto simp: holds_def)
  then have "clean sep (fwdKey g (rfrom r) (rtype r) (rto r))" using view_clean [OF assms(1)] by blast
  then show ?thesis using r(2) graph_keys_clean(1) [OF assms(2)] by auto
qed

end

lemma visit_all_sets:
  assumes "visit_all visited nexts ns = (v, n)"
  shows "set v = set visited \<union> set ns" "set n = set nexts \<union> (set ns - set visited)"
    "distinct visited \<Longrightarrow> distinct v"
proof -
  have "set v = set visited \<union> set ns \<and> set n = set nexts \<union> (set ns - set visited) \<and>
      (distinct visited \<longrightarrow> distinct v)"
    using assms by (induction visited nexts ns rule: visit_all.induct) (auto split: if_splits)
  then show "set v = set visited \<union> set ns" "set n = set nexts \<union> (set ns - set visited)"
    "distinct visited \<Longrightarrow> distinct v" by blast+
qed

text \<open>What lies within \<open>n\<close> steps of a set.\<close>

definition within :: "('a \<times> 'a) set \<Rightarrow> nat \<Rightarrow> 'a set \<Rightarrow> 'a set" where
  "within E n F = {y. \<exists>x \<in> F. \<exists>i \<le> n. (x, y) \<in> E ^^ i}"

lemma within_0 [simp]: "within E 0 F = F"
  by (auto simp: within_def)

lemma within_empty [simp]: "within E n {} = {}"
  by (simp add: within_def)

lemma within_mono: "n \<le> m \<Longrightarrow> F \<subseteq> G \<Longrightarrow> within E n F \<subseteq> within E m G"
  unfolding within_def by (blast intro: order_trans)

lemma within_Suc: "within E (Suc n) F = F \<union> within E n (E `` F)"
proof (intro set_eqI iffI)
  fix y assume "y \<in> within E (Suc n) F"
  then obtain x i where i: "x \<in> F" "i \<le> Suc n" "(x, y) \<in> E ^^ i" by (auto simp: within_def)
  show "y \<in> F \<union> within E n (E `` F)"
  proof (cases i)
    case (Suc j)
    then obtain z where "(x, z) \<in> E" "(z, y) \<in> E ^^ j" using i(3) by (metis relpow_Suc_D2)
    then show ?thesis using i(1,2) Suc by (auto simp: within_def)
  qed (use i in simp)
next
  fix y assume "y \<in> F \<union> within E n (E `` F)"
  then show "y \<in> within E (Suc n) F"
  proof
    assume "y \<in> F"
    then show ?thesis by (force simp: within_def)
  next
    assume "y \<in> within E n (E `` F)"
    then obtain x z i where "x \<in> F" "(x, z) \<in> E" "i \<le> n" "(z, y) \<in> E ^^ i" by (auto simp: within_def)
    then show ?thesis by (auto simp: within_def intro!: exI [of _ "Suc i"] bexI [of _ x] relpow_Suc_I2)
  qed
qed

lemma within_closed:
  assumes "E `` (V - N) \<subseteq> V" "N \<subseteq> V" "F \<subseteq> V"
  shows "within E n F \<subseteq> V \<union> within E n N"
  using assms(3)
proof (induction n arbitrary: F)
  case (Suc n)
  have "E `` F \<subseteq> V \<union> E `` N" using assms(1) Suc.prems by blast
  have "within E n (E `` F) \<subseteq> within E n V \<union> within E n (E `` N)"
    using \<open>E `` F \<subseteq> V \<union> E `` N\<close> by (fastforce simp: within_def)
  also have "\<dots> \<subseteq> V \<union> within E n N \<union> within E n (E `` N)" using Suc.IH [of V] by blast
  also have "\<dots> \<subseteq> V \<union> within E (Suc n) N"
  proof -
    have "within E n N \<subseteq> within E (Suc n) N" by (rule within_mono) simp_all
    then show ?thesis unfolding within_Suc by blast
  qed
  finally show ?case using Suc.prems unfolding within_Suc by blast
qed (use assms in auto)

context kv_store
begin

lemma expand_level_result:
  assumes "inv s" "graph_on g" "ce_ctx env = None" and ix: "indexed g (view (ce_now env) s)"
    and "\<forall>l \<in> set frontier. sep \<notin> set l" "distinct visited"
  defines "E \<equiv> edges (holds g (view (ce_now env) s)) []"
  shows "\<exists>v n. expand_level g env s visited nexts frontier = GVal (v, n) \<and> distinct v \<and>
    set v = set visited \<union> E `` set frontier \<and> set n = set nexts \<union> (E `` set frontier - set visited)"
  using assms(5,6)
proof (induction frontier arbitrary: visited nexts)
  case (Cons l frontier)
  obtain ns where ns: "Neighbors g env s l [] = GVal ns" "set ns = E `` {l}"
    by (rule Neighbors_exact [OF assms(1,2) _ _ assms(3) ix, of l "[]"]) (use Cons.prems in \<open>auto simp: E_def\<close>)
  obtain v1 n1 where v: "visit_all visited nexts ns = (v1, n1)" by fastforce
  note V = visit_all_sets [OF v]
  obtain v n where r: "expand_level g env s v1 n1 frontier = GVal (v, n)" "distinct v"
    "set v = set v1 \<union> E `` set frontier" "set n = set n1 \<union> (E `` set frontier - set v1)"
    using Cons.IH [of v1 n1] Cons.prems V(3) by auto
  have "E `` set (l # frontier) = set ns \<union> E `` set frontier" using ns(2) by auto
  then show ?case using ns(1) v r V by (auto simp: Let_def)
qed simp

lemma expand_loop_result:
  assumes "inv s" "graph_on g" "ce_ctx env = None" and ix: "indexed g (view (ce_now env) s)"
  defines "E \<equiv> edges (holds g (view (ce_now env) s)) []"
  assumes "\<forall>l \<in> set frontier. sep \<notin> set l" "distinct visited" "set frontier \<subseteq> set visited"
    and "E `` (set visited - set frontier) \<subseteq> set visited"
  shows "\<exists>v. expand_loop g env s hops visited frontier = GVal v \<and> distinct v \<and>
    set v = set visited \<union> within E hops (set frontier)"
  using assms(6-)
proof (induction hops arbitrary: visited frontier)
  case 0
  then show ?case by auto
next
  case (Suc hops)
  show ?case
  proof (cases "frontier = []")
    case False
    obtain v n where L: "expand_level g env s visited [] frontier = GVal (v, n)" "distinct v"
      "set v = set visited \<union> E `` set frontier" "set n = E `` set frontier - set visited"
      using expand_level_result [OF assms(1-4), of frontier visited "[]"] Suc.prems unfolding E_def by auto
    have c: "\<forall>l \<in> set n. sep \<notin> set l" using L(4) edges_clean [OF assms(1,2)] unfolding E_def by blast
    have closed: "E `` (set v - set n) \<subseteq> set v" using Suc.prems(3,4) L(3,4) by blast
    obtain w where w: "expand_loop g env s hops v n = GVal w" "distinct w"
      "set w = set v \<union> within E hops (set n)"
      using Suc.IH [OF c L(2) _ closed] L(3,4) by auto
    have "within E hops (E `` set frontier) \<subseteq> set v \<union> within E hops (set n)"
      by (rule within_closed [OF closed]) (use L(3,4) in auto)
    moreover have "within E hops (set n) \<subseteq> within E hops (E `` set frontier)"
      by (rule within_mono) (use L(4) in auto)
    moreover have "E `` set frontier \<subseteq> within E hops (E `` set frontier)"
      by (force simp: within_def)
    ultimately have "set w = set visited \<union> within E (Suc hops) (set frontier)"
      unfolding w(3) L(3) within_Suc using Suc.prems(3) L(3) by blast
    then show ?thesis using False L(1) w(1,2) by simp
  qed (use Suc.prems in simp)
qed

lemma Expand_exact:
  assumes "inv s" "graph_on g" "clean sep labels" "ce_ctx env = None"
    and ix: "indexed g (view (ce_now env) s)"
  obtains ls where "Expand g env s labels hops = GVal ls" "sorted ls" "distinct ls"
    "set ls = within (edges (holds g (view (ce_now env) s)) []) (nat hops) (set labels)"
proof -
  let ?E = "edges (holds g (view (ce_now env) s)) []"
  obtain v where v: "expand_loop g env s (nat hops) (remdups labels) labels = GVal v" "distinct v"
    "set v = set labels \<union> within ?E (nat hops) (set labels)"
    using expand_loop_result [OF assms(1,2,4) ix, of labels "remdups labels" "nat hops"] assms(3)
    by (auto simp: clean_def)
  have "set labels \<subseteq> within ?E (nat hops) (set labels)" by (force simp: within_def)
  then show ?thesis
    using that [of "sort v"] v assms(2,3) by (auto simp: Expand_def validate_clean)
qed

end
section \<open>Histories and their specification\<close>

datatype 'j graph_op =
  OpSetEntity "'j entity" | OpGetEntity string | OpMergeAttrs string "string \<Rightarrow> 'j option"
| OpDeleteEntity string | OpAddRelation relation | OpRemoveRelation string string string

fun graph_step :: "'j json \<Rightarrow> 's graph \<Rightarrow> call_env \<Rightarrow> 's \<Rightarrow> 'j graph_op \<Rightarrow> 's" where
  "graph_step J g env s (OpSetEntity e) = snd (SetEntity J g env s e)"
| "graph_step J g env s (OpGetEntity l) = snd (GetEntity J g env s l)"
| "graph_step J g env s (OpMergeAttrs l new) = snd (MergeAttrs J g env s l new)"
| "graph_step J g env s (OpDeleteEntity l) = snd (DeleteEntity g env s l)"
| "graph_step J g env s (OpAddRelation r) = snd (AddRelation g env s r)"
| "graph_step J g env s (OpRemoveRelation f t r) = snd (RemoveRelation g env s f t r)"

text \<open>A history gives every call its clock reading; the clock does not run backwards.\<close>

fun graph_run :: "'j json \<Rightarrow> 's graph \<Rightarrow> 's \<Rightarrow> (int \<times> 'j graph_op) list \<Rightarrow> 's" where
  "graph_run J g s [] = s"
| "graph_run J g s ((t, oper) # ops) =
     graph_run J g (graph_step J g \<lparr>ce_ctx = None, ce_now = t\<rparr> s oper) ops"

fun spec_step :: "char \<Rightarrow> relation set \<Rightarrow> 'j graph_op \<Rightarrow> relation set" where
  "spec_step c R (OpAddRelation r) =
     (if clean c [rfrom r, rto r, rtype r] then insert r R else R)"
| "spec_step c R (OpRemoveRelation f t r) = R - {\<lparr>rfrom = f, rto = t, rtype = r\<rparr>}"
| "spec_step c R (OpDeleteEntity l) = {r \<in> R. \<not> incident r l}"
| "spec_step c R _ = R"

definition spec_run :: "char \<Rightarrow> (int \<times> 'j graph_op) list \<Rightarrow> relation set" where
  "spec_run c ops = fold (\<lambda>oper R. spec_step c R (snd oper)) ops {}"

definition decoded :: "'j json \<Rightarrow> string \<Rightarrow> byte list option \<Rightarrow> 'j entity gres" where
  "decoded J l d = (case d of None \<Rightarrow> GErr EntityNotFound
     | Some data \<Rightarrow> if data = [] then GVal \<lparr>elabel = l, eattrs = None\<rparr>
         else case j_unmarshal J data of None \<Rightarrow> GErr JSONError
           | Some a \<Rightarrow> GVal \<lparr>elabel = l, eattrs = a\<rparr>)"

lemma holds_upd_entity [simp]: "holds g (V(entityKey g l := x)) = holds g V"
  by (auto simp: holds_def)

lemma indexed_upd_entity [simp]: "indexed g (V(entityKey g l := x)) = indexed g V"
  by (simp add: indexed_def)

lemma mem_holds: "r \<in> holds g V \<longleftrightarrow> V (fwdKey g (rfrom r) (rtype r) (rto r)) \<noteq> None"
  by (simp add: holds_def)

context kv_store
begin

definition steady :: "'s graph \<Rightarrow> int \<Rightarrow> 's \<Rightarrow> bool" where
  "steady g t0 s \<longleftrightarrow> inv s \<and> (\<forall>t \<ge> t0. view t s = view t0 s) \<and> indexed g (view t0 s)"

lemma steadyI:
  assumes "inv s'" "\<And>t. now \<le> t \<Longrightarrow> view t s' = V" "indexed g V"
  shows "steady g now s' \<and> view now s' = V"
  using assms by (simp add: steady_def)

lemma steadyD:
  assumes "steady g t0 s"
  shows "t0 \<le> t \<Longrightarrow> view t s = view t0 s" and "inv s" and "indexed g (view t0 s)"
  using assms unfolding steady_def by blast+

lemma steady_later:
  assumes "steady g t0 s" "t0 \<le> t"
  shows "steady g t s \<and> view t s = view t0 s"
proof (rule steadyI)
  show "view u s = view t0 s" if "t \<le> u" for u
    using steadyD(1) [OF assms(1)] assms(2) that by (meson order_trans)
  show "inv s" "indexed g (view t0 s)" by (rule steadyD [OF assms(1)])+
qed

lemma holds_clean:
  assumes "inv s" "graph_on g" "r \<in> holds g (view t s)"
  shows "clean sep [rfrom r, rto r, rtype r]"
proof -
  obtain v where "view t s (fwdKey g (rfrom r) (rtype r) (rto r)) = Some v"
    using assms(3) by (auto simp: holds_def)
  then have "clean sep (fwdKey g (rfrom r) (rtype r) (rto r))" using view_clean [OF assms(1)] by blast
  then show ?thesis unfolding graph_keys_clean(1) [OF assms(2)] by simp
qed

lemma SetEntity_effect:
  assumes s: "steady g t0 s" and "graph_on g" "ce_ctx env = None" "t0 \<le> ce_now env"
  shows "steady g (ce_now env) (snd (SetEntity J g env s e))"
    and "holds g (view (ce_now env) (snd (SetEntity J g env s e))) = holds g (view t0 s)"
    and "clean sep [elabel e] \<Longrightarrow> j_marshal J (eattrs e) = Some data \<Longrightarrow>
      fst (SetEntity J g env s e) = GVal () \<and>
      view (ce_now env) (snd (SetEntity J g env s e)) = (view t0 s)(entityKey g (elabel e) \<mapsto> data)"
proof -
  have v: "view t s = view t0 s" if "ce_now env \<le> t" for t
    by (rule steadyD(1) [OF s order_trans [OF assms(4) that]])
  have i: "inv s" "indexed g (view t0 s)" by (rule steadyD [OF s])+
  have "steady g (ce_now env) (snd (SetEntity J g env s e)) \<and>
      holds g (view (ce_now env) (snd (SetEntity J g env s e))) = holds g (view t0 s) \<and>
      (clean sep [elabel e] \<longrightarrow> j_marshal J (eattrs e) = Some data \<longrightarrow>
        fst (SetEntity J g env s e) = GVal () \<and>
        view (ce_now env) (snd (SetEntity J g env s e)) = (view t0 s)(entityKey g (elabel e) \<mapsto> data))"
  proof (cases "clean sep [elabel e] \<and> j_marshal J (eattrs e) \<noteq> None")
    case True
    then obtain d where c: "clean sep [elabel e]" and d: "j_marshal J (eattrs e) = Some d" by blast
    have st: "gstore g = St" using assms(2) by (simp add: graph_on_def)
    have k: "clean sep (entityKey g (elabel e))" "entityKey g (elabel e) \<noteq> []"
      using graph_keys_clean(3) [OF assms(2)] c by simp_all
    note L = set_law [OF i(1) k assms(3), of d]
    have eq: "SetEntity J g env s e = (lift_res (fst (sSet St env s (entityKey g (elabel e)) d)),
        snd (sSet St env s (entityKey g (elabel e)) d))"
      using c d by (simp add: SetEntity_def validate_clean [OF assms(2)] st case_prod_unfold Let_def)
    have S: "steady g (ce_now env) (snd (SetEntity J g env s e)) \<and>
        view (ce_now env) (snd (SetEntity J g env s e)) = (view t0 s)(entityKey g (elabel e) \<mapsto> d)"
    proof (rule steadyI)
      show "view t (snd (SetEntity J g env s e)) = (view t0 s)(entityKey g (elabel e) \<mapsto> d)"
        if "ce_now env \<le> t" for t
        using L [where t = t] v [OF that] by (simp add: eq)
    qed (use L i in \<open>simp_all add: eq\<close>)
    moreover have "fst (SetEntity J g env s e) = GVal ()" using L by (simp add: eq)
    ultimately show ?thesis using d by simp
  next
    case False
    then have "snd (SetEntity J g env s e) = s"
      by (auto simp: SetEntity_def validate_clean [OF assms(2)] split: option.split)
    then show ?thesis using False steadyI [OF i(1) v i(2)] by auto
  qed
  then show "steady g (ce_now env) (snd (SetEntity J g env s e))"
    "holds g (view (ce_now env) (snd (SetEntity J g env s e))) = holds g (view t0 s)"
    "clean sep [elabel e] \<Longrightarrow> j_marshal J (eattrs e) = Some data \<Longrightarrow>
      fst (SetEntity J g env s e) = GVal () \<and>
      view (ce_now env) (snd (SetEntity J g env s e)) = (view t0 s)(entityKey g (elabel e) \<mapsto> data)"
    by blast+
qed

lemma GetEntity_effect:
  assumes s: "steady g t0 s" and "graph_on g" "ce_ctx env = None" "t0 \<le> ce_now env"
  shows "steady g (ce_now env) (snd (GetEntity J g env s l))"
    and "view (ce_now env) (snd (GetEntity J g env s l)) = view t0 s"
    and "clean sep [l] \<Longrightarrow> fst (GetEntity J g env s l) = decoded J l (view t0 s (entityKey g l))"
proof -
  have v: "view t s = view t0 s" if "ce_now env \<le> t" for t
    by (rule steadyD(1) [OF s order_trans [OF assms(4) that]])
  have i: "inv s" "indexed g (view t0 s)" by (rule steadyD [OF s])+
  have "(steady g (ce_now env) (snd (GetEntity J g env s l)) \<and>
      view (ce_now env) (snd (GetEntity J g env s l)) = view t0 s) \<and>
      (clean sep [l] \<longrightarrow> fst (GetEntity J g env s l) = decoded J l (view t0 s (entityKey g l)))"
  proof (cases "clean sep [l]")
    case True
    have st: "gstore g = St" using assms(2) by (simp add: graph_on_def)
    have k: "clean sep (entityKey g l)" "entityKey g l \<noteq> []"
      using graph_keys_clean(3) [OF assms(2)] True by simp_all
    note L = get_law [OF i(1) k assms(3)]
    have sn: "snd (GetEntity J g env s l) = snd (sGet St env s (entityKey g l))"
      using True by (simp add: GetEntity_def validate_clean [OF assms(2)] st case_prod_unfold Let_def)
    have "fst (GetEntity J g env s l) = decoded J l (view t0 s (entityKey g l))"
      using True L v [OF order_refl] by (auto simp: GetEntity_def decoded_def validate_clean [OF assms(2)] st
          case_prod_unfold Let_def split: option.split)
    moreover have "steady g (ce_now env) (snd (GetEntity J g env s l)) \<and>
        view (ce_now env) (snd (GetEntity J g env s l)) = view t0 s"
    proof (rule steadyI)
      show "view t (snd (GetEntity J g env s l)) = view t0 s" if "ce_now env \<le> t" for t
        using L v [OF that] that by (simp add: sn)
    qed (use L i in \<open>simp_all add: sn\<close>)
    ultimately show ?thesis by blast
  next
    case False
    then have "snd (GetEntity J g env s l) = s" by (simp add: GetEntity_def validate_clean [OF assms(2)])
    then show ?thesis using False steadyI [OF i(1) v i(2)] by simp
  qed
  then show "steady g (ce_now env) (snd (GetEntity J g env s l))"
    "view (ce_now env) (snd (GetEntity J g env s l)) = view t0 s"
    "clean sep [l] \<Longrightarrow> fst (GetEntity J g env s l) = decoded J l (view t0 s (entityKey g l))"
    by blast+
qed

lemma MergeAttrs_effect:
  assumes s: "steady g t0 s" and g: "graph_on g" "ce_ctx env = None" and t: "t0 \<le> ce_now env"
  shows "steady g (ce_now env) (snd (MergeAttrs J g env s l new)) \<and>
    holds g (view (ce_now env) (snd (MergeAttrs J g env s l new))) = holds g (view t0 s)"
proof -
  note G = GetEntity_effect [OF s g t, where J = J and l = l]
  have same: "steady g (ce_now env) s \<and> view (ce_now env) s = view t0 s"
    by (rule steady_later [OF s t])
  show ?thesis
  proof (cases "clean sep [l]")
    case True
    show ?thesis
    proof (cases "fst (GetEntity J g env s l)")
      case (GVal e)
      then show ?thesis
        using True G(1,2) SetEntity_effect(1,2) [OF G(1) g order_refl, where J = J]
        by (simp add: MergeAttrs_def validate_clean [OF g(1)] case_prod_unfold Let_def)
    qed (use True G(1,2) in \<open>simp_all add: MergeAttrs_def validate_clean [OF g(1)] case_prod_unfold Let_def\<close>)
  next
    case False
    then show ?thesis using same by (simp add: MergeAttrs_def validate_clean [OF g(1)])
  qed
qed

lemma AddRelation_effect:
  assumes s: "steady g t0 s" and g: "graph_on g" "ce_ctx env = None" and t: "t0 \<le> ce_now env"
  shows "steady g (ce_now env) (snd (AddRelation g env s r)) \<and>
    holds g (view (ce_now env) (snd (AddRelation g env s r))) =
      (if clean sep [rfrom r, rto r, rtype r] then insert r (holds g (view t0 s)) else holds g (view t0 s))"
proof -
  have v: "view t s = view t0 s" if "ce_now env \<le> t" for t
    by (rule steadyD(1) [OF s order_trans [OF t that]])
  have i: "inv s" and ix: "indexed g (view t0 s)" by (rule steadyD [OF s])+
  show ?thesis
  proof (cases "clean sep [rfrom r, rto r, rtype r]")
    case True
    let ?f = "fwdKey g (rfrom r) (rtype r) (rto r)" and ?r = "revKey g (rto r) (rtype r) (rfrom r)"
    let ?es = "[\<lparr>ekey = ?f, evalue = [], edeadline = None\<rparr>, \<lparr>ekey = ?r, evalue = [], edeadline = None\<rparr>]"
    let ?V = "(view t0 s)(?f \<mapsto> [], ?r \<mapsto> [])"
    have "\<forall>e \<in> set ?es. clean sep (ekey e) \<and> ekey e \<noteq> [] \<and> edeadline e = None"
      using graph_keys_clean [OF g(1)] True by auto
    note L = batch_set_law [OF i this g(2)]
    have st: "gstore g = St" using g by (simp add: graph_on_def)
    have sn: "snd (AddRelation g env s r) = snd (sBatchSet St env s ?es)"
      using True by (simp add: AddRelation_def validate_clean [OF g(1)] st case_prod_unfold Let_def)
    have "indexed g ?V" using ix by (auto simp: indexed_def)
    then have S: "steady g (ce_now env) (snd (AddRelation g env s r)) \<and>
        view (ce_now env) (snd (AddRelation g env s r)) = ?V"
    proof (intro steadyI)
      show "view t (snd (AddRelation g env s r)) = ?V" if "ce_now env \<le> t" for t
        using L [where t = t] v [OF that] by (simp add: sn put_entry_def)
    qed (use L in \<open>simp_all add: sn\<close>)
    have "holds g ?V = insert r (holds g (view t0 s))"
    proof (rule set_eqI)
      fix x :: relation show "x \<in> holds g ?V \<longleftrightarrow> x \<in> insert r (holds g (view t0 s))"
        unfolding mem_holds insert_iff by (cases x, cases r) auto
    qed
    with S True show ?thesis by simp
  next
    case False
    then have "snd (AddRelation g env s r) = s"
      by (simp only: AddRelation_def validate_clean [OF g(1)] not_False_eq_True if_True snd_conv)
    then show ?thesis using False steadyI [OF i v ix] by (simp only: if_False simp_thms)
  qed
qed

lemma batch_delete_effect:
  assumes s: "steady g t0 s" and "graph_on g" "ce_ctx env = None" "t0 \<le> ce_now env"
    and ks: "\<forall>k \<in> set ks. clean sep k \<and> k \<noteq> []"
    and sym: "\<And>f r t. fwdKey g f r t \<in> set ks \<longleftrightarrow> revKey g t r f \<in> set ks"
  shows "steady g (ce_now env) (snd (sBatchDelete St env s ks))"
    and "view (ce_now env) (snd (sBatchDelete St env s ks)) =
      (\<lambda>k. if k \<in> set ks then None else view t0 s k)"
    and "fst (sBatchDelete St env s ks) = Val ()"
proof -
  have v: "view t s = view t0 s" if "ce_now env \<le> t" for t
    by (rule steadyD(1) [OF s order_trans [OF assms(4) that]])
  have i: "inv s" and ix: "indexed g (view t0 s)" by (rule steadyD [OF s])+
  note L = batch_delete_law [OF i ks assms(3)]
  have "indexed g (\<lambda>k. if k \<in> set ks then None else view t0 s k)"
    using ix sym by (simp add: indexed_def)
  then have "steady g (ce_now env) (snd (sBatchDelete St env s ks)) \<and>
      view (ce_now env) (snd (sBatchDelete St env s ks)) = (\<lambda>k. if k \<in> set ks then None else view t0 s k)"
  proof (intro steadyI)
    show "view t (snd (sBatchDelete St env s ks)) = (\<lambda>k. if k \<in> set ks then None else view t0 s k)"
      if "ce_now env \<le> t" for t
      using L [where t = t] v [OF that] by (simp cong: if_cong)
  qed (use L in simp_all)
  then show "steady g (ce_now env) (snd (sBatchDelete St env s ks))"
    "view (ce_now env) (snd (sBatchDelete St env s ks)) = (\<lambda>k. if k \<in> set ks then None else view t0 s k)"
    by blast+
  show "fst (sBatchDelete St env s ks) = Val ()" using L by blast
qed

lemma RemoveRelation_effect:
  assumes s: "steady g t0 s" and g: "graph_on g" "ce_ctx env = None" and t: "t0 \<le> ce_now env"
  shows "steady g (ce_now env) (snd (RemoveRelation g env s f t r)) \<and>
    holds g (view (ce_now env) (snd (RemoveRelation g env s f t r))) =
      holds g (view t0 s) - {\<lparr>rfrom = f, rto = t, rtype = r\<rparr>}"
proof (cases "clean sep [f, t, r]")
  case True
  let ?ks = "[fwdKey g f r t, revKey g t r f]"
  have "\<forall>k \<in> set ?ks. clean sep k \<and> k \<noteq> []" using graph_keys_clean [OF g(1)] True by auto
  note D = batch_delete_effect [OF s g t this]
  have st: "gstore g = St" using g by (simp add: graph_on_def)
  have sn: "snd (RemoveRelation g env s f t r) = snd (sBatchDelete St env s ?ks)"
    using True by (simp add: RemoveRelation_def validate_clean [OF g(1)] st case_prod_unfold Let_def)
  have "holds g (\<lambda>k. if k \<in> set ?ks then None else view t0 s k) =
      holds g (view t0 s) - {\<lparr>rfrom = f, rto = t, rtype = r\<rparr>}"
  proof (rule set_eqI)
    fix x :: relation
    show "x \<in> holds g (\<lambda>k. if k \<in> set ?ks then None else view t0 s k) \<longleftrightarrow>
        x \<in> holds g (view t0 s) - {\<lparr>rfrom = f, rto = t, rtype = r\<rparr>}"
      unfolding mem_holds Diff_iff by (cases x) auto
  qed
  with D show ?thesis unfolding sn by simp
next
  case False
  have same: "steady g (ce_now env) s \<and> view (ce_now env) s = view t0 s"
    by (rule steady_later [OF s t])
  have "\<lparr>rfrom = f, rto = t, rtype = r\<rparr> \<notin> holds g (view t0 s)"
    using holds_clean [OF _ g(1), of s "\<lparr>rfrom = f, rto = t, rtype = r\<rparr>" t0] False
    steadyD(2) [OF s] by auto
  moreover have "snd (RemoveRelation g env s f t r) = s"
    using False by (simp only: RemoveRelation_def validate_clean [OF g(1)] not_False_eq_True if_True snd_conv)
  ultimately show ?thesis using same by simp
qed

lemma DeleteEntity_effect:
  assumes s: "steady g t0 s" and g: "graph_on g" "ce_ctx env = None" and t: "t0 \<le> ce_now env"
  shows "steady g (ce_now env) (snd (DeleteEntity g env s l))"
    and "holds g (view (ce_now env) (snd (DeleteEntity g env s l))) = {r \<in> holds g (view t0 s). \<not> incident r l}"
    and "clean sep [l] \<Longrightarrow> fst (DeleteEntity g env s l) = GVal () \<and>
      view (ce_now env) (snd (DeleteEntity g env s l)) (entityKey g l) = None"
proof -
  have same: "steady g (ce_now env) s \<and> view (ce_now env) s = view t0 s"
    by (rule steady_later [OF s t])
  then have v: "view (ce_now env) s = view t0 s" by blast
  have i: "inv s" by (rule steadyD(2) [OF s])
  have ix: "indexed g (view (ce_now env) s)" unfolding v by (rule steadyD(3) [OF s])
  have "(steady g (ce_now env) (snd (DeleteEntity g env s l)) \<and>
      holds g (view (ce_now env) (snd (DeleteEntity g env s l))) = {r \<in> holds g (view t0 s). \<not> incident r l}) \<and>
      (clean sep [l] \<longrightarrow> fst (DeleteEntity g env s l) = GVal () \<and>
        view (ce_now env) (snd (DeleteEntity g env s l)) (entityKey g l) = None)"
  proof (cases "clean sep [l]")
    case True
    then have cl: "sep \<notin> set l" by simp
    obtain rs where rs: "Relations g env s l = GVal rs"
      "set rs = {r \<in> holds g (view (ce_now env) s). incident r l}"
      by (rule Relations_exact [OF i g(1) cl g(2) ix])
    define ks where "ks = entityKey g l # concat (map (\<lambda>r. [fwdKey g (rfrom r) (rtype r) (rto r),
        revKey g (rto r) (rtype r) (rfrom r)]) rs)"
    have kk: "k \<in> set ks \<longleftrightarrow> k = entityKey g l \<or> (\<exists>r \<in> set rs. k = fwdKey g (rfrom r) (rtype r) (rto r)
        \<or> k = revKey g (rto r) (rtype r) (rfrom r))" for k
      by (auto simp: ks_def)
    have "\<forall>r \<in> set rs. clean sep [rfrom r, rto r, rtype r]"
      using holds_clean [OF i g(1)] rs(2) by blast
    then have clean_ks: "\<forall>k \<in> set ks. clean sep k \<and> k \<noteq> []"
      using True by (auto simp: kk graph_keys_clean [OF g(1)])
    have sym: "fwdKey g f r t \<in> set ks \<longleftrightarrow> revKey g t r f \<in> set ks" for f r t
      by (auto simp: kk)
    note D = batch_delete_effect [OF s g t clean_ks sym]
    have st: "gstore g = St" using g by (simp add: graph_on_def)
    have sn: "DeleteEntity g env s l = (lift_res (fst (sBatchDelete St env s ks)), snd (sBatchDelete St env s ks))"
      using True rs(1) by (simp add: DeleteEntity_def validate_clean [OF g(1)] st case_prod_unfold Let_def ks_def)
    have fk: "fwdKey g (rfrom x) (rtype x) (rto x) \<in> set ks \<longleftrightarrow> x \<in> set rs" for x
    proof -
      have "rfrom x = rfrom r \<and> rtype x = rtype r \<and> rto x = rto r \<longleftrightarrow> x = r" for r :: relation
        by (cases x, cases r) auto
      then show ?thesis by (simp add: kk)
    qed
    have "holds g (\<lambda>k. if k \<in> set ks then None else view t0 s k) =
        {r \<in> holds g (view t0 s). \<not> incident r l}"
    proof (rule set_eqI)
      fix x :: relation
      have "x \<in> holds g (\<lambda>k. if k \<in> set ks then None else view t0 s k) \<longleftrightarrow>
          x \<notin> set rs \<and> x \<in> holds g (view t0 s)"
        unfolding mem_holds fk by simp
      then show "x \<in> holds g (\<lambda>k. if k \<in> set ks then None else view t0 s k) \<longleftrightarrow>
          x \<in> {r \<in> holds g (view t0 s). \<not> incident r l}"
        unfolding rs(2) v by blast
    qed
    with D show ?thesis unfolding sn by (simp add: kk)
  next
    case False
    have "\<not> incident r l" if "r \<in> holds g (view t0 s)" for r
      using holds_clean [OF i g(1) that] False by (auto simp: incident_def)
    then have "{r \<in> holds g (view t0 s). \<not> incident r l} = holds g (view t0 s)" by blast
    then show ?thesis using same False
      by (simp add: DeleteEntity_def validate_clean [OF g(1)])
  qed
  then show "steady g (ce_now env) (snd (DeleteEntity g env s l))"
    "holds g (view (ce_now env) (snd (DeleteEntity g env s l))) = {r \<in> holds g (view t0 s). \<not> incident r l}"
    "clean sep [l] \<Longrightarrow> fst (DeleteEntity g env s l) = GVal () \<and>
      view (ce_now env) (snd (DeleteEntity g env s l)) (entityKey g l) = None"
    by blast+
qed

lemma graph_step_effect:
  assumes s: "steady g t0 s" and g: "graph_on g" "ce_ctx env = None" and t: "t0 \<le> ce_now env"
  shows "steady g (ce_now env) (graph_step J g env s oper) \<and>
    holds g (view (ce_now env) (graph_step J g env s oper)) = spec_step sep (holds g (view t0 s)) oper"
proof (cases oper)
  case (OpGetEntity l)
  note G = GetEntity_effect(1,2) [OF s g t, of J l]
  show ?thesis using G(1) unfolding OpGetEntity graph_step.simps spec_step.simps G(2) by blast
next
  case (OpSetEntity e)
  show ?thesis
    unfolding OpSetEntity graph_step.simps spec_step.simps using SetEntity_effect(1,2) [OF s g t] by blast
next
  case (OpMergeAttrs l new)
  show ?thesis
    unfolding OpMergeAttrs graph_step.simps spec_step.simps using MergeAttrs_effect [OF s g t] .
next
  case (OpDeleteEntity l)
  show ?thesis
    unfolding OpDeleteEntity graph_step.simps spec_step.simps using DeleteEntity_effect(1,2) [OF s g t] by blast
next
  case (OpAddRelation r)
  show ?thesis
    unfolding OpAddRelation graph_step.simps spec_step.simps by (rule AddRelation_effect [OF s g t])
next
  case (OpRemoveRelation f t' r)
  show ?thesis
    unfolding OpRemoveRelation graph_step.simps spec_step.simps by (rule RemoveRelation_effect [OF s g t])
qed

lemma graph_run_effect:
  assumes "steady g t0 s" "graph_on g" "sorted (t0 # map fst ops)"
  shows "steady g (last (t0 # map fst ops)) (graph_run J g s ops) \<and>
    holds g (view (last (t0 # map fst ops)) (graph_run J g s ops)) =
      fold (\<lambda>oper R. spec_step sep R (snd oper)) ops (holds g (view t0 s))"
  using assms(1,3)
proof (induction ops arbitrary: t0 s)
  case (Cons top ops)
  obtain t oper where p: "top = (t, oper)" by fastforce
  let ?env = "\<lparr>ce_ctx = None, ce_now = t\<rparr>"
  have "t0 \<le> ce_now ?env" using Cons.prems(2) p by simp
  from graph_step_effect [OF Cons.prems(1) assms(2) _ this, of J oper]
  have S: "steady g t (graph_step J g ?env s oper)"
    "holds g (view t (graph_step J g ?env s oper)) = spec_step sep (holds g (view t0 s)) oper" by simp_all
  have "sorted (t # map fst ops)" using Cons.prems(2) p by simp
  from Cons.IH [OF S(1) this] S(2) show ?case by (simp add: p)
qed simp

lemma entity_cycle:
  assumes s: "steady g t0 s" and g: "graph_on g" "ce_ctx env = None" and t: "t0 \<le> ce_now env"
    and J: "\<forall>a d. j_marshal J a = Some d \<longrightarrow> d \<noteq> [] \<and> j_unmarshal J d = Some a"
    and c: "clean sep [elabel e]" and d: "j_marshal J (eattrs e) = Some d"
  defines "s1 \<equiv> snd (SetEntity J g env s e)"
  shows "fst (GetEntity J g env s1 (elabel e)) = GVal e"
    and "eattrs e = Some old \<Longrightarrow> j_marshal J (Some (old ++ new)) = Some d' \<Longrightarrow>
      fst (GetEntity J g env (snd (MergeAttrs J g env s1 (elabel e) new)) (elabel e))
        = GVal (e\<lparr>eattrs := Some (old ++ new)\<rparr>)"
    and "fst (GetEntity J g env (snd (DeleteEntity g env s1 (elabel e))) (elabel e)) = GErr EntityNotFound"
proof -
  let ?l = "elabel e" and ?now = "ce_now env"
  note S = SetEntity_effect [OF s g t, where J = J and e = e, folded s1_def]
  have v: "view ?now s1 (entityKey g ?l) = Some d" using S(3) [OF c d] by simp
  note G = GetEntity_effect [OF S(1) g order_refl, where J = J and l = ?l]
  have dec: "decoded J ?l (Some d) = GVal e" using J d by (simp add: decoded_def)
  show get: "fst (GetEntity J g env s1 ?l) = GVal e" using G(3) [OF c] v dec by simp
  have v2: "view ?now (snd (DeleteEntity g env s1 ?l)) (entityKey g ?l) = None"
    using DeleteEntity_effect(3) [OF S(1) g order_refl c] by blast
  show "fst (GetEntity J g env (snd (DeleteEntity g env s1 ?l)) ?l) = GErr EntityNotFound"
    using GetEntity_effect(3) [OF DeleteEntity_effect(1) [OF S(1) g order_refl] g order_refl c, of J ?l] v2
    by (simp add: decoded_def)
  show "fst (GetEntity J g env (snd (MergeAttrs J g env s1 ?l new)) ?l) = GVal (e\<lparr>eattrs := Some (old ++ new)\<rparr>)"
    if old: "eattrs e = Some old" and d': "j_marshal J (Some (old ++ new)) = Some d'"
  proof -
    let ?e = "e\<lparr>eattrs := Some (old ++ new)\<rparr>" and ?s2 = "snd (GetEntity J g env s1 ?l)"
    have M: "MergeAttrs J g env s1 ?l new = SetEntity J g env ?s2 ?e"
      using c get old by (simp add: MergeAttrs_def validate_clean [OF g(1)] case_prod_unfold Let_def)
    have ce: "clean sep [elabel ?e]" and de: "j_marshal J (eattrs ?e) = Some d'" using c d' by simp_all
    note S2 = SetEntity_effect [OF G(1) g order_refl, where J = J and e = ?e]
    have v3: "view ?now (snd (SetEntity J g env ?s2 ?e)) (entityKey g ?l) = Some d'"
      using S2(3) [OF ce de] by simp
    have "decoded J ?l (Some d') = GVal ?e" using J d' by (simp add: decoded_def)
    then show ?thesis
      unfolding M using GetEntity_effect(3) [OF S2(1) g order_refl c, of J] v3 by simp
  qed
qed

end

section \<open>Properties\<close>

text \<open>
  What a graph over an in-memory store that started empty can look like: the store and the graph have
  the same separator, an ASCII byte.
\<close>

definition graph_setup :: "char \<Rightarrow> kv_key \<Rightarrow> bool" where
  "graph_setup c prefix \<longleftrightarrow> c \<noteq> CHR 0x00 \<and> ascii c \<and> clean c prefix \<and> clean c [''e'', ''r'', ''ri'']"

lemma memory_graph_on:
  "graph_setup c prefix \<Longrightarrow> memory.graph_on c (NewKVGraph Memory prefix [c])"
  by (simp add: memory.graph_on_def NewKVGraph_def graph_setup_def)

lemma memory_history:
  fixes J :: "'j json"
  assumes "graph_setup c prefix" "sorted (map fst ops @ [t])"
  defines "g \<equiv> NewKVGraph Memory prefix [c]"
  defines "m \<equiv> graph_run J g (NewMemory (Some c)) ops"
  shows "memory.steady c g t m" "holds g (mem_view c t m) = spec_run c ops"
proof -
  let ?t0 = "hd (map fst ops @ [t])" and ?m0 = "NewMemory (Some c)"
  have sep: "opt_sep (Some c) = c" using assms(1) by (simp add: opt_sep_def graph_setup_def)
  have empty_view: "mem_view c u ?m0 = Map.empty" for u
    by (simp add: mem_view_def mem_live_def NewMemory_def fun_eq_iff)
  have st: "memory.steady c g ?t0 ?m0"
    unfolding memory.steady_def
    by (simp add: empty_view indexed_def mem_inv_def) (simp add: NewMemory_def sep)
  have so: "sorted (?t0 # map fst ops)" using assms(2) by (cases ops) (auto simp: sorted_append)
  note R = memory.graph_run_effect [OF st memory_graph_on [OF assms(1), folded g_def] so, of J, folded m_def]
  have le: "last (?t0 # map fst ops) \<le> t"
    using assms(2) by (cases ops rule: rev_cases) (auto simp: sorted_append)
  note L = memory.steady_later [OF conjunct1 [OF R] le]
  show "memory.steady c g t m" using L by blast
  have "holds g Map.empty = {}" by (simp add: holds_def)
  then show "holds g (mem_view c t m) = spec_run c ops"
    using R L by (simp add: spec_run_def empty_view)
qed

text \<open>
  C31: The two indexes implement one set of relations: after any history of graph operations on a
  store that started empty, with an ASCII separator, \<open>Relations\<close> lists exactly the relations of the
  specification that start or end at the label, each once, self-loops included.
\<close>

theorem graph_relations_exact:
  assumes "graph_setup c prefix" and "sorted (map fst ops @ [t])" and "clean c [l]"
  defines "g \<equiv> NewKVGraph Memory prefix [c]"
  shows "\<exists>rs. Relations g \<lparr>ce_ctx = None, ce_now = t\<rparr> (graph_run J g (NewMemory (Some c)) ops) l = GVal rs \<and>
    distinct rs \<and> set rs = {r \<in> spec_run c ops. incident r l}"
proof -
  let ?m = "graph_run J g (NewMemory (Some c)) ops"
  note H = memory_history [OF assms(1,2), where J = J, folded g_def]
  note S = memory.steadyD [OF H(1)]
  show ?thesis
    by (rule memory.Relations_exact [of c ?m g l "\<lparr>ce_ctx = None, ce_now = t\<rparr>"])
      (use S(2,3) memory_graph_on [OF assms(1)] assms(3) H(2) in \<open>auto simp: g_def\<close>)
qed

text \<open>
  C32: Traversal is exact (the separator again an ASCII byte): \<open>Neighbors\<close> returns, sorted and without
  duplicates, the labels joined to the given one by a relation of an allowed type in either direction,
  and \<open>Expand\<close> the labels within the given number of steps of the seeds.
\<close>

theorem graph_traversal_exact:
  assumes "graph_setup c prefix" and "sorted (map fst ops @ [t])" and "clean c (l # types @ seeds)"
  defines "g \<equiv> NewKVGraph Memory prefix [c]"
  shows "(\<exists>ns. Neighbors g \<lparr>ce_ctx = None, ce_now = t\<rparr> (graph_run J g (NewMemory (Some c)) ops) l types = GVal ns \<and>
      sorted ns \<and> distinct ns \<and> set ns = edges (spec_run c ops) types `` {l}) \<and>
    (\<exists>ls. Expand g \<lparr>ce_ctx = None, ce_now = t\<rparr> (graph_run J g (NewMemory (Some c)) ops) seeds hops = GVal ls \<and>
      sorted ls \<and> distinct ls \<and>
      set ls = {y. \<exists>x \<in> set seeds. \<exists>i \<le> nat hops. (x, y) \<in> edges (spec_run c ops) [] ^^ i})"
proof
  let ?m = "graph_run J g (NewMemory (Some c)) ops" and ?env = "\<lparr>ce_ctx = None, ce_now = t\<rparr>"
  note H = memory_history [OF assms(1,2), where J = J, folded g_def]
  note S = memory.steadyD [OF H(1)]
  have on: "memory.graph_on c g" unfolding g_def by (rule memory_graph_on [OF assms(1)])
  show "\<exists>ns. Neighbors g ?env ?m l types = GVal ns \<and> sorted ns \<and> distinct ns \<and>
      set ns = edges (spec_run c ops) types `` {l}"
    by (rule memory.Neighbors_exact [OF S(2) on, of l types ?env])
      (use S(3) assms(3) H(2) in auto)
  show "\<exists>ls. Expand g ?env ?m seeds hops = GVal ls \<and> sorted ls \<and> distinct ls \<and>
      set ls = {y. \<exists>x \<in> set seeds. \<exists>i \<le> nat hops. (x, y) \<in> edges (spec_run c ops) [] ^^ i}"
    by (rule memory.Expand_exact [OF S(2) on, of seeds ?env hops])
      (use S(3) assms(3) H(2) in \<open>auto simp: within_def\<close>)
qed

text \<open>
  Entities behave as a map: after any history, an entity that was set is read back, merging
  attributes gives the old ones overridden by the new, and a deleted entity is not found.
\<close>

theorem graph_entity_cycle:
  assumes "graph_setup c prefix" and "sorted (map fst ops @ [t])" and "clean c [elabel e]"
    and "\<forall>a d. j_marshal J a = Some d \<longrightarrow> d \<noteq> [] \<and> j_unmarshal J d = Some a"
    and "eattrs e = Some old" and "j_marshal J (Some old) \<noteq> None" and "j_marshal J (Some (old ++ new)) \<noteq> None"
  defines "g \<equiv> NewKVGraph Memory prefix [c]"
    and "env \<equiv> \<lparr>ce_ctx = None, ce_now = t\<rparr>"
  defines "m \<equiv> snd (SetEntity J g env (graph_run J g (NewMemory (Some c)) ops) e)"
  shows "fst (GetEntity J g env m (elabel e)) = GVal e \<and>
    fst (GetEntity J g env (snd (MergeAttrs J g env m (elabel e) new)) (elabel e))
      = GVal (e\<lparr>eattrs := Some (old ++ new)\<rparr>) \<and>
    fst (GetEntity J g env (snd (DeleteEntity g env m (elabel e))) (elabel e)) = GErr EntityNotFound"
proof -
  note H = memory_history [OF assms(1,2), where J = J, folded g_def]
  have on: "memory.graph_on c g" unfolding g_def by (rule memory_graph_on [OF assms(1)])
  have env: "ce_ctx env = None" "t \<le> ce_now env" by (simp_all add: env_def)
  obtain d d' where d: "j_marshal J (eattrs e) = Some d" "j_marshal J (Some (old ++ new)) = Some d'"
    using assms(5,6,7) by auto
  note E = memory.entity_cycle [OF H(1) on env assms(4,3) d(1), folded m_def]
  show ?thesis using E(1,3) E(2) [OF assms(5) d(2)] by blast
qed

text \<open>A codec for attributes that are nil or empty, for the examples.\<close>

definition demo_json :: "nat json" where
  "demo_json = \<lparr>j_marshal = (\<lambda>a. case a of None \<Rightarrow> Some [0]
       | Some m \<Rightarrow> if m = Map.empty then Some [1] else if m = [''k'' \<mapsto> 7] then Some [2] else None),
     j_unmarshal = (\<lambda>d. if d = [0] then Some None else if d = [1] then Some (Some Map.empty)
       else if d = [2] then Some (Some [''k'' \<mapsto> 7]) else None)\<rparr>"

definition demo_history :: "(int \<times> nat graph_op) list" where
  "demo_history = [(1, OpAddRelation \<lparr>rfrom = ''A'', rto = ''B'', rtype = ''k''\<rparr>),
     (2, OpAddRelation \<lparr>rfrom = ''C'', rto = ''B'', rtype = ''k''\<rparr>), (3, OpDeleteEntity ''A'')]"

lemma demo_spec: "spec_run (CHR '':'') demo_history = {\<lparr>rfrom = ''C'', rto = ''B'', rtype = ''k''\<rparr>}"
  by (auto simp: spec_run_def demo_history_def incident_def)

lemma demo_setup: "graph_setup (CHR '':'') [''g'']" "sorted (map fst demo_history @ [4])"
  by (simp_all add: graph_setup_def ascii_def demo_history_def)

theorem graph_relations_exact_witness:
  "\<exists>rs. Relations (NewKVGraph Memory [''g''] [CHR '':'']) \<lparr>ce_ctx = None, ce_now = 4\<rparr>
      (graph_run demo_json (NewKVGraph Memory [''g''] [CHR '':'']) (NewMemory (Some (CHR '':''))) demo_history) ''B''
    = GVal rs \<and> set rs = {\<lparr>rfrom = ''C'', rto = ''B'', rtype = ''k''\<rparr>}"
  using graph_relations_exact [OF demo_setup, of "''B''" demo_json]
  by (auto simp: demo_spec incident_def cong: conj_cong)

theorem graph_traversal_exact_witness:
  "\<exists>ns. Neighbors (NewKVGraph Memory [''g''] [CHR '':'']) \<lparr>ce_ctx = None, ce_now = 4\<rparr>
      (graph_run demo_json (NewKVGraph Memory [''g''] [CHR '':'']) (NewMemory (Some (CHR '':''))) demo_history) ''B'' []
    = GVal ns \<and> set ns = {''C''}"
proof -
  have "edges {\<lparr>rfrom = ''C'', rto = ''B'', rtype = ''k''\<rparr>} [] `` {''B''} = {''C''}"
    by (auto simp: edges_def)
  then show ?thesis
    using conjunct1 [OF graph_traversal_exact [OF demo_setup, of "''B''" "[]" "[]" demo_json 1]]
    by (auto simp: demo_spec)
qed

theorem graph_entity_cycle_witness:
  "fst (GetEntity demo_json (NewKVGraph Memory [''g''] [CHR '':'']) \<lparr>ce_ctx = None, ce_now = 4\<rparr>
     (snd (SetEntity demo_json (NewKVGraph Memory [''g''] [CHR '':'']) \<lparr>ce_ctx = None, ce_now = 4\<rparr>
       (graph_run demo_json (NewKVGraph Memory [''g''] [CHR '':'']) (NewMemory (Some (CHR '':''))) demo_history)
       \<lparr>elabel = ''B'', eattrs = Some Map.empty\<rparr>)) ''B'')
   = GVal \<lparr>elabel = ''B'', eattrs = Some (Map.empty :: string \<Rightarrow> nat option)\<rparr>"
proof -
  have n: "[''k'' \<mapsto> 7 :: nat] \<noteq> Map.empty" by (metis map_upd_nonempty)
  have J: "\<forall>a d. j_marshal demo_json a = Some d \<longrightarrow> d \<noteq> [] \<and> j_unmarshal demo_json d = Some a"
    by (auto simp: demo_json_def split: option.splits if_splits)
  show ?thesis
    using conjunct1 [OF graph_entity_cycle [OF demo_setup _ J, of "\<lparr>elabel = ''B'', eattrs = Some Map.empty\<rparr>"
        Map.empty "[''k'' \<mapsto> 7]"]] n
    by (simp add: demo_json_def)
qed

end
