(* ===== verification/OggPage.thy ===== *)
theory OggPage
  imports Prelude
begin

text \<open>
  \<open>pkg/audio/codec/ogg\<close>: \<open>constants.go\<close>, \<open>crc.go\<close> and \<open>page.go\<close>, the physical pages of an OGG
  stream.  The checksum is the table-driven one of the code; its reference is the bit-by-bit
  division.  A pointer to a page is the page: the nil checks have no counterpart.  Slices are
  \<open>subslice\<close>, and writing a field into the zeroed buffer is concatenating the fields in order.
\<close>

section \<open>Checksum\<close>

definition polynomial :: u32 where "polynomial = 0x04c11db7"

text \<open>One turn of the inner loop of \<open>buildOGGCRCTable\<close>.\<close>

definition crc_bit :: "u32 \<Rightarrow> u32" where
  "crc_bit crc =
     (if crc AND push_bit 31 1 \<noteq> 0 then push_bit 1 crc XOR polynomial else push_bit 1 crc)"

definition oggCRCTable :: "u32 list" where
  "oggCRCTable = map (\<lambda>i. (crc_bit ^^ 8) (push_bit 24 (of_nat i))) [0..<256]"

definition crc_byte :: "u32 \<Rightarrow> byte \<Rightarrow> u32" where
  "crc_byte crc b =
     push_bit 8 crc XOR oggCRCTable ! unat (ucast (drop_bit 24 crc XOR ucast b) :: byte)"

definition oggCRC :: "byte list \<Rightarrow> u32" where
  "oggCRC data = foldl crc_byte 0 data"

section \<open>Pages\<close>

definition CapturePattern :: "byte list" where "CapturePattern = [0x4f, 0x67, 0x67, 0x53]"

definition HeaderTypeContinued :: byte where "HeaderTypeContinued = 1"
definition HeaderTypeBOS :: byte where "HeaderTypeBOS = 2"
definition HeaderTypeEOS :: byte where "HeaderTypeEOS = 4"

definition pageHeaderSize :: nat where "pageHeaderSize = 27"
definition maxPageSegments :: nat where "maxPageSegments = 255"
definition maxSegmentSize :: nat where "maxSegmentSize = 255"
definition GranulePositionUnknown :: u64 where "GranulePositionUnknown = NOT 0"

record page =
  pVersion :: byte
  pHeaderType :: byte
  pGranule :: u64
  pSerial :: u32
  pSequence :: u32
  pChecksum :: u32
  pSegments :: "byte list"
  pPayload :: "byte list"

datatype ogg_error =
  NegativeLength | UnsupportedVersion | UnsupportedHeaderType | TooManySegments | PayloadMismatch
| ShortHeader | BadCapture | TruncatedSegments | TruncatedPayload | ChecksumMismatch | TrailingData
| BadPageCount | SequenceOverflow | PayloadOverflow | NotConsumed
| UnexpectedContinuation | MissingContinuation | UnterminatedPacket
| StreamBroken | StreamEnded | WriteFailed | ShortWrite | ReadFailed
| EndOfStream | TruncatedHeader | TruncatedAtEOF

definition HasContinuation :: "page \<Rightarrow> bool" where
  "HasContinuation p \<longleftrightarrow> pHeaderType p AND HeaderTypeContinued \<noteq> 0"

definition HasBOS :: "page \<Rightarrow> bool" where
  "HasBOS p \<longleftrightarrow> pHeaderType p AND HeaderTypeBOS \<noteq> 0"

definition HasEOS :: "page \<Rightarrow> bool" where
  "HasEOS p \<longleftrightarrow> pHeaderType p AND HeaderTypeEOS \<noteq> 0"

definition seg_sum :: "byte list \<Rightarrow> nat" where
  "seg_sum segs = sum_list (map unat segs)"

definition Validate :: "page \<Rightarrow> ogg_error option" where
  "Validate p =
     (if pVersion p \<noteq> 0 then Some UnsupportedVersion
      else if pHeaderType p AND NOT (HeaderTypeContinued OR HeaderTypeBOS OR HeaderTypeEOS) \<noteq> 0
        then Some UnsupportedHeaderType
      else if maxPageSegments < length (pSegments p) then Some TooManySegments
      else if seg_sum (pSegments p) \<noteq> length (pPayload p) then Some PayloadMismatch
      else None)"

text \<open>The page in wire order with \<open>checksum\<close> in its field.\<close>

definition page_bytes :: "page \<Rightarrow> u32 \<Rightarrow> byte list" where
  "page_bytes p checksum =
     CapturePattern @ [pVersion p, pHeaderType p] @ put_le 8 (pGranule p) @ put_le 4 (pSerial p)
       @ put_le 4 (pSequence p) @ put_le 4 checksum @ [of_nat (length (pSegments p))]
       @ pSegments p @ pPayload p"

definition MarshalBinary :: "page \<Rightarrow> ogg_error + byte list" where
  "MarshalBinary p =
     (case Validate p of
        Some e \<Rightarrow> Inl e
      | None \<Rightarrow> let raw = page_bytes p 0 in Inr (page_bytes p (oggCRC raw)))"

definition parsePagePrefix :: "byte list \<Rightarrow> ogg_error + (page \<times> nat)" where
  "parsePagePrefix raw =
     (if length raw < pageHeaderSize then Inl ShortHeader
      else if take 4 raw \<noteq> CapturePattern then Inl BadCapture
      else if raw ! 4 \<noteq> 0 then Inl UnsupportedVersion
      else let headerLen = pageHeaderSize + unat (raw ! 26) in
        if length raw < headerLen then Inl TruncatedSegments
        else let totalLen = headerLen + seg_sum (subslice 27 headerLen raw) in
          if length raw < totalLen then Inl TruncatedPayload
          else let pageBytes = take totalLen raw;
                   want = get_le (subslice 22 26 pageBytes);
                   input = pageBytes[22 := 0, 23 := 0, 24 := 0, 25 := 0];
                   p = \<lparr>pVersion = pageBytes ! 4, pHeaderType = pageBytes ! 5,
                        pGranule = get_le (subslice 6 14 pageBytes),
                        pSerial = get_le (subslice 14 18 pageBytes),
                        pSequence = get_le (subslice 18 22 pageBytes), pChecksum = want,
                        pSegments = subslice 27 headerLen pageBytes,
                        pPayload = subslice headerLen totalLen pageBytes\<rparr>
            in if oggCRC input \<noteq> want then Inl ChecksumMismatch
               else case Validate p of Some e \<Rightarrow> Inl e | None \<Rightarrow> Inr (p, totalLen))"

definition ParsePage :: "byte list \<Rightarrow> ogg_error + page" where
  "ParsePage raw =
     (case parsePagePrefix raw of
        Inl e \<Rightarrow> Inl e
      | Inr (p, consumed) \<Rightarrow> if consumed \<noteq> length raw then Inl TrailingData else Inr p)"

lemma parsePagePrefix_consumes:
  "parsePagePrefix raw = Inr (p, n) \<Longrightarrow> 0 < n \<and> n \<le> length raw"
  by (auto simp: parsePagePrefix_def Let_def pageHeaderSize_def split: if_splits option.splits)

function ParsePages :: "byte list \<Rightarrow> ogg_error + page list" where
  "ParsePages stream =
     (if stream = [] then Inr []
      else case parsePagePrefix stream of
          Inl e \<Rightarrow> Inl e
        | Inr (p, consumed) \<Rightarrow>
            (case ParsePages (drop consumed stream) of Inl e \<Rightarrow> Inl e | Inr ps \<Rightarrow> Inr (p # ps)))"
  by pat_completeness auto
termination
  by (relation "measure length") (auto dest: parsePagePrefix_consumes)

declare ParsePages.simps [simp del]

fun MarshalPages :: "page list \<Rightarrow> ogg_error + byte list" where
  "MarshalPages [] = Inr []"
| "MarshalPages (p # ps) =
     (case MarshalBinary p of
        Inl e \<Rightarrow> Inl e
      | Inr raw \<Rightarrow> (case MarshalPages ps of Inl e \<Rightarrow> Inl e | Inr out \<Rightarrow> Inr (raw @ out)))"

section \<open>The checksum is polynomial division\<close>

lemma xor_cancel:
  "(u XOR v = w XOR v) = (u = (w :: 'a::len word))" "(v XOR u = v XOR w) = (u = w)"
proof -
  show "(u XOR v = w XOR v) = (u = w)"
  proof
    assume "u XOR v = w XOR v"
    then have "(u XOR v) XOR v = (w XOR v) XOR v" by simp
    then show "u = w" by (simp add: xor.assoc)
  qed simp
  then show "(v XOR u = v XOR w) = (u = w)" by (simp only: xor.commute)
qed

lemma crc_bit_bit: "crc_bit w = (if bit w 31 then push_bit 1 w XOR polynomial else push_bit 1 w)"
  by (simp only: crc_bit_def bit_iff_and_push_bit_not_eq_0)

lemma crc_bit_linear: "crc_bit (x XOR y) = crc_bit x XOR crc_bit y"
proof (rule bit_word_eqI)
  fix n assume n: "n < LENGTH(32)"
  show "bit (crc_bit (x XOR y)) n = bit (crc_bit x XOR crc_bit y) n"
    unfolding crc_bit_bit
    by (cases "bit x 31"; cases "bit y 31") (auto simp: bit_xor_iff bit_push_bit_iff)
qed

lemma crc_bits_linear: "(crc_bit ^^ n) (x XOR y) = (crc_bit ^^ n) x XOR (crc_bit ^^ n) y"
  by (induction n) (simp_all add: crc_bit_linear)

lemma crc_bits_low:
  assumes "\<And>i. 32 - n \<le> i \<Longrightarrow> \<not> bit w i" "n \<le> 32"
  shows "(crc_bit ^^ n) w = push_bit n w"
  using assms
proof (induction n)
  case (Suc n)
  have "(crc_bit ^^ n) w = push_bit n w" by (rule Suc.IH) (use Suc.prems in auto)
  moreover have "\<not> bit (push_bit n w) 31" using Suc.prems by (auto simp: bit_push_bit_iff)
  ultimately have "(crc_bit ^^ Suc n) w = push_bit 1 (push_bit n w)"
    using crc_bit_bit [of "push_bit n w"] by (simp only: funpow.simps o_apply if_False)
  then show ?case by (simp only: push_bit_push_bit plus_1_eq_Suc)
qed simp

lemma crc_bit_zero: "crc_bit w = 0 \<longleftrightarrow> w = 0"
proof
  assume z: "crc_bit w = 0"
  have "\<not> bit w 31"
  proof
    assume "bit w 31"
    then have "crc_bit w = push_bit 1 w XOR polynomial" by (simp only: crc_bit_bit if_True)
    then have "0 = push_bit 1 w XOR polynomial" unfolding z .
    then have "bit (0 :: u32) 0 = bit (push_bit 1 w XOR polynomial) 0" by (rule arg_cong)
    then have "bit (0 :: u32) 0 = (bit (push_bit 1 w) 0 \<noteq> bit polynomial 0)"
      by (simp only: bit_xor_iff)
    moreover have "\<not> bit (push_bit 1 w) 0" by (simp only: bit_push_bit_iff) simp
    moreover have "bit polynomial 0" by (simp add: polynomial_def)
    ultimately show False by simp
  qed
  show "w = 0"
  proof (rule bit_word_eqI)
    fix n assume n: "n < LENGTH(32)"
    show "bit w n = bit 0 n"
    proof (cases "n = 31")
      case False
      then have "bit (push_bit 1 w) (Suc n) = bit w n"
        using n by (simp only: bit_push_bit_iff) simp
      moreover have "crc_bit w = push_bit 1 w" using \<open>\<not> bit w 31\<close> by (simp only: crc_bit_bit if_False)
      ultimately show ?thesis using z by simp
    qed (use \<open>\<not> bit w 31\<close> in simp)
  qed
qed (simp add: crc_bit_bit)

lemma crc_bits_inj: "(crc_bit ^^ n) x = (crc_bit ^^ n) y \<longleftrightarrow> x = y"
proof
  assume "(crc_bit ^^ n) x = (crc_bit ^^ n) y"
  then have "(crc_bit ^^ n) (x XOR y) = 0" by (simp add: crc_bits_linear)
  moreover have "(crc_bit ^^ n) w = 0 \<Longrightarrow> w = 0" for w by (induction n) (auto simp: crc_bit_zero)
  ultimately have "x XOR y = 0" by blast
  then have "x XOR y = y XOR y" by simp
  then show "x = y" by (simp only: xor_cancel)
qed simp

text \<open>One byte of the reference: it enters at the top and is divided out bit by bit.\<close>

definition crc_byte_ref :: "u32 \<Rightarrow> byte \<Rightarrow> u32" where
  "crc_byte_ref crc b = (crc_bit ^^ 8) (crc XOR push_bit 24 (ucast b))"

lemma crc_byte_is_ref: "crc_byte crc b = crc_byte_ref crc b"
proof -
  let ?i = "ucast (drop_bit 24 crc XOR ucast b) :: byte"
  let ?low = "crc AND NOT (push_bit 24 (ucast (ucast (drop_bit 24 crc) :: byte)))"
  have t: "oggCRCTable ! unat ?i = (crc_bit ^^ 8) (push_bit 24 (ucast ?i))"
    using unat_byte_less [of ?i] by (simp add: oggCRCTable_def unsigned_of_nat)
  have hi: "bit (push_bit 24 (ucast ?i) :: u32) n \<longleftrightarrow> 24 \<le> n \<and> n < 32 \<and> (bit crc n \<noteq> bit b (n - 24))" for n
    by (auto simp: bit_push_bit_iff bit_ucast_iff bit_xor_iff bit_drop_bit_eq dest: bit_imp_le_length)
  define low :: u32 where "low = crc XOR push_bit 24 (ucast b) XOR push_bit 24 (ucast ?i)"
  have lowbit: "bit low n \<longleftrightarrow> n < 24 \<and> bit crc n" for n
  proof -
    have hb: "bit (push_bit 24 (ucast b) :: u32) n \<longleftrightarrow> 24 \<le> n \<and> n < 32 \<and> bit b (n - 24)"
      by (auto simp: bit_push_bit_iff bit_ucast_iff)
    show ?thesis
      unfolding low_def bit_xor_iff hi hb using bit_imp_le_length [of crc n] by auto
  qed
  have "crc XOR push_bit 24 (ucast b) = low XOR push_bit 24 (ucast ?i)"
    by (simp add: low_def ac_simps)
  then have "crc_byte_ref crc b = (crc_bit ^^ 8) low XOR (crc_bit ^^ 8) (push_bit 24 (ucast ?i))"
    by (simp only: crc_byte_ref_def crc_bits_linear)
  moreover have "(crc_bit ^^ 8) low = push_bit 8 low" by (rule crc_bits_low) (use lowbit in auto)
  moreover have "push_bit 8 low = push_bit 8 crc"
    by (rule bit_word_eqI) (auto simp: bit_push_bit_iff lowbit)
  ultimately show ?thesis by (simp only: crc_byte_def t)
qed

lemma crc_byte_inj:
  "crc_byte c b = crc_byte c' b \<longleftrightarrow> c = c'" "crc_byte c b = crc_byte c b' \<longleftrightarrow> b = b'"
proof -
  have p: "(push_bit 24 (ucast b :: u32) = push_bit 24 (ucast b')) = (b = b')"
  proof
    assume e: "push_bit 24 (ucast b :: u32) = push_bit 24 (ucast b')"
    show "b = b'"
    proof (rule bit_word_eqI)
      fix n assume n: "n < LENGTH(8)"
      have "bit (push_bit 24 (ucast b :: u32)) (24 + n) = bit (push_bit 24 (ucast b' :: u32)) (24 + n)"
        using e by simp
      then show "bit b n = bit b' n" using n by (simp add: bit_push_bit_iff bit_ucast_iff)
    qed
  qed simp
  show "crc_byte c b = crc_byte c' b \<longleftrightarrow> c = c'" "crc_byte c b = crc_byte c b' \<longleftrightarrow> b = b'"
    by (simp_all add: crc_byte_is_ref crc_byte_ref_def crc_bits_inj xor_cancel p)
qed

lemma crc_fold_inj: "foldl crc_byte c xs = foldl crc_byte c' xs \<longleftrightarrow> c = c'"
  by (induction xs arbitrary: c c') (simp_all add: crc_byte_inj)

lemma oggCRC_change: "oggCRC (xs @ b # ys) = oggCRC (xs @ b' # ys) \<longleftrightarrow> b = b'"
  by (simp add: oggCRC_def crc_fold_inj crc_byte_inj)

section \<open>Pages on the wire\<close>

lemma Validate_None:
  "Validate p = None \<longleftrightarrow> pVersion p = 0 \<and>
     pHeaderType p AND NOT (HeaderTypeContinued OR HeaderTypeBOS OR HeaderTypeEOS) = 0 \<and>
     length (pSegments p) \<le> 255 \<and> seg_sum (pSegments p) = length (pPayload p)"
  by (simp add: Validate_def maxPageSegments_def not_less)

lemma length_page_bytes [simp]:
  "length (page_bytes p c) = 27 + length (pSegments p) + length (pPayload p)"
  by (simp add: page_bytes_def CapturePattern_def)

lemma subslice_full: "subslice 0 (length xs) xs = xs"
  by (simp add: subslice_def)

lemma update_field:
  assumes "length h = 22"
  shows "(h @ [w, x, y, z] @ t)[22 := a, 23 := b, 24 := c, 25 := d] = h @ [a, b, c, d] @ t"
  using assms by (simp add: list_update_append)

lemma page_bytes_fields:
  assumes "length (pSegments p) \<le> 255"
  shows "take 4 (page_bytes p c @ rest) = CapturePattern"
    "(page_bytes p c @ rest) ! 4 = pVersion p" "page_bytes p c ! 4 = pVersion p"
    "page_bytes p c ! 5 = pHeaderType p"
    "unat ((page_bytes p c @ rest) ! 26) = length (pSegments p)"
    "subslice 6 14 (page_bytes p c) = put_le 8 (pGranule p)"
    "subslice 14 18 (page_bytes p c) = put_le 4 (pSerial p)"
    "subslice 18 22 (page_bytes p c) = put_le 4 (pSequence p)"
    "subslice 22 26 (page_bytes p c) = put_le 4 c"
    "subslice 27 (27 + length (pSegments p)) (page_bytes p c @ rest) = pSegments p"
    "subslice 27 (27 + length (pSegments p)) (page_bytes p c) = pSegments p"
    "subslice (27 + length (pSegments p)) (27 + length (pSegments p) + length (pPayload p)) (page_bytes p c)
      = pPayload p"
  using assms unat_of_nat_byte [of "length (pSegments p)"]
  by (simp_all add: page_bytes_def CapturePattern_def slice_Cons slice_append_right nth_append subslice_full)

lemma page_split:
  assumes "27 \<le> h" "h \<le> length b"
  shows "b = take 4 b @ b ! 4 # b ! 5 # (subslice 6 14 b @ subslice 14 18 b @ subslice 18 22 b @
    subslice 22 26 b @ b ! 26 # subslice 27 h b @ subslice h (length b) b)"
proof -
  have "b = take 4 b @ drop 4 b" by simp
  also have "drop 4 b = b ! 4 # b ! 5 # drop 6 b"
    using Cons_nth_drop_Suc [of 4 b] Cons_nth_drop_Suc [of 5 b] assms by simp
  also have "drop 6 b = subslice 6 14 b @ subslice 14 18 b @ subslice 18 22 b @ subslice 22 26 b @ drop 26 b"
    by (simp add: slice_drop_append)
  also have "drop 26 b = b ! 26 # subslice 27 h b @ drop h b"
    using Cons_nth_drop_Suc [of 26 b] assms by (simp add: slice_drop_append)
  also have "drop h b = subslice h (length b) b" by (simp add: subslice_def)
  finally show ?thesis .
qed

lemma page_bytes_zero:
  "(page_bytes p c)[22 := 0, 23 := 0, 24 := 0, 25 := 0] = page_bytes p 0"
proof -
  let ?h = "CapturePattern @ [pVersion p, pHeaderType p] @ put_le 8 (pGranule p) @ put_le 4 (pSerial p)
       @ put_le 4 (pSequence p)" and ?t = "[of_nat (length (pSegments p))] @ pSegments p @ pPayload p"
  have b: "page_bytes p c = ?h @ put_le 4 c @ ?t" for c by (simp add: page_bytes_def)
  have h: "length ?h = 22" by (simp add: CapturePattern_def)
  obtain w x y z where c: "put_le 4 c = [w, x, y, z]"
  proof -
    have "\<exists>w x y z. xs = [w, x, y, z]" if "length xs = 4" for xs :: "byte list"
      using that by (auto simp: numeral_eq_Suc length_Suc_conv)
    then show ?thesis using that length_put_le [of 4 c] by metis
  qed
  have "put_le 4 (0 :: u32) = [0, 0, 0, 0]" by (simp add: put_le_def upt_rec)
  then show ?thesis
    unfolding b c using update_field [OF h, of w x y z ?t 0 0 0 0] by simp
qed

lemma parse_page_bytes:
  assumes "Validate p = None"
  shows "parsePagePrefix (page_bytes p (oggCRC (page_bytes p 0)) @ rest) =
    Inr (p\<lparr>pChecksum := oggCRC (page_bytes p 0)\<rparr>, length (page_bytes p 0))"
proof -
  let ?c = "oggCRC (page_bytes p 0)"
  have v: "pVersion p = 0" "length (pSegments p) \<le> 255" "seg_sum (pSegments p) = length (pPayload p)"
    using assms by (simp_all add: Validate_None)
  note F = page_bytes_fields [OF v(2), of ?c]
  have "Validate \<lparr>pVersion = 0, pHeaderType = pHeaderType p, pGranule = pGranule p,
      pSerial = pSerial p, pSequence = pSequence p, pChecksum = ?c, pSegments = pSegments p,
      pPayload = pPayload p\<rparr> = None" using assms by (simp add: Validate_None)
  moreover have "\<lparr>pVersion = pVersion p, pHeaderType = pHeaderType p, pGranule = pGranule p,
      pSerial = pSerial p, pSequence = pSequence p, pChecksum = ?c, pSegments = pSegments p,
      pPayload = pPayload p\<rparr> = p\<lparr>pChecksum := ?c\<rparr>" by simp
  moreover have T: "take (27 + length (pSegments p) + length (pPayload p)) (page_bytes p ?c @ rest) = page_bytes p ?c"
    by simp
  ultimately show ?thesis
    unfolding parsePagePrefix_def pageHeaderSize_def Let_def F v(3) T page_bytes_zero
    by (simp add: v(1))
qed

lemma page_bytes_of_parse:
  assumes "parsePagePrefix raw = Inr (p, n)"
  shows "Validate p = None" "take n raw = page_bytes p (oggCRC (page_bytes p 0))"
    "pChecksum p = oggCRC (page_bytes p 0)" "n = length (page_bytes p 0)" "n \<le> length raw"
proof -
  let ?h = "27 + unat (raw ! 26)"
  let ?n = "?h + seg_sum (subslice 27 ?h raw)"
  let ?b = "take ?n raw"
  have c: "27 \<le> length raw" "take 4 raw = CapturePattern" "raw ! 4 = 0" "?h \<le> length raw" "?n \<le> length raw"
    "oggCRC (?b[22 := 0, 23 := 0, 24 := 0, 25 := 0]) = get_le (subslice 22 26 ?b)" "n = ?n"
    and p: "p = \<lparr>pVersion = ?b ! 4, pHeaderType = ?b ! 5, pGranule = get_le (subslice 6 14 ?b),
      pSerial = get_le (subslice 14 18 ?b), pSequence = get_le (subslice 18 22 ?b),
      pChecksum = get_le (subslice 22 26 ?b), pSegments = subslice 27 ?h ?b, pPayload = subslice ?h ?n ?b\<rparr>"
    and v: "Validate p = None"
    using assms by (auto simp: parsePagePrefix_def pageHeaderSize_def Let_def not_less
        split: if_splits option.splits)
  show "Validate p = None" by (rule v)
  show "n \<le> length raw" using c by simp
  have lb: "length ?b = ?n" using c(5) by simp
  have w: "put_le 8 (get_le (subslice 6 14 ?b) :: u64) = subslice 6 14 ?b"
    "put_le 4 (get_le (subslice 14 18 ?b) :: u32) = subslice 14 18 ?b"
    "put_le 4 (get_le (subslice 18 22 ?b) :: u32) = subslice 18 22 ?b"
    "put_le 4 (get_le (subslice 22 26 ?b) :: u32) = subslice 22 26 ?b"
    using put_get_le [where 'a = 64, of "subslice 6 14 ?b"] put_get_le [where 'a = 32, of "subslice 14 18 ?b"]
      put_get_le [where 'a = 32, of "subslice 18 22 ?b"] put_get_le [where 'a = 32, of "subslice 22 26 ?b"] lb
    by simp_all
  have ls: "length (pSegments p) = unat (raw ! 26)" using lb by (simp add: p)
  have split: "?b = take 4 ?b @ ?b ! 4 # ?b ! 5 # (subslice 6 14 ?b @ subslice 14 18 ?b @
      subslice 18 22 ?b @ subslice 22 26 ?b @ ?b ! 26 # subslice 27 ?h ?b @ subslice ?h ?n ?b)"
    using page_split [of ?h ?b] lb by simp
  have "?b ! 26 = of_nat (length (pSegments p))" using lb by (simp add: ls)
  moreover have "take 4 ?b = CapturePattern" using c(2) by simp
  ultimately have b: "?b = page_bytes p (pChecksum p)"
    using split unfolding page_bytes_def by (simp add: p w)
  have "pChecksum p = oggCRC (?b[22 := 0, 23 := 0, 24 := 0, 25 := 0])" using c(6) by (simp add: p)
  also have "\<dots> = oggCRC (page_bytes p 0)" unfolding b page_bytes_zero ..
  finally show ck: "pChecksum p = oggCRC (page_bytes p 0)" .
  show "take n raw = page_bytes p (oggCRC (page_bytes p 0))" using b c(7) ck by simp
  show "n = length (page_bytes p 0)" using b lb c(7) by (metis length_page_bytes)
qed

lemma ParsePage_ok:
  assumes "ParsePage raw = Inr p"
  shows "raw = page_bytes p (oggCRC (page_bytes p 0))" "Validate p = None"
    "pChecksum p = oggCRC (page_bytes p 0)"
proof -
  have r: "parsePagePrefix raw = Inr (p, length raw)"
    using assms by (auto simp: ParsePage_def split: sum.splits prod.splits if_splits)
  show "raw = page_bytes p (oggCRC (page_bytes p 0))" "Validate p = None"
    "pChecksum p = oggCRC (page_bytes p 0)"
    using page_bytes_of_parse [OF r] by simp_all
qed

lemma MarshalBinary_Inr:
  "MarshalBinary p = Inr raw \<longleftrightarrow> Validate p = None \<and> raw = page_bytes p (oggCRC (page_bytes p 0))"
  by (auto simp: MarshalBinary_def Let_def split: option.split)

lemma parse_iff_marshal:
  "parsePagePrefix raw = Inr (p, n) \<longleftrightarrow>
     n \<le> length raw \<and> MarshalBinary p = Inr (take n raw) \<and> pChecksum p = oggCRC (page_bytes p 0)"
proof
  assume "parsePagePrefix raw = Inr (p, n)"
  then show "n \<le> length raw \<and> MarshalBinary p = Inr (take n raw) \<and> pChecksum p = oggCRC (page_bytes p 0)"
    using page_bytes_of_parse by (simp add: MarshalBinary_Inr)
next
  assume a: "n \<le> length raw \<and> MarshalBinary p = Inr (take n raw) \<and> pChecksum p = oggCRC (page_bytes p 0)"
  then have "length (take n raw) = n" by simp
  moreover have b: "take n raw = page_bytes p (oggCRC (page_bytes p 0))" and v: "Validate p = None"
    using a by (simp_all add: MarshalBinary_Inr)
  ultimately have "n = length (page_bytes p 0)" by simp
  moreover have "raw = page_bytes p (oggCRC (page_bytes p 0)) @ drop n raw" by (simp flip: b)
  moreover have "p\<lparr>pChecksum := oggCRC (page_bytes p 0)\<rparr> = p" using a by (cases p) simp
  ultimately show "parsePagePrefix raw = Inr (p, n)" using parse_page_bytes [OF v, of "drop n raw"] by metis
qed

lemma ParsePages_iff:
  "ParsePages stream = Inr ps \<longleftrightarrow>
     MarshalPages ps = Inr stream \<and> list_all (\<lambda>p. pChecksum p = oggCRC (page_bytes p 0)) ps"
proof (induction stream arbitrary: ps rule: ParsePages.induct)
  case (1 stream)
  show ?case
  proof (cases "stream = []")
    case True
    have "MarshalPages ps = Inr [] \<longleftrightarrow> ps = []"
      by (cases ps) (auto simp: MarshalBinary_Inr page_bytes_def CapturePattern_def split: sum.splits)
    with True show ?thesis by (auto simp: ParsePages.simps)
  next
    case False
    show ?thesis
    proof
      assume a: "ParsePages stream = Inr ps"
      then obtain p n qs where r: "parsePagePrefix stream = Inr (p, n)" "ParsePages (drop n stream) = Inr qs"
        "ps = p # qs"
        using False by (subst (asm) ParsePages.simps) (auto split: sum.splits)
      have "MarshalPages qs = Inr (drop n stream) \<and> list_all (\<lambda>p. pChecksum p = oggCRC (page_bytes p 0)) qs"
        using 1 [OF False r(1) refl, of qs] r(2) by simp
      moreover have "MarshalBinary p = Inr (take n stream) \<and> pChecksum p = oggCRC (page_bytes p 0)"
        using r(1) by (simp only: parse_iff_marshal)
      ultimately show "MarshalPages ps = Inr stream \<and> list_all (\<lambda>p. pChecksum p = oggCRC (page_bytes p 0)) ps"
        by (simp add: r(3))
    next
      assume a: "MarshalPages ps = Inr stream \<and> list_all (\<lambda>p. pChecksum p = oggCRC (page_bytes p 0)) ps"
      then obtain p qs where ps: "ps = p # qs" using False by (cases ps) auto
      then obtain raw out where m: "MarshalBinary p = Inr raw" "MarshalPages qs = Inr out" "stream = raw @ out"
        using a by (auto split: sum.splits)
      have r: "parsePagePrefix stream = Inr (p, length raw)"
        using a m ps by (simp add: parse_iff_marshal)
      have "ParsePages (drop (length raw) stream) = Inr qs"
        using 1 [OF False r refl, of qs] a m ps by simp
      with r False show "ParsePages stream = Inr ps"
        by (subst ParsePages.simps) (simp add: ps)
    qed
  qed
qed

section \<open>Properties\<close>

text \<open>
  C29: The table-driven checksum is the bit-by-bit division by the polynomial, and it tells apart any
  two messages of one length that differ in a single byte.
\<close>

theorem crc_table_is_division:
  "oggCRC data = foldl (\<lambda>crc b. (crc_bit ^^ 8) (crc XOR push_bit 24 (ucast b))) 0 data \<and>
   (oggCRC (xs @ b # ys) = oggCRC (xs @ b' # ys) \<longleftrightarrow> b = b')"
proof -
  have "crc_byte = (\<lambda>crc b. (crc_bit ^^ 8) (crc XOR push_bit 24 (ucast b)))"
    by (simp add: fun_eq_iff crc_byte_is_ref crc_byte_ref_def)
  then show ?thesis by (simp add: oggCRC_def [of data] oggCRC_change)
qed

text \<open>
  C28: Parsing and serialising pages are inverse to each other: a stream parses into a list of pages
  exactly when it is what \<open>MarshalPages\<close> makes of them and their checksum fields are right.
\<close>

theorem pages_bijection:
  "ParsePages stream = Inr ps \<longleftrightarrow>
     MarshalPages ps = Inr stream \<and> list_all (\<lambda>p. pChecksum p = oggCRC (page_bytes p 0)) ps"
  by (rule ParsePages_iff)

lemma zeroed_nth:
  assumes "j < length xs"
  shows "xs[22 := (0 :: byte), 23 := 0, 24 := 0, 25 := 0] ! j = (if 22 \<le> j \<and> j < 26 then 0 else xs ! j)"
proof -
  have "22 \<le> j \<and> j < 26 \<longleftrightarrow> j = 22 \<or> j = 23 \<or> j = 24 \<or> j = 25" by auto
  then show ?thesis using assms by (auto simp: nth_list_update)
qed

abbreviation zeroed :: "byte list \<Rightarrow> byte list" where
  "zeroed xs \<equiv> xs[22 := 0, 23 := 0, 24 := 0, 25 := 0]"

lemma zeroed_checksum_change:
  assumes "22 \<le> i" "i < 26" "i < length raw" "b \<noteq> raw ! i"
  shows "zeroed (raw[i := b]) = zeroed raw \<and> subslice 22 26 (raw[i := b]) \<noteq> subslice 22 26 raw"
proof
  show "zeroed (raw[i := b]) = zeroed raw"
  proof (intro nth_equalityI)
    fix j assume "j < length (zeroed (raw[i := b]))"
    then have j: "j < length raw" by simp
    show "zeroed (raw[i := b]) ! j = zeroed raw ! j"
      using zeroed_nth [of j raw] zeroed_nth [of j "raw[i := b]"] j assms(1,2)
      by (cases "22 \<le> j \<and> j < 26") auto
  qed simp
  have at: "subslice 22 26 xs ! (i - 22) = xs ! i" if "length xs = length raw" for xs :: "byte list"
  proof -
    have "i - 22 < 4" "22 + (i - 22) = i" using assms(1,2) by auto
    then show ?thesis using that assms(3) by (simp add: subslice_def)
  qed
  show "subslice 22 26 (raw[i := b]) \<noteq> subslice 22 26 raw"
    using at [of "raw[i := b]"] at [of raw] assms(3,4) by auto
qed

lemma zeroed_other_change:
  assumes "\<not> (22 \<le> i \<and> i < 26)" "i < length raw"
  shows "zeroed (raw[i := b]) = (zeroed raw)[i := b] \<and> subslice 22 26 (raw[i := b]) = subslice 22 26 raw \<and>
    zeroed raw ! i = raw ! i"
proof (intro conjI)
  show "zeroed (raw[i := b]) = (zeroed raw)[i := b]"
  proof (intro nth_equalityI)
    fix j assume "j < length (zeroed (raw[i := b]))"
    then have j: "j < length raw" by simp
    show "zeroed (raw[i := b]) ! j = (zeroed raw)[i := b] ! j"
      using zeroed_nth [of j raw] zeroed_nth [of j "raw[i := b]"] j assms(1)
      by (cases "j = i") simp_all
  qed simp
  show "subslice 22 26 (raw[i := b]) = subslice 22 26 raw"
    using assms(1) by (intro nth_equalityI) (auto simp: subslice_def)
  show "zeroed raw ! i = raw ! i" using zeroed_nth [OF assms(2)] assms(1) by simp
qed

text \<open>
  Corruption of one byte is always detected: whichever byte of a serialised page is changed, in
  the header, the checksum itself, the segment table or the payload, \<open>ParsePage\<close> rejects the page.
\<close>

theorem page_corruption_detected:
  assumes "MarshalBinary p = Inr raw" and "i < length raw" and "b \<noteq> raw ! i"
  shows "\<exists>e. ParsePage (raw[i := b]) = Inl e"
proof (rule ccontr)
  assume "\<nexists>e. ParsePage (raw[i := b]) = Inl e"
  then obtain q where q: "ParsePage (raw[i := b]) = Inr q" by (cases "ParsePage (raw[i := b])") auto
  let ?cp = "oggCRC (page_bytes p 0)" and ?cq = "oggCRC (page_bytes q 0)"
  note Q = ParsePage_ok [OF q]
  have P: "raw = page_bytes p ?cp" "Validate p = None" using assms(1) by (simp_all add: MarshalBinary_Inr)
  have zp: "zeroed raw = page_bytes p 0" by (subst P(1)) (rule page_bytes_zero)
  have zq: "zeroed (raw[i := b]) = page_bytes q 0" by (subst Q(1)) (rule page_bytes_zero)
  have sp: "subslice 22 26 raw = put_le 4 ?cp"
    using page_bytes_fields(9) [of p ?cp] P by (simp add: Validate_None)
  have sq: "subslice 22 26 (raw[i := b]) = put_le 4 ?cq"
    using page_bytes_fields(9) [of q ?cq] Q(1,2) by (simp add: Validate_None)
  show False
  proof (cases "22 \<le> i \<and> i < 26")
    case True
    then show False using zeroed_checksum_change [of i raw b] assms(2,3) zp zq sp sq by metis
  next
    case False
    note other = zeroed_other_change [OF False assms(2), of b]
    have cc: "?cq = ?cp" using other sp sq by (metis get_put_le_sizes(1))
    have "page_bytes q 0 = (page_bytes p 0)[i := b]" "page_bytes p 0 ! i = raw ! i"
      using other zp zq by metis+
    moreover have "i < length (page_bytes p 0)" using assms(2) P(1) by (metis length_page_bytes)
    ultimately have "oggCRC (take i (page_bytes p 0) @ b # drop (Suc i) (page_bytes p 0)) =
        oggCRC (take i (page_bytes p 0) @ raw ! i # drop (Suc i) (page_bytes p 0))"
      using cc by (metis id_take_nth_drop upd_conv_take_nth_drop)
    then show False using assms(3) by (simp add: oggCRC_change)
  qed
qed

definition demo_page :: page where
  "demo_page = \<lparr>pVersion = 0, pHeaderType = 2, pGranule = 7, pSerial = 1, pSequence = 0, pChecksum = 0,
     pSegments = [2], pPayload = [10, 20]\<rparr>"

lemma demo_page_valid: "Validate demo_page = None"
  by (simp add: Validate_None demo_page_def HeaderTypeContinued_def HeaderTypeBOS_def HeaderTypeEOS_def
      seg_sum_def)

theorem page_corruption_detected_witness:
  "\<exists>e. ParsePage ((page_bytes demo_page (oggCRC (page_bytes demo_page 0)))[28 := 11]) = Inl e"
proof -
  have m: "MarshalBinary demo_page = Inr (page_bytes demo_page (oggCRC (page_bytes demo_page 0)))"
    by (simp add: MarshalBinary_Inr demo_page_valid)
  have "page_bytes demo_page c ! 28 = 10" for c
    by (simp add: page_bytes_def CapturePattern_def demo_page_def nth_append)
  then show ?thesis
    by (intro page_corruption_detected [OF m]) (simp_all add: demo_page_def)
qed

end
