(* ===== verification/OggStream.thy ===== *)
theory OggStream
  imports OggPage Buffers
begin

text \<open>
  \<open>pkg/audio/codec/ogg\<close>: logical packets (\<open>packet.go\<close>), the page and packet readers
  (\<open>stream_reader.go\<close>) and the packet writer (\<open>stream_writer.go\<close>).

  An \<open>io.Reader\<close> is what it still has to deliver and how it ends: with \<open>io.EOF\<close> or with another
  error; \<open>io.ReadFull\<close> is modelled on that.  An \<open>io.Writer\<close> is an argument of the operations: a
  function from its state and a slice to the count, whether there is an error, and the next state;
  what the code relies on is the locale \<open>byte_sink\<close>, which the growable buffer of
  \<open>pkg/buffer\<close> satisfies.  The iterator \<open>Packets\<close> is the list of the pairs it yields to a consumer
  that never stops; a consumer that stops sees a prefix of it.  Of an error only its kind is kept:
  \<open>TruncatedAtEOF\<close> stands for the two truncation errors that wrap \<open>io.EOF\<close> itself, so that
  \<open>errors.Is(err, io.EOF)\<close> holds of them.
\<close>

section \<open>Packets and their pages\<close>

record packet =
  kData :: "byte list"
  kGranule :: u64
  kBOS :: bool
  kEOS :: bool

function lacing_loop :: "nat \<Rightarrow> byte list" where
  "lacing_loop remain =
     (if maxSegmentSize \<le> remain then of_nat maxSegmentSize # lacing_loop (remain - maxSegmentSize)
      else [of_nat remain])"
  by pat_completeness auto
termination
  by (relation "measure id") (auto simp: maxSegmentSize_def)

declare lacing_loop.simps [simp del]

definition packetLacing :: "int \<Rightarrow> ogg_error + byte list" where
  "packetLacing packetLen =
     (if packetLen < 0 then Inl NegativeLength else Inr (lacing_loop (nat packetLen)))"

definition page_header_type :: "nat \<Rightarrow> bool \<Rightarrow> bool \<Rightarrow> bool \<Rightarrow> byte" where
  "page_header_type idx bos isLast eos =
     (if 0 < idx then HeaderTypeContinued else 0) OR (if idx = 0 \<and> bos then HeaderTypeBOS else 0)
       OR (if isLast \<and> eos then HeaderTypeEOS else 0)"

text \<open>
  The loop of \<open>BuildPacketPages\<close> from page \<open>idx\<close> on; the result carries the final
  \<open>payloadOffset\<close>.
\<close>

function build_loop ::
  "u32 \<Rightarrow> u32 \<Rightarrow> byte list \<Rightarrow> u64 \<Rightarrow> bool \<Rightarrow> bool \<Rightarrow> byte list \<Rightarrow> nat \<Rightarrow> nat \<Rightarrow> nat \<Rightarrow> ogg_error + (page list \<times> nat)"
where
  "build_loop serial sequence packet granulePos bos eos segs idx segOffset payloadOffset =
     (if length segs \<le> segOffset then Inr ([], payloadOffset)
      else let end' = min (segOffset + maxPageSegments) (length segs);
               chunkSegs = subslice segOffset end' segs;
               chunkPayloadLen = seg_sum chunkSegs
        in if length packet < payloadOffset + chunkPayloadLen then Inl PayloadOverflow
           else let isLast = (end' = length segs);
                    p = \<lparr>pVersion = 0, pHeaderType = page_header_type idx bos isLast eos,
                         pGranule = (if isLast then granulePos else GranulePositionUnknown),
                         pSerial = serial, pSequence = sequence + of_nat idx, pChecksum = 0,
                         pSegments = chunkSegs,
                         pPayload = subslice payloadOffset (payloadOffset + chunkPayloadLen) packet\<rparr>
             in case Validate p of
                  Some e \<Rightarrow> Inl e
                | None \<Rightarrow>
                    (case build_loop serial sequence packet granulePos bos eos segs (idx + 1)
                            (segOffset + maxPageSegments) (payloadOffset + chunkPayloadLen) of
                       Inl e \<Rightarrow> Inl e
                     | Inr (ps, offs) \<Rightarrow> Inr (p # ps, offs)))"
  by pat_completeness auto
termination
  by (relation "measure (\<lambda>(_, _, _, _, _, _, segs, _, segOffset, _). length segs - segOffset)")
    (auto simp: maxPageSegments_def)

declare build_loop.simps [simp del]

definition BuildPacketPages ::
  "u32 \<Rightarrow> u32 \<Rightarrow> byte list \<Rightarrow> u64 \<Rightarrow> bool \<Rightarrow> bool \<Rightarrow> ogg_error + page list"
where
  "BuildPacketPages serial sequence packet granulePos bos eos =
     (case packetLacing (int (length packet)) of
        Inl e \<Rightarrow> Inl e
      | Inr segs \<Rightarrow>
          let pageCount = (length segs + maxPageSegments - 1) div maxPageSegments in
          if pageCount \<le> 0 then Inl BadPageCount
          else if 2 ^ 32 - 1 < unat sequence + pageCount - 1 then Inl SequenceOverflow
          else case build_loop serial sequence packet granulePos bos eos segs 0 0 0 of
              Inl e \<Rightarrow> Inl e
            | Inr (pages, payloadOffset) \<Rightarrow>
                if payloadOffset \<noteq> length packet then Inl NotConsumed else Inr pages)"

section \<open>Extracting packets from pages\<close>

record extraction =
  xbuf :: "byte list"
  expectingContinuation :: bool
  currentPacketBOS :: bool

definition extraction_start :: extraction where
  "extraction_start = \<lparr>xbuf = [], expectingContinuation = False, currentPacketBOS = False\<rparr>"

text \<open>
  The loop over the segments of a page: the packets it completes, and how it ends, with an error
  or with the payload offset and the state.
\<close>

fun extract_segments ::
  "page \<Rightarrow> nat \<Rightarrow> nat \<Rightarrow> extraction \<Rightarrow> byte list \<Rightarrow> packet list \<times> (ogg_error + (nat \<times> extraction))"
where
  "extract_segments page segIdx payloadOffset st [] = ([], Inr (payloadOffset, st))"
| "extract_segments page segIdx payloadOffset st (seg # segs) =
     (let st1 = (if \<not> expectingContinuation st \<and> xbuf st = []
                 then st\<lparr>currentPacketBOS := HasBOS page \<and> segIdx = 0\<rparr> else st);
          chunkLen = unat seg
      in if length (pPayload page) < payloadOffset + chunkLen then ([], Inl PayloadOverflow)
         else let st2 = (if 0 < chunkLen
                then st1\<lparr>xbuf := xbuf st1 @ subslice payloadOffset (payloadOffset + chunkLen) (pPayload page)\<rparr>
                else st1)
           in if chunkLen < maxSegmentSize
              then let pkt = \<lparr>kData = xbuf st2, kGranule = pGranule page, kBOS = currentPacketBOS st2,
                              kEOS = (HasEOS page \<and> segIdx + 1 = length (pSegments page))\<rparr>;
                       (pkts, r) = extract_segments page (segIdx + 1) (payloadOffset + chunkLen)
                         (st2\<lparr>xbuf := [], expectingContinuation := False, currentPacketBOS := False\<rparr>) segs
                in (pkt # pkts, r)
              else extract_segments page (segIdx + 1) (payloadOffset + chunkLen)
                (st2\<lparr>expectingContinuation := True\<rparr>) segs)"

definition extract_page :: "extraction \<Rightarrow> page \<Rightarrow> packet list \<times> (ogg_error + extraction)" where
  "extract_page st page =
     (if HasContinuation page \<and> \<not> expectingContinuation st then ([], Inl UnexpectedContinuation)
      else if \<not> HasContinuation page \<and> expectingContinuation st then ([], Inl MissingContinuation)
      else case extract_segments page 0 0 st (pSegments page) of
          (pkts, Inl e) \<Rightarrow> (pkts, Inl e)
        | (pkts, Inr (payloadOffset, st')) \<Rightarrow>
            if payloadOffset \<noteq> length (pPayload page) then (pkts, Inl TrailingData) else (pkts, Inr st'))"

fun extract_pages :: "extraction \<Rightarrow> page list \<Rightarrow> ogg_error + (packet list \<times> extraction)" where
  "extract_pages st [] = Inr ([], st)"
| "extract_pages st (page # pages) =
     (case Validate page of
        Some e \<Rightarrow> Inl e
      | None \<Rightarrow>
          (case extract_page st page of
             (_, Inl e) \<Rightarrow> Inl e
           | (pkts, Inr st') \<Rightarrow>
               (case extract_pages st' pages of
                  Inl e \<Rightarrow> Inl e
                | Inr (rest, st'') \<Rightarrow> Inr (pkts @ rest, st''))))"

definition ExtractPackets :: "page list \<Rightarrow> ogg_error + packet list" where
  "ExtractPackets pages =
     (case extract_pages extraction_start pages of
        Inl e \<Rightarrow> Inl e
      | Inr (packets, st) \<Rightarrow>
          if expectingContinuation st then Inl UnterminatedPacket else Inr packets)"

section \<open>Reading a stream\<close>

datatype read_error = ReadEOF | ReadUnexpectedEOF | ReadOther

record reader =
  rdata :: "byte list"
  rfails :: bool

text \<open>\<open>io.ReadFull\<close> into a slice of \<open>n\<close> bytes.\<close>

definition ReadFull :: "reader \<Rightarrow> nat \<Rightarrow> (read_error + byte list) \<times> reader" where
  "ReadFull r n =
     (if n \<le> length (rdata r) then (Inr (take n (rdata r)), r\<lparr>rdata := drop n (rdata r)\<rparr>)
      else (Inl (if rfails r then ReadOther else if rdata r = [] then ReadEOF else ReadUnexpectedEOF),
            r\<lparr>rdata := []\<rparr>))"

definition is_EOF :: "ogg_error \<Rightarrow> bool" where
  "is_EOF e \<longleftrightarrow> e = EndOfStream \<or> e = TruncatedAtEOF"

fun truncation :: "ogg_error \<Rightarrow> read_error \<Rightarrow> ogg_error" where
  "truncation partial ReadEOF = TruncatedAtEOF"
| "truncation partial ReadUnexpectedEOF = partial"
| "truncation partial ReadOther = ReadFailed"

definition NextPage :: "reader \<Rightarrow> (ogg_error + page) \<times> reader" where
  "NextPage r =
     (case ReadFull r pageHeaderSize of
        (Inl e, r1) \<Rightarrow>
          (Inl (case e of ReadEOF \<Rightarrow> EndOfStream | ReadUnexpectedEOF \<Rightarrow> TruncatedHeader
                | ReadOther \<Rightarrow> ReadFailed), r1)
      | (Inr header, r1) \<Rightarrow>
          (case ReadFull r1 (unat (header ! 26)) of
             (Inl e, r2) \<Rightarrow> (Inl (truncation TruncatedSegments e), r2)
           | (Inr segments, r2) \<Rightarrow>
               (case ReadFull r2 (seg_sum segments) of
                  (Inl e, r3) \<Rightarrow> (Inl (truncation TruncatedPayload e), r3)
                | (Inr payload, r3) \<Rightarrow> (ParsePage (header @ segments @ payload), r3))))"

lemma NextPage_consumes:
  "NextPage r = (Inr p, r') \<Longrightarrow> length (rdata r') < length (rdata r)"
  by (auto simp: NextPage_def ReadFull_def pageHeaderSize_def split: if_splits)

function ReadAllPages :: "reader \<Rightarrow> ogg_error + page list" where
  "ReadAllPages r =
     (case NextPage r of
        (Inl e, _) \<Rightarrow> if is_EOF e then Inr [] else Inl e
      | (Inr p, r') \<Rightarrow> (case ReadAllPages r' of Inl e \<Rightarrow> Inl e | Inr ps \<Rightarrow> Inr (p # ps)))"
  by pat_completeness auto
termination
  by (relation "measure (\<lambda>r. length (rdata r))") (auto dest!: NextPage_consumes [OF sym])

declare ReadAllPages.simps [simp del]

definition ReadAllPackets :: "reader \<Rightarrow> ogg_error + packet list" where
  "ReadAllPackets r = (case ReadAllPages r of Inl e \<Rightarrow> Inl e | Inr pages \<Rightarrow> ExtractPackets pages)"

function packets_loop :: "extraction \<Rightarrow> reader \<Rightarrow> (ogg_error + packet) list" where
  "packets_loop st r =
     (case NextPage r of
        (Inl e, _) \<Rightarrow>
          if is_EOF e then (if expectingContinuation st then [Inl UnterminatedPacket] else []) else [Inl e]
      | (Inr page, r') \<Rightarrow>
          (case extract_page st page of
             (pkts, Inl e) \<Rightarrow> map Inr pkts @ [Inl e]
           | (pkts, Inr st') \<Rightarrow> map Inr pkts @ packets_loop st' r'))"
  by pat_completeness auto
termination
  by (relation "measure (\<lambda>(_, r). length (rdata r))") (auto dest!: NextPage_consumes [OF sym])

declare packets_loop.simps [simp del]

definition Packets :: "reader \<Rightarrow> (ogg_error + packet) list" where
  "Packets r = packets_loop extraction_start r"

section \<open>Writing a stream\<close>

record stream_writer =
  swSerial :: u32
  nextSequence :: u32
  swStarted :: bool
  swEnded :: bool
  swBroken :: bool

definition NewStreamWriter :: "u32 \<Rightarrow> stream_writer" where
  "NewStreamWriter serial =
     \<lparr>swSerial = serial, nextSequence = 0, swStarted = False, swEnded = False, swBroken = False\<rparr>"

definition NextSequence :: "stream_writer \<Rightarrow> u32" where
  "NextSequence sw = nextSequence sw"

type_synonym 'w writer = "'w \<Rightarrow> byte list \<Rightarrow> (int \<times> bool) \<times> 'w"

text \<open>The loop of \<open>WritePacket\<close> over the pages: the count, the error if any, and both states.\<close>

fun write_pages ::
  "'w writer \<Rightarrow> stream_writer \<Rightarrow> 'w \<Rightarrow> nat \<Rightarrow> int \<Rightarrow> page list \<Rightarrow> (int \<times> ogg_error option) \<times> stream_writer \<times> 'w"
where
  "write_pages write sw w idx written [] = ((written, None), sw, w)"
| "write_pages write sw w idx written (p # ps) =
     (case MarshalBinary p of
        Inl e \<Rightarrow> ((written, Some e), sw, w)
      | Inr raw \<Rightarrow>
          let ((n, werr), w') = write w raw;
              written' = written + n;
              sw1 = (if n = int (length raw)
                     then sw\<lparr>swStarted := True, nextSequence := nextSequence sw + 1\<rparr> else sw)
          in if werr
             then ((written', Some WriteFailed),
                   if 0 < n \<or> 0 < idx then sw1\<lparr>swBroken := True\<rparr> else sw1, w')
             else if n \<noteq> int (length raw)
             then ((written', Some ShortWrite), sw1\<lparr>swBroken := True\<rparr>, w')
             else write_pages write sw1 w' (idx + 1) written' ps)"

definition WritePacket ::
  "'w writer \<Rightarrow> stream_writer \<Rightarrow> 'w \<Rightarrow> byte list \<Rightarrow> u64 \<Rightarrow> bool
     \<Rightarrow> (int \<times> ogg_error option) \<times> stream_writer \<times> 'w"
where
  "WritePacket write sw w packet granulePos eos =
     (if swBroken sw then ((0, Some StreamBroken), sw, w)
      else if swEnded sw then ((0, Some StreamEnded), sw, w)
      else case BuildPacketPages (swSerial sw) (nextSequence sw) packet granulePos (\<not> swStarted sw) eos of
          Inl e \<Rightarrow> ((0, Some e), sw, w)
        | Inr pages \<Rightarrow>
            (case write_pages write sw w 0 0 pages of
               ((written, Some e), sw', w') \<Rightarrow> ((written, Some e), sw', w')
             | ((written, None), sw', w') \<Rightarrow>
                 ((written, None), if eos then sw'\<lparr>swEnded := True\<rparr> else sw', w')))"


section \<open>Packet pages are extracted again\<close>

lemmas ogg_sizes = maxSegmentSize_def maxPageSegments_def pageHeaderSize_def

lemma unat_255 [simp]: "unat (255 :: byte) = 255"
  by (simp add: unsigned_numeral take_bit_eq_mod)

lemma lacing_loop_eq:
  "lacing_loop n = replicate (n div 255) 255 @ [of_nat (n mod 255)]"
proof (induction n rule: lacing_loop.induct)
  case (1 n)
  show ?case
  proof (cases "255 \<le> n")
    case True
    then have "n div 255 = Suc ((n - 255) div 255)" "n mod 255 = (n - 255) mod 255"
      by (simp_all add: le_div_geq le_mod_geq)
    with True 1 show ?thesis by (subst lacing_loop.simps) (simp add: ogg_sizes)
  next
    case False
    then show ?thesis by (subst lacing_loop.simps) (simp add: ogg_sizes)
  qed
qed

lemma seg_sum_append [simp]: "seg_sum (xs @ ys) = seg_sum xs + seg_sum ys"
  by (simp add: seg_sum_def)

lemma seg_sum_Cons [simp]: "seg_sum (x # xs) = unat x + seg_sum xs" "seg_sum [] = 0"
  by (simp_all add: seg_sum_def)

lemma seg_sum_replicate [simp]: "seg_sum (replicate n 255) = 255 * n"
  by (induction n) simp_all

lemma seg_sum_lacing: "seg_sum (lacing_loop n) = n"
proof -
  have "n mod 255 < 256" by (rule less_trans [OF mod_less_divisor]) simp_all
  then show ?thesis by (simp add: lacing_loop_eq unat_of_nat_byte)
qed

lemma header_type_bits:
  "page_header_type idx bos isLast eos AND NOT (HeaderTypeContinued OR HeaderTypeBOS OR HeaderTypeEOS) = 0"
  "page_header_type idx bos isLast eos AND HeaderTypeContinued \<noteq> 0 \<longleftrightarrow> 0 < idx"
  "page_header_type idx bos isLast eos AND HeaderTypeBOS \<noteq> 0 \<longleftrightarrow> idx = 0 \<and> bos"
  "page_header_type idx bos isLast eos AND HeaderTypeEOS \<noteq> 0 \<longleftrightarrow> isLast \<and> eos"
  by (simp_all add: page_header_type_def HeaderTypeContinued_def HeaderTypeBOS_def HeaderTypeEOS_def)

text \<open>A run of full segments only grows the packet under construction.\<close>

lemma extract_full_segments:
  assumes "offs + 255 * n \<le> length (pPayload p)" "expectingContinuation st" "unat (full :: byte) = 255"
  shows "extract_segments p i offs st (replicate n full @ segs) =
    extract_segments p (i + n) (offs + 255 * n)
      (st\<lparr>xbuf := xbuf st @ subslice offs (offs + 255 * n) (pPayload p)\<rparr>) segs"
  using assms
proof (induction n arbitrary: i offs st)
  case 0
  then show ?case by (simp add: subslice_def)
next
  case (Suc n)
  have st: "st\<lparr>xbuf := b, expectingContinuation := True\<rparr> = st\<lparr>xbuf := b\<rparr>" for b
    using Suc.prems(2) by (cases st) simp
  have "subslice offs (offs + 255) (pPayload p) @ subslice (offs + 255) (offs + 255 + 255 * n) (pPayload p)
      = subslice offs (offs + 255 * Suc n) (pPayload p)"
    by (subst slice_slice_append) (simp_all add: add_ac)
  then show ?case
    using Suc.prems Suc.IH [of "offs + 255" "st\<lparr>xbuf := xbuf st @ subslice offs (offs + 255) (pPayload p)\<rparr>" "Suc i"]
    by (simp add: Let_def ogg_sizes add_ac st)
qed

lemma extract_first_segments:
  assumes "255 * n \<le> length (pPayload p)" "0 < n"
  shows "extract_segments p 0 0 st (replicate n 255 @ segs) =
    extract_segments p n (255 * n)
      (st\<lparr>xbuf := xbuf st @ subslice 0 (255 * n) (pPayload p), expectingContinuation := True,
         currentPacketBOS := (if \<not> expectingContinuation st \<and> xbuf st = [] then HasBOS p
           else currentPacketBOS st)\<rparr>) segs"
proof -
  obtain m where n: "n = Suc m" using assms(2) by (cases n) simp_all
  obtain full :: byte where full: "full = 255" "unat full = 255" using unat_255 by blast
  have "subslice 0 255 (pPayload p) @ subslice 255 (255 + 255 * m) (pPayload p)
      = subslice 0 (255 + 255 * m) (pPayload p)"
    by (rule slice_slice_append) simp_all
  then show ?thesis
    using assms(1) extract_full_segments [of 255 m p _ full "Suc 0" segs] full(2) n
    unfolding full(1) [symmetric]
    by (cases st) (simp add: Let_def ogg_sizes)
qed

lemma extract_middle_page:
  assumes "pSegments p = replicate n 255" "0 < n" "length (pPayload p) = 255 * n"
    "HasContinuation p = expectingContinuation st"
  shows "extract_page st p = ([], Inr \<lparr>xbuf = xbuf st @ pPayload p, expectingContinuation = True,
    currentPacketBOS = (if \<not> expectingContinuation st \<and> xbuf st = [] then HasBOS p
      else currentPacketBOS st)\<rparr>)"
  using extract_first_segments [of n p st "[]"] assms
  by (cases st) (simp add: extract_page_def subslice_def)

lemma extract_last_page:
  assumes "pSegments p = replicate n 255 @ [r]" "unat r < 255" "length (pPayload p) = 255 * n + unat r"
    "HasContinuation p = expectingContinuation st"
  shows "extract_page st p = ([\<lparr>kData = xbuf st @ pPayload p, kGranule = pGranule p,
    kBOS = (if \<not> expectingContinuation st \<and> xbuf st = [] then HasBOS p else currentPacketBOS st),
    kEOS = HasEOS p\<rparr>], Inr extraction_start)"
proof (cases n)
  case 0
  then show ?thesis using assms
    by (cases st) (auto simp: extract_page_def Let_def ogg_sizes subslice_def extraction_start_def unat_eq_zero)
next
  case (Suc m)
  have "subslice 0 (255 * n) (pPayload p) @ subslice (255 * n) (255 * n + unat r) (pPayload p) = pPayload p"
    using assms(3) by (subst slice_slice_append) (simp_all add: subslice_def)
  moreover have "subslice 0 (255 * n) (pPayload p) = pPayload p" if "unat r = 0"
    using assms(3) that by (simp add: subslice_def)
  ultimately show ?thesis using extract_first_segments [of n p st "[r]"] assms Suc
    by (cases st) (simp add: extract_page_def Let_def ogg_sizes extraction_start_def)
qed

text \<open>The pages built from page \<open>idx\<close> on complete the packet that the earlier pages began.\<close>

lemma build_loop_ok:
  assumes "segs = replicate q 255 @ [r]" "unat r < 255" "length packet = 255 * q + unat r"
    and "segOffset = 255 * idx" "segOffset \<le> q" "payloadOffset = 255 * segOffset"
  shows "\<exists>ps. build_loop serial sequence packet g bos eos segs idx segOffset payloadOffset = Inr (ps, length packet)
    \<and> list_all (\<lambda>p. Validate p = None) ps \<and> ps \<noteq> []
    \<and> (\<forall>st. expectingContinuation st = (0 < idx) \<longrightarrow> xbuf st = take payloadOffset packet \<longrightarrow>
        extract_pages st ps = Inr ([\<lparr>kData = packet, kGranule = g,
          kBOS = (if idx = 0 then bos else currentPacketBOS st), kEOS = eos\<rparr>], extraction_start))"
  using assms(4-)
proof (induction "q - segOffset" arbitrary: idx segOffset payloadOffset rule: less_induct)
  case less
  have take_ext: "take a packet @ subslice a b packet = take b packet" if "a \<le> b" for a b
    using slice_slice_append [of 0 a b packet] that by (simp add: subslice_def)
  note bits = header_type_bits(1) [simplified] header_type_bits(2-4)
  show ?case
  proof (cases "segOffset + 255 \<le> q")
    case True
    let ?p = "\<lparr>pVersion = 0, pHeaderType = page_header_type idx bos False eos, pGranule = GranulePositionUnknown,
      pSerial = serial, pSequence = sequence + of_nat idx, pChecksum = 0, pSegments = replicate 255 255,
      pPayload = subslice payloadOffset (payloadOffset + 255 * 255) packet\<rparr>"
    have c: "subslice segOffset (segOffset + 255) segs = replicate 255 255"
      using True by (simp add: assms(1) subslice_def)
    have len: "payloadOffset + 255 * 255 \<le> length packet" using True less.prems by (simp add: assms(3))
    have v: "Validate ?p = None" using len by (simp add: Validate_None bits)
    have "q - (segOffset + 255) < q - segOffset" using True by simp
    from less.hyps [OF this, of "idx + 1" "payloadOffset + 255 * 255"] less.prems True
    obtain ps where ps: "build_loop serial sequence packet g bos eos segs (idx + 1) (segOffset + 255)
          (payloadOffset + 255 * 255) = Inr (ps, length packet)"
        "list_all (\<lambda>p. Validate p = None) ps"
        "\<And>st. expectingContinuation st \<Longrightarrow> xbuf st = take (payloadOffset + 255 * 255) packet \<Longrightarrow>
        extract_pages st ps = Inr ([\<lparr>kData = packet, kGranule = g,
          kBOS = currentPacketBOS st, kEOS = eos\<rparr>], extraction_start)"
      by auto
    have "build_loop serial sequence packet g bos eos segs idx segOffset payloadOffset = Inr (?p # ps, length packet)"
      using True ps(1) c v len by (subst build_loop.simps) (simp add: Let_def ogg_sizes assms(1))
    moreover have "extract_pages st (?p # ps) = Inr ([\<lparr>kData = packet, kGranule = g,
          kBOS = (if idx = 0 then bos else currentPacketBOS st), kEOS = eos\<rparr>], extraction_start)"
      if "expectingContinuation st = (0 < idx)" "xbuf st = take payloadOffset packet" for st
    proof -
      have "extract_page st ?p = ([], Inr \<lparr>xbuf = xbuf st @ pPayload ?p, expectingContinuation = True,
          currentPacketBOS = (if \<not> expectingContinuation st \<and> xbuf st = [] then HasBOS ?p
            else currentPacketBOS st)\<rparr>)"
        using len that by (intro extract_middle_page [of _ 255]) (simp_all add: HasContinuation_def bits)
      then show ?thesis using that v less.prems
        by (simp add: ps(3) take_ext HasBOS_def bits)
    qed
    ultimately show ?thesis using v ps(2) by (intro exI [of _ "?p # ps"]) simp
  next
    case False
    let ?n = "q - segOffset"
    let ?p = "\<lparr>pVersion = 0, pHeaderType = page_header_type idx bos True eos, pGranule = g,
      pSerial = serial, pSequence = sequence + of_nat idx, pChecksum = 0, pSegments = replicate ?n 255 @ [r],
      pPayload = subslice payloadOffset (length packet) packet\<rparr>"
    have c: "subslice segOffset (Suc q) segs = replicate ?n 255 @ [r]"
      using less.prems(2) by (simp add: assms(1) subslice_def Suc_diff_le)
    have len: "payloadOffset + (255 * ?n + unat r) = length packet" using less.prems by (simp add: assms(3))
    have v: "Validate ?p = None" using len False by (simp add: Validate_None bits) arith
    have "min (segOffset + 255) (Suc q) = Suc q" using False by simp
    moreover have "build_loop serial sequence packet g bos eos segs (idx + 1) (segOffset + 255) (length packet)
        = Inr ([], length packet)"
      using False by (subst build_loop.simps) (simp add: assms(1))
    ultimately have "build_loop serial sequence packet g bos eos segs idx segOffset payloadOffset = Inr ([?p], length packet)"
      using less.prems(2) c v len by (subst build_loop.simps) (simp add: Let_def ogg_sizes assms(1))
    moreover have "extract_pages st [?p] = Inr ([\<lparr>kData = packet, kGranule = g,
          kBOS = (if idx = 0 then bos else currentPacketBOS st), kEOS = eos\<rparr>], extraction_start)"
      if "expectingContinuation st = (0 < idx)" "xbuf st = take payloadOffset packet" for st
    proof -
      have "extract_page st ?p = ([\<lparr>kData = xbuf st @ pPayload ?p, kGranule = pGranule ?p,
          kBOS = (if \<not> expectingContinuation st \<and> xbuf st = [] then HasBOS ?p else currentPacketBOS st),
          kEOS = HasEOS ?p\<rparr>], Inr extraction_start)"
        using len that assms(2) by (intro extract_last_page [of _ ?n r]) (simp_all add: HasContinuation_def bits)
      then show ?thesis using that v less.prems len
        by (simp add: take_ext HasBOS_def HasEOS_def bits)
    qed
    ultimately show ?thesis using v by (intro exI [of _ "[?p]"]) simp
  qed
qed

lemma BuildPacketPages_ok:
  assumes "BuildPacketPages serial sequence packet g bos eos = Inr ps"
  shows "ps \<noteq> [] \<and> list_all (\<lambda>p. Validate p = None) ps \<and>
    extract_pages extraction_start ps = Inr ([\<lparr>kData = packet, kGranule = g, kBOS = bos, kEOS = eos\<rparr>], extraction_start)"
proof -
  let ?q = "length packet div 255" and ?r = "of_nat (length packet mod 255) :: byte"
  have "length packet mod 255 < 255" by simp
  then have r: "unat ?r = length packet mod 255" by (intro unat_of_nat_byte) linarith
  then have "unat ?r < 255" "length packet = 255 * ?q + unat ?r" by simp_all
  from build_loop_ok [OF refl this, of 0 0 0 serial sequence g bos eos]
  obtain ps' where ps': "build_loop serial sequence packet g bos eos (lacing_loop (length packet)) 0 0 0
      = Inr (ps', length packet)" "list_all (\<lambda>p. Validate p = None) ps'" "ps' \<noteq> []"
    "extract_pages extraction_start ps' = Inr ([\<lparr>kData = packet, kGranule = g, kBOS = bos, kEOS = eos\<rparr>], extraction_start)"
    by (auto simp: lacing_loop_eq extraction_start_def)
  with assms show ?thesis
    by (auto simp: BuildPacketPages_def packetLacing_def Let_def split: if_splits)
qed

lemma extract_pages_append:
  "extract_pages st (ps @ qs) =
    (case extract_pages st ps of
       Inl e \<Rightarrow> Inl e
     | Inr (ks, st') \<Rightarrow>
         (case extract_pages st' qs of Inl e \<Rightarrow> Inl e | Inr (ls, st'') \<Rightarrow> Inr (ks @ ls, st'')))"
  by (induction ps arbitrary: st) (auto split: option.splits prod.splits sum.splits)

section \<open>Reading back what was written\<close>

text \<open>The pages as written, and as \<open>NextPage\<close> returns them: with their checksum filled in.\<close>

definition wire :: "page list \<Rightarrow> byte list" where
  "wire ps = concat (map (\<lambda>p. page_bytes p (oggCRC (page_bytes p 0))) ps)"

definition stamped :: "page \<Rightarrow> page" where
  "stamped p = p\<lparr>pChecksum := oggCRC (page_bytes p 0)\<rparr>"

lemma wire_simps [simp]:
  "wire [] = []" "wire (p # ps) = page_bytes p (oggCRC (page_bytes p 0)) @ wire ps"
  "wire (ps @ qs) = wire ps @ wire qs"
  by (simp_all add: wire_def)

lemma MarshalPages_wire:
  "MarshalPages ps = Inr out \<longleftrightarrow> list_all (\<lambda>p. Validate p = None) ps \<and> out = wire ps"
proof (induction ps arbitrary: out)
  case Nil
  then show ?case by auto
next
  case (Cons p ps)
  show ?case
  proof (cases "Validate p = None")
    case True
    then have m: "MarshalBinary p = Inr (page_bytes p (oggCRC (page_bytes p 0)))" by (simp add: MarshalBinary_Inr)
    show ?thesis
    proof (cases "MarshalPages ps")
      case (Inl e)
      then show ?thesis using Cons [of "wire ps"] by (simp add: m)
    next
      case (Inr a)
      then show ?thesis using Cons [of a] True by (auto simp: m)
    qed
  next
    case False
    then show ?thesis by (auto simp: MarshalBinary_def)
  qed
qed

lemma NextPage_page:
  assumes "Validate p = None"
  shows "NextPage \<lparr>rdata = page_bytes p (oggCRC (page_bytes p 0)) @ rest, rfails = f\<rparr> =
    (Inr (stamped p), \<lparr>rdata = rest, rfails = f\<rparr>)"
proof -
  let ?b = "page_bytes p (oggCRC (page_bytes p 0))"
  have l: "length (pSegments p) \<le> 255" and s: "seg_sum (pSegments p) = length (pPayload p)"
    using assms by (simp_all add: Validate_None)
  have 26: "unat (?b ! 26) = length (pSegments p)"
    using page_bytes_fields(5) [OF l, of _ "[]"] by simp
  obtain h where b: "?b = h @ pSegments p @ pPayload p" and h: "length h = 27"
    by (rule that [of "take 27 ?b"]) (simp_all add: page_bytes_def CapturePattern_def)
  have n: "unat (h ! 26) = length (pSegments p)" using 26 h unfolding b by (simp add: nth_append)
  moreover have "ParsePage ?b = Inr (stamped p)"
    using parse_page_bytes [OF assms, of "[]"] by (simp add: ParsePage_def stamped_def)
  ultimately show ?thesis
    unfolding b by (simp add: NextPage_def ReadFull_def ogg_sizes h n s)
qed

lemma stamped_simps [simp]:
  "HasContinuation (stamped p) = HasContinuation p" "HasBOS (stamped p) = HasBOS p"
  "HasEOS (stamped p) = HasEOS p" "pPayload (stamped p) = pPayload p"
  "pSegments (stamped p) = pSegments p" "pGranule (stamped p) = pGranule p"
  by (simp_all add: stamped_def HasContinuation_def HasBOS_def HasEOS_def)

lemma extract_page_stamped [simp]: "extract_page st (stamped p) = extract_page st p"
proof -
  have "extract_segments (stamped p) i offs st segs = extract_segments p i offs st segs" for i offs st segs
    by (induction segs arbitrary: i offs st) (simp_all add: Let_def)
  then show ?thesis by (simp add: extract_page_def)
qed

lemma Validate_stamped [simp]: "Validate (stamped p) = Validate p"
  by (simp add: stamped_def Validate_def)

lemma extract_pages_stamped [simp]: "extract_pages st (map stamped ps) = extract_pages st ps"
  by (induction ps arbitrary: st) (simp_all split: option.split prod.split sum.split)

lemma ReadAllPages_wire:
  assumes "list_all (\<lambda>p. Validate p = None) ps"
  shows "ReadAllPages \<lparr>rdata = wire ps @ rest, rfails = f\<rparr> =
    (case ReadAllPages \<lparr>rdata = rest, rfails = f\<rparr> of
       Inl e \<Rightarrow> Inl e | Inr qs \<Rightarrow> Inr (map stamped ps @ qs))"
  using assms
proof (induction ps)
  case Nil
  then show ?case by (simp split: sum.split)
next
  case (Cons p ps)
  then show ?case
    by (subst ReadAllPages.simps) (simp add: NextPage_page [of p "wire ps @ rest"] split: sum.splits)
qed

lemma ReadAllPages_empty [simp]: "ReadAllPages \<lparr>rdata = [], rfails = False\<rparr> = Inr []"
  by (subst ReadAllPages.simps) (simp add: NextPage_def ReadFull_def ogg_sizes is_EOF_def)

section \<open>The iterator agrees with the batch reader\<close>

lemma NextPage_valid: "NextPage r = (Inr p, r') \<Longrightarrow> Validate p = None"
  by (auto simp: NextPage_def split: prod.splits sum.splits dest: ParsePage_ok(2))

definition batch_from :: "extraction \<Rightarrow> reader \<Rightarrow> packet list option" where
  "batch_from st r =
     (case ReadAllPages r of
        Inl _ \<Rightarrow> None
      | Inr ps \<Rightarrow>
          (case extract_pages st ps of
             Inl _ \<Rightarrow> None
           | Inr (ks, st') \<Rightarrow> if expectingContinuation st' then None else Some ks))"

lemma ReadAllPackets_batch: "ReadAllPackets r = Inr ks \<longleftrightarrow> batch_from extraction_start r = Some ks"
  by (auto simp: ReadAllPackets_def ExtractPackets_def batch_from_def split: sum.splits if_splits)

lemma map_Inr_split:
  "map Inr ks @ xs = map Inr ls \<longleftrightarrow> (\<exists>ms. ls = ks @ ms \<and> xs = map Inr ms)"
  by (induction ks arbitrary: ls) (auto simp: Cons_eq_map_conv)

lemma packets_loop_batch: "packets_loop st r = map Inr ks \<longleftrightarrow> batch_from st r = Some ks"
proof (induction st r arbitrary: ks rule: packets_loop.induct)
  case (1 st r)
  obtain res r' where np: "NextPage r = (res, r')" by (cases "NextPage r") auto
  show ?case
  proof (cases res)
    case (Inl e)
    then show ?thesis using np
      by (subst packets_loop.simps) (auto simp: batch_from_def ReadAllPages.simps [of r])
  next
    case (Inr p)
    then have v: "Validate p = None" using np NextPage_valid by simp
    obtain pkts q where ep: "extract_page st p = (pkts, q)" by (cases "extract_page st p") auto
    show ?thesis
    proof (cases q)
      case (Inl e)
      moreover have "map Inr pkts @ [Inl e] \<noteq> map Inr ks" by (simp add: map_Inr_split Cons_eq_map_conv)
      ultimately show ?thesis using np \<open>res = Inr p\<close> ep v
        by (subst packets_loop.simps) (auto simp: batch_from_def ReadAllPages.simps [of r] split: sum.splits)
    next
      case (Inr st')
      have IH: "packets_loop st' r' = map Inr ls \<longleftrightarrow> batch_from st' r' = Some ls" for ls
        using 1 [of "Inr p" r' p pkts "Inr st'" st'] np \<open>res = Inr p\<close> ep Inr by simp
      have "batch_from st r = map_option (\<lambda>ls. pkts @ ls) (batch_from st' r')"
        using np \<open>res = Inr p\<close> ep v Inr
        by (simp add: batch_from_def ReadAllPages.simps [of r] split: sum.split)
      then show ?thesis using np \<open>res = Inr p\<close> ep Inr IH
        by (subst packets_loop.simps) (auto simp: map_Inr_split)
    qed
  qed
qed

lemma packets_loop_wire:
  assumes "list_all (\<lambda>p. Validate p = None) ps" "extract_pages st ps = Inr (ks, st')"
  shows "packets_loop st \<lparr>rdata = wire ps @ rest, rfails = f\<rparr> =
    map Inr ks @ packets_loop st' \<lparr>rdata = rest, rfails = f\<rparr>"
  using assms
proof (induction ps arbitrary: st ks)
  case (Cons p ps)
  obtain pkts st1 ls where e: "extract_page st p = (pkts, Inr st1)" "extract_pages st1 ps = Inr (ls, st')" "ks = pkts @ ls"
    using Cons.prems by (auto split: prod.splits sum.splits)
  then show ?case using Cons
    by (subst packets_loop.simps) (simp add: NextPage_page [of p "wire ps @ rest"])
qed simp

section \<open>The writer keeps the stream well formed\<close>

locale byte_sink =
  fixes sink :: "'w writer" and delivered :: "'w \<Rightarrow> byte list"
  assumes sink_count: "sink w raw = ((n, werr), w') \<Longrightarrow> 0 \<le> n \<and> n \<le> int (length raw)"
    and sink_contents: "sink w raw = ((n, werr), w') \<Longrightarrow> delivered w' = delivered w @ take (nat n) raw"
begin

lemma write_pages_ok:
  assumes "list_all (\<lambda>p. Validate p = None) ps" "write_pages sink sw w i k ps = ((n, None), sw', w')"
  shows "delivered w' = delivered w @ wire ps \<and> swBroken sw' = swBroken sw \<and> swEnded sw' = swEnded sw \<and>
    swStarted sw' = (swStarted sw \<or> ps \<noteq> [])"
  using assms
proof (induction ps arbitrary: sw w i k)
  case (Cons p ps)
  let ?b = "page_bytes p (oggCRC (page_bytes p 0))"
  have m: "MarshalBinary p = Inr ?b" using Cons.prems(1) by (simp add: MarshalBinary_Inr)
  obtain c e w1 where w: "sink w ?b = ((c, e), w1)" by (metis surj_pair)
  then have "\<not> e" "c = int (length ?b)" using Cons.prems(2) m by (auto simp: Let_def split: if_splits)
  then show ?case
    using Cons.prems m w sink_contents [OF w]
      Cons.IH [of "sw\<lparr>swStarted := True, nextSequence := nextSequence sw + 1\<rparr>" w1 "i + 1" "k + c"]
    by (simp add: Let_def)
qed simp

lemma write_pages_fail:
  assumes "list_all (\<lambda>p. Validate p = None) ps" "write_pages sink sw w i k ps = ((n, Some e), sw', w')"
  shows "(swBroken sw' \<and> swEnded sw' = swEnded sw \<and> (\<exists>more. delivered w' = delivered w @ more))
    \<or> (i = 0 \<and> sw' = sw \<and> delivered w' = delivered w)"
  using assms
proof (induction ps arbitrary: sw w i k)
  case (Cons p ps)
  let ?b = "page_bytes p (oggCRC (page_bytes p 0))"
  have m: "MarshalBinary p = Inr ?b" using Cons.prems(1) by (simp add: MarshalBinary_Inr)
  obtain c werr w1 where w: "sink w ?b = ((c, werr), w1)" by (metis surj_pair)
  note L = sink_count [OF w] sink_contents [OF w]
  show ?case
  proof (cases "\<not> werr \<and> c = int (length ?b)")
    case True
    then show ?thesis
      using Cons.prems m w L
        Cons.IH [of "sw\<lparr>swStarted := True, nextSequence := nextSequence sw + 1\<rparr>" w1 "i + 1" "k + c"]
      by (auto simp: Let_def)
  next
    case False
    then show ?thesis using Cons.prems m w L by (auto simp: Let_def split: if_splits)
  qed
qed simp

end

text \<open>The growable buffer as an \<open>io.Writer\<close>.\<close>

definition growable_write :: "byte growable writer" where
  "growable_write b raw =
     (case gb_Write b raw of
        (Ok n, b') \<Rightarrow> ((int n, False), b')
      | (Failed n _, b') \<Rightarrow> ((int n, True), b')
      | (_, b') \<Rightarrow> ((0, True), b'))"

interpretation growable_sink: byte_sink growable_write gbuf
  by unfold_locales (auto simp: growable_write_def gb_Write_def split: option.splits if_splits)

text \<open>
  A caller makes the calls of \<open>reqs\<close> one after the other, whatever each returns; \<open>oks\<close> are the calls
  that returned no error, and \<open>packets_of\<close> the packets they stand for.
\<close>

fun write_all ::
  "'w writer \<Rightarrow> stream_writer \<Rightarrow> 'w \<Rightarrow> (byte list \<times> u64 \<times> bool) list
     \<Rightarrow> (byte list \<times> u64 \<times> bool) list \<times> stream_writer \<times> 'w"
where
  "write_all sink sw w [] = ([], sw, w)"
| "write_all sink sw w ((d, g, e) # reqs) =
     (case WritePacket sink sw w d g e of
        ((_, err), sw1, w1) \<Rightarrow>
          (case write_all sink sw1 w1 reqs of
             (oks, sw', w') \<Rightarrow> (if err = None then (d, g, e) # oks else oks, sw', w')))"

fun packets_of :: "bool \<Rightarrow> (byte list \<times> u64 \<times> bool) list \<Rightarrow> packet list" where
  "packets_of bos [] = []"
| "packets_of bos ((d, g, e) # reqs) =
     \<lparr>kData = d, kGranule = g, kBOS = bos, kEOS = e\<rparr> # packets_of False reqs"

lemma packets_of_snoc:
  "packets_of bos (xs @ [(d, g, e)]) =
     packets_of bos xs @ [\<lparr>kData = d, kGranule = g, kBOS = (bos \<and> xs = []), kEOS = e\<rparr>]"
  by (induction bos xs rule: packets_of.induct) auto

definition stream_inv ::
  "byte list \<Rightarrow> stream_writer \<Rightarrow> (byte list \<times> u64 \<times> bool) list \<Rightarrow> bool"
where
  "stream_inv bytes sw oks \<longleftrightarrow>
     (\<exists>ps tail. bytes = wire ps @ tail \<and> list_all (\<lambda>p. Validate p = None) ps
       \<and> extract_pages extraction_start ps = Inr (packets_of True oks, extraction_start)
       \<and> (\<not> swBroken sw \<longrightarrow> tail = [] \<and> (swStarted sw \<longleftrightarrow> oks \<noteq> [])))
     \<and> list_all (\<lambda>(d, g, e). \<not> e) (butlast oks)
     \<and> (\<not> swBroken sw \<longrightarrow> (swEnded sw \<longleftrightarrow> \<not> list_all (\<lambda>(d, g, e). \<not> e) oks))"

context byte_sink
begin

lemma WritePacket_inv:
  assumes "stream_inv (delivered w) sw oks" "WritePacket sink sw w d g e = ((n, err), sw', w')"
  shows "stream_inv (delivered w') sw' (if err = None then oks @ [(d, g, e)] else oks)"
proof (cases "\<not> swBroken sw \<and> \<not> swEnded sw \<and>
    (\<exists>pages. BuildPacketPages (swSerial sw) (nextSequence sw) d g (\<not> swStarted sw) e = Inr pages)")
  case False
  then show ?thesis using assms by (auto simp: WritePacket_def split: if_splits sum.splits)
next
  case True
  then obtain pages where b: "BuildPacketPages (swSerial sw) (nextSequence sw) d g (\<not> swStarted sw) e = Inr pages"
    by blast
  note B = BuildPacketPages_ok [OF b]
  obtain ps where ps: "delivered w = wire ps" "list_all (\<lambda>p. Validate p = None) ps"
      "extract_pages extraction_start ps = Inr (packets_of True oks, extraction_start)"
      "swStarted sw \<longleftrightarrow> oks \<noteq> []" and e: "list_all (\<lambda>(d, g, e). \<not> e) oks"
    using assms(1) True by (auto simp: stream_inv_def)
  obtain k res sw1 w1 where wp: "write_pages sink sw w 0 0 pages = ((k, res), sw1, w1)" by (metis surj_pair)
  show ?thesis
  proof (cases res)
    case None
    then have r: "err = None" "w' = w1" "sw' = (if e then sw1\<lparr>swEnded := True\<rparr> else sw1)"
      using assms(2) True b wp by (auto simp: WritePacket_def)
    have W: "delivered w1 = delivered w @ wire pages" "swBroken sw1 = swBroken sw" "swEnded sw1 = swEnded sw" "swStarted sw1"
      using write_pages_ok [of pages sw w 0 0 k sw1 w1] B wp None by auto
    have "extract_pages extraction_start (ps @ pages) = Inr (packets_of True (oks @ [(d, g, e)]), extraction_start)"
      using ps B by (simp add: extract_pages_append packets_of_snoc)
    moreover have "delivered w' = wire (ps @ pages) @ []" "list_all (\<lambda>p. Validate p = None) (ps @ pages)"
      using ps B W r by auto
    moreover have "swStarted sw'" "swEnded sw' \<longleftrightarrow> e" using W r True by auto
    ultimately show ?thesis using e unfolding stream_inv_def
      by (intro conjI exI [of _ "ps @ pages"] exI [of _ "[]"]) (simp_all add: r)
  next
    case (Some x)
    then have r: "err = Some x" "w' = w1" "sw' = sw1"
      using assms(2) True b wp by (auto simp: WritePacket_def)
    have "(swBroken sw1 \<and> (\<exists>more. delivered w1 = delivered w @ more)) \<or> (sw1 = sw \<and> delivered w1 = delivered w)"
      using write_pages_fail [of pages sw w 0 0 k x sw1 w1] B wp Some by auto
    then show ?thesis
    proof
      assume "swBroken sw1 \<and> (\<exists>more. delivered w1 = delivered w @ more)"
      then show ?thesis using assms(1) ps by (auto simp: stream_inv_def r)
    next
      assume "sw1 = sw \<and> delivered w1 = delivered w"
      then show ?thesis using assms(1) by (simp add: r)
    qed
  qed
qed

lemma write_all_inv:
  assumes "stream_inv (delivered w) sw before" "write_all sink sw w reqs = (oks, sw', w')"
  shows "stream_inv (delivered w') sw' (before @ oks)"
  using assms
proof (induction reqs arbitrary: sw w before oks)
  case (Cons req reqs)
  obtain d g e where req: "req = (d, g, e)" by (cases req) auto
  obtain n err sw1 w1 where wp: "WritePacket sink sw w d g e = ((n, err), sw1, w1)" by (metis surj_pair)
  obtain more where m: "write_all sink sw1 w1 reqs = (more, sw', w')"
    and oks: "oks = (if err = None then (d, g, e) # more else more)"
    using Cons.prems(2) req wp by (auto split: prod.splits)
  show ?case
    using Cons.IH [OF WritePacket_inv [OF Cons.prems(1) wp] m]
    by (cases err) (simp_all add: oks)
qed simp

end

section \<open>Properties\<close>

text \<open>
  C26: What a stream writer writes is read back, over any \<open>io.Writer\<close>, also one that fails.  After
  any sequence of calls the packets of the successful calls are the first the iterator \<open>Packets\<close>
  yields, with their data and granule position, BOS on the first only and EOS on the last at most;
  unless a call failed half way they are all there is, and \<open>ReadAllPackets\<close> returns them.  After a
  call that failed half way the writer refuses everything and writes nothing.
\<close>

theorem stream_roundtrip:
  assumes "byte_sink sink delivered" and "delivered w0 = []"
    and "write_all sink (NewStreamWriter serial) w0 reqs = (oks, sw, w)"
  shows "(\<exists>rest. Packets \<lparr>rdata = delivered w, rfails = False\<rparr> = map Inr (packets_of True oks) @ rest) \<and>
    (\<not> swBroken sw \<longrightarrow> ReadAllPackets \<lparr>rdata = delivered w, rfails = False\<rparr> = Inr (packets_of True oks)) \<and>
    list_all (\<lambda>(d, g, e). \<not> e) (butlast oks) \<and>
    (swBroken sw \<longrightarrow> WritePacket sink sw w d g e = ((0, Some StreamBroken), sw, w))"
proof -
  have "stream_inv (delivered w0) (NewStreamWriter serial) []"
    unfolding stream_inv_def using assms(2)
    by (auto simp: NewStreamWriter_def intro!: exI [of _ "[]"])
  from byte_sink.write_all_inv [OF assms(1) this assms(3)]
  obtain ps rest where ps: "delivered w = wire ps @ rest" "list_all (\<lambda>p. Validate p = None) ps"
      "extract_pages extraction_start ps = Inr (packets_of True oks, extraction_start)"
      "\<not> swBroken sw \<Longrightarrow> rest = []" and e: "list_all (\<lambda>(d, g, e). \<not> e) (butlast oks)"
    by (auto simp: stream_inv_def)
  have "Packets \<lparr>rdata = delivered w, rfails = False\<rparr> =
      map Inr (packets_of True oks) @ packets_loop extraction_start \<lparr>rdata = rest, rfails = False\<rparr>"
    unfolding Packets_def ps(1) by (rule packets_loop_wire [OF ps(2,3)])
  moreover have "ReadAllPackets \<lparr>rdata = delivered w, rfails = False\<rparr> = Inr (packets_of True oks)"
    if "\<not> swBroken sw"
    using ReadAllPages_wire [OF ps(2), of "[]" False] ps(1,3) ps(4) [OF that]
    by (simp add: ReadAllPackets_def ExtractPackets_def extraction_start_def)
  ultimately show ?thesis using e by (simp add: WritePacket_def)
qed

text \<open>Over an open growable buffer a short packet is always written.\<close>

lemma growable_write_pages:
  assumes "gcloseErr b = None" "\<not> gcloseWrite b" "\<not> swBroken sw" "list_all (\<lambda>p. Validate p = None) ps"
  shows "\<exists>n sw' b'. write_pages growable_write sw b i k ps = ((n, None), sw', b') \<and> gcloseErr b' = None \<and>
    \<not> gcloseWrite b' \<and> \<not> swBroken sw' \<and> swEnded sw' = swEnded sw"
  using assms
proof (induction ps arbitrary: b sw i k)
  case (Cons p ps)
  let ?r = "page_bytes p (oggCRC (page_bytes p 0))"
  have m: "MarshalBinary p = Inr ?r" using Cons.prems(4) by (simp add: MarshalBinary_Inr)
  let ?b = "b\<lparr>gnotify := True, gbuf := gbuf b @ ?r\<rparr>"
  have "growable_write b ?r = ((int (length ?r), False), ?b)"
    using Cons.prems(1,2) by (simp add: growable_write_def gb_Write_def)
  moreover obtain n sw' b' where "write_pages growable_write (sw\<lparr>swStarted := True, nextSequence := nextSequence sw + 1\<rparr>)
      ?b (i + 1) (k + int (length ?r)) ps = ((n, None), sw', b')" "gcloseErr b' = None"
    "\<not> gcloseWrite b'" "\<not> swBroken sw'" "swEnded sw' = swEnded sw"
    using Cons.IH [of ?b "sw\<lparr>swStarted := True, nextSequence := nextSequence sw + 1\<rparr>"] Cons.prems by fastforce
  ultimately show ?case by (simp add: m Let_def)
qed simp

lemma growable_one_page:
  assumes "gcloseErr b = None" "\<not> gcloseWrite b" "\<not> swBroken sw" "\<not> swEnded sw" "length d < 255"
  shows "\<exists>n sw' b'. WritePacket growable_write sw b d g e = ((n, None), sw', b') \<and> gcloseErr b' = None \<and>
    \<not> gcloseWrite b' \<and> \<not> swBroken sw' \<and> swEnded sw' = e"
proof -
  have u: "unat (of_nat (length d) :: byte) = length d" using assms(5) by (intro unat_of_nat_byte) simp
  have "\<exists>ps. build_loop (swSerial sw) (nextSequence sw) d g (\<not> swStarted sw) e [of_nat (length d)] 0 0 0
      = Inr (ps, length d)"
    using build_loop_ok [of "[of_nat (length d)]" 0 "of_nat (length d)" d 0 0 0] u assms(5) by fastforce
  then obtain ps where "BuildPacketPages (swSerial sw) (nextSequence sw) d g (\<not> swStarted sw) e = Inr ps"
    using assms(5) unat_u32_less [of "nextSequence sw"]
    by (auto simp: BuildPacketPages_def packetLacing_def lacing_loop_eq ogg_sizes)
  moreover from BuildPacketPages_ok [OF this] growable_write_pages [OF assms(1-3), of ps 0 0]
  obtain n sw' b' where "write_pages growable_write sw b 0 0 ps = ((n, None), sw', b')" "gcloseErr b' = None"
    "\<not> gcloseWrite b'" "\<not> swBroken sw'" "swEnded sw' = swEnded sw" by blast
  ultimately show ?thesis using assms by (simp add: WritePacket_def)
qed

theorem stream_roundtrip_witness:
  "\<exists>sw w. write_all growable_write (NewStreamWriter 7) N [([1, 2], 5, False), ([], 6, True)] =
      ([([1, 2], 5, False), ([], 6, True)], sw, w) \<and>
    ReadAllPackets \<lparr>rdata = gbuf w, rfails = False\<rparr> =
      Inr [\<lparr>kData = [1, 2], kGranule = 5, kBOS = True, kEOS = False\<rparr>,
           \<lparr>kData = [], kGranule = 6, kBOS = False, kEOS = True\<rparr>]"
proof -
  let ?reqs = "[([1, 2], 5, False), ([], 6, True)] :: (byte list \<times> u64 \<times> bool) list"
  obtain n1 sw1 b1 where 1: "WritePacket growable_write (NewStreamWriter 7) N [1, 2] 5 False = ((n1, None), sw1, b1)"
      "gcloseErr b1 = None" "\<not> gcloseWrite b1" "\<not> swBroken sw1" "\<not> swEnded sw1"
    using growable_one_page [of N "NewStreamWriter 7" "[1, 2]" 5 False] by (auto simp: N_def NewStreamWriter_def)
  obtain n2 sw2 b2 where 2: "WritePacket growable_write sw1 b1 [] 6 True = ((n2, None), sw2, b2)" "\<not> swBroken sw2"
    using growable_one_page [OF 1(2-5), of "[]" 6 True] by auto
  have w: "write_all growable_write (NewStreamWriter 7) N ?reqs = (?reqs, sw2, b2)" using 1 2 by simp
  have "gbuf (N :: byte growable) = []" by (simp add: N_def)
  then show ?thesis
    using stream_roundtrip [of growable_write gbuf N 7 ?reqs ?reqs sw2 b2] growable_sink.byte_sink_axioms 2(2) w
    by (intro exI [of _ sw2] exI [of _ b2]) simp
qed

text \<open>
  C27: The streaming reader and the batch reader agree: \<open>ReadAllPackets\<close> returns a list of packets
  exactly when the iterator \<open>Packets\<close> yields them and no error, on any input, damaged or failing.
\<close>

theorem streaming_equals_batch: "ReadAllPackets r = Inr ks \<longleftrightarrow> Packets r = map Inr ks"
  by (simp add: ReadAllPackets_batch Packets_def packets_loop_batch)

lemma ParsePages_marshalled: "MarshalPages ps = Inr out \<Longrightarrow> ParsePages out = Inr (map stamped ps)"
proof -
  assume m: "MarshalPages ps = Inr out"
  have "page_bytes (stamped p) c = page_bytes p c" for p c by (simp add: stamped_def page_bytes_def)
  then have "wire (map stamped ps) = wire ps" "list_all (\<lambda>p. pChecksum p = oggCRC (page_bytes p 0)) (map stamped ps)"
    by (simp_all add: wire_def o_def list_all_iff) (simp_all add: stamped_def)
  then show ?thesis using m by (simp add: ParsePages_iff MarshalPages_wire list_all_iff)
qed

lemma ReadAllPages_cut:
  assumes "Validate p = None" "0 < k" "k < length (page_bytes p c)"
  shows "ReadAllPages \<lparr>rdata = take k (page_bytes p c), rfails = False\<rparr> =
    (if k < 27 then Inl TruncatedHeader
     else if k = 27 \<or> k = 27 + length (pSegments p) then Inr []
     else if k < 27 + length (pSegments p) then Inl TruncatedSegments
     else Inl TruncatedPayload)"
proof -
  let ?b = "page_bytes p c"
  have l: "length (pSegments p) \<le> 255" and s: "seg_sum (pSegments p) = length (pPayload p)"
    using assms by (simp_all add: Validate_None)
  have 26: "unat (?b ! 26) = length (pSegments p)"
    using page_bytes_fields(5) [OF l, of _ "[]"] by simp
  obtain h where b: "?b = h @ pSegments p @ pPayload p" and h: "length h = 27"
    by (rule that [of "take 27 ?b"]) (simp_all add: page_bytes_def CapturePattern_def)
  have n: "unat (h ! 26) = length (pSegments p)" using 26 h unfolding b by (simp add: nth_append)
  have k: "k < 27 + (length (pSegments p) + length (pPayload p))" using assms(3) by simp
  show ?thesis
    unfolding b
    using assms(2) k h n s
    by (subst ReadAllPages.simps)
      (auto simp: NextPage_def ReadFull_def ogg_sizes is_EOF_def)
qed

text \<open>
  Truncation inside the last page is an error, except right after its header or right after its
  segment table: there \<open>ReadAllPages\<close> returns the pages before it and no error.
\<close>

theorem truncation_detected_or_accepted:
  assumes "MarshalPages ps = Inr out" and "MarshalBinary p = Inr raw" and "0 < k" and "k < length raw"
  shows "ReadAllPages \<lparr>rdata = out @ take k raw, rfails = False\<rparr> =
    (if k < 27 then Inl TruncatedHeader
     else if k = 27 \<or> k = 27 + length (pSegments p) then ParsePages out
     else if k < 27 + length (pSegments p) then Inl TruncatedSegments
     else Inl TruncatedPayload)"
proof -
  have p: "Validate p = None" "raw = page_bytes p (oggCRC (page_bytes p 0))"
    using assms(2) by (simp_all add: MarshalBinary_Inr)
  have ps: "list_all (\<lambda>p. Validate p = None) ps" "out = wire ps" using assms(1) by (simp_all add: MarshalPages_wire)
  have cut: "ReadAllPages \<lparr>rdata = take k raw, rfails = False\<rparr> =
    (if k < 27 then Inl TruncatedHeader
     else if k = 27 \<or> k = 27 + length (pSegments p) then Inr []
     else if k < 27 + length (pSegments p) then Inl TruncatedSegments
     else Inl TruncatedPayload)"
    using ReadAllPages_cut [OF p(1) assms(3)] assms(4) unfolding p(2) by blast
  have "ReadAllPages \<lparr>rdata = out @ take k raw, rfails = False\<rparr> =
      (case ReadAllPages \<lparr>rdata = take k raw, rfails = False\<rparr> of
         Inl e \<Rightarrow> Inl e | Inr qs \<Rightarrow> Inr (map stamped ps @ qs))"
    unfolding ps(2) by (rule ReadAllPages_wire [OF ps(1)])
  then show ?thesis unfolding cut ParsePages_marshalled [OF assms(1)] by simp
qed

theorem truncation_detected_or_accepted_witness:
  "ReadAllPages \<lparr>rdata = take 27 (page_bytes demo_page (oggCRC (page_bytes demo_page 0))), rfails = False\<rparr> = Inr []"
proof -
  have "pSegments demo_page = [2]" by (simp add: demo_page_def)
  then show ?thesis
    using truncation_detected_or_accepted [of "[]" "[]" demo_page "page_bytes demo_page (oggCRC (page_bytes demo_page 0))" 27]
    by (simp add: MarshalBinary_Inr demo_page_valid ParsePages.simps [of "[]"])
qed

end
