(* ===== verification/KcpConn.thy ===== *)
theory KcpConn
  imports Prelude
begin

text \<open>
  \<open>pkg/giznet/internal/kcp/conn.go\<close>: one reliable connection over the third-party protocol engine
  \<open>gokcp.KCP\<close>.  The engine is a record of operations on its state \<open>'k\<close>, an argument of the
  operations that call it.  The goroutine \<open>runLoop\<close> is one function per branch of its \<open>select\<close>;
  what it writes to the network is the list of packets it passes to the callback \<open>output\<close>.  A call
  that can wait returns \<open>None\<close> while it has to; the clock reading is an argument.  A zero deadline
  is \<open>None\<close>.
\<close>

datatype kcp_error =
  ConnClosed | ConnClosedLocal | ConnClosedByPeer | ConnTimeout | KcpSendFailed
| StreamClosedGraceful | StreamAborted | StreamInvalid | StreamIDExhausted
| ServiceMuxClosed | ServiceRejected | AcceptQueueClosed | InboundQueueFull | InvalidServiceFrame
| NoSession | KCPMustUseStream | OutputFailed nat | IoEOF | IoClosedPipe

record write_req =
  wrData :: "byte list"
  wrID :: nat

record kcp_conn =
  inputCh :: "byte list list"
  writeCh :: "write_req list"
  recvBuf :: "byte list"
  readDeadline :: "int option"
  writeDeadline :: "int option"
  connClosed :: bool
  closeErr :: "kcp_error option"
  lastRecv :: int

definition NewKCPConn :: "int \<Rightarrow> kcp_conn" where
  "NewKCPConn now =
     \<lparr>inputCh = [], writeCh = [], recvBuf = [], readDeadline = None, writeDeadline = None,
      connClosed = False, closeErr = None, lastRecv = now\<rparr>"

definition inputChSize :: nat where "inputChSize = 256"
definition writeChSize :: nat where "writeChSize = 64"

definition setCloseErr :: "kcp_conn \<Rightarrow> kcp_error option \<Rightarrow> kcp_conn" where
  "setCloseErr c err =
     (let e = (case err of None \<Rightarrow> ConnClosed | Some e \<Rightarrow> e)
      in case closeErr c of None \<Rightarrow> c\<lparr>closeErr := Some e\<rparr> | Some _ \<Rightarrow> c)"

definition getCloseErr :: "kcp_conn \<Rightarrow> kcp_error" where
  "getCloseErr c = (case closeErr c of Some e \<Rightarrow> e | None \<Rightarrow> ConnClosed)"

text \<open>\<open>closeOnce\<close> has run exactly when the connection is closed.\<close>

definition closeSignal :: "kcp_conn \<Rightarrow> kcp_error option \<Rightarrow> kcp_conn" where
  "closeSignal c reason =
     (if connClosed c then c
      else (setCloseErr c (case reason of None \<Rightarrow> Some ConnClosed | Some e \<Rightarrow> Some e))\<lparr>connClosed := True\<rparr>)"

definition conn_Close :: "kcp_conn \<Rightarrow> kcp_conn" where
  "conn_Close c = closeSignal c (Some ConnClosedLocal)"

definition closeWithReason :: "kcp_conn \<Rightarrow> kcp_error option \<Rightarrow> kcp_conn" where
  "closeWithReason c reason = closeSignal c reason"

definition IsClosed :: "kcp_conn \<Rightarrow> bool" where
  "IsClosed c = connClosed c"

definition conn_Input :: "kcp_conn \<Rightarrow> byte list \<Rightarrow> (kcp_error + kcp_conn) option" where
  "conn_Input c data =
     (if connClosed c then Some (Inl (getCloseErr c))
      else if length (inputCh c) < inputChSize then Some (Inr (c\<lparr>inputCh := inputCh c @ [data]\<rparr>))
      else None)"

definition deadline_passed :: "int option \<Rightarrow> int \<Rightarrow> bool" where
  "deadline_passed dl now = (case dl of None \<Rightarrow> False | Some d \<Rightarrow> d < now)"

text \<open>\<open>Read\<close> into \<open>k\<close> bytes.\<close>

definition conn_Read :: "kcp_conn \<Rightarrow> int \<Rightarrow> nat \<Rightarrow> ((kcp_error + byte list) \<times> kcp_conn) option" where
  "conn_Read c now k =
     (if k = 0 then Some (Inr [], c)
      else if recvBuf c \<noteq> [] then Some (Inr (take k (recvBuf c)), c\<lparr>recvBuf := drop k (recvBuf c)\<rparr>)
      else if connClosed c then Some (Inl (getCloseErr c), c)
      else if deadline_passed (readDeadline c) now then Some (Inl ConnTimeout, c)
      else None)"

text \<open>
  \<open>Write\<close> up to the point where its request is in the queue of the run loop; \<open>Inr\<close> says it waits for
  the result.
\<close>

definition conn_Write ::
  "kcp_conn \<Rightarrow> int \<Rightarrow> byte list \<Rightarrow> nat \<Rightarrow> ((kcp_error + nat) \<times> kcp_conn) option"
where
  "conn_Write c now data req =
     (if data = [] then Some (Inr 0, c)
      else if connClosed c then Some (Inl (getCloseErr c), c)
      else if deadline_passed (writeDeadline c) now then Some (Inl ConnTimeout, c)
      else if length (writeCh c) < writeChSize
      then Some (Inr (length data), c\<lparr>writeCh := writeCh c @ [\<lparr>wrData = data, wrID = req\<rparr>]\<rparr>)
      else None)"

definition SetReadDeadline :: "kcp_conn \<Rightarrow> int option \<Rightarrow> kcp_conn" where
  "SetReadDeadline c t = c\<lparr>readDeadline := t\<rparr>"

definition SetWriteDeadline :: "kcp_conn \<Rightarrow> int option \<Rightarrow> kcp_conn" where
  "SetWriteDeadline c t = c\<lparr>writeDeadline := t\<rparr>"

definition SetDeadline :: "kcp_conn \<Rightarrow> int option \<Rightarrow> kcp_conn" where
  "SetDeadline c t = SetWriteDeadline (SetReadDeadline c t) t"

section \<open>The run loop\<close>

text \<open>
  The engine: \<open>Input\<close>, \<open>Send\<close> and \<open>Update\<close> may hand buffers with a size to the output callback,
  \<open>Recv\<close> fills the buffer and returns its count.
\<close>

record 'k kcp_engine =
  kInput :: "'k \<Rightarrow> byte list \<Rightarrow> 'k \<times> (byte list \<times> int) list"
  kSend :: "'k \<Rightarrow> byte list \<Rightarrow> int \<times> 'k \<times> (byte list \<times> int) list"
  kUpdate :: "'k \<Rightarrow> 'k \<times> (byte list \<times> int) list"
  kWaitSnd :: "'k \<Rightarrow> int"
  kPeekSize :: "'k \<Rightarrow> int"
  kRecv :: "'k \<Rightarrow> int \<times> byte list \<times> 'k"

definition engine_output :: "(byte list \<times> int) list \<Rightarrow> byte list list" where
  "engine_output ps =
     map (\<lambda>(buf, size). take (nat (if int (length buf) < size then int (length buf) else size)) buf)
       (filter (\<lambda>(buf, size). 0 < size) ps)"

partial_function (option) drainRecv :: "'k kcp_engine \<Rightarrow> 'k \<Rightarrow> byte list \<Rightarrow> ('k \<times> byte list) option" where
  "drainRecv K k buf =
     (if kPeekSize K k \<le> 0 then Some (k, buf)
      else case kRecv K k of (n, data, k') \<Rightarrow>
        if n \<le> 0 then Some (k', buf) else drainRecv K k' (buf @ take (nat n) data))"

fun drain_inputs :: "'k kcp_engine \<Rightarrow> 'k \<Rightarrow> byte list list \<Rightarrow> 'k \<times> byte list list" where
  "drain_inputs K k [] = (k, [])"
| "drain_inputs K k (data # rest) =
     (case kInput K k data of (k1, ps) \<Rightarrow>
        case drain_inputs K k1 rest of (k2, out) \<Rightarrow> (k2, engine_output ps @ out))"

text \<open>\<open>drainInputChAndProcess(true)\<close>: everything queued, one update, one drain.\<close>

definition drainInputChAndProcess ::
  "'k kcp_engine \<Rightarrow> 'k \<times> kcp_conn \<Rightarrow> (('k \<times> kcp_conn) \<times> byte list list) option"
where
  "drainInputChAndProcess K = (\<lambda>(k, c).
     case drain_inputs K k (inputCh c) of (k1, out1) \<Rightarrow>
       case kUpdate K k1 of (k2, ps) \<Rightarrow>
         (case drainRecv K k2 (recvBuf c) of
            None \<Rightarrow> None
          | Some (k3, buf) \<Rightarrow> Some ((k3, c\<lparr>inputCh := [], recvBuf := buf\<rparr>), out1 @ engine_output ps)))"

definition idleTimeout :: int where "idleTimeout = 15 * 10 ^ 9"
definition idleTimeoutPure :: int where "idleTimeoutPure = 30 * 10 ^ 9"

text \<open>
  The top of a turn of \<open>runLoop\<close>: the idle check, which ends the loop when it closes the connection.
\<close>

definition idle_check :: "'k kcp_engine \<Rightarrow> 'k \<Rightarrow> kcp_conn \<Rightarrow> int \<Rightarrow> bool" where
  "idle_check K k c now \<longleftrightarrow>
     idleTimeout < now - lastRecv c \<and> 0 < kWaitSnd K k \<or> idleTimeoutPure < now - lastRecv c"

text \<open>
  One turn of the loop: what is sent and which write request is answered.  The branch of \<open>closeCh\<close>,
  which leaves the loop, changes nothing.
\<close>

datatype loop_branch = TakeInput | TakeWrite | Poll

definition run_turn ::
  "'k kcp_engine \<Rightarrow> int \<Rightarrow> loop_branch \<Rightarrow> 'k \<times> kcp_conn
     \<Rightarrow> (('k \<times> kcp_conn) \<times> byte list list \<times> (nat \<times> (kcp_error + nat)) option) option"
where
  "run_turn K now branch = (\<lambda>(k, c).
     if idle_check K k c now then Some ((k, closeSignal c (Some ConnTimeout)), [], None)
     else case branch of
       TakeInput \<Rightarrow>
         (case inputCh c of
            [] \<Rightarrow> None
          | data # rest \<Rightarrow>
              (case kInput K k data of (k1, ps) \<Rightarrow>
                 (case drainInputChAndProcess K (k1, c\<lparr>inputCh := rest\<rparr>) of
                    None \<Rightarrow> None
                  | Some ((k2, c2), out) \<Rightarrow>
                      Some ((k2, c2\<lparr>lastRecv := now\<rparr>), engine_output ps @ out, None))))
     | TakeWrite \<Rightarrow>
         (case writeCh c of
            [] \<Rightarrow> None
          | req # rest \<Rightarrow>
              (case kSend K k (wrData req) of (ret, k1, ps) \<Rightarrow>
                 (case (if ret < 0 then (k1, []) else kUpdate K k1) of (k2, qs) \<Rightarrow>
                    (case drainRecv K k2 (recvBuf c) of
                       None \<Rightarrow> None
                     | Some (k3, buf) \<Rightarrow>
                         Some ((k3, c\<lparr>writeCh := rest, recvBuf := buf\<rparr>), engine_output (ps @ qs),
                           Some (wrID req, if ret < 0 then Inl KcpSendFailed
                             else Inr (length (wrData req))))))))
     | Poll \<Rightarrow>
         (case kUpdate K k of (k1, ps) \<Rightarrow>
            (case drainRecv K k1 (recvBuf c) of
               None \<Rightarrow> None
             | Some (k2, buf) \<Rightarrow> Some ((k2, c\<lparr>recvBuf := buf\<rparr>), engine_output ps, None))))"

section \<open>Closing is final\<close>

text \<open>
  What an operation on a connection can do to it: move data and deadlines, or close it.  A connection
  has a close error exactly when it is closed.
\<close>

inductive conn_moves :: "kcp_conn \<Rightarrow> kcp_conn \<Rightarrow> bool" where
  moves_data: "conn_moves c (c\<lparr>inputCh := i, writeCh := w, recvBuf := b, readDeadline := rd,
    writeDeadline := wd, lastRecv := l\<rparr>)"
| moves_close: "conn_moves c (closeSignal c err)"

definition conn_ok :: "kcp_conn \<Rightarrow> bool" where
  "conn_ok c \<longleftrightarrow> (connClosed c \<longleftrightarrow> closeErr c \<noteq> None)"

lemma conn_moves_updates:
  "conn_moves c c" "conn_moves c (c\<lparr>recvBuf := b\<rparr>)" "conn_moves c (c\<lparr>inputCh := i\<rparr>)"
  "conn_moves c (c\<lparr>writeCh := w\<rparr>)" "conn_moves c (c\<lparr>writeCh := w, recvBuf := b\<rparr>)"
  "conn_moves c (c\<lparr>inputCh := i, recvBuf := b, lastRecv := l\<rparr>)"
  "conn_moves c (c\<lparr>readDeadline := rd\<rparr>)" "conn_moves c (c\<lparr>writeDeadline := wd\<rparr>)"
  using moves_data [of c "lastRecv c" "writeDeadline c" "readDeadline c" "recvBuf c" "writeCh c" "inputCh c"]
    moves_data [of c "lastRecv c" "writeDeadline c" "readDeadline c" b "writeCh c" "inputCh c"]
    moves_data [of c "lastRecv c" "writeDeadline c" "readDeadline c" "recvBuf c" "writeCh c" i]
    moves_data [of c "lastRecv c" "writeDeadline c" "readDeadline c" "recvBuf c" w "inputCh c"]
    moves_data [of c "lastRecv c" "writeDeadline c" "readDeadline c" b w "inputCh c"]
    moves_data [of c l "writeDeadline c" "readDeadline c" b "writeCh c" i]
    moves_data [of c "lastRecv c" "writeDeadline c" rd "recvBuf c" "writeCh c" "inputCh c"]
    moves_data [of c "lastRecv c" wd "readDeadline c" "recvBuf c" "writeCh c" "inputCh c"]
  by simp_all

lemma conn_operations_move:
  "conn_Input c data = Some (Inr c') \<Longrightarrow> conn_moves c c'"
  "conn_Read c now k = Some (r, c') \<Longrightarrow> conn_moves c c'"
  "conn_Write c now data q = Some (r', c') \<Longrightarrow> conn_moves c c'"
  "conn_moves c (conn_Close c)" "conn_moves c (closeWithReason c err)"
  "conn_moves c (SetReadDeadline c t)" "conn_moves c (SetWriteDeadline c t)"
  by (auto simp: conn_Input_def conn_Read_def conn_Write_def conn_Close_def closeWithReason_def
      SetReadDeadline_def SetWriteDeadline_def conn_moves_updates moves_close split: if_splits)

lemma run_turn_moves: "run_turn K now branch (k, c) = Some ((k', c'), out, res) \<Longrightarrow> conn_moves c c'"
  by (cases branch)
    (auto simp: run_turn_def drainInputChAndProcess_def moves_close conn_moves_updates
      split: if_splits list.splits prod.splits option.splits)

lemma conn_moves_ok: "conn_moves c c' \<Longrightarrow> conn_ok c \<Longrightarrow> conn_ok c'"
  by (induction rule: conn_moves.induct)
    (auto simp: conn_ok_def closeSignal_def setCloseErr_def Let_def split: option.split)

lemma closeSignal_facts:
  assumes "conn_ok c"
  shows "connClosed (closeSignal c err)" "recvBuf (closeSignal c err) = recvBuf c" "conn_ok (closeSignal c err)"
    "\<not> connClosed c \<Longrightarrow> closeErr (closeSignal c (Some e)) = Some e"
    "connClosed c \<Longrightarrow> closeSignal c err = c"
  using assms
  by (auto simp: conn_ok_def closeSignal_def setCloseErr_def Let_def split: option.split)

text \<open>The first close wins: nothing that happens later changes the error readers and writers see.\<close>

lemma close_is_final: "conn_moves c c' \<Longrightarrow> connClosed c \<Longrightarrow> connClosed c' \<and> closeErr c' = closeErr c"
  by (induction rule: conn_moves.induct) (auto simp: closeSignal_def)

lemma NewKCPConn_ok: "conn_ok (NewKCPConn now)"
  by (simp add: conn_ok_def NewKCPConn_def)

end
