(* ===== verification/KcpMux.thy ===== *)
theory KcpMux
  imports Varint KcpConn "HOL-Library.AList"
begin

text \<open>
  \<open>pkg/giznet/internal/kcp/kcp_mux.go\<close>: the streams of one service.

  The callbacks \<open>output\<close> and \<open>reportErr\<close> are functions on a state \<open>'w\<close> of the caller that the mux
  threads through.  Connections and acknowledgement channels are shared by pointer between the map
  of streams, the stream handles and the waiters, so both live in stores and are named by their
  index.  The map of streams is an association list; a loop over it goes in list order.  What the
  code starts with \<open>go\<close> happens at once; a call holds the lock from its first to its last access,
  and what other goroutines do in between is a step of its own.  \<open>muxNow\<close> is the clock, and an idle
  timer is the instant at which it fires.
\<close>

section \<open>Frames\<close>

definition frameOpen :: byte where "frameOpen = 0"
definition frameData :: byte where "frameData = 1"
definition frameClose :: byte where "frameClose = 2"
definition frameCloseAck :: byte where "frameCloseAck = 3"

definition reasonClose :: byte where "reasonClose = 0"
definition reasonAbort :: byte where "reasonAbort = 1"
definition reasonInvalid :: byte where "reasonInvalid = 2"

definition MaxUint32 :: u64 where "MaxUint32 = 0xFFFFFFFF"

definition mux_frame :: "u64 \<Rightarrow> byte \<Rightarrow> byte list \<Rightarrow> byte list" where
  "mux_frame streamID frameType payload = AppendVarint [] streamID @ [frameType] @ payload"

definition decodeMuxFrame :: "byte list \<Rightarrow> kcp_error + (u64 \<times> byte \<times> byte list)" where
  "decodeMuxFrame data =
     (case Uvarint data of (streamID, n) \<Rightarrow>
        if n \<le> 0 then Inl InvalidServiceFrame
        else if MaxUint32 < streamID then Inl InvalidServiceFrame
        else if drop (nat n) data = [] then Inl InvalidServiceFrame
        else Inr (streamID, data ! nat n, drop (nat n + 1) data))"

section \<open>State\<close>

record kcp_mux_config =
  CloseAckTimeout :: int
  IdleStreamTimeout :: int
  AcceptBacklog :: int
  MaxActiveStreams :: int

definition defaultKcpMuxConfig :: "kcp_mux_config \<Rightarrow> kcp_mux_config" where
  "defaultKcpMuxConfig cfg =
     \<lparr>CloseAckTimeout = (if CloseAckTimeout cfg \<le> 0 then 15 * 10 ^ 9 else CloseAckTimeout cfg),
      IdleStreamTimeout = (if IdleStreamTimeout cfg \<le> 0 then 60 * 10 ^ 9 else IdleStreamTimeout cfg),
      AcceptBacklog = (if AcceptBacklog cfg \<le> 0 then 32 else AcceptBacklog cfg),
      MaxActiveStreams = (if MaxActiveStreams cfg \<le> 0 then 32 else MaxActiveStreams cfg)\<rparr>"

record stream_entry =
  entryConn :: nat
  entryActive :: bool
  entryQueued :: bool
  localClose :: bool
  closeAckCh :: "nat option"
  closeAckSet :: bool
  idleTimer :: "int option"

record 'w kcp_mux =
  serviceID :: u64
  muxIsClient :: bool
  muxConfig :: kcp_mux_config
  muxOutput :: "('w \<Rightarrow> u64 \<Rightarrow> byte list \<Rightarrow> kcp_error option \<times> 'w) option"
  muxReportErr :: "('w \<Rightarrow> u64 \<Rightarrow> kcp_error \<Rightarrow> 'w) option"
  muxStreams :: "(u64 \<times> stream_entry) list"
  nextLocalStreamID :: u64
  activeStreams :: int
  acceptCh :: "u64 list"
  acceptStopped :: bool
  acceptingRemote :: bool
  muxCloseSignalled :: bool
  muxClosing :: bool
  muxClosed :: bool
  muxConns :: "kcp_conn list"
  ackChans :: "bool list"
  muxNow :: int
  world :: 'w

record kcp_stream =
  streamService :: u64
  streamID :: u64
  streamConn :: nat

definition initialLocalStreamID :: "bool \<Rightarrow> u64" where
  "initialLocalStreamID isClient = (if isClient then 1 else 0)"

definition NewKcpMux ::
  "u64 \<Rightarrow> bool \<Rightarrow> kcp_mux_config \<Rightarrow> ('w \<Rightarrow> u64 \<Rightarrow> byte list \<Rightarrow> kcp_error option \<times> 'w) option
     \<Rightarrow> ('w \<Rightarrow> u64 \<Rightarrow> kcp_error \<Rightarrow> 'w) option \<Rightarrow> int \<Rightarrow> 'w \<Rightarrow> 'w kcp_mux"
where
  "NewKcpMux service isClient cfg outp rep now w =
     \<lparr>serviceID = service, muxIsClient = isClient, muxConfig = defaultKcpMuxConfig cfg, muxOutput = outp,
      muxReportErr = rep, muxStreams = [], nextLocalStreamID = initialLocalStreamID isClient,
      activeStreams = 0, acceptCh = [], acceptStopped = False, acceptingRemote = True,
      muxCloseSignalled = False, muxClosing = False, muxClosed = False, muxConns = [], ackChans = [],
      muxNow = now, world = w\<rparr>"

abbreviation getEntry :: "'w kcp_mux \<Rightarrow> u64 \<Rightarrow> stream_entry option" where
  "getEntry m sid \<equiv> map_of (muxStreams m) sid"

abbreviation put_entry :: "u64 \<Rightarrow> stream_entry \<Rightarrow> 'w kcp_mux \<Rightarrow> 'w kcp_mux" where
  "put_entry sid e m \<equiv> m\<lparr>muxStreams := AList.update sid e (muxStreams m)\<rparr>"

section \<open>Sending\<close>

definition mux_reportOutput :: "'w kcp_mux \<Rightarrow> kcp_error option \<Rightarrow> 'w kcp_mux" where
  "mux_reportOutput m err =
     (case err of
        None \<Rightarrow> m
      | Some e \<Rightarrow>
          (case muxReportErr m of
             None \<Rightarrow> m
           | Some f \<Rightarrow> m\<lparr>world := f (world m) (serviceID m) e\<rparr>))"

definition sendFrame :: "'w kcp_mux \<Rightarrow> u64 \<Rightarrow> byte \<Rightarrow> byte list \<Rightarrow> kcp_error option \<times> 'w kcp_mux" where
  "sendFrame m sid frameType payload =
     (case muxOutput m of
        None \<Rightarrow> (None, m)
      | Some out \<Rightarrow>
          (case out (world m) (serviceID m) (mux_frame sid frameType payload) of
             (None, w) \<Rightarrow> (None, m\<lparr>world := w\<rparr>)
           | (Some e, w) \<Rightarrow> (Some e, mux_reportOutput (m\<lparr>world := w\<rparr>) (Some e))))"

definition sendClose :: "'w kcp_mux \<Rightarrow> u64 \<Rightarrow> byte \<Rightarrow> 'w kcp_mux" where
  "sendClose m sid reason = snd (sendFrame m sid frameClose [reason])"

definition sendCloseAck :: "'w kcp_mux \<Rightarrow> u64 \<Rightarrow> 'w kcp_mux" where
  "sendCloseAck m sid = snd (sendFrame m sid frameCloseAck [])"

section \<open>Entries\<close>

definition newStreamEntryLocked :: "'w kcp_mux \<Rightarrow> stream_entry \<times> 'w kcp_mux" where
  "newStreamEntryLocked m =
     (\<lparr>entryConn = length (muxConns m), entryActive = False, entryQueued = False, localClose = False,
       closeAckCh = None, closeAckSet = False, idleTimer = None\<rparr>,
      m\<lparr>muxConns := muxConns m @ [NewKCPConn (muxNow m)]\<rparr>)"

definition resetIdleTimerLocked :: "'w kcp_mux \<Rightarrow> stream_entry \<Rightarrow> stream_entry" where
  "resetIdleTimerLocked m e =
     (if IdleStreamTimeout (muxConfig m) \<le> 0 then e
      else e\<lparr>idleTimer := Some (muxNow m + IdleStreamTimeout (muxConfig m))\<rparr>)"

definition touchStream :: "'w kcp_mux \<Rightarrow> u64 \<Rightarrow> 'w kcp_mux" where
  "touchStream m sid =
     (case getEntry m sid of None \<Rightarrow> m | Some e \<Rightarrow> put_entry sid (resetIdleTimerLocked m e) m)"

definition close_conn :: "nat \<Rightarrow> kcp_error \<Rightarrow> 'w kcp_mux \<Rightarrow> 'w kcp_mux" where
  "close_conn i err m = m\<lparr>muxConns := (muxConns m)[i := closeSignal (muxConns m ! i) (Some err)]\<rparr>"

definition removeStreamLocked :: "'w kcp_mux \<Rightarrow> u64 \<Rightarrow> kcp_error \<Rightarrow> 'w kcp_mux" where
  "removeStreamLocked m sid err =
     (case getEntry m sid of
        None \<Rightarrow> m
      | Some e \<Rightarrow>
          close_conn (entryConn e) err
            (m\<lparr>muxStreams := AList.delete sid (muxStreams m),
               activeStreams := (if entryActive e \<and> 0 < activeStreams m then activeStreams m - 1
                 else activeStreams m),
               ackChans := (case closeAckCh e of
                   Some ch \<Rightarrow> if closeAckSet e then ackChans m else (ackChans m)[ch := True]
                 | None \<Rightarrow> ackChans m)\<rparr>))"

abbreviation removeStream :: "'w kcp_mux \<Rightarrow> u64 \<Rightarrow> kcp_error \<Rightarrow> 'w kcp_mux" where
  "removeStream \<equiv> removeStreamLocked"

section \<open>Opening and accepting\<close>

text \<open>
  The search for a free identifier: \<open>current\<close> is \<open>start + 2 * turn\<close> in 32 bits, and the search ends
  when it comes back to \<open>start\<close>.
\<close>

lemma two_times_wraps: "(2 * of_nat t :: u32) = 0 \<longleftrightarrow> 2 ^ 31 dvd t"
proof -
  have "(2 * of_nat t :: u32) = of_nat (2 * t)" by simp
  also have "\<dots> = 0 \<longleftrightarrow> 2 ^ 32 dvd 2 * t" by (simp only: word_of_nat_eq_0_iff) simp
  also have "(2 ^ 32 :: nat) = 2 * 2 ^ 31" by simp
  finally show ?thesis by (simp only: nat_mult_dvd_cancel_disj) simp
qed

function alloc_loop :: "(u64 \<Rightarrow> bool) \<Rightarrow> u32 \<Rightarrow> nat \<Rightarrow> kcp_error + (u32 \<times> u32)" where
  "alloc_loop used start turn =
     (let current = start + 2 * of_nat turn in
      if \<not> used (ucast current) then Inr (current, current + 2)
      else if current + 2 = start then Inl StreamIDExhausted
      else alloc_loop used start (turn + 1))"
  by pat_completeness auto
termination
proof (relation "measure (\<lambda>(_, _, turn). 2 ^ 31 - turn mod 2 ^ 31)", goal_cases)
  case (2 used start turn current)
  have "(2 * of_nat (turn + 1) :: u32) \<noteq> 0" using 2 by (auto simp: algebra_simps)
  then have "\<not> 2 ^ 31 dvd turn + 1" using two_times_wraps [of "turn + 1"] by simp
  then have "(turn + 1) mod 2 ^ 31 = turn mod 2 ^ 31 + 1" 
    by (simp add: mod_Suc dvd_eq_mod_eq_0 split: if_splits)
  moreover have "turn mod 2 ^ 31 < 2 ^ 31" by simp
  ultimately show ?case by simp
qed simp

declare alloc_loop.simps [simp del]

definition allocateLocalStreamIDLocked :: "'w kcp_mux \<Rightarrow> (kcp_error + u64) \<times> 'w kcp_mux" where
  "allocateLocalStreamIDLocked m =
     (case alloc_loop (\<lambda>i. getEntry m i \<noteq> None) (ucast (nextLocalStreamID m)) 0 of
        Inl e \<Rightarrow> (Inl e, m)
      | Inr (current, next) \<Rightarrow> (Inr (ucast current), m\<lparr>nextLocalStreamID := ucast next\<rparr>))"

definition wrapStream :: "'w kcp_mux \<Rightarrow> u64 \<Rightarrow> stream_entry \<Rightarrow> kcp_stream" where
  "wrapStream m sid e = \<lparr>streamService = serviceID m, streamID = sid, streamConn = entryConn e\<rparr>"

definition mux_Open :: "'w kcp_mux \<Rightarrow> (kcp_error + kcp_stream) \<times> 'w kcp_mux" where
  "mux_Open m =
     (if muxClosed m \<or> muxClosing m then (Inl ServiceMuxClosed, m)
      else case allocateLocalStreamIDLocked m of
          (Inl e, m1) \<Rightarrow> (Inl e, m1)
        | (Inr sid, m1) \<Rightarrow>
            let (e0, m2) = newStreamEntryLocked m1;
                e = resetIdleTimerLocked m2 (e0\<lparr>entryActive := True\<rparr>);
                m3 = (put_entry sid e m2)\<lparr>activeStreams := activeStreams m2 + 1\<rparr>
            in case sendFrame m3 sid frameOpen [] of
                 (Some err, m4) \<Rightarrow> (Inl err, removeStream m4 sid ConnClosedLocal)
               | (None, m4) \<Rightarrow> (Inr (wrapStream m4 sid e), m4))"

definition acceptQueued :: "'w kcp_mux \<Rightarrow> u64 \<Rightarrow> (kcp_error + kcp_stream option) \<times> 'w kcp_mux" where
  "acceptQueued m sid =
     (if muxClosed m \<or> muxClosing m then (Inl ServiceMuxClosed, m)
      else if \<not> acceptingRemote m then (Inl AcceptQueueClosed, m)
      else case getEntry m sid of
          None \<Rightarrow> (Inr None, m)
        | Some e \<Rightarrow>
            if \<not> entryQueued e then (Inr None, m)
            else let e' = resetIdleTimerLocked m (e\<lparr>entryQueued := False, entryActive := True\<rparr>)
              in (Inr (Some (wrapStream m sid e')),
                  (put_entry sid e' m)\<lparr>activeStreams := activeStreams m + 1\<rparr>))"

text \<open>
  \<open>Accept\<close>: each turn takes any ready branch of the \<open>select\<close>; with none ready the call waits.
\<close>

inductive accepts :: "'w kcp_mux \<Rightarrow> kcp_error + kcp_stream \<Rightarrow> 'w kcp_mux \<Rightarrow> bool" where
  accepts_stream: "acceptCh m = sid # rest \<Longrightarrow> acceptQueued (m\<lparr>acceptCh := rest\<rparr>) sid = (Inr (Some s), m')
    \<Longrightarrow> accepts m (Inr s) m'"
| accepts_error: "acceptCh m = sid # rest \<Longrightarrow> acceptQueued (m\<lparr>acceptCh := rest\<rparr>) sid = (Inl e, m')
    \<Longrightarrow> accepts m (Inl e) m'"
| accepts_stale: "acceptCh m = sid # rest \<Longrightarrow> acceptQueued (m\<lparr>acceptCh := rest\<rparr>) sid = (Inr None, m1)
    \<Longrightarrow> accepts m1 r m' \<Longrightarrow> accepts m r m'"
| accepts_stopped: "acceptStopped m
    \<Longrightarrow> accepts m (Inl (if muxClosing m \<or> muxClosed m then ServiceMuxClosed else AcceptQueueClosed)) m"
| accepts_closed: "muxCloseSignalled m \<Longrightarrow> accepts m (Inl ServiceMuxClosed) m"

definition isRemoteStreamID :: "'w kcp_mux \<Rightarrow> u64 \<Rightarrow> bool" where
  "isRemoteStreamID m sid =
     (if MaxUint32 < sid then False
      else if muxIsClient m then sid mod 2 = 0 else sid mod 2 = 1)"

definition handleOpen :: "'w kcp_mux \<Rightarrow> u64 \<Rightarrow> 'w kcp_mux" where
  "handleOpen m sid =
     (if muxClosed m \<or> muxClosing m \<or> \<not> acceptingRemote m then sendClose m sid reasonAbort
      else if getEntry m sid \<noteq> None then m
      else if MaxActiveStreams (muxConfig m) \<le> activeStreams m then sendClose m sid reasonAbort
      else if AcceptBacklog (muxConfig m) \<le> int (length (acceptCh m)) then sendClose m sid reasonAbort
      else let (e0, m1) = newStreamEntryLocked m;
               m2 = put_entry sid (resetIdleTimerLocked m1 (e0\<lparr>entryQueued := True\<rparr>)) m1
           in if int (length (acceptCh m2)) < AcceptBacklog (muxConfig m2)
              then m2\<lparr>acceptCh := acceptCh m2 @ [sid]\<rparr>
              else sendClose (removeStreamLocked m2 sid StreamAborted) sid reasonAbort)"

section \<open>Closing\<close>

definition handleRemoteClose :: "'w kcp_mux \<Rightarrow> u64 \<Rightarrow> byte \<Rightarrow> 'w kcp_mux" where
  "handleRemoteClose m sid reason =
     removeStream m sid
       (if reason = reasonClose then StreamClosedGraceful
        else if reason = reasonAbort then StreamAborted else StreamInvalid)"

definition handleCloseAck :: "'w kcp_mux \<Rightarrow> u64 \<Rightarrow> stream_entry \<Rightarrow> 'w kcp_mux" where
  "handleCloseAck m sid e =
     (let m1 = (case closeAckCh e of
            Some ch \<Rightarrow>
              if closeAckSet e then m
              else put_entry sid (e\<lparr>closeAckSet := True\<rparr>) (m\<lparr>ackChans := (ackChans m)[ch := True]\<rparr>)
          | None \<Rightarrow> m)
      in if localClose e then removeStream m1 sid ConnClosedLocal else m1)"

text \<open>\<open>closeStream\<close> up to \<open>waitForCloseAck\<close>, with the channel it then waits on, if any.\<close>

definition closeStream :: "'w kcp_mux \<Rightarrow> u64 \<Rightarrow> nat option \<times> 'w kcp_mux" where
  "closeStream m sid =
     (if muxClosed m then (None, m)
      else case getEntry m sid of
          None \<Rightarrow> (None, m)
        | Some e \<Rightarrow>
            if localClose e then (closeAckCh e, m)
            else let ch = length (ackChans m);
                     e' = resetIdleTimerLocked m (e\<lparr>localClose := True, closeAckCh := Some ch\<rparr>);
                     m1 = put_entry sid e' (m\<lparr>ackChans := ackChans m @ [False]\<rparr>)
              in (Some ch, sendClose (close_conn (entryConn e) ConnClosedLocal m1) sid reasonClose))"

text \<open>The ways \<open>waitForCloseAck\<close> returns: signalled, or after the timeout, or when the mux closes.\<close>

definition wait_signalled :: "'w kcp_mux \<Rightarrow> nat option \<Rightarrow> bool" where
  "wait_signalled m ch = (case ch of None \<Rightarrow> True | Some i \<Rightarrow> ackChans m ! i \<or> muxCloseSignalled m)"

definition wait_timeout :: "'w kcp_mux \<Rightarrow> u64 \<Rightarrow> 'w kcp_mux" where
  "wait_timeout m sid = removeStream m sid ConnClosedLocal"

definition mux_Close :: "'w kcp_mux \<Rightarrow> 'w kcp_mux" where
  "mux_Close m =
     (if muxClosed m \<or> muxClosing m then m
      else let m1 = m\<lparr>acceptingRemote := False, acceptStopped := True, muxClosing := True,
                      muxCloseSignalled := True\<rparr>;
               m2 = fold (\<lambda>sid m. snd (closeStream m sid)) (map fst (muxStreams m1)) m1;
               m3 = fold (\<lambda>sid m. removeStreamLocked m sid ConnClosedLocal) (map fst (muxStreams m2)) m2
           in m3\<lparr>muxClosed := True\<rparr>)"

definition StopAccepting :: "'w kcp_mux \<Rightarrow> 'w kcp_mux" where
  "StopAccepting m =
     (if muxClosed m \<or> muxClosing m \<or> \<not> acceptingRemote m then m
      else let queued = map fst (filter (\<lambda>(sid, e). entryQueued e \<and> \<not> entryActive e) (muxStreams m));
               m1 = fold (\<lambda>sid m. removeStreamLocked m sid StreamAborted) queued (m\<lparr>acceptingRemote := False\<rparr>);
               m2 = m1\<lparr>acceptStopped := True\<rparr>
           in fold (\<lambda>sid m. sendClose m sid reasonAbort) queued m2)"

definition NumStreams :: "'w kcp_mux \<Rightarrow> nat" where
  "NumStreams m = length (muxStreams m)"

section \<open>Input\<close>

text \<open>
  \<open>None\<close> as a result says that the call waits in \<open>KCPConn.Input\<close> for room in the input channel of the
  connection; it has then done all that comes before.
\<close>

definition deliver :: "'w kcp_mux \<Rightarrow> u64 \<Rightarrow> stream_entry \<Rightarrow> byte list \<Rightarrow> (kcp_error option) option \<times> 'w kcp_mux" where
  "deliver m sid e payload =
     (case conn_Input (muxConns m ! entryConn e) payload of
        None \<Rightarrow> (None, m)
      | Some (Inl err) \<Rightarrow> (Some None, sendClose (removeStream m sid err) sid reasonInvalid)
      | Some (Inr c) \<Rightarrow> (Some None, touchStream (m\<lparr>muxConns := (muxConns m)[entryConn e := c]\<rparr>) sid))"

text \<open>\<open>Input\<close> on any frame but the two closing ones and \<open>Open\<close>.\<close>

definition input_data :: "'w kcp_mux \<Rightarrow> u64 \<Rightarrow> byte list \<Rightarrow> bool \<Rightarrow> (kcp_error option) option \<times> 'w kcp_mux" where
  "input_data m sid payload invalid =
     (let m1 = (if getEntry m sid = None \<and> \<not> invalid then handleOpen m sid else m);
          entry = getEntry m1 sid
      in if invalid then
           (Some None, sendClose (if entry = None then m1 else removeStream m1 sid StreamInvalid) sid reasonInvalid)
         else case entry of
             None \<Rightarrow> (Some None, sendClose m1 sid reasonInvalid)
           | Some e \<Rightarrow> deliver m1 sid e payload)"

definition mux_Input :: "'w kcp_mux \<Rightarrow> byte list \<Rightarrow> (kcp_error option) option \<times> 'w kcp_mux" where
  "mux_Input m data =
     (if muxClosed m \<or> muxClosing m then (Some (Some ServiceMuxClosed), m)
      else case decodeMuxFrame data of
          Inl e \<Rightarrow> (Some (Some e), m)
        | Inr (sid, frameType, payload) \<Rightarrow>
            let entry = getEntry m sid; invalidRemoteID = (\<not> isRemoteStreamID m sid) in
            if frameType = frameCloseAck then
              (let m1 = touchStream m sid
               in (Some None, case getEntry m1 sid of None \<Rightarrow> m1 | Some e \<Rightarrow> handleCloseAck m1 sid e))
            else if frameType = frameClose then
              (let reason = (if length payload = 1 then payload ! 0 else reasonInvalid);
                   m1 = touchStream m sid;
                   m2 = (if entry = None then m1 else handleRemoteClose m1 sid reason)
               in (Some None, sendCloseAck m2 sid))
            else let invalid = (entry = None \<and> invalidRemoteID) in
            if frameType = frameOpen then
              (let invalid = (invalid \<or> payload \<noteq> []) in
               if \<not> invalid \<and> entry \<noteq> None then (Some None, touchStream m sid)
               else if invalid then
                 (Some None, sendClose (if entry = None then m else removeStream m sid StreamInvalid) sid reasonInvalid)
               else (Some None, handleOpen m sid))
            else input_data m sid payload (invalid \<or> frameType \<noteq> frameData))"

text \<open>The output callback that \<open>newStreamEntryLocked\<close> gives to the connection of a stream.\<close>

definition conn_output :: "'w kcp_mux \<Rightarrow> u64 \<Rightarrow> byte list \<Rightarrow> 'w kcp_mux" where
  "conn_output m sid data =
     (case sendFrame (touchStream m sid) sid frameData data of
        (Some e, m1) \<Rightarrow> mux_reportOutput m1 (Some e)
      | (None, m1) \<Rightarrow> m1)"

section \<open>Stream handles\<close>

definition stream_Read ::
  "'w kcp_mux \<Rightarrow> kcp_stream \<Rightarrow> nat \<Rightarrow> ((kcp_error + byte list) \<times> 'w kcp_mux) option"
where
  "stream_Read m s k =
     (case conn_Read (muxConns m ! streamConn s) (muxNow m) k of
        None \<Rightarrow> None
      | Some (r, c) \<Rightarrow>
          Some (case r of Inl e \<Rightarrow> Inl (if e = StreamClosedGraceful then IoEOF else e) | Inr d \<Rightarrow> Inr d,
                m\<lparr>muxConns := (muxConns m)[streamConn s := c]\<rparr>))"

definition stream_Write ::
  "'w kcp_mux \<Rightarrow> kcp_stream \<Rightarrow> byte list \<Rightarrow> nat \<Rightarrow> ((kcp_error + nat) \<times> 'w kcp_mux) option"
where
  "stream_Write m s data req =
     (case conn_Write (muxConns m ! streamConn s) (muxNow m) data req of
        None \<Rightarrow> None
      | Some (r, c) \<Rightarrow>
          Some (case r of Inl e \<Rightarrow> Inl (if e = StreamClosedGraceful then IoClosedPipe else e) | Inr n \<Rightarrow> Inr n,
                m\<lparr>muxConns := (muxConns m)[streamConn s := c]\<rparr>))"

definition stream_Close :: "'w kcp_mux \<Rightarrow> kcp_stream \<Rightarrow> nat option \<times> 'w kcp_mux" where
  "stream_Close m s = closeStream m (streamID s)"

section \<open>Steps\<close>

text \<open>
  What can happen to a mux: the calls, the two timers, output of a connection, what a connection
  does on its own, and the clock.
\<close>

inductive mux_step :: "'w kcp_mux \<Rightarrow> 'w kcp_mux \<Rightarrow> bool" where
  step_open: "mux_step m (snd (mux_Open m))"
| step_accept: "accepts m r m' \<Longrightarrow> mux_step m m'"
| step_input: "mux_step m (snd (mux_Input m data))"
| step_close: "mux_step m (mux_Close m)"
| step_stop: "mux_step m (StopAccepting m)"
| step_close_stream: "mux_step m (snd (closeStream m sid))"
| step_wait_timeout: "mux_step m (wait_timeout m sid)"
| step_idle: "getEntry m sid = Some e \<Longrightarrow> idleTimer e = Some t \<Longrightarrow> t \<le> muxNow m
    \<Longrightarrow> mux_step m (removeStream m sid ConnTimeout)"
| step_output: "mux_step m (conn_output m sid data)"
| step_conn: "conn_moves (muxConns m ! i) c \<Longrightarrow> mux_step m (m\<lparr>muxConns := (muxConns m)[i := c]\<rparr>)"
| step_tick: "muxNow m \<le> t \<Longrightarrow> mux_step m (m\<lparr>muxNow := t\<rparr>)"

definition active_count :: "(u64 \<times> stream_entry) list \<Rightarrow> int" where
  "active_count xs = int (length (filter (\<lambda>(sid, e). entryActive e) xs))"

definition entry_ok :: "'w kcp_mux \<Rightarrow> u64 \<Rightarrow> stream_entry \<Rightarrow> bool" where
  "entry_ok m sid e \<longleftrightarrow>
     entryActive e \<noteq> entryQueued e \<and> sid \<le> MaxUint32 \<and> entryConn e < length (muxConns m)
     \<and> (localClose e \<longleftrightarrow> closeAckCh e \<noteq> None) \<and> (closeAckSet e \<longrightarrow> closeAckCh e \<noteq> None)
     \<and> (case closeAckCh e of None \<Rightarrow> True | Some ch \<Rightarrow> ch < length (ackChans m))
     \<and> (entryQueued e \<longrightarrow> isRemoteStreamID m sid)"

text \<open>What holds also in the middle of an operation, and what holds between operations.\<close>

definition mux_base :: "'w kcp_mux \<Rightarrow> bool" where
  "mux_base m \<longleftrightarrow>
     distinct (map fst (muxStreams m))
     \<and> (\<forall>sid e. getEntry m sid = Some e \<longrightarrow> entry_ok m sid e)
     \<and> activeStreams m = active_count (muxStreams m)
     \<and> int (length (acceptCh m)) \<le> AcceptBacklog (muxConfig m)
     \<and> nextLocalStreamID m \<le> MaxUint32
     \<and> nextLocalStreamID m mod 2 = initialLocalStreamID (muxIsClient m)"

definition mux_inv :: "'w kcp_mux \<Rightarrow> bool" where
  "mux_inv m \<longleftrightarrow>
     mux_base m
     \<and> (\<forall>sid e. getEntry m sid = Some e \<longrightarrow> entryQueued e \<longrightarrow> acceptingRemote m \<and> sid \<in> set (acceptCh m))
     \<and> (acceptStopped m \<longleftrightarrow> \<not> acceptingRemote m)
     \<and> (muxClosing m \<longleftrightarrow> muxClosed m) \<and> (muxCloseSignalled m \<longleftrightarrow> muxClosed m)
     \<and> (muxClosed m \<longrightarrow> muxStreams m = [] \<and> \<not> acceptingRemote m)"

section \<open>Maps of streams\<close>

declare map_of_eq_Some_iff [simp del]

lemma active_count_simps [simp]:
  "active_count [] = 0"
  "active_count ((sid, e) # xs) = (if entryActive e then 1 else 0) + active_count xs"
  by (simp_all add: active_count_def)

lemma active_count_nonneg [simp]: "0 \<le> active_count xs" "0 < 1 + active_count xs"
  by (simp_all add: active_count_def)

lemma active_count_delete_absent: "map_of xs sid = None \<Longrightarrow> active_count (AList.delete sid xs) = active_count xs"
  by (induction xs) (auto split: if_splits)

lemma active_count_delete:
  "distinct (map fst xs) \<Longrightarrow> map_of xs sid = Some e \<Longrightarrow>
    active_count (AList.delete sid xs) = active_count xs - (if entryActive e then 1 else 0)"
proof (induction xs)
  case (Cons x xs)
  then show ?case
    by (cases x) (auto simp: active_count_delete_absent map_of_eq_None_iff split: if_splits)
qed simp

lemma active_count_update:
  "distinct (map fst xs) \<Longrightarrow> active_count (AList.update sid e xs) =
     active_count (AList.delete sid xs) + (if entryActive e then 1 else 0)"
proof (induction xs)
  case (Cons x xs)
  then show ?case
    by (cases x) (auto simp: active_count_delete_absent map_of_eq_None_iff)
qed simp

lemma active_count_pos: "map_of xs sid = Some e \<Longrightarrow> entryActive e \<Longrightarrow> 0 < active_count xs"
  by (induction xs) (auto split: if_splits intro: add_pos_nonneg)

lemma keys_distinct [simp]:
  "distinct (map fst xs) \<Longrightarrow> distinct (map fst (AList.update k v xs))"
  "distinct (map fst xs) \<Longrightarrow> distinct (map fst (AList.delete k xs))"
  by (simp_all add: distinct_update distinct_delete)

lemma map_of_update [simp]: "map_of (AList.update k v xs) k' = (if k = k' then Some v else map_of xs k')"
  by (simp add: update_conv')

lemma map_of_delete [simp]: "map_of (AList.delete k xs) k' = (if k = k' then None else map_of xs k')"
  by (simp add: delete_conv')

section \<open>Helpers keep the invariant\<close>

lemma mux_base_cong:
  assumes "mux_base m" "muxStreams m' = muxStreams m" "activeStreams m' = activeStreams m"
    "acceptCh m' = acceptCh m" "muxConfig m' = muxConfig m" "nextLocalStreamID m' = nextLocalStreamID m"
    "muxIsClient m' = muxIsClient m" "length (muxConns m) \<le> length (muxConns m')"
    "length (ackChans m) \<le> length (ackChans m')"
  shows "mux_base m'"
proof -
  have "entry_ok m' sid e" if "entry_ok m sid e" for sid e
    using that assms by (auto simp: entry_ok_def isRemoteStreamID_def split: option.splits)
  then show ?thesis using assms by (auto simp: mux_base_def)
qed

lemma mux_inv_cong:
  assumes "mux_inv m" "muxStreams m' = muxStreams m" "activeStreams m' = activeStreams m"
    "acceptCh m' = acceptCh m" "muxConfig m' = muxConfig m" "nextLocalStreamID m' = nextLocalStreamID m"
    "muxIsClient m' = muxIsClient m" "length (muxConns m) \<le> length (muxConns m')"
    "length (ackChans m) \<le> length (ackChans m')" "acceptStopped m' = acceptStopped m"
    "acceptingRemote m' = acceptingRemote m" "muxClosing m' = muxClosing m" "muxClosed m' = muxClosed m"
    "muxCloseSignalled m' = muxCloseSignalled m"
  shows "mux_inv m'"
  using assms mux_base_cong [of m m'] by (auto simp: mux_inv_def)

lemma sendFrame_world: "\<exists>w. snd (sendFrame m sid ft payload) = m\<lparr>world := w\<rparr>"
proof (cases "muxOutput m")
  case None
  then show ?thesis by (intro exI [of _ "world m"]) (simp add: sendFrame_def)
next
  case (Some out)
  then show ?thesis
    by (cases "out (world m) (serviceID m) (mux_frame sid ft payload)")
      (auto simp: sendFrame_def mux_reportOutput_def split: option.splits)
qed

lemma sendFrame_inv [simp]:
  "mux_base (snd (sendFrame m sid ft payload)) = mux_base m"
  "mux_inv (snd (sendFrame m sid ft payload)) = mux_inv m"
proof -
  obtain w where w: "snd (sendFrame m sid ft payload) = m\<lparr>world := w\<rparr>"
    using sendFrame_world [of m sid ft payload] by blast
  have "mux_base (m\<lparr>world := w\<rparr>) = mux_base m" by (rule iffI; erule mux_base_cong) simp_all
  moreover have "mux_inv (m\<lparr>world := w\<rparr>) = mux_inv m" by (rule iffI; erule mux_inv_cong) simp_all
  ultimately show "mux_base (snd (sendFrame m sid ft payload)) = mux_base m"
    "mux_inv (snd (sendFrame m sid ft payload)) = mux_inv m" by (simp_all add: w)
qed

lemma sendClose_inv [simp]:
  "mux_base (sendClose m sid r) = mux_base m" "mux_inv (sendClose m sid r) = mux_inv m"
  "mux_base (sendCloseAck m sid) = mux_base m" "mux_inv (sendCloseAck m sid) = mux_inv m"
  by (simp_all add: sendClose_def sendCloseAck_def)

lemma sendFrame_fields [simp]:
  "muxStreams (snd (sendFrame m sid ft p)) = muxStreams m"
  "muxConns (snd (sendFrame m sid ft p)) = muxConns m"
  "acceptCh (snd (sendFrame m sid ft p)) = acceptCh m"
  "acceptingRemote (snd (sendFrame m sid ft p)) = acceptingRemote m"
  "ackChans (snd (sendFrame m sid ft p)) = ackChans m"
  "muxClosed (snd (sendFrame m sid ft p)) = muxClosed m"
  "muxClosing (snd (sendFrame m sid ft p)) = muxClosing m"
  "muxIsClient (snd (sendFrame m sid ft p)) = muxIsClient m"
  "muxConfig (snd (sendFrame m sid ft p)) = muxConfig m"
  "muxNow (snd (sendFrame m sid ft p)) = muxNow m"
  "acceptStopped (snd (sendFrame m sid ft p)) = acceptStopped m"
  "muxCloseSignalled (snd (sendFrame m sid ft p)) = muxCloseSignalled m"
  "activeStreams (snd (sendFrame m sid ft p)) = activeStreams m"
  using sendFrame_world [of m sid ft p] by auto

lemmas sendClose_fields [simp] =
  sendFrame_fields [of _ _ frameClose "[_]", folded sendClose_def]
  sendFrame_fields [of _ _ frameCloseAck "[]", folded sendCloseAck_def]

lemma remove_fields [simp]:
  "muxStreams (removeStreamLocked m sid err) = AList.delete sid (muxStreams m)"
  "acceptCh (removeStreamLocked m sid err) = acceptCh m"
  "muxConfig (removeStreamLocked m sid err) = muxConfig m"
  "nextLocalStreamID (removeStreamLocked m sid err) = nextLocalStreamID m"
  "muxIsClient (removeStreamLocked m sid err) = muxIsClient m"
  "length (muxConns (removeStreamLocked m sid err)) = length (muxConns m)"
  "length (ackChans (removeStreamLocked m sid err)) = length (ackChans m)"
  "acceptStopped (removeStreamLocked m sid err) = acceptStopped m"
  "acceptingRemote (removeStreamLocked m sid err) = acceptingRemote m"
  "muxClosing (removeStreamLocked m sid err) = muxClosing m"
  "muxClosed (removeStreamLocked m sid err) = muxClosed m"
  "muxCloseSignalled (removeStreamLocked m sid err) = muxCloseSignalled m"
  "muxNow (removeStreamLocked m sid err) = muxNow m"
  by (simp_all add: removeStreamLocked_def close_conn_def map_of_eq_None_iff split: option.split)

lemma remove_base: "mux_base m \<Longrightarrow> mux_base (removeStreamLocked m sid err)"
proof -
  assume b: "mux_base m"
  let ?m = "removeStreamLocked m sid err"
  have "entry_ok ?m k e" if "entry_ok m k e" for k e
    using that by (auto simp: entry_ok_def isRemoteStreamID_def split: option.splits)
  moreover have "activeStreams ?m = active_count (AList.delete sid (muxStreams m))"
    using b by (cases "getEntry m sid")
      (auto simp: mux_base_def removeStreamLocked_def close_conn_def active_count_delete active_count_pos
        active_count_delete_absent)
  ultimately show ?thesis using b by (auto simp: mux_base_def)
qed

lemma remove_inv: "mux_inv m \<Longrightarrow> mux_inv (removeStreamLocked m sid err)"
  by (auto simp: mux_inv_def remove_base)

text \<open>An entry replaced by one with the same role.\<close>

lemma put_base:
  assumes "mux_base m" "getEntry m sid = Some e" "entryActive e' = entryActive e" "entry_ok m sid e'"
  shows "mux_base (put_entry sid e' m)"
proof -
  have "entry_ok (put_entry sid e' m) k f" if "entry_ok m k f" for k f
    using that by (auto simp: entry_ok_def isRemoteStreamID_def split: option.split)
  then show ?thesis using assms
    by (auto simp: mux_base_def active_count_update active_count_delete)
qed

lemma put_inv:
  assumes "mux_inv m" "getEntry m sid = Some e" "entryActive e' = entryActive e" "entry_ok m sid e'"
  shows "mux_inv (put_entry sid e' m)"
proof -
  have "entry_ok m sid e" using assms(1,2) by (auto simp: mux_inv_def mux_base_def)
  then have "entryQueued e' = entryQueued e" using assms(3,4) by (auto simp: entry_ok_def)
  then show ?thesis using assms put_base [OF _ assms(2-4)] by (auto simp: mux_inv_def)
qed

lemma reset_fields [simp]:
  "entryActive (resetIdleTimerLocked m e) = entryActive e"
  "entryQueued (resetIdleTimerLocked m e) = entryQueued e"
  "entryConn (resetIdleTimerLocked m e) = entryConn e"
  "localClose (resetIdleTimerLocked m e) = localClose e"
  "closeAckCh (resetIdleTimerLocked m e) = closeAckCh e"
  "closeAckSet (resetIdleTimerLocked m e) = closeAckSet e"
  by (simp_all add: resetIdleTimerLocked_def)

lemma reset_ok [simp]: "entry_ok m sid (resetIdleTimerLocked m' e) = entry_ok m sid e"
  by (simp add: entry_ok_def)

lemma touch_fields [simp]:
  "acceptCh (touchStream m sid) = acceptCh m"
  "muxConfig (touchStream m sid) = muxConfig m"
  "muxIsClient (touchStream m sid) = muxIsClient m"
  "muxConns (touchStream m sid) = muxConns m"
  "ackChans (touchStream m sid) = ackChans m"
  "acceptingRemote (touchStream m sid) = acceptingRemote m"
  "muxClosing (touchStream m sid) = muxClosing m"
  "muxClosed (touchStream m sid) = muxClosed m"
  "muxNow (touchStream m sid) = muxNow m"
  "isRemoteStreamID (touchStream m sid) i = isRemoteStreamID m i"
  by (simp_all add: touchStream_def isRemoteStreamID_def split: option.split)

lemma touch_get:
  "getEntry (touchStream m sid) k = (if k = sid then map_option (resetIdleTimerLocked m) (getEntry m k) else getEntry m k)"
  by (auto simp: touchStream_def split: option.split)

lemma base_entry: "mux_base m \<Longrightarrow> getEntry m sid = Some e \<Longrightarrow> entry_ok m sid e"
  by (simp add: mux_base_def)

lemma inv_base: "mux_inv m \<Longrightarrow> mux_base m"
  by (simp add: mux_inv_def)

lemmas inv_entry = base_entry [OF inv_base]

lemma touch_base: "mux_base m \<Longrightarrow> mux_base (touchStream m sid)"
proof (cases "getEntry m sid")
  case (Some e)
  assume "mux_base m"
  from put_base [OF this Some, of "resetIdleTimerLocked m e"] base_entry [OF this Some] Some
  show ?thesis by (simp add: touchStream_def)
qed (simp add: touchStream_def)

lemma touch_inv: "mux_inv m \<Longrightarrow> mux_inv (touchStream m sid)"
proof (cases "getEntry m sid")
  case (Some e)
  assume "mux_inv m"
  from put_inv [OF this Some, of "resetIdleTimerLocked m e"] inv_entry [OF this Some] Some
  show ?thesis by (simp add: touchStream_def)
qed (simp add: touchStream_def)

text \<open>A fresh identifier with its parity.\<close>

lemma ucast_u32 [simp]: "(ucast (c :: u32) :: u64) \<le> MaxUint32" "(ucast c :: u64) mod 2 = ucast (c mod 2)"
proof -
  have u: "unat (ucast c :: u64) = unat c"
    using unat_u32_less [of c] unfolding unsigned_ucast_eq unsigned_take_bit_eq
    by (simp add: take_bit_nat_eq_self_iff)
  show "(ucast c :: u64) \<le> MaxUint32"
    using unat_u32_less [of c] u by (simp add: word_le_nat_alt MaxUint32_def)
  have "unat (ucast (c mod 2) :: u64) = unat (c mod 2)"
    using unat_u32_less [of "c mod 2"] unfolding unsigned_ucast_eq unsigned_take_bit_eq
    by (simp add: take_bit_nat_eq_self_iff)
  then show "(ucast c :: u64) mod 2 = ucast (c mod 2)"
    using u by (simp add: word_unat_eq_iff unat_mod_distrib)
qed

lemma add_two_mod: "(c + 2) mod 2 = c mod (2 :: u32)"
proof -
  have "(c + 2) AND 1 = c AND 1"
    by (simp add: and_one_eq mod_2_eq_odd)
  then show ?thesis by (simp add: and_one_eq)
qed

lemma alloc_loop_fresh:
  "alloc_loop used start turn = Inr (c, n) \<Longrightarrow>
    \<not> used (ucast c) \<and> n = c + 2 \<and> (\<exists>k. c = start + 2 * of_nat k)"
proof (induction used start turn rule: alloc_loop.induct)
  case (1 used start turn)
  show ?case using 1(2) 1(1) [OF refl]
    by (subst (asm) alloc_loop.simps) (auto simp: Let_def split: if_splits)
qed

lemma ucast_back: "(v :: u64) \<le> MaxUint32 \<Longrightarrow> ucast (ucast v :: u32) = v"
  unfolding word_unat_eq_iff unsigned_ucast_eq unsigned_take_bit_eq
  by (simp add: word_le_nat_alt MaxUint32_def take_bit_nat_eq_self_iff)

lemma add_even_mod: "(c + 2 * k) mod 2 = c mod (2 :: u32)"
proof -
  have "(c + 2 * k) AND 1 = c AND 1" by (simp add: and_one_eq mod_2_eq_odd)
  then show ?thesis by (simp add: and_one_eq)
qed

lemma allocate_fresh:
  assumes "mux_base m" "allocateLocalStreamIDLocked m = (Inr sid, m1)"
  shows "getEntry m sid = None \<and> sid \<le> MaxUint32 \<and> sid mod 2 = initialLocalStreamID (muxIsClient m)
    \<and> \<not> isRemoteStreamID m sid
    \<and> (\<exists>n. m1 = m\<lparr>nextLocalStreamID := n\<rparr> \<and> n \<le> MaxUint32 \<and> n mod 2 = initialLocalStreamID (muxIsClient m))"
proof -
  let ?start = "ucast (nextLocalStreamID m) :: u32"
  obtain c n where a: "alloc_loop (\<lambda>i. getEntry m i \<noteq> None) ?start 0 = Inr (c, n)"
    and r: "sid = ucast c" "m1 = m\<lparr>nextLocalStreamID := ucast n\<rparr>"
    using assms(2) by (auto simp: allocateLocalStreamIDLocked_def split: sum.splits)
  obtain k :: nat where k: "c = ?start + 2 * of_nat k" "n = ?start + 2 * (of_nat k + 1)"
    using alloc_loop_fresh [OF a] by (auto simp: algebra_simps)
  have s: "(ucast (?start mod 2) :: u64) = initialLocalStreamID (muxIsClient m)"
    using assms(1) ucast_back [of "nextLocalStreamID m"] ucast_u32(2) [of ?start] by (simp add: mux_base_def)
  then have "sid mod 2 = initialLocalStreamID (muxIsClient m)" "(ucast n :: u64) mod 2 = initialLocalStreamID (muxIsClient m)"
    unfolding r(1) by (simp_all only: ucast_u32(2) k add_even_mod)
  moreover from this have "\<not> isRemoteStreamID m sid"
    by (simp add: isRemoteStreamID_def initialLocalStreamID_def)
  ultimately show ?thesis using alloc_loop_fresh [OF a] r by auto
qed

text \<open>A new entry with its connection.\<close>

lemma add_base:
  assumes "mux_base m" "getEntry m sid = None" "sid \<le> MaxUint32" "entryActive e \<noteq> entryQueued e"
    "entryConn e = length (muxConns m)" "\<not> localClose e" "closeAckCh e = None" "\<not> closeAckSet e"
    "entryQueued e \<Longrightarrow> isRemoteStreamID m sid" "int (length (acceptCh m)) + int (length xs) \<le> AcceptBacklog (muxConfig m)"
  shows "mux_base (m\<lparr>muxConns := muxConns m @ [c], muxStreams := AList.update sid e (muxStreams m),
    activeStreams := activeStreams m + (if entryActive e then 1 else 0), acceptCh := acceptCh m @ xs\<rparr>)"
    (is "mux_base ?m")
proof -
  have "entry_ok ?m k f" if "entry_ok m k f" for k f
    using that by (auto simp: entry_ok_def isRemoteStreamID_def split: option.split)
  moreover have "entry_ok ?m sid e" using assms by (auto simp: entry_ok_def isRemoteStreamID_def)
  ultimately show ?thesis using assms
    by (auto simp: mux_base_def active_count_update active_count_delete_absent)
qed

lemma entry_ok_cong:
  "muxIsClient m' = muxIsClient m \<Longrightarrow> length (muxConns m') = length (muxConns m)
    \<Longrightarrow> length (ackChans m') = length (ackChans m) \<Longrightarrow> entry_ok m' sid e = entry_ok m sid e"
  by (auto simp: entry_ok_def isRemoteStreamID_def split: option.split)

lemma next_base:
  assumes "mux_base m" "n \<le> MaxUint32" "n mod 2 = initialLocalStreamID (muxIsClient m)"
  shows "mux_base (m\<lparr>nextLocalStreamID := n\<rparr>)"
proof -
  have "entry_ok (m\<lparr>nextLocalStreamID := n\<rparr>) sid e = entry_ok m sid e" for sid e
    by (rule entry_ok_cong) simp_all
  then show ?thesis using assms by (simp add: mux_base_def)
qed

lemma Open_success_inv:
  assumes "mux_inv m" "\<not> muxClosed m" "allocateLocalStreamIDLocked m = (Inr sid, m1)"
    "entryActive e" "\<not> entryQueued e" "entryConn e = length (muxConns m)" "\<not> localClose e" "closeAckCh e = None"
    "\<not> closeAckSet e"
  shows "mux_inv (m1\<lparr>muxConns := muxConns m @ [c], muxStreams := AList.update sid e (muxStreams m),
    activeStreams := activeStreams m + 1\<rparr>)"
proof -
  note A = allocate_fresh [OF inv_base [OF assms(1)] assms(3)]
  obtain n where n: "m1 = m\<lparr>nextLocalStreamID := n\<rparr>" "n \<le> MaxUint32" "n mod 2 = initialLocalStreamID (muxIsClient m)"
    using A by blast
  let ?b = "m\<lparr>muxConns := muxConns m @ [c], muxStreams := AList.update sid e (muxStreams m),
      activeStreams := activeStreams m + (if entryActive e then 1 else 0), acceptCh := acceptCh m @ []\<rparr>"
  have "mux_base ?b"
    using assms A by (intro add_base) (auto simp: inv_base mux_inv_def mux_base_def)
  from next_base [OF this n(2)] have "mux_base (?b\<lparr>nextLocalStreamID := n\<rparr>)" using n(3) by simp
  moreover have "?b\<lparr>nextLocalStreamID := n\<rparr> = m1\<lparr>muxConns := muxConns m @ [c],
      muxStreams := AList.update sid e (muxStreams m), activeStreams := activeStreams m + 1\<rparr>"
    using n(1) assms(4) by simp
  ultimately have "mux_base (m1\<lparr>muxConns := muxConns m @ [c], muxStreams := AList.update sid e (muxStreams m),
      activeStreams := activeStreams m + 1\<rparr>)" by (simp only:)
  moreover have "acceptingRemote m1 = acceptingRemote m" "acceptCh m1 = acceptCh m" "acceptStopped m1 = acceptStopped m"
    "muxClosing m1 = muxClosing m" "muxClosed m1 = muxClosed m" "muxCloseSignalled m1 = muxCloseSignalled m"
    by (simp_all add: n(1))
  ultimately show ?thesis using assms(1,2,4,5) by (auto simp: mux_inv_def)
qed

lemma Open_inv: "mux_inv m \<Longrightarrow> mux_inv (snd (mux_Open m))"
proof -
  assume i: "mux_inv m"
  show ?thesis
  proof (cases "\<not> muxClosed m \<and> \<not> muxClosing m \<and> (\<exists>sid m1. allocateLocalStreamIDLocked m = (Inr sid, m1))")
    case False
    moreover have "m1 = m" if "allocateLocalStreamIDLocked m = (Inl e, m1)" for e m1
      using that by (auto simp: allocateLocalStreamIDLocked_def split: sum.splits)
    ultimately show ?thesis using i
      by (auto simp: mux_Open_def split: prod.split sum.split)
  next
    case True
    then obtain sid m1 where a: "allocateLocalStreamIDLocked m = (Inr sid, m1)" by blast
    obtain n where n: "m1 = m\<lparr>nextLocalStreamID := n\<rparr>" using allocate_fresh [OF inv_base [OF i] a] by blast
    let ?e = "resetIdleTimerLocked (m1\<lparr>muxConns := muxConns m @ [NewKCPConn (muxNow m)]\<rparr>)
      \<lparr>entryConn = length (muxConns m), entryActive = True, entryQueued = False, localClose = False,
       closeAckCh = None, closeAckSet = False, idleTimer = None\<rparr>"
    let ?m3 = "m1\<lparr>muxConns := muxConns m @ [NewKCPConn (muxNow m)],
      muxStreams := AList.update sid ?e (muxStreams m), activeStreams := activeStreams m + 1\<rparr>"
    have "mux_inv ?m3" using True a by (intro Open_success_inv [OF i]) simp_all
    then have s: "mux_inv (snd (sendFrame ?m3 sid frameOpen []))" by simp
    have "snd (mux_Open m) = snd (sendFrame ?m3 sid frameOpen [])
        \<or> snd (mux_Open m) = removeStream (snd (sendFrame ?m3 sid frameOpen [])) sid ConnClosedLocal"
      using True a n
      by (cases "sendFrame ?m3 sid frameOpen []"; cases "fst (sendFrame ?m3 sid frameOpen [])")
        (simp_all add: mux_Open_def newStreamEntryLocked_def Let_def)
    then show ?thesis using s remove_inv [OF s] by metis
  qed
qed

lemma acceptQueued_inv:
  assumes "mux_inv m" "acceptCh m = sid # rest" "acceptQueued (m\<lparr>acceptCh := rest\<rparr>) sid = (r, m')"
  shows "mux_inv m'"
proof -
  let ?m = "m\<lparr>acceptCh := rest\<rparr>"
  have same: "entry_ok ?m k e = entry_ok m k e" for k e by (rule entry_ok_cong) simp_all
  have b: "mux_base ?m" using assms(1,2) by (auto simp: mux_inv_def mux_base_def same)
  show ?thesis
  proof (cases "\<not> muxClosed m \<and> \<not> muxClosing m \<and> acceptingRemote m \<and> (\<exists>e. getEntry m sid = Some e \<and> entryQueued e)")
    case False
    then have "m' = ?m" using assms(3) by (auto simp: acceptQueued_def Let_def split: if_splits option.splits)
    then show ?thesis using False assms(1,2) b by (auto simp: mux_inv_def)
  next
    case True
    then obtain e where e: "getEntry m sid = Some e" "entryQueued e" by blast
    let ?e = "resetIdleTimerLocked ?m (e\<lparr>entryQueued := False, entryActive := True\<rparr>)"
    have m': "m' = (put_entry sid ?e ?m)\<lparr>activeStreams := activeStreams m + 1\<rparr>"
      using True e assms(3) by (auto simp: acceptQueued_def Let_def)
    have ok: "entry_ok m sid e" using inv_entry [OF assms(1) e(1)] .
    then have "\<not> entryActive e" using e(2) by (simp add: entry_ok_def)
    moreover have same': "entry_ok m' k f = entry_ok m k f" for k f
      unfolding m' by (rule entry_ok_cong) simp_all
    moreover have "entry_ok m sid ?e" using ok by (auto simp: entry_ok_def)
    ultimately have "mux_base m'" using b e(1) same
      by (auto simp: m' mux_base_def active_count_update active_count_delete)
    then show ?thesis using assms(1,2) e by (auto simp: m' mux_inv_def)
  qed
qed

lemma accepts_inv: "accepts m r m' \<Longrightarrow> mux_inv m \<Longrightarrow> mux_inv m'"
  by (induction rule: accepts.induct) (auto dest: acceptQueued_inv)

lemma handleOpen_inv:
  assumes "mux_inv m" "isRemoteStreamID m sid"
  shows "mux_inv (handleOpen m sid)"
proof (cases "muxClosed m \<or> muxClosing m \<or> \<not> acceptingRemote m \<or> getEntry m sid \<noteq> None \<or>
    MaxActiveStreams (muxConfig m) \<le> activeStreams m \<or> AcceptBacklog (muxConfig m) \<le> int (length (acceptCh m))")
  case True
  then show ?thesis using assms(1) by (auto simp: handleOpen_def)
next
  case False
  let ?m1 = "m\<lparr>muxConns := muxConns m @ [NewKCPConn (muxNow m)]\<rparr>"
  let ?e = "resetIdleTimerLocked ?m1 \<lparr>entryConn = length (muxConns m), entryActive = False, entryQueued = True,
    localClose = False, closeAckCh = None, closeAckSet = False, idleTimer = None\<rparr>"
  let ?m = "m\<lparr>muxConns := muxConns m @ [NewKCPConn (muxNow m)], muxStreams := AList.update sid ?e (muxStreams m),
    activeStreams := activeStreams m + (if entryActive ?e then 1 else 0), acceptCh := acceptCh m @ [sid]\<rparr>"
  have sid: "sid \<le> MaxUint32" using assms(2) by (auto simp: isRemoteStreamID_def split: if_splits)
  have "mux_base ?m" using False assms sid inv_base by (intro add_base) auto
  then have "mux_inv ?m" using assms(1) False by (auto simp: mux_inv_def)
  moreover have "handleOpen m sid = ?m"
    using False by (simp add: handleOpen_def newStreamEntryLocked_def Let_def)
  ultimately show ?thesis by simp
qed

lemma close_conn_inv [simp]:
  "mux_base (close_conn i err m) = mux_base m" "mux_inv (close_conn i err m) = mux_inv m"
  by (rule iffI; erule mux_base_cong mux_inv_cong; simp add: close_conn_def)+

lemma close_conn_fields [simp]:
  "muxStreams (close_conn i err m) = muxStreams m" "muxClosed (close_conn i err m) = muxClosed m"
  "muxClosing (close_conn i err m) = muxClosing m" "acceptCh (close_conn i err m) = acceptCh m"
  "acceptingRemote (close_conn i err m) = acceptingRemote m" "acceptStopped (close_conn i err m) = acceptStopped m"
  "muxCloseSignalled (close_conn i err m) = muxCloseSignalled m" "ackChans (close_conn i err m) = ackChans m"
  "length (muxConns (close_conn i err m)) = length (muxConns m)" "muxNow (close_conn i err m) = muxNow m"
  by (simp_all add: close_conn_def)

lemma handleCloseAck_inv:
  assumes "mux_inv m" "getEntry m sid = Some e"
  shows "mux_inv (handleCloseAck m sid e)"
proof -
  let ?m = "\<lambda>ch. m\<lparr>ackChans := (ackChans m)[ch := True]\<rparr>" and ?e = "e\<lparr>closeAckSet := True\<rparr>"
  have "mux_inv (put_entry sid ?e (?m ch))" if "closeAckCh e = Some ch" for ch
  proof (rule put_inv)
    show "mux_inv (?m ch)" using assms(1) by (rule mux_inv_cong) simp_all
    show "getEntry (?m ch) sid = Some e" using assms(2) by simp
    have "entry_ok (?m ch) sid ?e = entry_ok m sid ?e" by (rule entry_ok_cong) simp_all
    then show "entry_ok (?m ch) sid ?e" using inv_entry [OF assms] that by (simp add: entry_ok_def)
  qed simp
  then show ?thesis using assms(1)
    by (auto simp: handleCloseAck_def Let_def remove_inv split: option.split)
qed

lemma closeStream_mid:
  assumes "mux_base m" "getEntry m sid = Some e" "\<not> localClose e"
  shows "mux_base (put_entry sid (resetIdleTimerLocked m (e\<lparr>localClose := True, closeAckCh := Some (length (ackChans m))\<rparr>))
    (m\<lparr>ackChans := ackChans m @ [False]\<rparr>))"
proof -
  have "mux_base (m\<lparr>ackChans := ackChans m @ [False]\<rparr>)" by (rule mux_base_cong [OF assms(1)]) simp_all
  from put_base [OF this] assms(2) base_entry [OF assms(1,2)] show ?thesis
    by (auto simp: entry_ok_def isRemoteStreamID_def)
qed

lemma closeStream_base: "mux_base m \<Longrightarrow> mux_base (snd (closeStream m sid))"
  using closeStream_mid [of m sid] by (auto simp: closeStream_def Let_def split: option.split)

lemma closeStream_inv: "mux_inv m \<Longrightarrow> mux_inv (snd (closeStream m sid))"
proof -
  assume i: "mux_inv m"
  have "mux_base (snd (closeStream m sid))" using closeStream_base [OF inv_base [OF i]] .
  then show ?thesis using i
    by (auto simp: mux_inv_def closeStream_def Let_def split: option.splits if_splits)
qed

text \<open>Loops over streams.\<close>

lemma fold_remove:
  "muxStreams (fold (\<lambda>sid m. removeStreamLocked m sid err) sids m) = filter (\<lambda>(k, e). k \<notin> set sids) (muxStreams m)"
  "mux_base m \<Longrightarrow> mux_base (fold (\<lambda>sid m. removeStreamLocked m sid err) sids m)"
  "acceptCh (fold (\<lambda>sid m. removeStreamLocked m sid err) sids m) = acceptCh m"
  "acceptingRemote (fold (\<lambda>sid m. removeStreamLocked m sid err) sids m) = acceptingRemote m"
  "acceptStopped (fold (\<lambda>sid m. removeStreamLocked m sid err) sids m) = acceptStopped m"
  "muxClosing (fold (\<lambda>sid m. removeStreamLocked m sid err) sids m) = muxClosing m"
  "muxClosed (fold (\<lambda>sid m. removeStreamLocked m sid err) sids m) = muxClosed m"
  "muxCloseSignalled (fold (\<lambda>sid m. removeStreamLocked m sid err) sids m) = muxCloseSignalled m"
  by (induction sids arbitrary: m)
    (auto simp: remove_base AList.delete_eq filter_id_conv case_prod_unfold intro!: filter_cong)

lemma closeStream_fields:
  "map fst (muxStreams (snd (closeStream m sid))) = map fst (muxStreams m)"
  "acceptCh (snd (closeStream m sid)) = acceptCh m"
  "acceptingRemote (snd (closeStream m sid)) = acceptingRemote m"
  "acceptStopped (snd (closeStream m sid)) = acceptStopped m"
  "muxClosing (snd (closeStream m sid)) = muxClosing m"
  "muxClosed (snd (closeStream m sid)) = muxClosed m"
  "muxCloseSignalled (snd (closeStream m sid)) = muxCloseSignalled m"
  by (auto simp: closeStream_def Let_def update_keys map_of_eq_Some_iff dest!: map_of_SomeD
      split: option.split intro: rev_image_eqI)

lemma fold_close:
  "mux_base m \<Longrightarrow> mux_base (fold (\<lambda>sid m. snd (closeStream m sid)) sids m)"
  "acceptCh (fold (\<lambda>sid m. snd (closeStream m sid)) sids m) = acceptCh m"
  "acceptingRemote (fold (\<lambda>sid m. snd (closeStream m sid)) sids m) = acceptingRemote m"
  "acceptStopped (fold (\<lambda>sid m. snd (closeStream m sid)) sids m) = acceptStopped m"
  "muxClosing (fold (\<lambda>sid m. snd (closeStream m sid)) sids m) = muxClosing m"
  "muxCloseSignalled (fold (\<lambda>sid m. snd (closeStream m sid)) sids m) = muxCloseSignalled m"
  by (induction sids arbitrary: m) (simp_all add: closeStream_base closeStream_fields)

lemma fold_send:
  "mux_inv (fold (\<lambda>sid m. sendClose m sid r) sids m) = mux_inv m"
  "muxStreams (fold (\<lambda>sid m. sendClose m sid r) sids m) = muxStreams m"
  by (induction sids arbitrary: m) simp_all

lemma Close_inv: "mux_inv m \<Longrightarrow> mux_inv (mux_Close m)"
proof -
  assume i: "mux_inv m"
  show ?thesis
  proof (cases "muxClosed m \<or> muxClosing m")
    case True
    then show ?thesis using i by (simp add: mux_Close_def)
  next
    case False
    let ?m1 = "m\<lparr>acceptingRemote := False, acceptStopped := True, muxClosing := True, muxCloseSignalled := True\<rparr>"
    let ?m2 = "fold (\<lambda>sid m. snd (closeStream m sid)) (map fst (muxStreams ?m1)) ?m1"
    let ?m3 = "fold (\<lambda>sid m. removeStreamLocked m sid ConnClosedLocal) (map fst (muxStreams ?m2)) ?m2"
    have "mux_base ?m1" by (rule mux_base_cong [OF inv_base [OF i]]) simp_all
    then have "mux_base ?m3" by (intro fold_remove(2) fold_close(1))
    then have "mux_base (?m3\<lparr>muxClosed := True\<rparr>)" by (rule mux_base_cong) simp_all
    moreover have e: "muxStreams ?m3 = []"
      unfolding fold_remove(1) by (force simp: filter_empty_conv)
    moreover have "mux_Close m = ?m3\<lparr>muxClosed := True\<rparr>" using False by (simp add: mux_Close_def Let_def)
    ultimately show ?thesis
      by (simp add: mux_inv_def fold_remove(3-) fold_close(2-))
  qed
qed

lemma Close_closes: "mux_inv m \<Longrightarrow> muxClosed (mux_Close m) \<and> muxStreams (mux_Close m) = []"
  using Close_inv [of m] by (auto simp: mux_Close_def Let_def mux_inv_def)

text \<open>Closing a mux closes the connection of every stream it has.\<close>

lemma removed_conns:
  "length (muxConns (removeStreamLocked m sid err)) = length (muxConns m)"
  "connClosed (muxConns m ! i) \<Longrightarrow> i < length (muxConns m) \<Longrightarrow> connClosed (muxConns (removeStreamLocked m sid err) ! i)"
  by (cases "getEntry m sid"; cases "entryConn (the (getEntry m sid)) = i";
      auto simp: removeStreamLocked_def close_conn_def closeSignal_def)+

lemma removed_conns_fold:
  "connClosed (muxConns m ! i) \<Longrightarrow> i < length (muxConns m) \<Longrightarrow>
    connClosed (muxConns (fold (\<lambda>sid m. removeStreamLocked m sid err) sids m) ! i)"
  by (induction sids arbitrary: m) (simp_all add: removed_conns)

lemma fold_remove_closes:
  "sid \<in> set sids \<Longrightarrow> getEntry m sid = Some e \<Longrightarrow> entryConn e < length (muxConns m) \<Longrightarrow>
    connClosed (muxConns (fold (\<lambda>sid m. removeStreamLocked m sid err) sids m) ! entryConn e)"
proof (induction sids arbitrary: m)
  case (Cons x sids)
  show ?case
  proof (cases "x = sid")
    case True
    have "connClosed (muxConns (removeStreamLocked m sid err) ! entryConn e)"
      using Cons.prems(2,3) by (simp add: removeStreamLocked_def close_conn_def closeSignal_def)
    then show ?thesis using True Cons.prems(3) by (simp add: removed_conns_fold removed_conns(1))
  next
    case False
    then have "getEntry (removeStreamLocked m x err) sid = Some e"
      using Cons.prems(2) by (simp add: removeStreamLocked_def delete_conv' split: option.split)
    then show ?thesis using Cons.IH [of "removeStreamLocked m x err"] Cons.prems False by (simp add: removed_conns(1))
  qed
qed simp

lemma closeStream_conns:
  "length (muxConns (snd (closeStream m x))) = length (muxConns m)"
  "getEntry m sid = Some e \<Longrightarrow> \<exists>e'. getEntry (snd (closeStream m x)) sid = Some e' \<and> entryConn e' = entryConn e"
  by (auto simp: closeStream_def Let_def update_conv' resetIdleTimerLocked_def split: option.split)

lemma fold_close_conns:
  "length (muxConns (fold (\<lambda>sid m. snd (closeStream m sid)) sids m)) = length (muxConns m)"
  "getEntry m sid = Some e \<Longrightarrow>
    \<exists>e'. getEntry (fold (\<lambda>sid m. snd (closeStream m sid)) sids m) sid = Some e' \<and> entryConn e' = entryConn e"
proof (induction sids arbitrary: m e)
  case (Cons x sids)
  { case 1 show ?case using Cons.IH(1) by (simp add: closeStream_conns(1)) }
  { case 2 then show ?case using Cons.IH(2) closeStream_conns(2) [OF 2, of x] by fastforce }
qed simp_all

lemma Close_conns:
  assumes "mux_inv m" and "getEntry m sid = Some e"
  shows "connClosed (muxConns (mux_Close m) ! entryConn e)"
proof -
  have o: "\<not> (muxClosed m \<or> muxClosing m)" using Close_closes [OF assms(1)] assms by (auto simp: mux_inv_def)
  let ?m1 = "m\<lparr>acceptingRemote := False, acceptStopped := True, muxClosing := True, muxCloseSignalled := True\<rparr>"
  let ?m2 = "fold (\<lambda>sid m. snd (closeStream m sid)) (map fst (muxStreams ?m1)) ?m1"
  obtain e' where e': "getEntry ?m2 sid = Some e'" "entryConn e' = entryConn e"
    using fold_close_conns(2) [of ?m1 sid e "map fst (muxStreams ?m1)"] assms(2) by auto
  have "entryConn e < length (muxConns m)" using inv_entry [OF assms] by (simp add: entry_ok_def)
  then have "entryConn e' < length (muxConns ?m2)" using e'(2) by (simp add: fold_close_conns(1))
  then have "connClosed (muxConns (fold (\<lambda>sid m. removeStreamLocked m sid ConnClosedLocal) (map fst (muxStreams ?m2)) ?m2) ! entryConn e')"
    using e'(1) by (intro fold_remove_closes) (auto dest!: map_of_SomeD intro: rev_image_eqI)
  then show ?thesis using o e'(2) by (simp add: mux_Close_def Let_def)
qed

lemma StopAccepting_inv: "mux_inv m \<Longrightarrow> mux_inv (StopAccepting m)"
proof -
  assume i: "mux_inv m"
  show ?thesis
  proof (cases "muxClosed m \<or> muxClosing m \<or> \<not> acceptingRemote m")
    case True
    then show ?thesis using i by (auto simp: StopAccepting_def)
  next
    case False
    let ?q = "map fst (filter (\<lambda>(sid, e). entryQueued e \<and> \<not> entryActive e) (muxStreams m))"
    define m1 where "m1 = fold (\<lambda>sid m. removeStreamLocked m sid StreamAborted) ?q (m\<lparr>acceptingRemote := False\<rparr>)"
    have m1: "muxStreams m1 = filter (\<lambda>(k, e). k \<notin> set ?q) (muxStreams m)" "acceptCh m1 = acceptCh m"
      "\<not> acceptingRemote m1" "muxClosing m1 = muxClosing m" "muxClosed m1 = muxClosed m"
      "muxCloseSignalled m1 = muxCloseSignalled m"
      by (simp_all add: m1_def fold_remove)
    have "mux_base (m\<lparr>acceptingRemote := False\<rparr>)" by (rule mux_base_cong [OF inv_base [OF i]]) simp_all
    then have b1: "mux_base m1" unfolding m1_def by (rule fold_remove(2))
    have b: "mux_base (m1\<lparr>acceptStopped := True\<rparr>)" by (rule mux_base_cong [OF b1]) simp_all
    have nq: "\<not> entryQueued e" if "getEntry m1 sid = Some e" for sid e
    proof
      assume q: "entryQueued e"
      have "(sid, e) \<in> set (muxStreams m1)" using that by (rule map_of_SomeD)
      then have s: "(sid, e) \<in> set (muxStreams m)" "sid \<notin> set ?q" unfolding m1 by auto
      have "entryActive e \<noteq> entryQueued e"
        using base_entry [OF b1 that] by (simp add: entry_ok_def)
      then show False using s q by force
    qed
    have "mux_inv (m1\<lparr>acceptStopped := True\<rparr>)"
      using b i False m1(2-) nq by (simp add: mux_inv_def)
    then show ?thesis using False by (simp add: StopAccepting_def Let_def fold_send m1_def)
  qed
qed

lemma conns_inv: "mux_inv m \<Longrightarrow> length cs = length (muxConns m) \<Longrightarrow> mux_inv (m\<lparr>muxConns := cs\<rparr>)"
  by (erule mux_inv_cong) simp_all

lemma input_data_inv:
  assumes "mux_inv m" "\<not> invalid \<Longrightarrow> getEntry m sid = None \<Longrightarrow> isRemoteStreamID m sid"
  shows "mux_inv (snd (input_data m sid payload invalid))"
proof -
  define m1 where "m1 = (if getEntry m sid = None \<and> \<not> invalid then handleOpen m sid else m)"
  have i1: "mux_inv m1" using assms handleOpen_inv by (auto simp: m1_def)
  have "mux_inv (m1\<lparr>muxConns := (muxConns m1)[k := c]\<rparr>)" for k c by (rule conns_inv [OF i1]) simp
  then have "mux_inv (snd (deliver m1 sid e payload))" for e
    using i1 remove_inv [OF i1] by (auto simp: deliver_def intro!: touch_inv split: option.split sum.split)
  then show ?thesis using i1 remove_inv [OF i1]
    by (simp add: input_data_def flip: m1_def) (simp add: Let_def split: option.split)
qed

lemma Input_inv: "mux_inv m \<Longrightarrow> mux_inv (snd (mux_Input m data))"
proof -
  assume i: "mux_inv m"
  show ?thesis
  proof (cases "\<not> muxClosed m \<and> \<not> muxClosing m \<and> (\<exists>sid ft payload. decodeMuxFrame data = Inr (sid, ft, payload))")
    case False
    then show ?thesis using i by (auto simp: mux_Input_def split: sum.splits)
  next
    case True
    then obtain sid ft payload where d: "decodeMuxFrame data = Inr (sid, ft, payload)" by blast
    note unf = mux_Input_def d Let_def
    have rm: "mux_inv (sendClose (if e = None then m' else removeStream m' sid r) sid r')" if "mux_inv m'" for m' e r r'
      using that by (simp add: remove_inv)
    show ?thesis
    proof (cases "ft = frameCloseAck \<or> ft = frameClose \<or> ft = frameOpen")
      case True
      have "mux_inv (case getEntry (touchStream m sid) sid of None \<Rightarrow> touchStream m sid
          | Some e \<Rightarrow> handleCloseAck (touchStream m sid) sid e)"
        using touch_inv [OF i] handleCloseAck_inv by (auto split: option.split)
      moreover have "mux_inv (handleRemoteClose (touchStream m sid) sid r)" for r
        using touch_inv [OF i] by (simp add: handleRemoteClose_def remove_inv)
      ultimately show ?thesis
        using True i handleOpen_inv [OF i] touch_inv [OF i] rm [OF i] remove_inv [OF i] \<open>\<not> muxClosed m \<and> _\<close>
        by (auto simp: unf)
    next
      case False
      have "snd (mux_Input m data) = snd (input_data m sid payload
          (getEntry m sid = None \<and> \<not> isRemoteStreamID m sid \<or> ft \<noteq> frameData))"
        using False \<open>\<not> muxClosed m \<and> _\<close> by (simp add: unf)
      moreover have "mux_inv (snd (input_data m sid payload
          (getEntry m sid = None \<and> \<not> isRemoteStreamID m sid \<or> ft \<noteq> frameData)))"
        by (rule input_data_inv [OF i]) simp
      ultimately show ?thesis by simp
    qed
  qed
qed

lemma conn_output_inv: "mux_inv m \<Longrightarrow> mux_inv (conn_output m sid data)"
proof -
  assume "mux_inv m"
  then have s: "mux_inv (snd (sendFrame (touchStream m sid) sid frameData data))" by (simp add: touch_inv)
  have "mux_inv (mux_reportOutput m' e) = mux_inv m'" for m' :: "'a kcp_mux" and e
  proof -
    obtain w where "mux_reportOutput m' e = m'\<lparr>world := w\<rparr>"
      by (rule that [of "world (mux_reportOutput m' e)"]) (auto simp: mux_reportOutput_def split: option.splits)
    moreover have "mux_inv (m'\<lparr>world := w\<rparr>) = mux_inv m'" by (rule iffI; erule mux_inv_cong) simp_all
    ultimately show ?thesis by simp
  qed
  then show ?thesis using s
    by (cases "sendFrame (touchStream m sid) sid frameData data")
      (auto simp: conn_output_def split: option.split)
qed

lemma mux_step_inv: "mux_step m m' \<Longrightarrow> mux_inv m \<Longrightarrow> mux_inv m'"
proof (induction rule: mux_step.induct)
  case (step_tick m t)
  show ?case by (rule mux_inv_cong [OF step_tick(2)]) simp_all
qed (simp_all add: Open_inv accepts_inv Input_inv Close_inv StopAccepting_inv closeStream_inv
    wait_timeout_def remove_inv conn_output_inv conns_inv)

lemma NewKcpMux_inv: "mux_inv (NewKcpMux service isClient cfg outp rep now w)"
  by (auto simp: mux_inv_def mux_base_def NewKcpMux_def defaultKcpMuxConfig_def initialLocalStreamID_def
      MaxUint32_def)

lemma mux_reachable_inv:
  "mux_step\<^sup>*\<^sup>* (NewKcpMux service isClient cfg outp rep now w) m \<Longrightarrow> mux_inv m"
  by (induction rule: rtranclp_induct) (auto intro: NewKcpMux_inv mux_step_inv)

text \<open>The connections of a mux keep their own invariant.\<close>

definition conns_ok :: "'w kcp_mux \<Rightarrow> bool" where
  "conns_ok m \<longleftrightarrow> list_all conn_ok (muxConns m)"

lemma conns_ok_update: "conns_ok m \<Longrightarrow> conn_moves (muxConns m ! i) c \<Longrightarrow> list_all conn_ok ((muxConns m)[i := c])"
  by (cases "i < length (muxConns m)")
    (auto simp: conns_ok_def list_all_length nth_list_update dest: conn_moves_ok)

lemma conns_ok_cong: "muxConns m' = muxConns m \<Longrightarrow> conns_ok m' = conns_ok m"
  by (simp add: conns_ok_def)

lemma conns_ok_steps:
  assumes "conns_ok m"
  shows "conns_ok (close_conn i err m)" "conns_ok (removeStreamLocked m sid err)"
    "conns_ok (touchStream m sid)" "conns_ok (snd (sendFrame m sid ft p))"
    "conns_ok (sendClose m sid rs)" "conns_ok (sendCloseAck m sid)"
    "conns_ok (m\<lparr>muxConns := muxConns m @ [NewKCPConn (muxNow m)]\<rparr>)"
  using assms conns_ok_update [OF assms moves_close]
  by (auto simp: conns_ok_def close_conn_def removeStreamLocked_def NewKCPConn_ok split: option.split)

lemma conns_ok_handleOpen: "conns_ok m \<Longrightarrow> conns_ok (handleOpen m sid)"
  by (auto simp: handleOpen_def newStreamEntryLocked_def Let_def conns_ok_steps
      intro!: conns_ok_steps(2,5)) (simp_all add: conns_ok_def NewKCPConn_ok)

lemma conns_ok_handleCloseAck: "conns_ok m \<Longrightarrow> conns_ok (handleCloseAck m sid e)"
  by (auto simp: handleCloseAck_def Let_def split: option.split intro!: conns_ok_steps(2))
    (simp_all add: conns_ok_def)

lemma conns_ok_closeStream: "conns_ok m \<Longrightarrow> conns_ok (snd (closeStream m sid))"
  by (auto simp: closeStream_def Let_def split: option.split intro!: conns_ok_steps(1,5))
    (simp_all add: conns_ok_def)

lemma conns_ok_deliver: "conns_ok m \<Longrightarrow> conns_ok (snd (deliver m sid e payload))"
  by (auto simp: deliver_def split: option.split sum.split intro!: conns_ok_steps(2,3,5))
    (simp_all add: conns_ok_def conns_ok_update [unfolded conns_ok_def] conn_operations_move(1))

lemma conns_ok_input_data: "conns_ok m \<Longrightarrow> conns_ok (snd (input_data m sid payload invalid))"
  by (auto simp: input_data_def Let_def conns_ok_handleOpen split: option.split
      intro!: conns_ok_steps(2,5) conns_ok_deliver)

lemma conns_ok_Input: "conns_ok m \<Longrightarrow> conns_ok (snd (mux_Input m data))"
  by (auto simp: mux_Input_def Let_def handleRemoteClose_def split: sum.split prod.split option.split
      intro!: conns_ok_steps(2,3,5,6) conns_ok_handleOpen conns_ok_input_data conns_ok_handleCloseAck)

lemma conns_ok_folds:
  "conns_ok m \<Longrightarrow> conns_ok (fold (\<lambda>sid m. removeStreamLocked m sid err) sids m)"
  "conns_ok m \<Longrightarrow> conns_ok (fold (\<lambda>sid m. snd (closeStream m sid)) sids m)"
  "conns_ok m \<Longrightarrow> conns_ok (fold (\<lambda>sid m. sendClose m sid rs) sids m)"
  by (induction sids arbitrary: m) (simp_all add: conns_ok_steps conns_ok_closeStream)

lemma conns_ok_Open: "conns_ok m \<Longrightarrow> conns_ok (snd (mux_Open m))"
proof -
  assume i: "conns_ok m"
  show ?thesis
  proof (cases "allocateLocalStreamIDLocked m")
    case (Pair r m1)
    have m1: "muxConns m1 = muxConns m"
      using Pair by (auto simp: allocateLocalStreamIDLocked_def split: sum.splits)
    have "conns_ok (snd (sendFrame m2 sid ft p))" if "muxConns m2 = muxConns m1 @ [NewKCPConn (muxNow m1)]" for m2 sid ft p
      using i that by (simp add: conns_ok_def m1 NewKCPConn_ok)
    then have s: "conns_ok m3" if "sendFrame m2 sid ft p = (x, m3)" "muxConns m2 = muxConns m1 @ [NewKCPConn (muxNow m1)]" for m2 m3 sid ft p x
      using that by (metis snd_conv)
    show ?thesis using i m1 Pair
      by (auto simp: mux_Open_def newStreamEntryLocked_def Let_def conns_ok_cong [OF m1]
          split: sum.split prod.split option.split intro!: conns_ok_steps(2) dest: s)
  qed
qed

lemma conns_ok_updates [simp]:
  "conns_ok (m\<lparr>muxClosed := x\<rparr>) = conns_ok m" "conns_ok (m\<lparr>acceptStopped := x\<rparr>) = conns_ok m"
  "conns_ok (m\<lparr>acceptingRemote := x\<rparr>) = conns_ok m" "conns_ok (m\<lparr>muxNow := t\<rparr>) = conns_ok m"
  "conns_ok (m\<lparr>acceptingRemote := x, acceptStopped := y, muxClosing := z, muxCloseSignalled := u\<rparr>) = conns_ok m"
  by (simp_all add: conns_ok_def)

lemma conns_ok_Close: "conns_ok m \<Longrightarrow> conns_ok (mux_Close m)"
  by (simp add: mux_Close_def Let_def conns_ok_folds)

lemma conns_ok_Stop: "conns_ok m \<Longrightarrow> conns_ok (StopAccepting m)"
  by (simp add: StopAccepting_def Let_def conns_ok_folds)

lemma accepts_conns: "accepts m r m' \<Longrightarrow> muxConns m' = muxConns m"
proof (induction rule: accepts.induct)
qed (auto simp: acceptQueued_def Let_def split: if_splits option.splits)

lemma conns_ok_step: "mux_step m m' \<Longrightarrow> conns_ok m \<Longrightarrow> conns_ok m'"
proof (induction rule: mux_step.induct)
  case (step_accept m r m')
  then show ?case using conns_ok_cong [OF accepts_conns] by blast
next
  case (step_output m sid data)
  have "muxConns (mux_reportOutput m' e) = muxConns m'" for m' :: "'a kcp_mux" and e
    by (simp add: mux_reportOutput_def split: option.split)
  moreover have "conns_ok (snd (sendFrame (touchStream m sid) sid frameData data))"
    using step_output by (simp add: conns_ok_steps)
  ultimately show ?case
    by (cases "sendFrame (touchStream m sid) sid frameData data")
      (auto simp: conn_output_def conns_ok_def split: option.split)
next
  case (step_conn m i c)
  then show ?case using conns_ok_update [of m i c] by (simp add: conns_ok_def)
qed (simp_all add: conns_ok_Open conns_ok_Input conns_ok_Close conns_ok_Stop conns_ok_closeStream
    wait_timeout_def conns_ok_steps)

lemma mux_reachable_conns:
  "mux_step\<^sup>*\<^sup>* (NewKcpMux service isClient cfg outp rep now w) m \<Longrightarrow> conns_ok m"
proof (induction rule: rtranclp_induct)
  case base
  show ?case by (simp add: conns_ok_def NewKcpMux_def)
qed (rule conns_ok_step)

text \<open>Stopping and closing are final.\<close>

definition mux_flags :: "'w kcp_mux \<Rightarrow> bool \<times> bool" where
  "mux_flags m = (acceptingRemote m, muxClosed m)"

lemma mux_flags_helpers [simp]:
  "mux_flags (removeStreamLocked m sid err) = mux_flags m"
  "mux_flags (touchStream m sid) = mux_flags m"
  "mux_flags (snd (sendFrame m sid ft p)) = mux_flags m"
  "mux_flags (sendClose m sid rs) = mux_flags m"
  "mux_flags (sendCloseAck m sid) = mux_flags m"
  "mux_flags (handleRemoteClose m sid rs) = mux_flags m"
  by (simp_all add: mux_flags_def handleRemoteClose_def)

lemma mux_flags_updates [simp]:
  "mux_flags (m\<lparr>muxConns := cs\<rparr>) = mux_flags m" "mux_flags (m\<lparr>world := w\<rparr>) = mux_flags m"
  "mux_flags (m\<lparr>muxStreams := ss\<rparr>) = mux_flags m" "mux_flags (m\<lparr>activeStreams := n\<rparr>) = mux_flags m"
  "mux_flags (m\<lparr>acceptCh := ch\<rparr>) = mux_flags m" "mux_flags (m\<lparr>ackChans := ac\<rparr>) = mux_flags m"
  "mux_flags (m\<lparr>muxNow := t\<rparr>) = mux_flags m" "mux_flags (m\<lparr>nextLocalStreamID := i\<rparr>) = mux_flags m"
  by (simp_all add: mux_flags_def)

lemma mux_flags_handlers [simp]:
  "mux_flags (handleOpen m sid) = mux_flags m"
  "mux_flags (handleCloseAck m sid e) = mux_flags m"
  "mux_flags (snd (closeStream m sid)) = mux_flags m"
  "mux_flags (snd (deliver m sid e payload)) = mux_flags m"
  by (auto simp: handleOpen_def newStreamEntryLocked_def Let_def handleCloseAck_def closeStream_def close_conn_def
      deliver_def split: option.split sum.split)

lemma mux_flags_input_data [simp]: "mux_flags (snd (input_data m sid payload invalid)) = mux_flags m"
  by (auto simp: input_data_def Let_def split: option.split)

lemma mux_flags_Input: "mux_flags (snd (mux_Input m data)) = mux_flags m"
  by (auto simp: mux_Input_def Let_def split: sum.split prod.split option.split)

lemma mux_flags_Open: "mux_flags (snd (mux_Open m)) = mux_flags m"
proof -
  have a: "mux_flags m1 = mux_flags m" if "allocateLocalStreamIDLocked m = (r, m1)" for r m1
    using that by (auto simp: allocateLocalStreamIDLocked_def split: sum.splits)
  have s: "mux_flags m3 = mux_flags m2" if "sendFrame m2 sid ft p = (x, m3)" for m2 m3 :: "'a kcp_mux" and sid ft p x
    using that mux_flags_helpers(3) [of m2 sid ft p] by simp
  show ?thesis
    by (auto simp: mux_Open_def newStreamEntryLocked_def Let_def dest!: a s split: prod.split sum.split option.split)
qed

lemma mux_flags_accepts: "accepts m r m' \<Longrightarrow> mux_flags m' = mux_flags m"
  by (induction rule: accepts.induct)
    (auto simp: acceptQueued_def Let_def split: if_splits option.splits)

lemma Close_flags: "muxClosed (mux_Close m) \<longleftrightarrow> muxClosed m \<or> \<not> muxClosing m"
  "\<not> acceptingRemote m \<Longrightarrow> \<not> acceptingRemote (mux_Close m)"
  by (auto simp: mux_Close_def Let_def fold_remove fold_close)

lemma Stop_flags: "muxClosed (StopAccepting m) = muxClosed m"
  "mux_inv m \<Longrightarrow> \<not> acceptingRemote (StopAccepting m)"
proof -
  have s: "mux_flags (fold (\<lambda>sid m. sendClose m sid r) sids m) = mux_flags m" for r sids and m :: "'a kcp_mux"
    by (induction sids arbitrary: m) simp_all
  show "muxClosed (StopAccepting m) = muxClosed m"
    using s [of reasonAbort] by (simp add: StopAccepting_def Let_def mux_flags_def fold_remove)
  show "mux_inv m \<Longrightarrow> \<not> acceptingRemote (StopAccepting m)"
    using s [of reasonAbort] by (auto simp: StopAccepting_def Let_def mux_flags_def fold_remove mux_inv_def)
qed

lemma mux_step_final:
  "mux_step m m' \<Longrightarrow> mux_inv m \<Longrightarrow>
    (muxClosed m \<longrightarrow> muxClosed m') \<and> (\<not> acceptingRemote m \<longrightarrow> \<not> acceptingRemote m')"
proof (induction rule: mux_step.induct)
  case (step_close m)
  then show ?case using Close_flags [of m] by blast
next
  case (step_stop m)
  then show ?case using Stop_flags [of m] by blast
next
  case (step_output m sid data)
  have "mux_flags (mux_reportOutput m' e) = mux_flags m'" for m' :: "'a kcp_mux" and e
    by (simp add: mux_reportOutput_def split: option.split)
  then have "mux_flags (conn_output m sid data) = mux_flags m"
    using mux_flags_helpers(3) [of "touchStream m sid" sid frameData data]
    by (cases "sendFrame (touchStream m sid) sid frameData data") (auto simp: conn_output_def split: option.split)
  then show ?case by (simp add: mux_flags_def)
qed (auto dest!: mux_flags_accepts simp: mux_flags_def wait_timeout_def
    mux_flags_Open [unfolded mux_flags_def, simplified] mux_flags_Input [unfolded mux_flags_def, simplified]
    closeStream_fields)

section \<open>Two ends\<close>

lemma decode_mux_frame:
  "sid \<le> MaxUint32 \<Longrightarrow> decodeMuxFrame (mux_frame sid ft payload) = Inr (sid, ft, payload)"
  using Uvarint_uvarint [of sid "ft # payload"]
  by (simp add: decodeMuxFrame_def mux_frame_def AppendVarint_uvarint nth_append)

lemma Open_stream:
  assumes "mux_inv m" "mux_Open m = (Inr st, m')"
  shows "getEntry m (streamID st) = None \<and> streamID st \<le> MaxUint32 \<and>
    streamID st mod 2 = initialLocalStreamID (muxIsClient m)"
proof -
  obtain sid m1 where a: "allocateLocalStreamIDLocked m = (Inr sid, m1)"
    using assms(2) by (auto simp: mux_Open_def split: if_splits prod.splits sum.splits)
  have "streamID st = sid"
    using assms(2) a
    by (auto simp: mux_Open_def newStreamEntryLocked_def Let_def wrapStream_def
        split: if_splits prod.splits option.splits)
  then show ?thesis using allocate_fresh [OF inv_base [OF assms(1)] a] by simp
qed

lemma muxClosing_closed: "mux_inv m \<Longrightarrow> acceptingRemote m \<Longrightarrow> \<not> muxClosed m \<and> \<not> muxClosing m"
  by (auto simp: mux_inv_def)

lemma handleOpen_queues:
  assumes "mux_inv s" "acceptingRemote s" "getEntry s sid = None"
    "activeStreams s < MaxActiveStreams (muxConfig s)" "int (length (acceptCh s)) < AcceptBacklog (muxConfig s)"
  shows "acceptCh (handleOpen s sid) = acceptCh s @ [sid] \<and> acceptingRemote (handleOpen s sid)
    \<and> activeStreams (handleOpen s sid) = activeStreams s
    \<and> \<not> muxClosed (handleOpen s sid) \<and> \<not> muxClosing (handleOpen s sid)
    \<and> (\<exists>e. getEntry (handleOpen s sid) sid = Some e \<and> entryQueued e)"
  using assms muxClosing_closed [OF assms(1,2)]
  by (simp add: handleOpen_def newStreamEntryLocked_def Let_def)

section \<open>Properties\<close>

text \<open>
  C8: The books of a mux are right after any sequence of calls, frames, timeouts and network output:
  the active counter is the number of active streams, a stream is either active or waits in the
  accept queue and then a remote one, the queue respects the backlog, and no stream waits for a mux
  that has stopped accepting; a closed mux has no streams.
\<close>

theorem mux_accounting:
  assumes "mux_step\<^sup>*\<^sup>* (NewKcpMux service isClient cfg outp rep now w) m"
  shows "activeStreams m = int (length (filter (\<lambda>(sid, e). entryActive e) (muxStreams m))) \<and>
    distinct (map fst (muxStreams m)) \<and> int (length (acceptCh m)) \<le> AcceptBacklog (muxConfig m) \<and>
    (getEntry m sid = Some e \<longrightarrow> sid \<le> MaxUint32 \<and> entryActive e \<noteq> entryQueued e \<and>
       (entryQueued e \<longrightarrow> isRemoteStreamID m sid \<and> acceptingRemote m \<and> sid \<in> set (acceptCh m))) \<and>
    (muxClosed m \<longrightarrow> muxStreams m = [])"
proof -
  have i: "mux_inv m" using mux_reachable_inv [OF assms] .
  then have "getEntry m sid = Some e \<Longrightarrow> entry_ok m sid e" by (rule inv_entry)
  then show ?thesis using i by (auto simp: mux_inv_def mux_base_def entry_ok_def active_count_def)
qed

text \<open>
  C13: Opening works across the wire: the identifier one end allocates is unused there, never one that
  the other end could allocate, and its \<open>Open\<close> frame makes the other end, if it accepts and has room,
  queue exactly that stream, which its next \<open>Accept\<close> returns.
\<close>

theorem open_handshake:
  assumes "mux_step\<^sup>*\<^sup>* (NewKcpMux service client cfg outp rep now w) c"
    and "mux_step\<^sup>*\<^sup>* (NewKcpMux service' server cfg' outp' rep' now' w') s"
    and "muxIsClient c \<noteq> muxIsClient s" and "mux_Open c = (Inr st, c')"
    and "acceptingRemote s" and "getEntry s (streamID st) = None"
    and "activeStreams s < MaxActiveStreams (muxConfig s)"
    and "int (length (acceptCh s)) < AcceptBacklog (muxConfig s)"
  shows "getEntry c (streamID st) = None \<and> (mux_Open s = (Inr st', s') \<longrightarrow> streamID st' \<noteq> streamID st) \<and>
    fst (mux_Input s (mux_frame (streamID st) frameOpen [])) = Some None \<and>
    acceptCh (snd (mux_Input s (mux_frame (streamID st) frameOpen []))) = acceptCh s @ [streamID st] \<and>
    (acceptCh s = [] \<longrightarrow> (\<exists>t s''. accepts (snd (mux_Input s (mux_frame (streamID st) frameOpen []))) (Inr t) s'' \<and>
       streamID t = streamID st \<and> activeStreams s'' = activeStreams s + 1))"
proof -
  let ?sid = "streamID st"
  have ic: "mux_inv c" using mux_reachable_inv [OF assms(1)] .
  have sv: "mux_inv s" using mux_reachable_inv [OF assms(2)] .
  note O = Open_stream [OF ic assms(4)]
  have r: "isRemoteStreamID s ?sid"
    using O assms(3) by (auto simp: isRemoteStreamID_def initialLocalStreamID_def)
  have "mux_Open s = (Inr st', s') \<longrightarrow> streamID st' \<noteq> ?sid"
    using Open_stream [OF sv] O assms(3) by (auto simp: initialLocalStreamID_def)
  moreover have inp: "mux_Input s (mux_frame ?sid frameOpen []) = (Some None, handleOpen s ?sid)"
    using O r assms(5,6) muxClosing_closed [OF sv assms(5)]
    by (simp add: mux_Input_def decode_mux_frame Let_def frameOpen_def frameClose_def frameCloseAck_def)
  moreover note H = handleOpen_queues [OF sv assms(5,6,7,8)]
  moreover have "\<exists>t s''. accepts (handleOpen s ?sid) (Inr t) s'' \<and> streamID t = ?sid \<and>
      activeStreams s'' = activeStreams s + 1" if "acceptCh s = []"
  proof -
    obtain e where e: "getEntry (handleOpen s ?sid) ?sid = Some e" "entryQueued e" using H by blast
    let ?h = "(handleOpen s ?sid)\<lparr>acceptCh := []\<rparr>"
    obtain t s'' where "acceptQueued ?h ?sid = (Inr (Some t), s'')" "streamID t = ?sid"
      "activeStreams s'' = activeStreams s + 1"
      using H e by (simp add: acceptQueued_def Let_def wrapStream_def)
    then show ?thesis using accepts_stream [of "handleOpen s ?sid" ?sid "[]"] H that by fastforce
  qed
  ultimately show ?thesis using O by simp
qed

text \<open>
  C14: Closing works across the wire: \<open>Close\<close> on a stream marks it and waits; its frame makes the other
  end drop the stream, whose reader then sees the end of the stream and whose writer a closed pipe
  once what had arrived is read; the acknowledgement drops it here and wakes the waiter.
\<close>

theorem close_handshake:
  assumes "mux_step\<^sup>*\<^sup>* (NewKcpMux service client cfg outp rep now w) a"
    and "mux_step\<^sup>*\<^sup>* (NewKcpMux service' server cfg' outp' rep' now' w') b"
    and "\<not> muxClosed a" and "getEntry a sid = Some ea" and "\<not> localClose ea"
    and "closeStream a sid = (ch, a1)"
    and "\<not> muxClosed b" and "getEntry b sid = Some eb" and "\<not> connClosed (muxConns b ! entryConn eb)"
    and "mux_Input b (mux_frame sid frameClose [reasonClose]) = (r, b1)"
    and "mux_Input a1 (mux_frame sid frameCloseAck []) = (r', a2)"
  shows "\<not> muxCloseSignalled a1 \<and> \<not> wait_signalled a1 ch \<and>
    r = Some None \<and> getEntry b1 sid = None \<and>
    (recvBuf (muxConns b ! entryConn eb) = [] \<longrightarrow> 0 < k \<longrightarrow>
       (\<exists>b2. stream_Read b1 (wrapStream b sid eb) k = Some (Inl IoEOF, b2))) \<and>
    (data \<noteq> [] \<longrightarrow> (\<exists>b2. stream_Write b1 (wrapStream b sid eb) data q = Some (Inl IoClosedPipe, b2))) \<and>
    getEntry a2 sid = None \<and> wait_signalled a2 ch"
proof -
  have ia: "mux_inv a" using mux_reachable_inv [OF assms(1)] .
  have ib: "mux_inv b" using mux_reachable_inv [OF assms(2)] .
  have oa: "\<not> muxClosing a" "\<not> muxCloseSignalled a" and ob: "\<not> muxClosing b"
    using ia ib assms(3,7) by (auto simp: mux_inv_def)
  have sid: "sid \<le> MaxUint32" using inv_entry [OF ia assms(4)] by (simp add: entry_ok_def)
  have ci: "entryConn eb < length (muxConns b)" using inv_entry [OF ib assms(8)] by (simp add: entry_ok_def)
  have b1: "r = Some None" "b1 = sendCloseAck (removeStream (touchStream b sid) sid StreamClosedGraceful) sid"
    using assms(7,8,10) ob sid
    by (simp_all add: mux_Input_def decode_mux_frame Let_def frameClose_def frameCloseAck_def
        handleRemoteClose_def)
  have cb: "muxConns b1 ! entryConn eb = closeSignal (muxConns b ! entryConn eb) (Some StreamClosedGraceful)"
    using ci assms(8) by (simp add: b1 removeStreamLocked_def touch_get close_conn_def)
  let ?c = "muxConns b ! entryConn eb"
  have "conn_ok ?c" using mux_reachable_conns [OF assms(2)] ci by (simp add: conns_ok_def list_all_length)
  note ce = closeSignal_facts [OF this]
  have rd: "\<exists>b2. stream_Read b1 (wrapStream b sid eb) k = Some (Inl IoEOF, b2)" if "recvBuf ?c = []" "0 < k"
    using that ce assms(9) by (simp add: stream_Read_def wrapStream_def cb conn_Read_def getCloseErr_def)
  have wr: "\<exists>b2. stream_Write b1 (wrapStream b sid eb) data q = Some (Inl IoClosedPipe, b2)" if "data \<noteq> []"
    using that ce assms(9) by (simp add: stream_Write_def wrapStream_def cb conn_Write_def getCloseErr_def)
  let ?i = "length (ackChans a)"
  let ?e = "resetIdleTimerLocked a (ea\<lparr>localClose := True, closeAckCh := Some ?i\<rparr>)"
  have a1: "ch = Some ?i" "a1 = sendClose (close_conn (entryConn ea) ConnClosedLocal
      (put_entry sid ?e (a\<lparr>ackChans := ackChans a @ [False]\<rparr>))) sid reasonClose"
    using assms(3,4,5,6) by (auto simp: closeStream_def Let_def)
  have f1: "getEntry a1 sid = Some ?e" "ackChans a1 = ackChans a @ [False]" "\<not> muxCloseSignalled a1"
    "\<not> muxClosed a1" "\<not> muxClosing a1"
    using oa assms(3) by (simp_all add: a1)
  have "mux_Input a1 (mux_frame sid frameCloseAck []) =
      (Some None, handleCloseAck (touchStream a1 sid) sid (resetIdleTimerLocked a1 ?e))"
    using f1 sid by (simp add: mux_Input_def decode_mux_frame Let_def touch_get)
  then have a2: "a2 = handleCloseAck (touchStream a1 sid) sid (resetIdleTimerLocked a1 ?e)" using assms(11) by simp
  have "\<not> closeAckSet ea" using inv_entry [OF ia assms(4)] assms(5) by (auto simp: entry_ok_def)
  then have "getEntry a2 sid = None \<and> wait_signalled a2 ch"
    using f1 by (simp add: a2 handleCloseAck_def Let_def a1(1) wait_signalled_def removeStreamLocked_def close_conn_def)
  then show ?thesis using b1 rd wr f1 by (simp add: a1(1) wait_signalled_def)
qed

section \<open>The properties at a concrete input\<close>

definition demo_mux :: "bool \<Rightarrow> unit kcp_mux" where
  "demo_mux client = NewKcpMux 0 client \<lparr>CloseAckTimeout = 0, IdleStreamTimeout = 0, AcceptBacklog = 0,
     MaxActiveStreams = 0\<rparr> None None 0 ()"

lemmas demo_simps = demo_mux_def NewKcpMux_def defaultKcpMuxConfig_def initialLocalStreamID_def

lemma demo_start: "mux_step\<^sup>*\<^sup>* (NewKcpMux 0 client \<lparr>CloseAckTimeout = 0, IdleStreamTimeout = 0, AcceptBacklog = 0,
     MaxActiveStreams = 0\<rparr> None None 0 ()) (demo_mux client)"
  by (simp add: demo_mux_def)

lemma demo_reach:
  "mux_step\<^sup>*\<^sup>* (demo_mux client) m \<Longrightarrow> mux_step\<^sup>*\<^sup>* (NewKcpMux 0 client \<lparr>CloseAckTimeout = 0,
     IdleStreamTimeout = 0, AcceptBacklog = 0, MaxActiveStreams = 0\<rparr> None None 0 ()) m"
  by (simp add: demo_mux_def)

lemma demo_open:
  "\<exists>e c'. mux_Open (demo_mux True) = (Inr \<lparr>streamService = 0, streamID = 1, streamConn = 0\<rparr>, c') \<and>
    getEntry c' 1 = Some e \<and> \<not> localClose e \<and> \<not> muxClosed c'"
  by (simp add: mux_Open_def allocateLocalStreamIDLocked_def newStreamEntryLocked_def Let_def sendFrame_def
      wrapStream_def alloc_loop.simps demo_simps)

theorem mux_accounting_witness:
  "activeStreams (snd (mux_Open (demo_mux True))) =
    int (length (filter (\<lambda>(sid, e). entryActive e) (muxStreams (snd (mux_Open (demo_mux True))))))"
  using mux_accounting [OF rtranclp.rtrancl_into_rtrancl [OF demo_start step_open]] by blast

theorem open_handshake_witness:
  "acceptCh (snd (mux_Input (demo_mux False) (mux_frame 1 frameOpen []))) = [1]"
proof -
  obtain c' where "mux_Open (demo_mux True) = (Inr \<lparr>streamService = 0, streamID = 1, streamConn = 0\<rparr>, c')"
    using demo_open by blast
  from open_handshake [OF demo_start [of True] demo_start [of False] _ this] show ?thesis
    by (simp add: demo_simps)
qed

theorem close_handshake_witness:
  "\<exists>a b. mux_step\<^sup>*\<^sup>* (demo_mux True) a \<and> mux_step\<^sup>*\<^sup>* (demo_mux False) b \<and> getEntry a 1 \<noteq> None \<and> getEntry b 1 \<noteq> None \<and>
    getEntry (snd (mux_Input b (mux_frame 1 frameClose [reasonClose]))) 1 = None \<and>
    getEntry (snd (mux_Input (snd (closeStream a 1)) (mux_frame 1 frameCloseAck []))) 1 = None"
proof -
  obtain ea a where a: "mux_Open (demo_mux True) = (Inr \<lparr>streamService = 0, streamID = 1, streamConn = 0\<rparr>, a)"
    "getEntry a 1 = Some ea" "\<not> localClose ea" "\<not> muxClosed a" using demo_open by blast
  let ?b = "snd (mux_Input (demo_mux False) (mux_frame 1 frameOpen []))"
  have dec: "decodeMuxFrame (mux_frame 1 frameOpen []) = Inr (1, frameOpen, [])"
    by (rule decode_mux_frame) (simp add: MaxUint32_def)
  have "snd (mux_Input (demo_mux False) (mux_frame 1 frameOpen [])) = handleOpen (demo_mux False) 1"
    using dec by (simp add: mux_Input_def Let_def demo_simps frameOpen_def frameClose_def frameCloseAck_def
        isRemoteStreamID_def MaxUint32_def)
  then obtain eb where b: "getEntry ?b 1 = Some eb" "\<not> connClosed (muxConns ?b ! entryConn eb)" "\<not> muxClosed ?b"
    by (simp add: handleOpen_def newStreamEntryLocked_def Let_def demo_simps NewKCPConn_def)
  have ra: "mux_step\<^sup>*\<^sup>* (demo_mux True) a" using step_open [of "demo_mux True"] a(1) by (simp add: r_into_rtranclp)
  have rb: "mux_step\<^sup>*\<^sup>* (demo_mux False) ?b" by (simp add: r_into_rtranclp step_input)
  obtain ch a1 where c: "closeStream a 1 = (ch, a1)" by (metis surj_pair)
  obtain r b1 where i: "mux_Input ?b (mux_frame 1 frameClose [reasonClose]) = (r, b1)" by (metis surj_pair)
  obtain r' a2 where j: "mux_Input a1 (mux_frame 1 frameCloseAck []) = (r', a2)" by (metis surj_pair)
  from close_handshake [OF demo_reach [OF ra] demo_reach [OF rb]
      a(4,2,3) c b(3,1,2) i j] show ?thesis
    using ra rb a(2) b(1) c i j by (intro exI [of _ a] exI [of _ ?b]) simp
qed

end
