(* ===== verification/ServiceMux.thy ===== *)
theory ServiceMux
  imports KcpMux NoiseMessage
begin

text \<open>
  \<open>pkg/giznet/internal/core/service_mux.go\<close>: the services of one peer, each with its own \<open>KcpMux\<close>, and
  the direct packets beside them.

  The peer is fixed and left out of the callbacks.  The callbacks \<open>Output\<close> and \<open>OnOutputError\<close> are
  functions on a state \<open>'w\<close> of the caller; the counter of output errors is threaded with it through
  the muxes, which report to the service mux, so a mux of a service has the state \<open>'w \<times> u64\<close>.
  \<open>with_mux\<close> runs an operation of a service's mux on the shared state.  Each operation is one step;
  \<open>OnNewService\<close> is a predicate.
\<close>

definition InboundChanSize :: nat where "InboundChanSize = 8192"

record proto_packet =
  ppProtocol :: byte
  ppPayload :: "byte list"

record 'w service =
  serviceKcp :: "('w \<times> u64) kcp_mux option"
  serviceClosed :: bool
  acceptingStopped :: bool

record 'w service_mux =
  smIsClient :: bool
  smOutput :: "('w \<Rightarrow> u64 \<Rightarrow> byte \<Rightarrow> byte list \<Rightarrow> kcp_error option \<times> 'w) option"
  smOnOutputError :: "('w \<Rightarrow> u64 \<Rightarrow> kcp_error \<Rightarrow> 'w) option"
  smOnNewService :: "u64 \<Rightarrow> bool"
  smKcpConfig :: kcp_mux_config
  services :: "(u64 \<times> 'w service) list"
  directCh :: "proto_packet list"
  smClosed :: bool
  outputErrors :: u64
  smNow :: int
  smWorld :: 'w

text \<open>Without a callback only service 0 is accepted.\<close>

definition NewServiceMux ::
  "bool \<Rightarrow> ('w \<Rightarrow> u64 \<Rightarrow> byte \<Rightarrow> byte list \<Rightarrow> kcp_error option \<times> 'w) option
     \<Rightarrow> ('w \<Rightarrow> u64 \<Rightarrow> kcp_error \<Rightarrow> 'w) option \<Rightarrow> (u64 \<Rightarrow> bool) option \<Rightarrow> kcp_mux_config \<Rightarrow> int \<Rightarrow> 'w
     \<Rightarrow> 'w service_mux"
where
  "NewServiceMux isClient outp onErr onNew cfg now w =
     \<lparr>smIsClient = isClient, smOutput = outp, smOnOutputError = onErr,
      smOnNewService = (case onNew of None \<Rightarrow> (\<lambda>service. service = 0) | Some f \<Rightarrow> f),
      smKcpConfig = cfg, services = [], directCh = [], smClosed = False, outputErrors = 0,
      smNow = now, smWorld = w\<rparr>"

definition reportOutputError :: "'w service_mux \<Rightarrow> u64 \<Rightarrow> kcp_error option \<Rightarrow> 'w service_mux" where
  "reportOutputError m service err =
     (case err of
        None \<Rightarrow> m
      | Some e \<Rightarrow>
          m\<lparr>outputErrors := outputErrors m + 1,
            smWorld := (case smOnOutputError m of None \<Rightarrow> smWorld m | Some f \<Rightarrow> f (smWorld m) service e)\<rparr>)"

text \<open>The two callbacks that \<open>ensureKcpMux\<close> gives to a mux.\<close>

definition kcp_output ::
  "('w \<Rightarrow> u64 \<Rightarrow> byte \<Rightarrow> byte list \<Rightarrow> kcp_error option \<times> 'w) option
     \<Rightarrow> 'w \<times> u64 \<Rightarrow> u64 \<Rightarrow> byte list \<Rightarrow> kcp_error option \<times> ('w \<times> u64)"
where
  "kcp_output outp = (\<lambda>(w, n) service data.
     case outp of
       None \<Rightarrow> (Some NoSession, (w, n))
     | Some out \<Rightarrow> (case out w service ProtocolKCP data of (e, w') \<Rightarrow> (e, (w', n))))"

definition kcp_report ::
  "('w \<Rightarrow> u64 \<Rightarrow> kcp_error \<Rightarrow> 'w) option \<Rightarrow> 'w \<times> u64 \<Rightarrow> u64 \<Rightarrow> kcp_error \<Rightarrow> 'w \<times> u64"
where
  "kcp_report onErr = (\<lambda>(w, n) service e.
     ((case onErr of None \<Rightarrow> w | Some f \<Rightarrow> f w service e), n + 1))"

definition with_mux ::
  "'w service_mux \<Rightarrow> ('w \<times> u64) kcp_mux \<Rightarrow> (('w \<times> u64) kcp_mux \<Rightarrow> 'r \<times> ('w \<times> u64) kcp_mux)
     \<Rightarrow> 'r \<times> ('w \<times> u64) kcp_mux \<times> 'w service_mux"
where
  "with_mux m k oper =
     (case oper (k\<lparr>world := (smWorld m, outputErrors m), muxNow := smNow m\<rparr>) of
        (r, k') \<Rightarrow> (r, k', m\<lparr>smWorld := fst (world k'), outputErrors := snd (world k')\<rparr>))"

abbreviation set_service :: "u64 \<Rightarrow> 'w service \<Rightarrow> 'w service_mux \<Rightarrow> 'w service_mux" where
  "set_service sid st m \<equiv> m\<lparr>services := AList.update sid st (services m)\<rparr>"

abbreviation get_service :: "'w service_mux \<Rightarrow> u64 \<Rightarrow> 'w service option" where
  "get_service m sid \<equiv> map_of (services m) sid"

definition fresh_service :: "'w service" where
  "fresh_service = \<lparr>serviceKcp = None, serviceClosed = False, acceptingStopped = False\<rparr>"

definition getOrCreateService :: "'w service_mux \<Rightarrow> u64 \<Rightarrow> (kcp_error + 'w service) \<times> 'w service_mux" where
  "getOrCreateService m sid =
     (if smClosed m then (Inl ServiceMuxClosed, m)
      else case get_service m sid of
          Some st \<Rightarrow> (if serviceClosed st then Inl ServiceMuxClosed else Inr st, m)
        | None \<Rightarrow> (Inr fresh_service, set_service sid fresh_service m))"

definition ensureKcpMux ::
  "'w service_mux \<Rightarrow> u64 \<Rightarrow> 'w service \<Rightarrow> (kcp_error + ('w \<times> u64) kcp_mux) \<times> 'w service_mux"
where
  "ensureKcpMux m sid st =
     (case serviceKcp st of
        Some k \<Rightarrow> (Inr k, m)
      | None \<Rightarrow>
          if smClosed m then (Inl ServiceMuxClosed, m)
          else if serviceClosed st then (Inl ServiceMuxClosed, m)
          else let k0 = NewKcpMux sid (smIsClient m) (smKcpConfig m) (Some (kcp_output (smOutput m)))
                     (Some (kcp_report (smOnOutputError m))) (smNow m) (smWorld m, outputErrors m);
                   k = (if acceptingStopped st then StopAccepting k0 else k0)
               in (Inr k, set_service sid (st\<lparr>serviceKcp := Some k\<rparr>) m))"

text \<open>An operation on the mux of a service, whose result goes back into the map.\<close>

definition on_service ::
  "'w service_mux \<Rightarrow> u64 \<Rightarrow> 'w service \<Rightarrow> (('w \<times> u64) kcp_mux \<Rightarrow> 'r \<times> ('w \<times> u64) kcp_mux)
     \<Rightarrow> (kcp_error + 'r) \<times> 'w service_mux"
where
  "on_service m sid st oper =
     (case ensureKcpMux m sid st of
        (Inl e, m1) \<Rightarrow> (Inl e, m1)
      | (Inr k, m1) \<Rightarrow>
          (case with_mux m1 k oper of
             (r, k', m2) \<Rightarrow> (Inr r, set_service sid (st\<lparr>serviceKcp := Some k'\<rparr>) m2)))"

section \<open>Rejecting\<close>

definition decodeServiceMuxFrame :: "byte list \<Rightarrow> kcp_error + (u64 \<times> byte)" where
  "decodeServiceMuxFrame data =
     (case Uvarint data of (sid, n) \<Rightarrow>
        if n \<le> 0 then Inl InvalidServiceFrame
        else if drop (nat n) data = [] then Inl InvalidServiceFrame
        else Inr (sid, data ! nat n))"

definition shouldRejectStoppedService :: "byte list \<Rightarrow> bool" where
  "shouldRejectStoppedService data =
     (case decodeServiceMuxFrame data of Inl _ \<Rightarrow> False | Inr (_, frameType) \<Rightarrow> frameType = frameOpen)"

definition sendServiceControlFrame ::
  "'w service_mux \<Rightarrow> u64 \<Rightarrow> u64 \<Rightarrow> byte \<Rightarrow> byte list \<Rightarrow> 'w service_mux"
where
  "sendServiceControlFrame m service sid frameType payload =
     (case smOutput m of
        None \<Rightarrow> m
      | Some out \<Rightarrow>
          (case out (smWorld m) service ProtocolKCP (mux_frame sid frameType payload) of
             (err, w) \<Rightarrow> reportOutputError (m\<lparr>smWorld := w\<rparr>) service err))"

definition rejectUnknownService :: "'w service_mux \<Rightarrow> u64 \<Rightarrow> byte list \<Rightarrow> kcp_error option \<times> 'w service_mux" where
  "rejectUnknownService m service data =
     (case decodeServiceMuxFrame data of
        Inl e \<Rightarrow> (Some e, m)
      | Inr (sid, frameType) \<Rightarrow>
          (None,
           if frameType = frameOpen then sendServiceControlFrame m service sid frameClose [reasonAbort]
           else if frameType = frameClose then sendServiceControlFrame m service sid frameCloseAck []
           else if frameType = frameCloseAck then m
           else sendServiceControlFrame m service sid frameClose [reasonInvalid]))"

section \<open>Operations\<close>

text \<open>\<open>None\<close> as a result of \<open>InputKCP\<close> says that the call waits in the mux.\<close>

definition inputKCPToService ::
  "'w service_mux \<Rightarrow> u64 \<Rightarrow> 'w service \<Rightarrow> byte list \<Rightarrow> (kcp_error option) option \<times> 'w service_mux"
where
  "inputKCPToService m service st data =
     (case on_service m service st (\<lambda>k. mux_Input k data) of
        (Inl e, m') \<Rightarrow> (Some (Some e), m')
      | (Inr r, m') \<Rightarrow> (r, m'))"

definition InputKCP :: "'w service_mux \<Rightarrow> u64 \<Rightarrow> byte list \<Rightarrow> (kcp_error option) option \<times> 'w service_mux" where
  "InputKCP m service data =
     (if smClosed m then (Some (Some ServiceMuxClosed), m)
      else case get_service m service of
          Some st \<Rightarrow>
            if serviceClosed st then map_prod Some id (rejectUnknownService m service data)
            else if acceptingStopped st \<and> shouldRejectStoppedService data
            then map_prod Some id (rejectUnknownService m service data)
            else inputKCPToService m service st data
        | None \<Rightarrow>
            if \<not> smOnNewService m service then map_prod Some id (rejectUnknownService m service data)
            else (case getOrCreateService m service of
                (Inl e, m1) \<Rightarrow> (Some (Some e), m1)
              | (Inr st, m1) \<Rightarrow> inputKCPToService m1 service st data))"

definition InputPacket :: "'w service_mux \<Rightarrow> byte \<Rightarrow> byte list \<Rightarrow> kcp_error option \<times> 'w service_mux" where
  "InputPacket m protocol data =
     (if smClosed m then (Some ServiceMuxClosed, m)
      else if protocol = ProtocolKCP then (Some KCPMustUseStream, m)
      else if length (directCh m) < InboundChanSize
      then (None, m\<lparr>directCh := directCh m @ [\<lparr>ppProtocol = protocol, ppPayload = data\<rparr>]\<rparr>)
      else (Some InboundQueueFull, m))"

text \<open>\<open>Read\<close> into \<open>n\<close> bytes; \<open>None\<close> when it has to wait.\<close>

definition sm_Read :: "'w service_mux \<Rightarrow> nat \<Rightarrow> ((kcp_error + (byte \<times> byte list)) \<times> 'w service_mux) option" where
  "sm_Read m n =
     (if smClosed m then Some (Inl ServiceMuxClosed, m)
      else case directCh m of
          [] \<Rightarrow> None
        | pkt # rest \<Rightarrow> Some (Inr (ppProtocol pkt, take n (ppPayload pkt)), m\<lparr>directCh := rest\<rparr>))"

definition sm_Write :: "'w service_mux \<Rightarrow> byte \<Rightarrow> byte list \<Rightarrow> (kcp_error + nat) \<times> 'w service_mux" where
  "sm_Write m protocol data =
     (if smClosed m then (Inl ServiceMuxClosed, m)
      else if protocol = ProtocolKCP then (Inl KCPMustUseStream, m)
      else case smOutput m of
          None \<Rightarrow> (Inl NoSession, m)
        | Some out \<Rightarrow>
            (case out (smWorld m) 0 protocol data of
               (Some e, w) \<Rightarrow> (Inl e, reportOutputError (m\<lparr>smWorld := w\<rparr>) 0 (Some e))
             | (None, w) \<Rightarrow> (Inr (length data), m\<lparr>smWorld := w\<rparr>)))"

definition OpenStream :: "'w service_mux \<Rightarrow> u64 \<Rightarrow> (kcp_error + kcp_stream) \<times> 'w service_mux" where
  "OpenStream m service =
     (if smClosed m then (Inl ServiceMuxClosed, m)
      else case getOrCreateService m service of
          (Inl e, m1) \<Rightarrow> (Inl e, m1)
        | (Inr st, m1) \<Rightarrow>
            (case on_service m1 service st mux_Open of
               (Inl e, m2) \<Rightarrow> (Inl e, m2)
             | (Inr r, m2) \<Rightarrow> (r, m2)))"

text \<open>
  \<open>AcceptStream\<close> up to the call of \<open>Accept\<close> on the mux it finds or makes; that call is a step of the mux.
\<close>

definition AcceptStream ::
  "'w service_mux \<Rightarrow> u64 \<Rightarrow> (kcp_error + ('w \<times> u64) kcp_mux) \<times> 'w service_mux"
where
  "AcceptStream m service =
     (if smClosed m then (Inl ServiceMuxClosed, m)
      else case getOrCreateService m service of
          (Inl e, m1) \<Rightarrow> (Inl e, m1)
        | (Inr st, m1) \<Rightarrow> ensureKcpMux m1 service st)"

definition CloseService :: "'w service_mux \<Rightarrow> u64 \<Rightarrow> kcp_error option \<times> 'w service_mux" where
  "CloseService m service =
     (if smClosed m then (Some ServiceMuxClosed, m)
      else let st0 = (case get_service m service of Some st \<Rightarrow> st | None \<Rightarrow> fresh_service);
               st = st0\<lparr>serviceClosed := True, acceptingStopped := True\<rparr>;
               m1 = set_service service st m
           in case serviceKcp st of
                None \<Rightarrow> (None, m1)
              | Some k \<Rightarrow>
                  (case with_mux m1 k (\<lambda>k. ((), mux_Close k)) of
                     (_, k', m2) \<Rightarrow> (None, set_service service (st\<lparr>serviceKcp := Some k'\<rparr>) m2)))"

definition StopAcceptingService :: "'w service_mux \<Rightarrow> u64 \<Rightarrow> kcp_error option \<times> 'w service_mux" where
  "StopAcceptingService m service =
     (if smClosed m then (Some ServiceMuxClosed, m)
      else let st0 = (case get_service m service of Some st \<Rightarrow> st | None \<Rightarrow> fresh_service);
               st = st0\<lparr>acceptingStopped := True\<rparr>;
               m1 = set_service service st m
           in case serviceKcp st of
                None \<Rightarrow> (None, m1)
              | Some k \<Rightarrow>
                  (case with_mux m1 k (\<lambda>k. ((), StopAccepting k)) of
                     (_, k', m2) \<Rightarrow> (None, set_service service (st\<lparr>serviceKcp := Some k'\<rparr>) m2)))"

text \<open>
  \<open>Close\<close> empties the map and closes every mux it held, in some order; the muxes are returned with the
  state, since the stream handles still refer to them.
\<close>

fun close_muxes ::
  "(u64 \<times> 'w service) list \<Rightarrow> 'w service_mux \<Rightarrow> ('w \<times> u64) kcp_mux list \<times> 'w service_mux"
where
  "close_muxes [] m = ([], m)"
| "close_muxes ((sid, st) # rest) m =
     (case serviceKcp st of
        None \<Rightarrow> close_muxes rest m
      | Some k \<Rightarrow>
          (case with_mux m k (\<lambda>k. ((), mux_Close k)) of
             (_, k', m1) \<Rightarrow> map_prod (Cons k') id (close_muxes rest m1)))"

definition sm_Close :: "'w service_mux \<Rightarrow> ('w \<times> u64) kcp_mux list \<times> 'w service_mux" where
  "sm_Close m =
     (if smClosed m then ([], m)
      else close_muxes (services m) (m\<lparr>smClosed := True, services := []\<rparr>))"

definition sm_NumServices :: "'w service_mux \<Rightarrow> nat" where
  "sm_NumServices m = length (services m)"

definition sm_NumStreams :: "'w service_mux \<Rightarrow> nat" where
  "sm_NumStreams m =
     sum_list (map (\<lambda>(sid, st). case serviceKcp st of None \<Rightarrow> 0 | Some k \<Rightarrow> NumStreams k) (services m))"

definition OutputErrorCount :: "'w service_mux \<Rightarrow> u64" where
  "OutputErrorCount m = outputErrors m"

section \<open>Steps and the invariant\<close>

text \<open>A step of the service mux: a call, a step of the mux of one service, or the clock.\<close>

inductive sm_step :: "'w service_mux \<Rightarrow> 'w service_mux \<Rightarrow> bool" where
  sm_input: "sm_step m (snd (InputKCP m service data))"
| sm_packet: "sm_step m (snd (InputPacket m protocol data))"
| sm_read: "sm_Read m n = Some (r, m') \<Longrightarrow> sm_step m m'"
| sm_write: "sm_step m (snd (sm_Write m protocol data))"
| sm_open: "sm_step m (snd (OpenStream m service))"
| sm_accept: "sm_step m (snd (AcceptStream m service))"
| sm_close_service: "sm_step m (snd (CloseService m service))"
| sm_stop: "sm_step m (snd (StopAcceptingService m service))"
| sm_close: "sm_step m (snd (sm_Close m))"
| sm_mux: "get_service m service = Some st \<Longrightarrow> serviceKcp st = Some k
    \<Longrightarrow> mux_step (k\<lparr>world := (smWorld m, outputErrors m), muxNow := smNow m\<rparr>) k'
    \<Longrightarrow> sm_step m (set_service service (st\<lparr>serviceKcp := Some k'\<rparr>)
          (m\<lparr>smWorld := fst (world k'), outputErrors := snd (world k')\<rparr>))"
| sm_tick: "smNow m \<le> t \<Longrightarrow> sm_step m (m\<lparr>smNow := t\<rparr>)"

definition service_ok :: "'w service \<Rightarrow> bool" where
  "service_ok st \<longleftrightarrow>
     (serviceClosed st \<longrightarrow> acceptingStopped st)
     \<and> (case serviceKcp st of
          None \<Rightarrow> True
        | Some k \<Rightarrow> mux_inv k \<and> (serviceClosed st \<longrightarrow> muxClosed k) \<and> (acceptingStopped st \<longrightarrow> \<not> acceptingRemote k))"

definition sm_inv :: "'w service_mux \<Rightarrow> bool" where
  "sm_inv m \<longleftrightarrow>
     distinct (map fst (services m))
     \<and> (\<forall>sid st. get_service m sid = Some st \<longrightarrow> service_ok st) \<and> (smClosed m \<longrightarrow> services m = [])"

lemma sm_inv_cong:
  "sm_inv m \<Longrightarrow> services m' = services m \<Longrightarrow> smClosed m' = smClosed m \<Longrightarrow> sm_inv m'"
  by (simp add: sm_inv_def)

lemma set_service_inv:
  "sm_inv m \<Longrightarrow> \<not> smClosed m \<Longrightarrow> service_ok st \<Longrightarrow> sm_inv (set_service service st m)"
  by (auto simp: sm_inv_def)

lemma put_service_inv:
  "sm_inv m \<Longrightarrow> \<not> smClosed m \<Longrightarrow> service_ok st \<Longrightarrow> services m' = AList.update service st (services m)
    \<Longrightarrow> smClosed m' = smClosed m \<Longrightarrow> sm_inv m'"
  by (auto simp: sm_inv_def)

lemma report_fields [simp]:
  "services (reportOutputError m service e) = services m" "smClosed (reportOutputError m service e) = smClosed m"
  by (simp_all add: reportOutputError_def split: option.split)

lemma control_fields [simp]:
  "services (sendServiceControlFrame m service sid ft p) = services m"
  "smClosed (sendServiceControlFrame m service sid ft p) = smClosed m"
  by (auto simp: sendServiceControlFrame_def split: option.split prod.split)

lemma reject_fields [simp]:
  "services (snd (rejectUnknownService m service data)) = services m"
  "smClosed (snd (rejectUnknownService m service data)) = smClosed m"
  by (auto simp: rejectUnknownService_def split: sum.split)

lemma reject_inv [simp]: "sm_inv m \<Longrightarrow> sm_inv (snd (rejectUnknownService m service data))"
  by (erule sm_inv_cong) simp_all

lemma fresh_ok [simp]: "service_ok fresh_service"
  by (simp add: service_ok_def fresh_service_def)

lemma getOrCreate_inv:
  assumes "sm_inv m" "getOrCreateService m service = (r, m')"
  shows "sm_inv m' \<and> smClosed m' = smClosed m \<and>
    (\<forall>st. r = Inr st \<longrightarrow> \<not> smClosed m \<and> service_ok st \<and> \<not> serviceClosed st \<and> get_service m' service = Some st)"
  using assms
  by (auto simp: getOrCreateService_def sm_inv_def fresh_service_def split: if_splits option.splits)
    (auto simp: service_ok_def)

lemma ensure_inv:
  assumes "sm_inv m" "\<not> smClosed m" "service_ok st" "ensureKcpMux m service st = (r, m')"
  shows "sm_inv m' \<and> \<not> smClosed m' \<and>
    (\<forall>k. r = Inr k \<longrightarrow> service_ok (st\<lparr>serviceKcp := Some k\<rparr>))"
proof (cases "serviceKcp st")
  case (Some k)
  then have "st\<lparr>serviceKcp := Some k\<rparr> = st" by (cases st) simp
  then have "service_ok (st\<lparr>serviceKcp := Some k\<rparr>)" using assms(3) by (rule ssubst)
  with Some assms show ?thesis by (auto simp: ensureKcpMux_def)
next
  case None
  show ?thesis
  proof (cases "serviceClosed st")
    case True
    then show ?thesis using assms None by (auto simp: ensureKcpMux_def)
  next
    case False
    let ?new = "NewKcpMux service (smIsClient m) (smKcpConfig m) (Some (kcp_output (smOutput m)))
      (Some (kcp_report (smOnOutputError m))) (smNow m) (smWorld m, outputErrors m)"
    let ?k = "if acceptingStopped st then StopAccepting ?new else ?new"
    have i: "mux_inv ?new" by (rule NewKcpMux_inv)
    have "service_ok (st\<lparr>serviceKcp := Some ?k\<rparr>)"
      using i StopAccepting_inv [OF i] Stop_flags(2) [OF i] False by (simp add: service_ok_def)
    then show ?thesis using assms None False
      by (auto simp: ensureKcpMux_def Let_def intro!: set_service_inv)
  qed
qed

lemma mux_world_inv: "mux_inv k \<Longrightarrow> mux_inv (k\<lparr>world := w, muxNow := t\<rparr>)"
  by (erule mux_inv_cong) simp_all

lemma mux_step_ok:
  assumes "service_ok (st\<lparr>serviceKcp := Some k\<rparr>)" "mux_step (k\<lparr>world := w, muxNow := t\<rparr>) k'"
  shows "service_ok (st\<lparr>serviceKcp := Some k'\<rparr>)"
proof -
  have i: "mux_inv (k\<lparr>world := w, muxNow := t\<rparr>)" using assms(1) by (auto simp: service_ok_def intro: mux_world_inv)
  show ?thesis using assms(1) mux_step_inv [OF assms(2) i] mux_step_final [OF assms(2) i]
    by (auto simp: service_ok_def)
qed

lemma on_service_inv:
  assumes "sm_inv m" "\<not> smClosed m" "service_ok st" "\<And>k. mux_step k (snd (oper k))"
  shows "sm_inv (snd (on_service m service st oper))"
proof -
  obtain r m1 where e: "ensureKcpMux m service st = (r, m1)" by (metis surj_pair)
  note E = ensure_inv [OF assms(1-3) e]
  show ?thesis
  proof (cases r)
    case (Inl a)
    then show ?thesis using E e by (simp add: on_service_def)
  next
    case (Inr k)
    let ?k = "k\<lparr>world := (smWorld m1, outputErrors m1), muxNow := smNow m1\<rparr>"
    have "service_ok (st\<lparr>serviceKcp := Some (snd (oper ?k))\<rparr>)"
      using E Inr by (intro mux_step_ok [OF _ assms(4)]) simp
    then show ?thesis using E e Inr
      by (auto simp: on_service_def with_mux_def split: prod.split intro!: put_service_inv [of m1])
  qed
qed

lemma inputKCPToService_inv:
  assumes "sm_inv m" "\<not> smClosed m" "service_ok st"
  shows "sm_inv (snd (inputKCPToService m service st data))"
proof -
  have "sm_inv (snd (on_service m service st (\<lambda>k. mux_Input k data)))"
    using on_service_inv [OF assms step_input] .
  then show ?thesis
    by (cases "on_service m service st (\<lambda>k. mux_Input k data)"; cases "fst (on_service m service st (\<lambda>k. mux_Input k data))")
      (simp_all add: inputKCPToService_def)
qed

lemma InputKCP_inv: "sm_inv m \<Longrightarrow> sm_inv (snd (InputKCP m service data))"
proof -
  assume i: "sm_inv m"
  show ?thesis
  proof (cases "smClosed m")
    case False
    show ?thesis
    proof (cases "get_service m service")
      case (Some st)
      then have "service_ok st" using i by (simp add: sm_inv_def)
      then show ?thesis using False Some i inputKCPToService_inv [OF i False, of st]
        by (simp add: InputKCP_def)
    next
      case None
      obtain r m1 where g: "getOrCreateService m service = (r, m1)" by (metis surj_pair)
      show ?thesis using False None i getOrCreate_inv [OF i g] g inputKCPToService_inv [of m1]
        by (simp add: InputKCP_def split: sum.split)
    qed
  qed (simp add: InputKCP_def i)
qed

lemma OpenStream_inv: "sm_inv m \<Longrightarrow> sm_inv (snd (OpenStream m service))"
proof -
  assume i: "sm_inv m"
  obtain r m1 where g: "getOrCreateService m service = (r, m1)" by (metis surj_pair)
  note G = getOrCreate_inv [OF i g]
  show ?thesis
  proof (cases r)
    case (Inl e)
    then show ?thesis using g G i by (simp add: OpenStream_def)
  next
    case (Inr st)
    then have "sm_inv (snd (on_service m1 service st mux_Open))"
      using on_service_inv [of m1 st mux_Open] G step_open by blast
    then show ?thesis using g Inr i
      by (cases "on_service m1 service st mux_Open"; cases "fst (on_service m1 service st mux_Open)")
        (simp_all add: OpenStream_def)
  qed
qed

lemma AcceptStream_inv: "sm_inv m \<Longrightarrow> sm_inv (snd (AcceptStream m service))"
proof -
  assume i: "sm_inv m"
  obtain r m1 where g: "getOrCreateService m service = (r, m1)" by (metis surj_pair)
  note G = getOrCreate_inv [OF i g]
  show ?thesis
  proof (cases r)
    case (Inr st)
    obtain r' m2 where e: "ensureKcpMux m1 service st = (r', m2)" by (metis surj_pair)
    show ?thesis using ensure_inv [OF _ _ _ e] G g Inr e i by (simp add: AcceptStream_def)
  qed (use g G i in \<open>simp add: AcceptStream_def\<close>)
qed

lemma stop_close_ok:
  assumes "service_ok st" "serviceKcp st = Some k"
  shows "service_ok (st\<lparr>serviceClosed := True, acceptingStopped := True,
      serviceKcp := Some (mux_Close (k\<lparr>world := w, muxNow := t\<rparr>))\<rparr>)"
    "service_ok (st\<lparr>acceptingStopped := True, serviceKcp := Some (StopAccepting (k\<lparr>world := w, muxNow := t\<rparr>))\<rparr>)"
proof -
  let ?k = "k\<lparr>world := w, muxNow := t\<rparr>"
  have i: "mux_inv ?k" using assms by (auto simp: service_ok_def intro: mux_world_inv)
  have c: "muxClosed (mux_Close ?k)" "\<not> acceptingRemote (mux_Close ?k)"
    using Close_closes [OF i] Close_inv [OF i] by (auto simp: mux_inv_def)
  show "service_ok (st\<lparr>serviceClosed := True, acceptingStopped := True, serviceKcp := Some (mux_Close ?k)\<rparr>)"
    using Close_inv [OF i] c by (simp add: service_ok_def)
  have "muxClosed k \<longrightarrow> muxClosed (StopAccepting ?k)" by (simp add: Stop_flags)
  then show "service_ok (st\<lparr>acceptingStopped := True, serviceKcp := Some (StopAccepting ?k)\<rparr>)"
    using StopAccepting_inv [OF i] Stop_flags(2) [OF i] assms by (auto simp: service_ok_def)
qed

lemma CloseService_inv: "sm_inv m \<Longrightarrow> sm_inv (snd (CloseService m service))"
proof -
  assume i: "sm_inv m"
  show ?thesis
  proof (cases "smClosed m")
    case False
    define st0 where "st0 = (case get_service m service of Some st \<Rightarrow> st | None \<Rightarrow> fresh_service)"
    have ok: "service_ok st0" using i by (auto simp: st0_def sm_inv_def split: option.split)
    show ?thesis
    proof (cases "serviceKcp st0")
      case None
      then have "service_ok (st0\<lparr>serviceClosed := True, acceptingStopped := True\<rparr>)" by (simp add: service_ok_def)
      then show ?thesis using False None i
        by (simp add: CloseService_def flip: st0_def) (auto intro: put_service_inv)
    next
      case (Some k)
      show ?thesis using False Some i stop_close_ok(1) [OF ok Some]
        by (simp add: CloseService_def with_mux_def flip: st0_def) (auto simp: sm_inv_def)
    qed
  qed (simp add: CloseService_def i)
qed

lemma StopAcceptingService_inv: "sm_inv m \<Longrightarrow> sm_inv (snd (StopAcceptingService m service))"
proof -
  assume i: "sm_inv m"
  show ?thesis
  proof (cases "smClosed m")
    case False
    define st0 where "st0 = (case get_service m service of Some st \<Rightarrow> st | None \<Rightarrow> fresh_service)"
    have ok: "service_ok st0" using i by (auto simp: st0_def sm_inv_def split: option.split)
    show ?thesis
    proof (cases "serviceKcp st0")
      case None
      then have "service_ok (st0\<lparr>acceptingStopped := True\<rparr>)" by (simp add: service_ok_def)
      then show ?thesis using False None i
        by (simp add: StopAcceptingService_def flip: st0_def) (auto intro: put_service_inv)
    next
      case (Some k)
      show ?thesis using False Some i stop_close_ok(2) [OF ok Some]
        by (simp add: StopAcceptingService_def with_mux_def flip: st0_def) (auto simp: sm_inv_def)
    qed
  qed (simp add: StopAcceptingService_def i)
qed

lemma close_muxes_fields:
  "services (snd (close_muxes xs m)) = services m" "smClosed (snd (close_muxes xs m)) = smClosed m"
  by (induction xs m rule: close_muxes.induct) (auto simp: with_mux_def split: option.split)

text \<open>The muxes of the services, and a mux that was closed: so was every stream it had.\<close>

definition service_muxes :: "'w service_mux \<Rightarrow> ('w \<times> u64) kcp_mux list" where
  "service_muxes m = concat (map (\<lambda>(_, st). case serviceKcp st of None \<Rightarrow> [] | Some k \<Rightarrow> [k]) (services m))"

definition closed_from :: "'w kcp_mux \<Rightarrow> 'w kcp_mux \<Rightarrow> bool" where
  "closed_from k k' \<longleftrightarrow>
     muxClosed k' \<and> muxStreams k' = [] \<and> (\<exists>w now. k' = mux_Close (k\<lparr>world := w, muxNow := now\<rparr>)) \<and>
     (\<forall>sid e. getEntry k sid = Some e \<longrightarrow> connClosed (muxConns k' ! entryConn e))"

lemma close_muxes_closed:
  "\<forall>(sid, st) \<in> set xs. service_ok st \<Longrightarrow>
    list_all2 closed_from (concat (map (\<lambda>(_, st). case serviceKcp st of None \<Rightarrow> [] | Some k \<Rightarrow> [k]) xs)) (fst (close_muxes xs m))"
proof (induction xs m rule: close_muxes.induct)
  case (2 sid st rest m)
  show ?case
  proof (cases "serviceKcp st")
    case (Some k)
    have i: "mux_inv (k\<lparr>world := w, muxNow := t\<rparr>)" for w t
      using 2(3) Some by (auto simp: service_ok_def intro: mux_world_inv)
    have "closed_from k (mux_Close (k\<lparr>world := w, muxNow := t\<rparr>))" for w t
      unfolding closed_from_def using Close_closes [OF i] Close_conns [OF i] by (intro conjI exI refl allI impI) simp_all
    then show ?thesis using 2 Some by (auto simp: with_mux_def)
  qed (use 2 in simp)
qed simp

lemma sm_Close_inv: "sm_inv m \<Longrightarrow> sm_inv (snd (sm_Close m))"
  by (simp add: sm_Close_def sm_inv_def close_muxes_fields)

lemma sm_step_inv: "sm_step m m' \<Longrightarrow> sm_inv m \<Longrightarrow> sm_inv m'"
proof (induction rule: sm_step.induct)
  case (sm_read m n r m')
  then show ?case by (auto simp: sm_Read_def split: if_splits list.splits intro: sm_inv_cong)
next
  case (sm_packet m protocol data)
  then show ?case by (auto simp: InputPacket_def intro: sm_inv_cong)
next
  case (sm_write m protocol data)
  then show ?case by (auto simp: sm_Write_def split: option.split prod.split intro: sm_inv_cong)
next
  case (sm_mux m service st k k')
  have "service_ok st" using sm_mux by (auto simp: sm_inv_def)
  then have "service_ok (st\<lparr>serviceKcp := Some k\<rparr>)" using sm_mux(2) by (simp add: service_ok_def)
  from mux_step_ok [OF this sm_mux(3)] show ?case
    using sm_mux(1,4) by (auto simp: sm_inv_def)
next
  case (sm_tick m t)
  then show ?case by (auto intro: sm_inv_cong)
qed (simp_all add: InputKCP_inv OpenStream_inv AcceptStream_inv CloseService_inv StopAcceptingService_inv sm_Close_inv)

lemma NewServiceMux_inv: "sm_inv (NewServiceMux isClient outp onErr onNew cfg now w)"
  by (simp add: sm_inv_def NewServiceMux_def)

lemma sm_reachable_inv:
  "sm_step\<^sup>*\<^sup>* (NewServiceMux isClient outp onErr onNew cfg now w) m \<Longrightarrow> sm_inv m"
  by (induction rule: rtranclp_induct) (auto intro: NewServiceMux_inv sm_step_inv)

lemma decode_service_frame: "decodeServiceMuxFrame (mux_frame sid ft payload) = Inr (sid, ft)"
  using Uvarint_uvarint [of sid "ft # payload"]
  by (simp add: decodeServiceMuxFrame_def mux_frame_def AppendVarint_uvarint nth_append)

section \<open>Properties\<close>

text \<open>
  C15: What a peer refuses stays refused: a frame for a service that is unknown and not accepted, or
  that was closed, and an \<open>Open\<close> frame for a service that stopped accepting, changes no service and is
  answered as the protocol says; a closed service has no streams and opens none, and a stopped one has
  none waiting. Closing the service mux closes the mux of each of its services, in their order, and
  with it the connection of every stream, and leaves it closed and without services.
\<close>

theorem service_policy:
  assumes "sm_step\<^sup>*\<^sup>* (NewServiceMux isClient outp onErr onNew cfg now w) m" and "\<not> smClosed m"
  shows "((case get_service m service of
           None \<Rightarrow> \<not> smOnNewService m service
         | Some st \<Rightarrow> serviceClosed st \<or> acceptingStopped st \<and> ft = frameOpen) \<longrightarrow>
      InputKCP m service (mux_frame sid ft payload) =
      (Some None,
       if ft = frameOpen then sendServiceControlFrame m service sid frameClose [reasonAbort]
       else if ft = frameClose then sendServiceControlFrame m service sid frameCloseAck []
       else if ft = frameCloseAck then m
       else sendServiceControlFrame m service sid frameClose [reasonInvalid]) \<and>
      services (snd (InputKCP m service (mux_frame sid ft payload))) = services m) \<and>
    (get_service m service = Some st \<longrightarrow> serviceClosed st \<longrightarrow> OpenStream m service = (Inl ServiceMuxClosed, m)) \<and>
    (get_service m service = Some st \<longrightarrow> serviceKcp st = Some k \<longrightarrow>
       (serviceClosed st \<longrightarrow> muxStreams k = []) \<and>
       (acceptingStopped st \<longrightarrow> getEntry k i = Some e \<longrightarrow> \<not> entryQueued e)) \<and>
    list_all2 closed_from (service_muxes m) (fst (sm_Close m)) \<and>
    smClosed (snd (sm_Close m)) \<and> services (snd (sm_Close m)) = []"
proof -
  have i: "sm_inv m" using sm_reachable_inv [OF assms(1)] .
  have r: "InputKCP m service (mux_frame sid ft payload) =
      (Some None,
       if ft = frameOpen then sendServiceControlFrame m service sid frameClose [reasonAbort]
       else if ft = frameClose then sendServiceControlFrame m service sid frameCloseAck []
       else if ft = frameCloseAck then m
       else sendServiceControlFrame m service sid frameClose [reasonInvalid])"
    if "case get_service m service of None \<Rightarrow> \<not> smOnNewService m service
        | Some st \<Rightarrow> serviceClosed st \<or> acceptingStopped st \<and> ft = frameOpen"
  proof -
    have "InputKCP m service (mux_frame sid ft payload) =
        map_prod Some id (rejectUnknownService m service (mux_frame sid ft payload))"
      using assms(2) that
      by (auto simp: InputKCP_def shouldRejectStoppedService_def decode_service_frame split: option.splits)
    then show ?thesis by (simp add: rejectUnknownService_def decode_service_frame)
  qed
  have ok: "service_ok st" if "get_service m service = Some st" for st using i that by (simp add: sm_inv_def)
  have m: "(serviceClosed st \<longrightarrow> muxStreams k = []) \<and> (acceptingStopped st \<longrightarrow> getEntry k i = Some e \<longrightarrow> \<not> entryQueued e)"
    if "get_service m service = Some st" "serviceKcp st = Some k"
    using ok [OF that(1)] that(2) by (auto simp: service_ok_def mux_inv_def)
  have "\<forall>(sid, st) \<in> set (services m). service_ok st"
    using i by (auto simp: sm_inv_def map_of_eq_Some_iff)
  then have "list_all2 closed_from (service_muxes m) (fst (sm_Close m))"
    using assms(2) close_muxes_closed by (simp add: sm_Close_def service_muxes_def)
  moreover have "smClosed (snd (sm_Close m)) \<and> services (snd (sm_Close m)) = []"
    using assms(2) by (simp add: sm_Close_def close_muxes_fields)
  moreover have "OpenStream m service = (Inl ServiceMuxClosed, m)"
    if "get_service m service = Some st" "serviceClosed st"
    using that assms(2) by (simp add: OpenStream_def getOrCreateService_def)
  ultimately show ?thesis using r m by auto
qed

theorem service_policy_witness:
  "InputKCP (snd (CloseService (NewServiceMux True None None None (muxConfig (demo_mux True)) 0 ()) 5)) 5
     (mux_frame 1 frameOpen []) =
   (Some None, snd (CloseService (NewServiceMux True None None None (muxConfig (demo_mux True)) 0 ()) 5))"
proof -
  let ?start = "NewServiceMux True None None None (muxConfig (demo_mux True)) 0 () :: unit service_mux"
  let ?m = "snd (CloseService ?start 5)"
  have r: "sm_step\<^sup>*\<^sup>* ?start ?m" by (rule r_into_rtranclp) (rule sm_close_service)
  have f: "\<not> smClosed ?m" "get_service ?m 5 = Some \<lparr>serviceKcp = None, serviceClosed = True, acceptingStopped = True\<rparr>"
    "smOutput ?m = None"
    by (simp_all add: CloseService_def NewServiceMux_def fresh_service_def)
  show ?thesis
    using service_policy [OF r f(1), of 5 frameOpen 1 "[]"] f(2,3) by (simp add: sendServiceControlFrame_def)
qed

end
