(* ===== verification/NoiseHandshake.thy ===== *)
theory NoiseHandshake
  imports NoiseSession
begin

text \<open>
  \<open>pkg/giznet/internal/noise\<close>: key pairs (\<open>keypair.go\<close>), hashing and key derivation (\<open>cipher.go\<close>), the
  cipher and symmetric states (\<open>state.go\<close>) and the handshake (\<open>handshake.go\<close>).

  The primitives that are third-party code are a record of functions, an argument of everything that
  uses them: BLAKE2s, X25519 and the AEAD of \<open>NoiseSession\<close>.  HMAC is the standard library's
  construction over the hash with its block of 64 bytes.  \<open>crypto_ok\<close> states the documented
  behaviour the handshake relies on.  A random private key is an argument, \<open>None\<close> when the source of
  randomness fails.  Patterns use the six tokens of the code.  A failed operation returns the state
  it leaves behind with the error; a nil dereference is the error \<open>HsPanic\<close>.
\<close>

section \<open>Primitives\<close>

record crypto =
  blake2s :: "byte list \<Rightarrow> byte list"
  blake2s_mac :: "key \<Rightarrow> byte list \<Rightarrow> byte list"
  x25519 :: "key \<Rightarrow> key \<Rightarrow> key option"
  chacha :: aead

definition HashSize :: nat where "HashSize = 32"

definition Hash :: "crypto \<Rightarrow> byte list list \<Rightarrow> key" where
  "Hash C data = fit HashSize (blake2s C (concat data))"

definition MAC :: "crypto \<Rightarrow> key \<Rightarrow> byte list list \<Rightarrow> byte list" where
  "MAC C k data = fit 16 (blake2s_mac C k (concat data))"

definition hmac_pad :: "key \<Rightarrow> byte \<Rightarrow> byte list" where
  "hmac_pad k c = map (\<lambda>b. b XOR c) (k @ replicate (64 - length k) 0)"

definition HMAC :: "crypto \<Rightarrow> key \<Rightarrow> byte list list \<Rightarrow> key" where
  "HMAC C k data =
     fit HashSize (blake2s C (hmac_pad k 0x5c @ blake2s C (hmac_pad k 0x36 @ concat data)))"

text \<open>\<open>None\<close> is the panic on a wrong number of outputs.\<close>

definition HKDF :: "crypto \<Rightarrow> key \<Rightarrow> byte list \<Rightarrow> nat \<Rightarrow> key list option" where
  "HKDF C chainingKey input numOutputs =
     (if numOutputs < 1 \<or> 3 < numOutputs then None
      else let secret = HMAC C chainingKey [input];
               o1 = HMAC C secret [[1]];
               o2 = HMAC C secret [o1, [2]];
               o3 = HMAC C secret [o2, [3]]
           in Some (take numOutputs [o1, o2, o3]))"

definition KDF1 :: "crypto \<Rightarrow> key \<Rightarrow> byte list \<Rightarrow> key" where
  "KDF1 C ck input = the (HKDF C ck input 1) ! 0"

definition KDF2 :: "crypto \<Rightarrow> key \<Rightarrow> byte list \<Rightarrow> key \<times> key" where
  "KDF2 C ck input = (let ks = the (HKDF C ck input 2) in (ks ! 0, ks ! 1))"

definition KDF3 :: "crypto \<Rightarrow> key \<Rightarrow> byte list \<Rightarrow> key \<times> key \<times> key" where
  "KDF3 C ck input = (let ks = the (HKDF C ck input 3) in (ks ! 0, ks ! 1, ks ! 2))"

definition EncryptWithAD :: "crypto \<Rightarrow> key \<Rightarrow> byte list \<Rightarrow> byte list \<Rightarrow> byte list" where
  "EncryptWithAD C k ad plaintext = aead_seal (chacha C) k (replicate 12 0) plaintext ad"

definition DecryptWithAD :: "crypto \<Rightarrow> key \<Rightarrow> byte list \<Rightarrow> byte list \<Rightarrow> byte list option" where
  "DecryptWithAD C k ad ciphertext = aead_open (chacha C) k (replicate 12 0) ciphertext ad"

section \<open>Keys\<close>

definition IsZero :: "key \<Rightarrow> bool" where
  "IsZero k \<longleftrightarrow> k = replicate KeySize 0"

definition Key_Equal :: "key \<Rightarrow> key \<Rightarrow> bool" where
  "Key_Equal k other =
     (foldl (\<lambda>result i. result OR (k ! i XOR other ! i)) 0 [0..<KeySize] = 0)"

record key_pair =
  kpPrivate :: key
  kpPublic :: key

definition Basepoint :: key where "Basepoint = 9 # replicate 31 0"

definition clamp :: "key \<Rightarrow> key" where
  "clamp k = k[0 := k ! 0 AND 248, 31 := (k ! 31 AND 127) OR 64]"

definition NewKeyPair :: "crypto \<Rightarrow> key \<Rightarrow> key_pair option" where
  "NewKeyPair C privateKey =
     (let priv = clamp privateKey
      in case x25519 C priv Basepoint of
           None \<Rightarrow> None
         | Some pub \<Rightarrow> Some \<lparr>kpPrivate = priv, kpPublic = fit KeySize pub\<rparr>)"

definition GenerateKeyPairFrom :: "crypto \<Rightarrow> key option \<Rightarrow> key_pair option" where
  "GenerateKeyPairFrom C random = (case random of None \<Rightarrow> None | Some priv \<Rightarrow> NewKeyPair C priv)"

datatype hs_error =
  HandshakeFinished | HandshakeNotReady | InvalidMessage | MissingLocalStatic | MissingRemoteStatic
| NotOurTurn | NotPeersTurn | DHFailed | InvalidPublicKey | KeyGenFailed | StaticDecryptFailed
| PayloadDecryptFailed | BadCipherKey | HsPanic

definition DH :: "crypto \<Rightarrow> key_pair \<Rightarrow> key \<Rightarrow> hs_error + key" where
  "DH C kp peerPublic =
     (case x25519 C (kpPrivate kp) peerPublic of
        None \<Rightarrow> Inl DHFailed
      | Some shared \<Rightarrow>
          let result = fit KeySize shared
          in if IsZero result then Inl InvalidPublicKey else Inr result)"

section \<open>Cipher state\<close>

record cipher_state =
  csKey :: key
  csNonce :: u64

definition NewCipherState :: "crypto \<Rightarrow> key \<Rightarrow> hs_error + cipher_state" where
  "NewCipherState C k =
     (if aead_new (chacha C) k then Inr \<lparr>csKey = k, csNonce = 0\<rparr> else Inl BadCipherKey)"

definition cs_Encrypt :: "crypto \<Rightarrow> cipher_state \<Rightarrow> byte list \<Rightarrow> byte list \<Rightarrow> byte list \<times> cipher_state" where
  "cs_Encrypt C cs plaintext ad =
     (aead_seal (chacha C) (csKey cs) (nonceBytes (csNonce cs)) plaintext ad, cs\<lparr>csNonce := csNonce cs + 1\<rparr>)"

definition cs_Decrypt :: "crypto \<Rightarrow> cipher_state \<Rightarrow> byte list \<Rightarrow> byte list \<Rightarrow> byte list option \<times> cipher_state" where
  "cs_Decrypt C cs ciphertext ad =
     (aead_open (chacha C) (csKey cs) (nonceBytes (csNonce cs)) ciphertext ad, cs\<lparr>csNonce := csNonce cs + 1\<rparr>)"

definition DecryptWithNonce :: "crypto \<Rightarrow> cipher_state \<Rightarrow> byte list \<Rightarrow> byte list \<Rightarrow> u64 \<Rightarrow> byte list option" where
  "DecryptWithNonce C cs ciphertext ad nonce =
     aead_open (chacha C) (csKey cs) (nonceBytes nonce) ciphertext ad"

definition SetNonce :: "cipher_state \<Rightarrow> u64 \<Rightarrow> cipher_state" where
  "SetNonce cs n = cs\<lparr>csNonce := n\<rparr>"

section \<open>Symmetric state\<close>

record symmetric_state =
  ssChainingKey :: key
  ssHash :: key

definition NewSymmetricState :: "crypto \<Rightarrow> byte list \<Rightarrow> symmetric_state" where
  "NewSymmetricState C protocolName =
     (let ck = (if length protocolName \<le> HashSize then fit HashSize protocolName else Hash C [protocolName])
      in \<lparr>ssChainingKey = ck, ssHash = ck\<rparr>)"

definition MixKey :: "crypto \<Rightarrow> symmetric_state \<Rightarrow> byte list \<Rightarrow> key \<times> symmetric_state" where
  "MixKey C ss input = (case KDF2 C (ssChainingKey ss) input of (ck, k) \<Rightarrow> (k, ss\<lparr>ssChainingKey := ck\<rparr>))"

definition MixHash :: "crypto \<Rightarrow> symmetric_state \<Rightarrow> byte list \<Rightarrow> symmetric_state" where
  "MixHash C ss data = ss\<lparr>ssHash := Hash C [ssHash ss, data]\<rparr>"

definition MixKeyAndHash :: "crypto \<Rightarrow> symmetric_state \<Rightarrow> byte list \<Rightarrow> key \<times> symmetric_state" where
  "MixKeyAndHash C ss input =
     (case KDF3 C (ssChainingKey ss) input of
        (ck, temp, k) \<Rightarrow> (k, MixHash C (ss\<lparr>ssChainingKey := ck\<rparr>) temp))"

definition EncryptAndHash :: "crypto \<Rightarrow> symmetric_state \<Rightarrow> key \<Rightarrow> byte list \<Rightarrow> byte list \<times> symmetric_state" where
  "EncryptAndHash C ss k plaintext =
     (let ciphertext = EncryptWithAD C k (ssHash ss) plaintext in (ciphertext, MixHash C ss ciphertext))"

definition DecryptAndHash ::
  "crypto \<Rightarrow> symmetric_state \<Rightarrow> key \<Rightarrow> byte list \<Rightarrow> (byte list \<times> symmetric_state) option"
where
  "DecryptAndHash C ss k ciphertext =
     (case DecryptWithAD C k (ssHash ss) ciphertext of
        None \<Rightarrow> None
      | Some plaintext \<Rightarrow> Some (plaintext, MixHash C ss ciphertext))"

definition ss_Split :: "crypto \<Rightarrow> symmetric_state \<Rightarrow> hs_error + (cipher_state \<times> cipher_state)" where
  "ss_Split C ss =
     (let ks = the (HKDF C (ssChainingKey ss) [] 2)
      in case NewCipherState C (ks ! 0) of
           Inl e \<Rightarrow> Inl e
         | Inr cs1 \<Rightarrow>
             (case NewCipherState C (ks ! 1) of Inl e \<Rightarrow> Inl e | Inr cs2 \<Rightarrow> Inr (cs1, cs2)))"

section \<open>Handshake\<close>

datatype token = TokE | TokS | TokEE | TokES | TokSE | TokSS

record pattern =
  patName :: string
  initiatorPreMsg :: "token list"
  responderPreMsg :: "token list"
  messagePatterns :: "token list list"

definition PatternIK :: pattern where
  "PatternIK = \<lparr>patName = ''IK'', initiatorPreMsg = [], responderPreMsg = [TokS],
     messagePatterns = [[TokE, TokES, TokS, TokSS], [TokE, TokEE, TokSE]]\<rparr>"

definition PatternXX :: pattern where
  "PatternXX = \<lparr>patName = ''XX'', initiatorPreMsg = [], responderPreMsg = [],
     messagePatterns = [[TokE], [TokE, TokEE, TokS, TokES], [TokS, TokSE]]\<rparr>"

definition PatternNN :: pattern where
  "PatternNN = \<lparr>patName = ''NN'', initiatorPreMsg = [], responderPreMsg = [],
     messagePatterns = [[TokE], [TokE, TokEE]]\<rparr>"

record hs_config =
  hcPattern :: pattern
  hcInitiator :: bool
  hcLocalStatic :: "key_pair option"
  hcRemoteStatic :: "key option"
  hcPrologue :: "byte list"
  hcPresharedKey :: "key option"

record handshake =
  hsConfig :: hs_config
  hsSS :: symmetric_state
  localEphemeral :: "key_pair option"
  remoteEphemeral :: key
  remoteStatic :: key
  msgIndex :: nat
  hsFinished :: bool

definition protocol_name :: "string \<Rightarrow> byte list" where
  "protocol_name name = map of_char (''Noise_'' @ name @ ''_25519_ChaChaPoly_BLAKE2s'')"

definition validateConfig :: "hs_config \<Rightarrow> hs_error option" where
  "validateConfig config =
     (let pattern = hcPattern config;
          needsLocalStatic = list_ex (list_ex (\<lambda>token. token = TokS \<or> token = TokSS \<or> token = TokSE \<or> token = TokES))
            (messagePatterns pattern)
      in if needsLocalStatic \<and> hcLocalStatic config = None then Some MissingLocalStatic
         else if patName pattern = ''IK'' \<and> hcInitiator config \<and> hcRemoteStatic config = None
         then Some MissingRemoteStatic
         else None)"

text \<open>The pre-message of the peer and the own one.\<close>

fun pre_remote :: "crypto \<Rightarrow> token list \<Rightarrow> handshake \<Rightarrow> hs_error + handshake" where
  "pre_remote C [] hs = Inr hs"
| "pre_remote C (token # rest) hs =
     (if token = TokS then
        (case hcRemoteStatic (hsConfig hs) of
           None \<Rightarrow> Inl MissingRemoteStatic
         | Some rs \<Rightarrow> pre_remote C rest (hs\<lparr>hsSS := MixHash C (hsSS hs) rs, remoteStatic := rs\<rparr>))
      else pre_remote C rest hs)"

fun pre_local :: "crypto \<Rightarrow> token list \<Rightarrow> handshake \<Rightarrow> hs_error + handshake" where
  "pre_local C [] hs = Inr hs"
| "pre_local C (token # rest) hs =
     (if token = TokS then
        (case hcLocalStatic (hsConfig hs) of
           None \<Rightarrow> Inl HsPanic
         | Some kp \<Rightarrow> pre_local C rest (hs\<lparr>hsSS := MixHash C (hsSS hs) (kpPublic kp)\<rparr>))
      else pre_local C rest hs)"

definition NewHandshakeState :: "crypto \<Rightarrow> hs_config \<Rightarrow> hs_error + handshake" where
  "NewHandshakeState C config =
     (case validateConfig config of
        Some e \<Rightarrow> Inl e
      | None \<Rightarrow>
          let pattern = hcPattern config;
              hs = \<lparr>hsConfig = config,
                    hsSS = MixHash C (NewSymmetricState C (protocol_name (patName pattern))) (hcPrologue config),
                    localEphemeral = None, remoteEphemeral = replicate KeySize 0,
                    remoteStatic = replicate KeySize 0, msgIndex = 0, hsFinished = False\<rparr>
          in if hcInitiator config
             then (case pre_remote C (responderPreMsg pattern) hs of
                     Inl e \<Rightarrow> Inl e
                   | Inr hs1 \<Rightarrow> pre_local C (initiatorPreMsg pattern) hs1)
             else (case pre_remote C (initiatorPreMsg pattern) hs of
                     Inl e \<Rightarrow> Inl e
                   | Inr hs1 \<Rightarrow> pre_local C (responderPreMsg pattern) hs1))"

text \<open>The Diffie-Hellman tokens, the same in both directions; the others do not occur here.\<close>

definition dh_with :: "crypto \<Rightarrow> key_pair option \<Rightarrow> key \<Rightarrow> hs_error + key" where
  "dh_with C kp peer = (case kp of None \<Rightarrow> Inl HsPanic | Some kp \<Rightarrow> DH C kp peer)"

fun dh_token :: "crypto \<Rightarrow> handshake \<Rightarrow> token \<Rightarrow> hs_error + key" where
  "dh_token C hs TokEE = dh_with C (localEphemeral hs) (remoteEphemeral hs)"
| "dh_token C hs TokES =
     (if hcInitiator (hsConfig hs) then dh_with C (localEphemeral hs) (remoteStatic hs)
      else dh_with C (hcLocalStatic (hsConfig hs)) (remoteEphemeral hs))"
| "dh_token C hs TokSE =
     (if hcInitiator (hsConfig hs) then dh_with C (hcLocalStatic (hsConfig hs)) (remoteEphemeral hs)
      else dh_with C (localEphemeral hs) (remoteStatic hs))"
| "dh_token C hs TokSS = dh_with C (hcLocalStatic (hsConfig hs)) (remoteStatic hs)"
| "dh_token C hs TokE = Inl HsPanic"
| "dh_token C hs TokS = Inl HsPanic"

definition mix_ephemeral :: "crypto \<Rightarrow> handshake \<Rightarrow> key \<Rightarrow> symmetric_state" where
  "mix_ephemeral C hs e =
     (let ss = MixHash C (hsSS hs) e
      in if hcPresharedKey (hsConfig hs) \<noteq> None then snd (MixKey C ss e) else ss)"

text \<open>One token of \<open>WriteMessage\<close>: what it appends to the message.\<close>

fun write_token :: "crypto \<Rightarrow> key option \<Rightarrow> handshake \<Rightarrow> token \<Rightarrow> (hs_error + byte list) \<times> handshake" where
  "write_token C random hs TokE =
     (case GenerateKeyPairFrom C random of
        None \<Rightarrow> (Inl KeyGenFailed, hs\<lparr>localEphemeral := None\<rparr>)
      | Some kp \<Rightarrow>
          (Inr (kpPublic kp), hs\<lparr>localEphemeral := Some kp, hsSS := mix_ephemeral C hs (kpPublic kp)\<rparr>))"
| "write_token C random hs TokS =
     (case MixKey C (hsSS hs) [] of (k, ss1) \<Rightarrow>
        (case hcLocalStatic (hsConfig hs) of
           None \<Rightarrow> (Inl HsPanic, hs\<lparr>hsSS := ss1\<rparr>)
         | Some kp \<Rightarrow>
             (case EncryptAndHash C ss1 k (kpPublic kp) of
                (encrypted, ss2) \<Rightarrow> (Inr encrypted, hs\<lparr>hsSS := ss2\<rparr>))))"
| "write_token C random hs token =
     (case dh_token C hs token of
        Inl e \<Rightarrow> (Inl e, hs)
      | Inr shared \<Rightarrow> (Inr [], hs\<lparr>hsSS := snd (MixKey C (hsSS hs) shared)\<rparr>))"

fun write_tokens :: "crypto \<Rightarrow> key option \<Rightarrow> handshake \<Rightarrow> token list \<Rightarrow> (hs_error + byte list) \<times> handshake" where
  "write_tokens C random hs [] = (Inr [], hs)"
| "write_tokens C random hs (token # rest) =
     (case write_token C random hs token of
        (Inl e, hs1) \<Rightarrow> (Inl e, hs1)
      | (Inr out, hs1) \<Rightarrow>
          (case write_tokens C random hs1 rest of
             (Inl e, hs2) \<Rightarrow> (Inl e, hs2)
           | (Inr out2, hs2) \<Rightarrow> (Inr (out @ out2), hs2)))"

definition my_turn :: "handshake \<Rightarrow> bool" where
  "my_turn hs \<longleftrightarrow>
     hcInitiator (hsConfig hs) \<and> msgIndex hs mod 2 = 0 \<or> \<not> hcInitiator (hsConfig hs) \<and> msgIndex hs mod 2 = 1"

abbreviation hs_messages :: "handshake \<Rightarrow> token list list" where
  "hs_messages hs \<equiv> messagePatterns (hcPattern (hsConfig hs))"

text \<open>The end of both operations.\<close>

definition next_message :: "handshake \<Rightarrow> handshake" where
  "next_message hs =
     (let hs1 = hs\<lparr>msgIndex := msgIndex hs + 1\<rparr>
      in if length (hs_messages hs1) \<le> msgIndex hs1 then hs1\<lparr>hsFinished := True\<rparr> else hs1)"

definition WriteMessage ::
  "crypto \<Rightarrow> handshake \<Rightarrow> byte list \<Rightarrow> key option \<Rightarrow> (hs_error + byte list) \<times> handshake"
where
  "WriteMessage C hs payload random =
     (if hsFinished hs then (Inl HandshakeFinished, hs)
      else if \<not> my_turn hs then (Inl NotOurTurn, hs)
      else if length (hs_messages hs) \<le> msgIndex hs then (Inl HandshakeFinished, hs)
      else case write_tokens C random hs (hs_messages hs ! msgIndex hs) of
          (Inl e, hs1) \<Rightarrow> (Inl e, hs1)
        | (Inr msg, hs1) \<Rightarrow>
            if payload \<noteq> [] \<or> msgIndex hs1 + 1 = length (hs_messages hs1)
            then (case MixKey C (hsSS hs1) [] of (k, ss1) \<Rightarrow>
                    case EncryptAndHash C ss1 k payload of
                      (encrypted, ss2) \<Rightarrow> (Inr (msg @ encrypted), next_message (hs1\<lparr>hsSS := ss2\<rparr>)))
            else (Inr msg, next_message hs1))"

text \<open>One token of \<open>ReadMessage\<close> on the part of the message not yet consumed.\<close>

fun read_token :: "crypto \<Rightarrow> handshake \<Rightarrow> byte list \<Rightarrow> token \<Rightarrow> (hs_error + byte list) \<times> handshake" where
  "read_token C hs msg TokE =
     (if length msg < KeySize then (Inl InvalidMessage, hs)
      else let e = take KeySize msg
        in (Inr (drop KeySize msg), hs\<lparr>remoteEphemeral := e, hsSS := mix_ephemeral C hs e\<rparr>))"
| "read_token C hs msg TokS =
     (case MixKey C (hsSS hs) [] of (k, ss1) \<Rightarrow>
        if length msg < KeySize + TagSize then (Inl InvalidMessage, hs\<lparr>hsSS := ss1\<rparr>)
        else (case DecryptAndHash C ss1 k (take (KeySize + TagSize) msg) of
                None \<Rightarrow> (Inl StaticDecryptFailed, hs\<lparr>hsSS := ss1\<rparr>)
              | Some (decrypted, ss2) \<Rightarrow>
                  (Inr (drop (KeySize + TagSize) msg),
                   hs\<lparr>hsSS := ss2, remoteStatic := copy_at (remoteStatic hs) 0 decrypted\<rparr>)))"
| "read_token C hs msg token =
     (case dh_token C hs token of
        Inl e \<Rightarrow> (Inl e, hs)
      | Inr shared \<Rightarrow> (Inr msg, hs\<lparr>hsSS := snd (MixKey C (hsSS hs) shared)\<rparr>))"

fun read_tokens :: "crypto \<Rightarrow> handshake \<Rightarrow> byte list \<Rightarrow> token list \<Rightarrow> (hs_error + byte list) \<times> handshake" where
  "read_tokens C hs msg [] = (Inr msg, hs)"
| "read_tokens C hs msg (token # rest) =
     (case read_token C hs msg token of
        (Inl e, hs1) \<Rightarrow> (Inl e, hs1)
      | (Inr msg1, hs1) \<Rightarrow> read_tokens C hs1 msg1 rest)"

definition ReadMessage :: "crypto \<Rightarrow> handshake \<Rightarrow> byte list \<Rightarrow> (hs_error + byte list) \<times> handshake" where
  "ReadMessage C hs msg =
     (if hsFinished hs then (Inl HandshakeFinished, hs)
      else if my_turn hs then (Inl NotPeersTurn, hs)
      else if length (hs_messages hs) \<le> msgIndex hs then (Inl HandshakeFinished, hs)
      else case read_tokens C hs msg (hs_messages hs ! msgIndex hs) of
          (Inl e, hs1) \<Rightarrow> (Inl e, hs1)
        | (Inr rest, hs1) \<Rightarrow>
            if rest \<noteq> []
            then (case MixKey C (hsSS hs1) [] of (k, ss1) \<Rightarrow>
                    (case DecryptAndHash C ss1 k rest of
                       None \<Rightarrow> (Inl PayloadDecryptFailed, hs1\<lparr>hsSS := ss1\<rparr>)
                     | Some (payload, ss2) \<Rightarrow> (Inr payload, next_message (hs1\<lparr>hsSS := ss2\<rparr>))))
            else (Inr [], next_message hs1))"

definition Split :: "crypto \<Rightarrow> handshake \<Rightarrow> hs_error + (cipher_state \<times> cipher_state)" where
  "Split C hs =
     (if \<not> hsFinished hs then Inl HandshakeNotReady
      else case ss_Split C (hsSS hs) of
          Inl e \<Rightarrow> Inl e
        | Inr (cs1, cs2) \<Rightarrow> if hcInitiator (hsConfig hs) then Inr (cs1, cs2) else Inr (cs2, cs1))"

definition LocalEphemeral :: "handshake \<Rightarrow> key" where
  "LocalEphemeral hs = (case localEphemeral hs of None \<Rightarrow> replicate KeySize 0 | Some kp \<Rightarrow> kpPublic kp)"

section \<open>What the handshake needs of the primitives\<close>

definition good_pair :: "crypto \<Rightarrow> key_pair \<Rightarrow> bool" where
  "good_pair C kp \<longleftrightarrow> (\<exists>a. length a = KeySize \<and> NewKeyPair C a = Some kp)"

text \<open>
  The AEAD opens what it sealed; every private key gives a key pair; and the exchange of two such
  pairs succeeds and gives both sides the same secret.
\<close>

definition crypto_ok :: "crypto \<Rightarrow> bool" where
  "crypto_ok C \<longleftrightarrow>
     aead_correct (chacha C)
     \<and> (\<forall>a. length a = KeySize \<longrightarrow> NewKeyPair C a \<noteq> None)
     \<and> (\<forall>kp kq. good_pair C kp \<longrightarrow> good_pair C kq \<longrightarrow>
          (\<exists>s. DH C kp (kpPublic kq) = Inr s \<and> DH C kq (kpPublic kp) = Inr s))"

lemma good_pair_length: "good_pair C kp \<Longrightarrow> length (kpPublic kp) = KeySize"
  by (auto simp: good_pair_def NewKeyPair_def Let_def split: option.splits)

lemma copy_whole: "length d = length s \<Longrightarrow> copy_at d 0 s = s"
  by (simp add: copy_at_def)

section \<open>The two ends stay in step\<close>

text \<open>
  \<open>sync C (ew, er, sw, sr) w r\<close>: the writer \<open>w\<close> and the reader \<open>r\<close> of the next message have the same
  symmetric state, and each flag that is set says that the other side knows this public key: the
  writer's and the reader's ephemeral key, and their static keys.
\<close>

definition known :: "crypto \<Rightarrow> bool \<Rightarrow> key_pair option \<Rightarrow> key \<Rightarrow> bool" where
  "known C f kp k \<longleftrightarrow> (f \<longrightarrow> (\<exists>p. kp = Some p \<and> good_pair C p \<and> k = kpPublic p))"

definition sync :: "crypto \<Rightarrow> bool \<times> bool \<times> bool \<times> bool \<Rightarrow> handshake \<Rightarrow> handshake \<Rightarrow> bool" where
  "sync C = (\<lambda>(ew, er, sw, sr) w r.
     (hcInitiator (hsConfig w) \<longleftrightarrow> \<not> hcInitiator (hsConfig r))
     \<and> hcPattern (hsConfig w) = hcPattern (hsConfig r)
     \<and> hcPresharedKey (hsConfig w) = hcPresharedKey (hsConfig r)
     \<and> hsSS w = hsSS r \<and> msgIndex w = msgIndex r \<and> hsFinished w = hsFinished r
     \<and> length (remoteStatic r) = KeySize \<and> length (remoteStatic w) = KeySize
     \<and> (\<forall>kp. hcLocalStatic (hsConfig w) = Some kp \<longrightarrow> good_pair C kp)
     \<and> (\<forall>kp. hcLocalStatic (hsConfig r) = Some kp \<longrightarrow> good_pair C kp)
     \<and> known C ew (localEphemeral w) (remoteEphemeral r)
     \<and> known C er (localEphemeral r) (remoteEphemeral w)
     \<and> known C sw (hcLocalStatic (hsConfig w)) (remoteStatic r)
     \<and> known C sr (hcLocalStatic (hsConfig r)) (remoteStatic w))"

text \<open>The keys a token needs and the keys it makes known, seen from the writer.\<close>

fun token_flags :: "bool \<Rightarrow> token \<Rightarrow> bool \<times> bool \<times> bool \<times> bool \<Rightarrow> (bool \<times> bool \<times> bool \<times> bool) option" where
  "token_flags init TokE (ew, er, sw, sr) = Some (True, er, sw, sr)"
| "token_flags init TokS (ew, er, sw, sr) = Some (ew, er, True, sr)"
| "token_flags init TokEE (ew, er, sw, sr) = (if ew \<and> er then Some (ew, er, sw, sr) else None)"
| "token_flags init TokES (ew, er, sw, sr) =
     (if (if init then ew \<and> sr else sw \<and> er) then Some (ew, er, sw, sr) else None)"
| "token_flags init TokSE (ew, er, sw, sr) =
     (if (if init then sw \<and> er else ew \<and> sr) then Some (ew, er, sw, sr) else None)"
| "token_flags init TokSS (ew, er, sw, sr) = (if sw \<and> sr then Some (ew, er, sw, sr) else None)"

fun tokens_flags :: "bool \<Rightarrow> token list \<Rightarrow> bool \<times> bool \<times> bool \<times> bool \<Rightarrow> (bool \<times> bool \<times> bool \<times> bool) option" where
  "tokens_flags init [] fl = Some fl"
| "tokens_flags init (token # rest) fl =
     (case token_flags init token fl of None \<Rightarrow> None | Some fl' \<Rightarrow> tokens_flags init rest fl')"

lemma known_mono: "known C True kp k \<Longrightarrow> known C f kp k"
  by (simp add: known_def)

lemma known_pair: "good_pair C p \<Longrightarrow> known C f (Some p) (kpPublic p)"
  by (simp add: known_def)

lemma dh_known:
  assumes "crypto_ok C" "known C True kp k'" "known C True kq k"
  shows "\<exists>s. dh_with C kp k = Inr s \<and> dh_with C kq k' = Inr s"
  using assms by (auto simp: known_def crypto_ok_def dh_with_def)

lemma dh_agree:
  assumes "crypto_ok C" "sync C fl w r" "token_flags (hcInitiator (hsConfig w)) token fl = Some fl'"
    "token \<noteq> TokE" "token \<noteq> TokS"
  shows "fl' = fl \<and> (\<exists>s. dh_token C w token = Inr s \<and> dh_token C r token = Inr s)"
proof -
  obtain ew er sw sr where fl: "fl = (ew, er, sw, sr)" by (cases fl)
  have S: "hcInitiator (hsConfig r) = (\<not> hcInitiator (hsConfig w))"
    "known C ew (localEphemeral w) (remoteEphemeral r)" "known C er (localEphemeral r) (remoteEphemeral w)"
    "known C sw (hcLocalStatic (hsConfig w)) (remoteStatic r)" "known C sr (hcLocalStatic (hsConfig r)) (remoteStatic w)"
    using assms(2) by (auto simp: sync_def fl)
  note dk = dh_known [OF assms(1)]
  have ee: "ew \<and> er \<longrightarrow> (\<exists>s. dh_with C (localEphemeral w) (remoteEphemeral w) = Inr s
      \<and> dh_with C (localEphemeral r) (remoteEphemeral r) = Inr s)"
    using dk [of "localEphemeral w" "remoteEphemeral r" "localEphemeral r" "remoteEphemeral w"] S(2,3) by auto
  have es: "ew \<and> sr \<longrightarrow> (\<exists>s. dh_with C (localEphemeral w) (remoteStatic w) = Inr s
      \<and> dh_with C (hcLocalStatic (hsConfig r)) (remoteEphemeral r) = Inr s)"
    using dk [of "localEphemeral w" "remoteEphemeral r" "hcLocalStatic (hsConfig r)" "remoteStatic w"] S(2,5) by auto
  have se: "sw \<and> er \<longrightarrow> (\<exists>s. dh_with C (hcLocalStatic (hsConfig w)) (remoteEphemeral w) = Inr s
      \<and> dh_with C (localEphemeral r) (remoteStatic r) = Inr s)"
    using dk [of "hcLocalStatic (hsConfig w)" "remoteStatic r" "localEphemeral r" "remoteEphemeral w"] S(3,4) by auto
  have ss: "sw \<and> sr \<longrightarrow> (\<exists>s. dh_with C (hcLocalStatic (hsConfig w)) (remoteStatic w) = Inr s
      \<and> dh_with C (hcLocalStatic (hsConfig r)) (remoteStatic r) = Inr s)"
    using dk [of "hcLocalStatic (hsConfig w)" "remoteStatic r" "hcLocalStatic (hsConfig r)" "remoteStatic w"] S(4,5) by auto
  show ?thesis
  proof (cases token)
    case TokEE
    then show ?thesis using assms(3) ee by (auto simp: fl split: if_splits)
  next
    case TokES
    then show ?thesis using assms(3) es se S(1) by (cases "hcInitiator (hsConfig w)") (auto simp: fl split: if_splits)
  next
    case TokSE
    then show ?thesis using assms(3) es se S(1) by (cases "hcInitiator (hsConfig w)") (auto simp: fl split: if_splits)
  next
    case TokSS
    then show ?thesis using assms(3) ss by (auto simp: fl split: if_splits)
  qed (use assms(4,5) in simp_all)
qed

lemma sync_mix:
  assumes "sync C fl w r"
  shows "sync C fl (w\<lparr>hsSS := ss\<rparr>) (r\<lparr>hsSS := ss\<rparr>)"
  using assms by (cases fl) (simp add: sync_def)

lemma seal_open:
  assumes "crypto_ok C" "EncryptAndHash C ss k p = (c, ss')"
  shows "DecryptAndHash C ss k c = Some (p, ss')" "length c = length p + TagSize"
  using assms
  by (auto simp: crypto_ok_def aead_correct_def EncryptAndHash_def DecryptAndHash_def EncryptWithAD_def
      DecryptWithAD_def Let_def)

lemma write_read_token:
  assumes "crypto_ok C" "sync C fl w r" "token_flags (hcInitiator (hsConfig w)) token fl = Some fl'"
    "length a = KeySize" "token = TokS \<Longrightarrow> hcLocalStatic (hsConfig w) \<noteq> None"
  shows "\<exists>chunk w' r'. write_token C (Some a) w token = (Inr chunk, w') \<and> sync C fl' w' r' \<and>
    hsConfig w' = hsConfig w \<and> hsConfig r' = hsConfig r \<and> msgIndex w' = msgIndex w \<and> hsFinished w' = hsFinished w \<and>
    (\<forall>rest. read_token C r (chunk @ rest) token = (Inr rest, r'))"
proof -
  obtain ew er sw sr where fl: "fl = (ew, er, sw, sr)" by (cases fl)
  show ?thesis
  proof (cases "token = TokE \<or> token = TokS")
    case False
    then obtain s where s: "fl' = fl" "dh_token C w token = Inr s" "dh_token C r token = Inr s"
      using dh_agree [OF assms(1-3)] by blast
    let ?ss = "snd (MixKey C (hsSS w) s)"
    have e: "hsSS r = hsSS w" using assms(2) by (auto simp: sync_def fl)
    have "write_token C (Some a) w token = (Inr [], w\<lparr>hsSS := ?ss\<rparr>)" "read_token C r msg token = (Inr msg, r\<lparr>hsSS := ?ss\<rparr>)" for msg
      using False s e by (cases token; simp)+
    then show ?thesis using sync_mix [OF assms(2)] s(1) by fastforce
  next
    case True
    then show ?thesis
    proof
      assume tok: "token = TokE"
      obtain kp where kp: "NewKeyPair C a = Some kp" using assms(1,4) by (auto simp: crypto_ok_def)
      then have g: "good_pair C kp" using assms(4) by (auto simp: good_pair_def)
      have l: "length (kpPublic kp) = KeySize" by (rule good_pair_length [OF g])
      let ?ss = "mix_ephemeral C w (kpPublic kp)"
      have "mix_ephemeral C r (kpPublic kp) = ?ss" using assms(2) by (auto simp: sync_def fl mix_ephemeral_def Let_def)
      moreover have "sync C fl' (w\<lparr>localEphemeral := Some kp, hsSS := ?ss\<rparr>) (r\<lparr>remoteEphemeral := kpPublic kp, hsSS := ?ss\<rparr>)"
      proof -
        have "fl' = (True, er, sw, sr)" using assms(3) by (simp add: fl tok)
        then show ?thesis using assms(2) known_pair [OF g] by (simp add: sync_def fl)
      qed
      ultimately show ?thesis using kp l by (simp add: tok GenerateKeyPairFrom_def Let_def)
    next
      assume tok: "token = TokS"
      obtain kp where kp: "hcLocalStatic (hsConfig w) = Some kp" using assms(5) tok by blast
      have g: "good_pair C kp" and lr: "length (remoteStatic r) = KeySize" using assms(2) kp by (auto simp: sync_def fl)
      have l: "length (kpPublic kp) = KeySize" by (rule good_pair_length [OF g])
      obtain k ss1 where m: "MixKey C (hsSS w) [] = (k, ss1)" by (metis surj_pair)
      obtain c ss2 where c: "EncryptAndHash C ss1 k (kpPublic kp) = (c, ss2)" by (metis surj_pair)
      note D = seal_open [OF assms(1) c]
      have e: "hsSS r = hsSS w" using assms(2) by (auto simp: sync_def fl)
      have "sync C fl' (w\<lparr>hsSS := ss2\<rparr>) (r\<lparr>hsSS := ss2, remoteStatic := kpPublic kp\<rparr>)"
      proof -
        have "fl' = (ew, er, True, sr)" using assms(3) by (simp add: fl tok)
        then show ?thesis using assms(2) known_pair [OF g] kp l by (simp add: sync_def fl)
      qed
      then show ?thesis using m c D e kp l lr by (simp add: tok copy_whole)
    qed
  qed
qed

lemma write_read_tokens:
  assumes "crypto_ok C" "length a = KeySize"
    and "sync C fl w r" "tokens_flags (hcInitiator (hsConfig w)) tokens fl = Some fl'"
    and "TokS \<in> set tokens \<Longrightarrow> hcLocalStatic (hsConfig w) \<noteq> None"
  shows "\<exists>msg w' r'. write_tokens C (Some a) w tokens = (Inr msg, w') \<and> sync C fl' w' r' \<and>
    hsConfig w' = hsConfig w \<and> hsConfig r' = hsConfig r \<and> msgIndex w' = msgIndex w \<and> hsFinished w' = hsFinished w \<and>
    (\<forall>rest. read_tokens C r (msg @ rest) tokens = (Inr rest, r'))"
  using assms(3-)
proof (induction tokens arbitrary: fl w r)
  case (Cons token tokens)
  obtain fl1 where f: "token_flags (hcInitiator (hsConfig w)) token fl = Some fl1"
    "tokens_flags (hcInitiator (hsConfig w)) tokens fl1 = Some fl'"
    using Cons.prems(2) by (auto split: option.splits)
  obtain chunk w1 r1 where 1: "write_token C (Some a) w token = (Inr chunk, w1)" "sync C fl1 w1 r1"
      "hsConfig w1 = hsConfig w" "hsConfig r1 = hsConfig r" "msgIndex w1 = msgIndex w" "hsFinished w1 = hsFinished w"
      "\<And>rest. read_token C r (chunk @ rest) token = (Inr rest, r1)"
    using write_read_token [OF assms(1) Cons.prems(1) f(1) assms(2)] Cons.prems(3) by auto
  obtain msg w2 r2 where 2: "write_tokens C (Some a) w1 tokens = (Inr msg, w2)" "sync C fl' w2 r2"
      "hsConfig w2 = hsConfig w1" "hsConfig r2 = hsConfig r1" "msgIndex w2 = msgIndex w1" "hsFinished w2 = hsFinished w1"
      "\<And>rest. read_tokens C r1 (msg @ rest) tokens = (Inr rest, r2)"
    using Cons.IH [of fl1 w1 r1] 1(2,3) f(2) Cons.prems(3) by auto
  show ?case using 1 2 by simp
qed simp

lemma sync_swap: "sync C (ew, er, sw, sr) w r \<Longrightarrow> sync C (er, ew, sr, sw) r w"
  unfolding sync_def prod.case by (elim conjE) (intro conjI; simp)

lemma next_message_fields [simp]:
  "hsConfig (next_message hs) = hsConfig hs" "msgIndex (next_message hs) = msgIndex hs + 1"
  "hsSS (next_message hs) = hsSS hs" "remoteStatic (next_message hs) = remoteStatic hs"
  "remoteEphemeral (next_message hs) = remoteEphemeral hs" "localEphemeral (next_message hs) = localEphemeral hs"
  "hsFinished (next_message hs) \<longleftrightarrow> hsFinished hs \<or> length (hs_messages hs) \<le> msgIndex hs + 1"
  by (simp_all add: next_message_def Let_def)

lemma sync_next:
  assumes "sync C fl w r"
  shows "sync C fl (next_message (w\<lparr>hsSS := ss\<rparr>)) (next_message (r\<lparr>hsSS := ss\<rparr>))"
  using assms by (cases fl) (simp add: sync_def)

lemma sync_turn: "sync C fl w r \<Longrightarrow> my_turn w \<Longrightarrow> \<not> my_turn r"
  by (cases fl) (auto simp: sync_def my_turn_def)

lemma sync_fields:
  assumes "sync C fl w r"
  shows "hsSS r = hsSS w" "msgIndex r = msgIndex w" "hsFinished r = hsFinished w"
    "hcPattern (hsConfig r) = hcPattern (hsConfig w)" "hcInitiator (hsConfig r) = (\<not> hcInitiator (hsConfig w))"
  using assms by (cases fl; simp add: sync_def)+

lemma message_delivered:
  assumes "crypto_ok C" "length a = KeySize"
    and "sync C fl w r" "tokens_flags (hcInitiator (hsConfig w)) (hs_messages w ! msgIndex w) fl = Some (ew, er, sw, sr)"
    and "TokS \<in> set (hs_messages w ! msgIndex w) \<Longrightarrow> hcLocalStatic (hsConfig w) \<noteq> None"
    and "my_turn w" "\<not> hsFinished w" "msgIndex w < length (hs_messages w)"
  shows "\<exists>msg w' r'. WriteMessage C w payload (Some a) = (Inr msg, w') \<and> ReadMessage C r msg = (Inr payload, r') \<and>
    sync C (er, ew, sr, sw) r' w' \<and> hsConfig w' = hsConfig w \<and> hsConfig r' = hsConfig r \<and>
    msgIndex w' = msgIndex w + 1 \<and> (hsFinished w' \<longleftrightarrow> length (hs_messages w) \<le> msgIndex w')"
proof -
  obtain msg w1 r1 where 1: "write_tokens C (Some a) w (hs_messages w ! msgIndex w) = (Inr msg, w1)"
      "sync C (ew, er, sw, sr) w1 r1"
      "hsConfig w1 = hsConfig w" "hsConfig r1 = hsConfig r" "msgIndex w1 = msgIndex w" "hsFinished w1 = hsFinished w"
      "\<And>rest. read_tokens C r (msg @ rest) (hs_messages w ! msgIndex w) = (Inr rest, r1)"
    using write_read_tokens [OF assms(1-5)] by auto
  note S = sync_fields [OF assms(3)] and S1 = sync_fields [OF 1(2)]
  have nr: "\<not> my_turn r" by (rule sync_turn [OF assms(3,6)])
  show ?thesis
  proof (cases "payload \<noteq> [] \<or> msgIndex w + 1 = length (hs_messages w)")
    case False
    have "WriteMessage C w payload (Some a) = (Inr msg, next_message w1)"
      using False assms(6-8) 1 by (simp add: WriteMessage_def)
    moreover have "ReadMessage C r msg = (Inr payload, next_message r1)"
      using False assms(7,8) nr S 1(7) [of "[]"] by (simp add: ReadMessage_def)
    moreover have "sync C (er, ew, sr, sw) (next_message r1) (next_message w1)"
    proof -
      have "w1\<lparr>hsSS := hsSS r1\<rparr> = w1" using S1(1) by simp
      moreover have "r1\<lparr>hsSS := hsSS r1\<rparr> = r1" by simp
      ultimately show ?thesis using sync_swap [OF sync_next [OF 1(2), of "hsSS r1"]] by (simp only:)
    qed
    ultimately show ?thesis using 1 assms(7) by simp
  next
    case True
    obtain k ss1 where m: "MixKey C (hsSS w1) [] = (k, ss1)" by (metis surj_pair)
    obtain c ss2 where c: "EncryptAndHash C ss1 k payload = (c, ss2)" by (metis surj_pair)
    note D = seal_open [OF assms(1) c]
    have "c \<noteq> []" using D(2) by (auto simp: TagSize_def)
    then have "ReadMessage C r (msg @ c) = (Inr payload, next_message (r1\<lparr>hsSS := ss2\<rparr>))"
      using assms(7,8) nr S S1 1(7) [of c] m D(1) by (simp add: ReadMessage_def)
    moreover have "WriteMessage C w payload (Some a) = (Inr (msg @ c), next_message (w1\<lparr>hsSS := ss2\<rparr>))"
      using True assms(6-8) 1 m c by (auto simp: WriteMessage_def)
    moreover have "sync C (er, ew, sr, sw) (next_message (r1\<lparr>hsSS := ss2\<rparr>)) (next_message (w1\<lparr>hsSS := ss2\<rparr>))"
      by (rule sync_swap [OF sync_next [OF 1(2)]])
    ultimately show ?thesis using 1 assms(7) by simp
  qed
qed

text \<open>
  A whole handshake: the sides take turns writing a payload with a fresh private key and reading it.
  The result holds the payloads as read and the two final states, that of the first writer first.
\<close>

fun run_handshake ::
  "crypto \<Rightarrow> handshake \<Rightarrow> handshake \<Rightarrow> (byte list \<times> key) list \<Rightarrow> (byte list list \<times> handshake \<times> handshake) option"
where
  "run_handshake C w r [] = Some ([], w, r)"
| "run_handshake C w r ((payload, random) # rest) =
     (case WriteMessage C w payload (Some random) of
        (Inl _, _) \<Rightarrow> None
      | (Inr msg, w1) \<Rightarrow>
          (case ReadMessage C r msg of
             (Inl _, _) \<Rightarrow> None
           | (Inr got, r1) \<Rightarrow>
               (case run_handshake C r1 w1 rest of
                  None \<Rightarrow> None
                | Some (gots, r2, w2) \<Rightarrow> Some (got # gots, w2, r2))))"

definition swap_flags :: "bool \<times> bool \<times> bool \<times> bool \<Rightarrow> bool \<times> bool \<times> bool \<times> bool" where
  "swap_flags = (\<lambda>(a, b, c, d). (b, a, d, c))"

fun pattern_flags ::
  "bool \<Rightarrow> token list list \<Rightarrow> bool \<times> bool \<times> bool \<times> bool \<Rightarrow> (bool \<times> bool \<times> bool \<times> bool) option"
where
  "pattern_flags init [] fl = Some fl"
| "pattern_flags init (tokens # rest) fl =
     (case tokens_flags init tokens fl of
        None \<Rightarrow> None
      | Some fl' \<Rightarrow> map_option swap_flags (pattern_flags (\<not> init) rest (swap_flags fl')))"

lemma run_handshake_ok:
  assumes "crypto_ok C"
    and "sync C fl w r" "pattern_flags (hcInitiator (hsConfig w)) (drop (msgIndex w) (hs_messages w)) fl = Some fl'"
    and "hcLocalStatic (hsConfig w) \<noteq> None \<and> hcLocalStatic (hsConfig r) \<noteq> None
      \<or> (\<forall>tokens \<in> set (hs_messages w). TokS \<notin> set tokens)"
    and "my_turn w" "hsFinished w \<longleftrightarrow> length (hs_messages w) \<le> msgIndex w"
    and "length xs = length (hs_messages w) - msgIndex w" "\<forall>(p, a) \<in> set xs. length a = KeySize"
  shows "\<exists>w' r'. run_handshake C w r xs = Some (map fst xs, w', r') \<and> sync C fl' w' r' \<and> hsFinished w' \<and>
    hsConfig w' = hsConfig w \<and> hsConfig r' = hsConfig r"
  using assms(2-)
proof (induction xs arbitrary: w r fl fl')
  case Nil
  then show ?case by simp
next
  case (Cons x xs)
  obtain p a where x: "x = (p, a)" by (cases x)
  have l: "length a = KeySize" using Cons.prems(7) x by simp
  have i: "msgIndex w < length (hs_messages w)" "\<not> hsFinished w" using Cons.prems(5,6) by auto
  then have d: "drop (msgIndex w) (hs_messages w) = hs_messages w ! msgIndex w # drop (msgIndex w + 1) (hs_messages w)"
    by (simp add: Cons_nth_drop_Suc)
  obtain ew er sw sr fl2 where f: "tokens_flags (hcInitiator (hsConfig w)) (hs_messages w ! msgIndex w) fl = Some (ew, er, sw, sr)"
    "pattern_flags (\<not> hcInitiator (hsConfig w)) (drop (msgIndex w + 1) (hs_messages w)) (er, ew, sr, sw) = Some fl2"
    "fl' = swap_flags fl2"
    using Cons.prems(2) by (auto simp: d swap_flags_def split: option.splits)
  have s: "TokS \<in> set (hs_messages w ! msgIndex w) \<Longrightarrow> hcLocalStatic (hsConfig w) \<noteq> None"
    using Cons.prems(3) i(1) by (auto dest: nth_mem)
  obtain msg w1 r1 where 1: "WriteMessage C w p (Some a) = (Inr msg, w1)" "ReadMessage C r msg = (Inr p, r1)"
    "sync C (er, ew, sr, sw) r1 w1" "hsConfig w1 = hsConfig w" "hsConfig r1 = hsConfig r"
    "msgIndex w1 = msgIndex w + 1" "hsFinished w1 \<longleftrightarrow> length (hs_messages w) \<le> msgIndex w1"
    using message_delivered [OF assms(1) l Cons.prems(1) f(1) s Cons.prems(4) i(2,1)] by blast
  note S = sync_fields [OF Cons.prems(1)] and S1 = sync_fields [OF 1(3)]
  have "my_turn r1" using Cons.prems(4) S S1 1 by (auto simp: my_turn_def) presburger+
  moreover have "hs_messages r1 = hs_messages w" "msgIndex r1 = msgIndex w + 1"
    "hcInitiator (hsConfig r1) = (\<not> hcInitiator (hsConfig w))" "hsFinished r1 = hsFinished w1"
    unfolding 1(5) by (simp_all only: S) (use S1(2,3) 1(6) in simp_all)
  moreover have "length xs = length (hs_messages w) - (msgIndex w + 1)" using Cons.prems(6) by simp
  ultimately obtain r' w' where 2: "run_handshake C r1 w1 xs = Some (map fst xs, r', w')" "sync C fl2 r' w'" "hsFinished r'"
      "hsConfig r' = hsConfig r1" "hsConfig w' = hsConfig w1"
    using Cons.IH [OF 1(3), of fl2] Cons.prems(3,7) f(2) 1(4-7) by auto
  have "sync C fl' w' r'" using 2(2) f(3) by (cases fl2) (simp add: swap_flags_def sync_swap)
  then show ?case using 1 2 x sync_fields(3) [OF 2(2)] by simp
qed

text \<open>The two configurations of a handshake: the initiator is given the responder's public key.\<close>

definition initiator_config :: "pattern \<Rightarrow> byte list \<Rightarrow> key option \<Rightarrow> key_pair \<Rightarrow> key_pair \<Rightarrow> hs_config" where
  "initiator_config P prologue psk si sr =
     \<lparr>hcPattern = P, hcInitiator = True, hcLocalStatic = Some si, hcRemoteStatic = Some (kpPublic sr),
      hcPrologue = prologue, hcPresharedKey = psk\<rparr>"

definition responder_config :: "pattern \<Rightarrow> byte list \<Rightarrow> key option \<Rightarrow> key_pair \<Rightarrow> hs_config" where
  "responder_config P prologue psk sr =
     \<lparr>hcPattern = P, hcInitiator = False, hcLocalStatic = Some sr, hcRemoteStatic = None,
      hcPrologue = prologue, hcPresharedKey = psk\<rparr>"

lemmas pattern_defs = PatternIK_def PatternXX_def PatternNN_def

lemma handshake_starts:
  assumes "good_pair C si" "good_pair C sr" "P = PatternIK \<or> P = PatternXX \<or> P = PatternNN"
  shows "\<exists>i r. NewHandshakeState C (initiator_config P prologue psk si sr) = Inr i \<and>
    NewHandshakeState C (responder_config P prologue psk sr) = Inr r \<and>
    sync C (False, False, False, P = PatternIK) i r \<and>
    hsConfig i = initiator_config P prologue psk si sr \<and> hsConfig r = responder_config P prologue psk sr \<and>
    msgIndex i = 0 \<and> \<not> hsFinished i"
  using assms good_pair_length [of C sr]
  by (auto simp: NewHandshakeState_def validateConfig_def Let_def initiator_config_def responder_config_def
      pattern_defs sync_def known_def)

lemma flags_of_patterns:
  "pattern_flags True (messagePatterns PatternIK) (False, False, False, True) = Some (True, True, True, True)"
  "pattern_flags True (messagePatterns PatternXX) (False, False, False, False) = Some (True, True, True, True)"
  "pattern_flags True (messagePatterns PatternNN) (False, False, False, False) = Some (True, True, False, False)"
  by (simp_all add: pattern_defs swap_flags_def)

lemma Split_sync:
  assumes "crypto_ok C" "sync C fl i r" "hsFinished i" "hcInitiator (hsConfig i)"
  shows "\<exists>k1 k2. Split C i = Inr (k1, k2) \<and> Split C r = Inr (k2, k1)"
proof -
  have "length (the (HKDF C ck [] 2) ! j) = KeySize" if "j < 2" for ck j
    using that by (cases "j = 0") (auto simp: HKDF_def Let_def HMAC_def HashSize_def KeySize_def)
  then have "aead_new (chacha C) (the (HKDF C ck [] 2) ! 0)" "aead_new (chacha C) (the (HKDF C ck [] 2) ! 1)" for ck
    using assms(1) by (simp_all add: crypto_ok_def aead_correct_def)
  then show ?thesis using assms(3,4) sync_fields [OF assms(2)]
    by (simp add: Split_def ss_Split_def Let_def NewCipherState_def)
qed

section \<open>Properties\<close>

text \<open>
  C3: The handshake completes for the three patterns, with any prologue, pre-shared key and
  payloads: every message is accepted, every payload arrives, both ends finish with the same
  handshake hash and with transport keys that match crosswise, and in the authenticated patterns
  each end knows the other's static key.
\<close>

theorem handshake_completes:
  assumes "crypto_ok C" and "good_pair C si" and "good_pair C sr"
    and "P = PatternIK \<or> P = PatternXX \<or> P = PatternNN"
    and "length xs = length (messagePatterns P)" and "\<forall>(p, a) \<in> set xs. length a = KeySize"
  shows "\<exists>i r i' r' k1 k2.
    NewHandshakeState C (initiator_config P prologue psk si sr) = Inr i \<and>
    NewHandshakeState C (responder_config P prologue psk sr) = Inr r \<and>
    run_handshake C i r xs = Some (map fst xs, i', r') \<and>
    Split C i' = Inr (k1, k2) \<and> Split C r' = Inr (k2, k1) \<and> ssHash (hsSS i') = ssHash (hsSS r') \<and>
    (P \<noteq> PatternNN \<longrightarrow> remoteStatic i' = kpPublic sr \<and> remoteStatic r' = kpPublic si)"
proof -
  obtain i r where s: "NewHandshakeState C (initiator_config P prologue psk si sr) = Inr i"
      "NewHandshakeState C (responder_config P prologue psk sr) = Inr r"
      "sync C (False, False, False, P = PatternIK) i r" "hsConfig i = initiator_config P prologue psk si sr"
      "hsConfig r = responder_config P prologue psk sr" "msgIndex i = 0" "\<not> hsFinished i"
    using handshake_starts [OF assms(2-4)] by blast
  have d: "PatternIK \<noteq> PatternXX" "PatternIK \<noteq> PatternNN" "PatternXX \<noteq> PatternNN" by (simp_all add: pattern_defs)
  define fl where "fl = (True, True, P \<noteq> PatternNN, P \<noteq> PatternNN)"
  have f: "pattern_flags True (messagePatterns P) (False, False, False, P = PatternIK) = Some fl"
    using assms(4) flags_of_patterns d by (auto simp: fl_def)
  have c: "hcPattern (hsConfig i) = P" "hcInitiator (hsConfig i)" "hcLocalStatic (hsConfig i) = Some si"
    "hcLocalStatic (hsConfig r) = Some sr" using s(4,5) by (simp_all add: initiator_config_def responder_config_def)
  have ne: "messagePatterns P \<noteq> []" using assms(4) by (auto simp: pattern_defs)
  obtain i' r' where run: "run_handshake C i r xs = Some (map fst xs, i', r')" "sync C fl i' r'" "hsFinished i'"
      "hsConfig i' = hsConfig i" "hsConfig r' = hsConfig r"
    using run_handshake_ok [OF assms(1) s(3), of fl xs] f c s(6,7) assms(5,6) ne by (auto simp: my_turn_def)
  obtain k1 k2 where k: "Split C i' = Inr (k1, k2)" "Split C r' = Inr (k2, k1)"
    using Split_sync [OF assms(1) run(2,3)] run(4) c(2) by auto
  have "P \<noteq> PatternNN \<longrightarrow> remoteStatic i' = kpPublic sr \<and> remoteStatic r' = kpPublic si"
    using run(2,4,5) c(3,4) by (auto simp: fl_def sync_def known_def)
  then show ?thesis using s(1,2) run(1) k sync_fields(1) [OF run(2)] by auto
qed

text \<open>
  The proof of key possession in the last message is optional: an initiator that waits for the
  last message of the IK pattern finishes the handshake on any 32 bytes that are a usable public key,
  since a message that ends after its tokens is not decrypted at all.
\<close>

theorem last_message_without_tag:
  assumes "hcPattern (hsConfig hs) = PatternIK" and "hcInitiator (hsConfig hs)" and "msgIndex hs = 1"
    and "\<not> hsFinished hs" and "localEphemeral hs = Some e" and "hcLocalStatic (hsConfig hs) = Some s"
    and "length re = KeySize" and "DH C e re = Inr x" and "DH C s re = Inr y"
  shows "\<exists>hs'. ReadMessage C hs re = (Inr [], hs') \<and> hsFinished hs' \<and> remoteStatic hs' = remoteStatic hs"
  using assms by (simp add: ReadMessage_def my_turn_def PatternIK_def dh_with_def Let_def)

section \<open>The properties at a concrete input\<close>

text \<open>
  A concrete commutative exchange: bytewise disjunction.  Clamping sets a bit, so no secret is zero.
\<close>

definition demo_crypto :: crypto where
  "demo_crypto = \<lparr>blake2s = (\<lambda>data. [of_nat (length data)]), blake2s_mac = (\<lambda>k data. [of_nat (length data)]),
     x25519 = (\<lambda>p q. Some (map2 (OR) p q)), chacha = tag_aead\<rparr>"

lemma fit_whole: "length xs = n \<Longrightarrow> fit n xs = xs"
  by (simp add: fit_def copy_whole)

lemma demo_pair:
  assumes "good_pair demo_crypto kp"
  shows "length (kpPrivate kp) = KeySize" "kpPublic kp = map2 (OR) (kpPrivate kp) Basepoint"
    "bit (kpPrivate kp ! 31) 6"
proof -
  obtain a where a: "length a = KeySize" "NewKeyPair demo_crypto a = Some kp"
    using assms by (auto simp: good_pair_def)
  have l: "length (clamp a) = KeySize" using a(1) by (simp add: clamp_def)
  have kp: "kp = \<lparr>kpPrivate = clamp a, kpPublic = map2 (OR) (clamp a) Basepoint\<rparr>"
    using a(2) l by (auto simp: NewKeyPair_def demo_crypto_def Let_def fit_whole Basepoint_def KeySize_def)
  show "length (kpPrivate kp) = KeySize" "kpPublic kp = map2 (OR) (kpPrivate kp) Basepoint"
    using l by (simp_all add: kp)
  have "clamp a ! 31 = (a ! 31 AND 127) OR 64" using a(1) by (simp add: clamp_def KeySize_def)
  moreover have "bit (64 :: byte) 6" by (simp add: bit_numeral_rec)
  ultimately show "bit (kpPrivate kp ! 31) 6" by (simp add: kp bit_or_iff)
qed

lemma demo_dh:
  assumes "good_pair demo_crypto kp" "good_pair demo_crypto kq"
  shows "DH demo_crypto kp (kpPublic kq) =
    Inr (map2 (OR) (map2 (OR) (kpPrivate kp) (kpPrivate kq)) Basepoint)"
proof -
  note P = demo_pair [OF assms(1)] and Q = demo_pair [OF assms(2)]
  let ?s = "map2 (OR) (map2 (OR) (kpPrivate kp) (kpPrivate kq)) Basepoint"
  have b: "length Basepoint = KeySize" by (simp add: Basepoint_def KeySize_def)
  have "map2 (OR) (kpPrivate kp) (kpPublic kq) = ?s"
    using P(1) Q(1) b unfolding Q(2) by (intro nth_equalityI) (simp_all add: or.assoc)
  moreover have "\<not> IsZero ?s"
  proof
    assume "IsZero ?s"
    then have "?s ! 31 = 0" by (simp add: IsZero_def KeySize_def)
    moreover have "bit (?s ! 31) 6" using P(1,3) Q(1) b by (simp add: KeySize_def bit_or_iff)
    ultimately show False by simp
  qed
  moreover have "length ?s = KeySize" using P(1) Q(1) b by simp
  ultimately show ?thesis by (simp add: DH_def demo_crypto_def fit_whole)
qed

lemma demo_crypto_ok: "crypto_ok demo_crypto"
proof -
  have "map2 (OR) xs ys = map2 (OR) ys xs" for xs ys :: "byte list"
    by (induction xs ys rule: list_induct2') (simp_all add: or.commute)
  then have "\<exists>s. DH demo_crypto kp (kpPublic kq) = Inr s \<and> DH demo_crypto kq (kpPublic kp) = Inr s"
    if "good_pair demo_crypto kp" "good_pair demo_crypto kq" for kp kq
    using demo_dh that by metis
  moreover have "NewKeyPair demo_crypto a \<noteq> None" for a
    by (simp add: NewKeyPair_def demo_crypto_def Let_def)
  ultimately show ?thesis
    using tag_aead_correct by (auto simp: crypto_ok_def demo_crypto_def)
qed

lemma demo_key_pair: "\<exists>kp. good_pair demo_crypto kp"
  using demo_crypto_ok unfolding crypto_ok_def good_pair_def
  by (metis length_replicate option.exhaust)

theorem handshake_completes_witness:
  "\<exists>(si :: key_pair) (sr :: key_pair) i r i' r'. run_handshake demo_crypto i r [([1, 2], replicate 32 7), ([], replicate 32 9)] = Some ([[1, 2], []], i', r') \<and>
    ssHash (hsSS i') = ssHash (hsSS r') \<and> remoteStatic i' = kpPublic sr \<and> remoteStatic r' = kpPublic si"
proof -
  obtain kp where kp: "good_pair demo_crypto kp" using demo_key_pair by blast
  let ?xs = "[([1, 2], replicate 32 7), ([], replicate 32 9)] :: (byte list \<times> key) list"
  have "PatternIK \<noteq> PatternNN" and l: "length ?xs = length (messagePatterns PatternIK)"
    and k: "\<forall>(p, a) \<in> set ?xs. length a = KeySize" by (simp_all add: pattern_defs KeySize_def)
  have f: "map fst ?xs = [[1, 2], []]" by simp
  obtain i r i' r' where "run_handshake demo_crypto i r ?xs = Some (map fst ?xs, i', r')"
    "ssHash (hsSS i') = ssHash (hsSS r')" "remoteStatic i' = kpPublic kp" "remoteStatic r' = kpPublic kp"
    using handshake_completes [OF demo_crypto_ok kp kp disjI1 [OF refl] l k, of "[]" None] \<open>PatternIK \<noteq> PatternNN\<close>
    by blast
  then have F: "run_handshake demo_crypto i r ?xs = Some ([[1, 2], []], i', r') \<and> ssHash (hsSS i') = ssHash (hsSS r') \<and>
      remoteStatic i' = kpPublic kp \<and> remoteStatic r' = kpPublic kp" unfolding f by (intro conjI)
  show ?thesis by (intro exI) (rule F)
qed

theorem last_message_without_tag_witness:
  "\<exists>hs re hs'. ReadMessage demo_crypto hs re = (Inr [], hs') \<and> hsFinished hs'"
proof -
  obtain kp where kp: "good_pair demo_crypto kp" using demo_key_pair by blast
  let ?hs = "\<lparr>hsConfig = initiator_config PatternIK [] None kp kp, hsSS = \<lparr>ssChainingKey = [], ssHash = []\<rparr>,
    localEphemeral = Some kp, remoteEphemeral = [], remoteStatic = kpPublic kp, msgIndex = 1, hsFinished = False\<rparr>"
  show ?thesis
    using last_message_without_tag [of ?hs kp kp "kpPublic kp", OF _ _ _ _ _ _ good_pair_length [OF kp] demo_dh [OF kp kp] demo_dh [OF kp kp]]
    by (auto simp: initiator_config_def)
qed

end
