(* ===== verification/Timer.thy ===== *)
theory Timer
  imports Prelude
begin

text \<open>
  \<open>pkg/giznet/internal/timer\<close>: a timer that runs a callback at the deadline set last.  A time is its
  number of nanoseconds and the zero \<open>time.Time\<close> is 0.  The goroutine of the timer is the step
  \<open>timer_fires\<close>: it looks at the deadline, waits for it, and runs the callback when \<open>consume\<close> still
  finds the deadline it waited for; the channels only wake it up.
\<close>

record timer =
  deadline :: int
  armed :: bool
  tmClosed :: bool

definition timer_New :: timer where
  "timer_New = \<lparr>deadline = 0, armed = False, tmClosed = False\<rparr>"

definition timer_Reset :: "timer \<Rightarrow> int \<Rightarrow> bool \<times> timer" where
  "timer_Reset t d =
     (if tmClosed t then (False, t)
      else if d = 0 then (True, t\<lparr>deadline := 0, armed := False\<rparr>)
      else (True, t\<lparr>deadline := d, armed := True\<rparr>))"

definition timer_Close :: "timer \<Rightarrow> timer" where
  "timer_Close t = t\<lparr>tmClosed := True, armed := False\<rparr>"

definition currentDeadline :: "timer \<Rightarrow> int option" where
  "currentDeadline t = (if tmClosed t \<or> \<not> armed t then None else Some (deadline t))"

definition consume :: "timer \<Rightarrow> int \<Rightarrow> bool \<times> timer" where
  "consume t d =
     (if tmClosed t \<or> \<not> armed t \<or> deadline t \<noteq> d then (False, t) else (True, t\<lparr>armed := False\<rparr>))"

text \<open>
  The goroutine at time \<open>now\<close>, having slept until the deadline it saw: \<open>None\<close> when it sleeps on,
  otherwise whether the callback runs, and the timer.
\<close>

definition timer_fires :: "timer \<Rightarrow> int \<Rightarrow> (bool \<times> timer) option" where
  "timer_fires t now =
     (case currentDeadline t of
        None \<Rightarrow> None
      | Some d \<Rightarrow> if d \<le> now then Some (consume t d) else None)"

lemma timer_fires_iff: "timer_fires t now = Some (b, t') \<longleftrightarrow>
    \<not> tmClosed t \<and> armed t \<and> deadline t \<le> now \<and> b \<and> t' = t\<lparr>armed := False\<rparr>"
  by (auto simp: timer_fires_def currentDeadline_def consume_def split: if_splits)

lemma timer_Reset_deadline:
  "\<not> tmClosed t \<Longrightarrow> currentDeadline (snd (timer_Reset t d)) = (if d = 0 then None else Some d)"
  by (simp add: timer_Reset_def currentDeadline_def)

lemma timer_Reset_simps [simp]:
  "tmClosed (snd (timer_Reset t d)) = tmClosed t"
  "snd (timer_Reset (snd (timer_Reset t d)) d) = snd (timer_Reset t d)"
  by (simp_all add: timer_Reset_def)

end
