(* ===== verification/Conn.thy ===== *)
theory Conn
  imports NoiseHandshake Timer
begin

text \<open>
  \<open>pkg/giznet/internal/core/conn.go\<close> and \<open>dial.go\<close>: one connection, its handshakes, the rotation of its
  sessions and its timers.

  The environment of an operation supplies the clock reading (one for an operation), the random
  numbers it draws (\<open>None\<close> when the source fails) and \<open>WriteTo\<close> of the transport, a function on the
  state \<open>'w\<close> of the network that the connection carries, which returns whether it failed.  Times are
  nanoseconds and the zero time is 0.  Every operation is one step, except the goroutine that a
  receive may start: \<open>spawned\<close> counts those still to run.  \<open>Recv\<close> is split where it blocks: \<open>recv_ready\<close>
  is what it checks before and \<open>recv_packet\<close> what it does with the packet, so anything can happen to
  the connection in between.  The two sessions of a connection are distinct objects.
\<close>

section \<open>State\<close>

datatype conn_state = ConnStateNew | ConnStateHandshaking | ConnStateEstablished | ConnStateClosed

datatype conn_error =
  ErrMissingLocalKey | ErrMissingTransport | ErrMissingRemotePK | ErrMissingRemoteAddr
| ErrInvalidConnState | ErrNotEstablished | ErrInvalidReceiverIndex | ErrInvalidRemotePK
| ErrHandshakeIncomplete | ErrHandshakeTimeout | ErrConnClosed | ErrConnTimeout | ErrListenerClosed
| ErrSessionExpired | ErrUnsupportedService | ErrKCPMustUseStream
| HandshakeError hs_error | SessionError session_error | MessageError message_error
| PayloadError payload_error | TransportError | IndexError | ContextError

definition second :: int where "second = 1000000000"
definition RekeyAfterTime :: int where "RekeyAfterTime = 120 * second"
definition RejectAfterTime :: int where "RejectAfterTime = 180 * second"
definition RekeyAttemptTime :: int where "RekeyAttemptTime = 90 * second"
definition RekeyTimeout :: int where "RekeyTimeout = 5 * second"
definition KeepaliveTimeout :: int where "KeepaliveTimeout = 10 * second"
definition RekeyOnRecvThreshold :: int where
  "RekeyOnRecvThreshold = RejectAfterTime - KeepaliveTimeout - RekeyTimeout"
definition SessionCleanupTime :: int where "SessionCleanupTime = RejectAfterTime * 3"
definition RekeyAfterMessages :: u64 where "RekeyAfterMessages = push_bit 60 1"
definition RejectAfterMessages :: u64 where "RejectAfterMessages = NOT 0 - push_bit 13 1"

lemmas time_defs = second_def RekeyAfterTime_def RejectAfterTime_def RekeyAttemptTime_def
  RekeyTimeout_def KeepaliveTimeout_def RekeyOnRecvThreshold_def SessionCleanupTime_def

type_synonym addr = string

record 'w conn_env =
  envCrypto :: crypto
  envNow :: int
  envIndex :: "u32 option"
  envRandom :: "key option"
  envWrite :: "'w \<Rightarrow> byte list \<Rightarrow> addr \<Rightarrow> bool \<times> 'w"

record inbound_queue =
  inPackets :: "(transport_message \<times> addr option) list"
  inCapacity :: nat
  inClosed :: bool

record 'w conn =
  tickTimer :: timer
  localKey :: key_pair
  cnRemotePK :: key
  remoteAddr :: addr
  cnState :: conn_state
  localIdx :: u32
  current :: "session option"
  previous :: "session option"
  hsState :: "handshake option"
  handshakeStarted :: int
  handshakeAttemptStart :: int
  lastHandshakeSent :: int
  isInitiator :: bool
  cnCreatedAt :: int
  sessionCreated :: int
  cnLastSent :: int
  cnLastReceived :: int
  pendingPackets :: "byte list list"
  rekeyTriggered :: bool
  inbound :: "inbound_queue option"
  network :: 'w
  spawned :: nat

definition newConn ::
  "'w conn_env \<Rightarrow> key_pair option \<Rightarrow> 'w option \<Rightarrow> addr \<Rightarrow> key \<Rightarrow> conn_error + 'w conn"
where
  "newConn E key transport raddr rpk =
     (case key of
        None \<Rightarrow> Inl ErrMissingLocalKey
      | Some kp \<Rightarrow>
          (case transport of
             None \<Rightarrow> Inl ErrMissingTransport
           | Some w \<Rightarrow>
               (case envIndex E of
                  None \<Rightarrow> Inl IndexError
                | Some idx \<Rightarrow>
                    Inr \<lparr>tickTimer = timer_New, localKey = kp, cnRemotePK = rpk, remoteAddr = raddr,
                      cnState = ConnStateNew, localIdx = idx, current = None, previous = None,
                      hsState = None, handshakeStarted = 0, handshakeAttemptStart = 0,
                      lastHandshakeSent = 0, isInitiator = False, cnCreatedAt = envNow E,
                      sessionCreated = 0, cnLastSent = envNow E, cnLastReceived = envNow E,
                      pendingPackets = [], rekeyTriggered = False, inbound = None, network = w,
                      spawned = 0\<rparr>)))"

section \<open>Handshake messages\<close>

definition ik_initiator :: "key_pair \<Rightarrow> key \<Rightarrow> hs_config" where
  "ik_initiator kp pk =
     \<lparr>hcPattern = PatternIK, hcInitiator = True, hcLocalStatic = Some kp, hcRemoteStatic = Some pk,
      hcPrologue = [], hcPresharedKey = None\<rparr>"

definition ik_responder :: "key_pair \<Rightarrow> hs_config" where
  "ik_responder kp =
     \<lparr>hcPattern = PatternIK, hcInitiator = False, hcLocalStatic = Some kp, hcRemoteStatic = None,
      hcPrologue = [], hcPresharedKey = None\<rparr>"

text \<open>A fresh handshake and its initiation packet; the answer of the responder to one.\<close>

definition make_init :: "crypto \<Rightarrow> key option \<Rightarrow> key_pair \<Rightarrow> key \<Rightarrow> u32 \<Rightarrow> hs_error + (handshake \<times> byte list)" where
  "make_init C random kp pk idx =
     (case NewHandshakeState C (ik_initiator kp pk) of
        Inl e \<Rightarrow> Inl e
      | Inr hs \<Rightarrow>
          (case WriteMessage C hs [] random of
             (Inl e, _) \<Rightarrow> Inl e
           | (Inr msg1, hs1) \<Rightarrow> Inr (hs1, BuildHandshakeInit idx (LocalEphemeral hs1) (drop KeySize msg1))))"

definition init_noise :: "handshake_init_message \<Rightarrow> byte list" where
  "init_noise m = fit KeySize (hiEphemeral m) @ fit 48 (hiStatic m)"

definition resp_noise :: "handshake_resp_message \<Rightarrow> byte list" where
  "resp_noise m = fit KeySize (hrEphemeral m) @ fit 16 (hrEmpty m)"

definition session_of ::
  "'w conn_env \<Rightarrow> u32 \<Rightarrow> u32 \<Rightarrow> cipher_state \<Rightarrow> cipher_state \<Rightarrow> key \<Rightarrow> session_error + session"
where
  "session_of E li ri sendCS recvCS rpk =
     NewSession (chacha (envCrypto E)) (envNow E)
       \<lparr>cfgLocalIndex = li, cfgRemoteIndex = ri, cfgSendKey = csKey sendCS, cfgRecvKey = csKey recvCS,
        cfgRemotePK = rpk\<rparr>"

section \<open>Sending\<close>

definition resetHandshakeStateLocked :: "'w conn \<Rightarrow> 'w conn" where
  "resetHandshakeStateLocked c = c\<lparr>cnState := ConnStateNew, hsState := None\<rparr>"

text \<open>\<open>None\<close> is the nil payload of a keepalive.\<close>

definition cn_sendPayload ::
  "'w conn_env \<Rightarrow> byte list option \<Rightarrow> bool \<Rightarrow> 'w conn \<Rightarrow> conn_error option \<times> 'w conn"
where
  "cn_sendPayload E plaintext isKeepalive c =
     (if cnState c = ConnStateClosed then (Some ErrConnClosed, c)
      else case (current c, cnState c = ConnStateEstablished) of
          (Some s, True) \<Rightarrow>
            (case Encrypt (chacha (envCrypto E)) (envNow E) s (case plaintext of None \<Rightarrow> [] | Some p \<Rightarrow> p) of
               (Inl e, s1) \<Rightarrow> (Some (SessionError e), c\<lparr>current := Some s1\<rparr>)
             | (Inr (ciphertext, counter), s1) \<Rightarrow>
                 (case envWrite E (network c) (BuildTransportMessage (remoteIndex s1) counter ciphertext) (remoteAddr c) of
                    (failed, w) \<Rightarrow>
                      if failed then (Some TransportError, c\<lparr>current := Some s1, network := w\<rparr>)
                      else (None, c\<lparr>current := Some s1, network := w, cnLastSent := envNow E\<rparr>)))
        | _ \<Rightarrow>
            if isKeepalive then (Some ErrNotEstablished, c)
            else let c1 = (case plaintext of
                     None \<Rightarrow> c | Some p \<Rightarrow> c\<lparr>pendingPackets := pendingPackets c @ [p]\<rparr>)
                 in if hsState c = None \<and> cnState c = ConnStateNew then (Some ErrNotEstablished, c1)
                    else (None, c1))"

definition SendKeepalive :: "'w conn_env \<Rightarrow> 'w conn \<Rightarrow> conn_error option \<times> 'w conn" where
  "SendKeepalive E c = cn_sendPayload E None True c"

definition flushPendingPackets :: "'w conn_env \<Rightarrow> 'w conn \<Rightarrow> 'w conn" where
  "flushPendingPackets E c =
     fold (\<lambda>pkt c. snd (cn_sendPayload E (Some pkt) False c)) (pendingPackets c) (c\<lparr>pendingPackets := []\<rparr>)"

section \<open>Timers\<close>

definition cleanupSessions :: "'w conn \<Rightarrow> 'w conn" where
  "cleanupSessions c =
     c\<lparr>current := None, previous := None, pendingPackets := [], hsState := None,
       handshakeStarted := 0, handshakeAttemptStart := 0, lastHandshakeSent := 0, rekeyTriggered := False,
       cnState := (if cnState c = ConnStateEstablished then ConnStateNew else cnState c)\<rparr>"

definition initiateRekey :: "'w conn_env \<Rightarrow> 'w conn \<Rightarrow> conn_error option \<times> 'w conn" where
  "initiateRekey E c =
     (if cnState c = ConnStateClosed then (Some ErrConnClosed, c)
      else if hsState c \<noteq> None then (None, c)
      else case envIndex E of
          None \<Rightarrow> (Some IndexError, c)
        | Some newIdx \<Rightarrow>
            (case make_init (envCrypto E) (envRandom E) (localKey c) (cnRemotePK c) newIdx of
               Inl e \<Rightarrow> (Some (HandshakeError e), c)
             | Inr (hs, wireMsg) \<Rightarrow>
                 (case envWrite E (network c) wireMsg (remoteAddr c) of
                    (failed, w) \<Rightarrow>
                      if failed then (Some TransportError, c\<lparr>network := w\<rparr>)
                      else (None, c\<lparr>network := w, hsState := Some hs, localIdx := newIdx,
                        handshakeStarted := envNow E, handshakeAttemptStart := envNow E,
                        lastHandshakeSent := envNow E, isInitiator := True, rekeyTriggered := True\<rparr>))))"

definition retransmitHandshake :: "'w conn_env \<Rightarrow> 'w conn \<Rightarrow> conn_error option \<times> 'w conn" where
  "retransmitHandshake E c =
     (if cnState c = ConnStateClosed then (Some ErrConnClosed, c)
      else if hsState c = None then (None, c)
      else case make_init (envCrypto E) (envRandom E) (localKey c) (cnRemotePK c) (localIdx c) of
          Inl e \<Rightarrow> (Some (HandshakeError e), c)
        | Inr (hs, wireMsg) \<Rightarrow>
            (case envWrite E (network c) wireMsg (remoteAddr c) of
               (failed, w) \<Rightarrow>
                 if failed then (Some TransportError, c\<lparr>network := w\<rparr>)
                 else (None, c\<lparr>network := w, hsState := Some hs, lastHandshakeSent := envNow E\<rparr>)))"

text \<open>The next deadline, 0 for none, is collected from the deadlines of the current state.\<close>

definition addDeadline :: "int \<Rightarrow> int \<Rightarrow> int" where
  "addDeadline t due = (if t = 0 then due else if due = 0 \<or> t < due then t else due)"

definition after :: "int \<Rightarrow> int \<Rightarrow> int" where
  "after t d = t + (d + 1)"

definition addAfter :: "int \<Rightarrow> int \<Rightarrow> int \<Rightarrow> int" where
  "addAfter t d due = (if t = 0 then due else addDeadline (after t d) due)"

definition scheduleHandshake :: "int \<Rightarrow> int \<Rightarrow> bool \<Rightarrow> int \<Rightarrow> int" where
  "scheduleHandshake attemptStart sentAt hasHandshake due =
     (let due1 = addAfter attemptStart RekeyAttemptTime due
      in if hasHandshake then addAfter sentAt RekeyTimeout due1 else due1)"

definition scheduleEstablished :: "int \<Rightarrow> int \<Rightarrow> int \<Rightarrow> bool \<Rightarrow> bool \<Rightarrow> int \<Rightarrow> int" where
  "scheduleEstablished sentAt receivedAt created initiator rekeyDone due =
     (let due1 = addAfter receivedAt SessionCleanupTime due;
          due2 = (if initiator then
              let due3 = addAfter receivedAt (KeepaliveTimeout + RekeyTimeout) due1
              in if \<not> rekeyDone then addAfter created RekeyAfterTime due3 else due3
            else due1);
          keepaliveAt = after sentAt KeepaliveTimeout
      in if sentAt \<noteq> 0 \<and> receivedAt \<noteq> 0 \<and> keepaliveAt < receivedAt + KeepaliveTimeout
         then addDeadline keepaliveAt due2 else due2)"

text \<open>
  What a tick does in the states \<open>Handshaking\<close> and \<open>Established\<close>: the error or the next deadline, and
  the connection.
\<close>

definition tick_handshaking :: "'w conn_env \<Rightarrow> 'w conn \<Rightarrow> (conn_error + int) \<times> 'w conn" where
  "tick_handshaking E c =
     (let now = envNow E;
          due = scheduleHandshake (handshakeAttemptStart c) (lastHandshakeSent c) (hsState c \<noteq> None) 0
      in if handshakeAttemptStart c \<noteq> 0 \<and> RekeyAttemptTime < now - handshakeAttemptStart c
         then (Inl ErrHandshakeTimeout, c)
         else if hsState c \<noteq> None \<and> lastHandshakeSent c \<noteq> 0 \<and> RekeyTimeout < now - lastHandshakeSent c
         then (case retransmitHandshake E c of
                 (Some e, c1) \<Rightarrow> (Inl e, c1)
               | (None, c1) \<Rightarrow> (Inr (scheduleHandshake (handshakeAttemptStart c) now True 0), c1))
         else (Inr due, c))"

text \<open>An established connection whose rekey is unanswered.\<close>

definition tick_waiting :: "'w conn_env \<Rightarrow> 'w conn \<Rightarrow> (conn_error + int) \<times> 'w conn" where
  "tick_waiting E c =
     (let now = envNow E
      in if handshakeAttemptStart c \<noteq> 0 \<and> RekeyAttemptTime < now - handshakeAttemptStart c
         then (Inl ErrHandshakeTimeout, c)
         else if lastHandshakeSent c \<noteq> 0 \<and> RekeyTimeout < now - lastHandshakeSent c
         then (case retransmitHandshake E c of
                 (Some e, c1) \<Rightarrow> (Inl e, c1)
               | (None, c1) \<Rightarrow> (Inr (scheduleHandshake (handshakeAttemptStart c) now True 0), c1))
         else (Inr (scheduleHandshake (handshakeAttemptStart c) (lastHandshakeSent c) True 0), c))"

definition tick_rekey :: "'w conn_env \<Rightarrow> 'w conn \<Rightarrow> (conn_error + int) \<times> 'w conn" where
  "tick_rekey E c =
     (case initiateRekey E c of
        (Some e, c1) \<Rightarrow> (Inl e, c1)
      | (None, c1) \<Rightarrow> (Inr (scheduleHandshake (envNow E) (envNow E) True 0), c1))"

definition needsRekey :: "int \<Rightarrow> 'w conn \<Rightarrow> bool" where
  "needsRekey now c \<longleftrightarrow>
     sessionCreated c \<noteq> 0 \<and> RekeyAfterTime < now - sessionCreated c
     \<or> (case current c of None \<Rightarrow> False | Some s \<Rightarrow> RekeyAfterMessages < sendNonce s)"

definition session_exhausted :: "session option \<Rightarrow> bool" where
  "session_exhausted s =
     (case s of None \<Rightarrow> False
      | Some s \<Rightarrow> RejectAfterMessages < sendNonce s \<or> RejectAfterMessages < maxNonce (recvNonce s))"

definition tick_established :: "'w conn_env \<Rightarrow> bool \<Rightarrow> 'w conn \<Rightarrow> (conn_error + int) \<times> 'w conn" where
  "tick_established E skipKeepalive c =
     (let now = envNow E;
          schedule = (\<lambda>sentAt. scheduleEstablished sentAt (cnLastReceived c) (sessionCreated c)
            (isInitiator c) (rekeyTriggered c) 0);
          hasSession = (current c \<noteq> None \<or> previous c \<noteq> None);
          recvDelta = now - cnLastReceived c
      in if hasSession \<and> SessionCleanupTime < recvDelta then (Inr 0, cleanupSessions c)
         else if RejectAfterTime < recvDelta then (Inl ErrConnTimeout, c)
         else if session_exhausted (current c) then (Inl ErrSessionExpired, c)
         else if hsState c \<noteq> None then tick_waiting E c
         else if isInitiator c \<and> KeepaliveTimeout + RekeyTimeout < recvDelta then tick_rekey E c
         else if isInitiator c \<and> \<not> rekeyTriggered c \<and> needsRekey now c then tick_rekey E c
         else if \<not> skipKeepalive \<and> KeepaliveTimeout < now - cnLastSent c \<and> recvDelta < KeepaliveTimeout
         then (case SendKeepalive E c of
                 (Some e, c1) \<Rightarrow> (Inl e, c1)
               | (None, c1) \<Rightarrow> (Inr (schedule now), c1))
         else (Inr (schedule (cnLastSent c)), c))"

definition doTick_state :: "'w conn_env \<Rightarrow> bool \<Rightarrow> 'w conn \<Rightarrow> (conn_error + int) \<times> 'w conn" where
  "doTick_state E skipKeepalive c =
     (case cnState c of
        ConnStateNew \<Rightarrow>
          if current c \<noteq> None \<or> previous c \<noteq> None
          then if SessionCleanupTime < envNow E - cnLastReceived c then (Inr 0, cleanupSessions c)
               else (Inr (addAfter (cnLastReceived c) SessionCleanupTime 0), c)
          else (Inr 0, c)
      | ConnStateHandshaking \<Rightarrow> tick_handshaking E c
      | ConnStateEstablished \<Rightarrow> tick_established E skipKeepalive c
      | ConnStateClosed \<Rightarrow> (Inl ErrConnClosed, c))"

text \<open>The timer is set only when the tick succeeds.\<close>

definition doTick :: "'w conn_env \<Rightarrow> bool \<Rightarrow> 'w conn \<Rightarrow> conn_error option \<times> 'w conn" where
  "doTick E skipKeepalive c =
     (case doTick_state E skipKeepalive c of
        (Inl e, c1) \<Rightarrow> (Some e, c1)
      | (Inr due, c1) \<Rightarrow> (None, c1\<lparr>tickTimer := snd (timer_Reset (tickTimer c1) due)\<rparr>))"

definition Tick :: "'w conn_env \<Rightarrow> 'w conn \<Rightarrow> conn_error option \<times> 'w conn" where
  "Tick E c = doTick E False c"

text \<open>The callback of the timer.\<close>

definition timer_tick :: "'w conn_env \<Rightarrow> 'w conn \<Rightarrow> 'w conn" where
  "timer_tick E c =
     (case timer_fires (tickTimer c) (envNow E) of
        Some (True, tm) \<Rightarrow> snd (doTick E False (c\<lparr>tickTimer := tm\<rparr>))
      | _ \<Rightarrow> c)"

definition Send :: "'w conn_env \<Rightarrow> byte \<Rightarrow> byte list \<Rightarrow> 'w conn \<Rightarrow> conn_error option \<times> 'w conn" where
  "Send E protocol payload c =
     (if protocol = ProtocolKCP then (Some ErrKCPMustUseStream, c)
      else case doTick E True c of
          (e, c1) \<Rightarrow>
            if e \<noteq> None \<and> e \<noteq> Some ErrNotEstablished \<and> e \<noteq> Some ErrConnClosed then (e, c1)
            else case cn_sendPayload E (Some (EncodePayload protocol payload)) False c1 of
                (Some e2, c2) \<Rightarrow> (Some e2, c2)
              | (None, c2) \<Rightarrow> (None, snd (doTick E False c2)))"

section \<open>Handshakes\<close>

definition rotate :: "'w conn_env \<Rightarrow> session \<Rightarrow> 'w conn \<Rightarrow> 'w conn" where
  "rotate E s c =
     c\<lparr>previous := (if current c \<noteq> None then current c else previous c), current := Some s,
       sessionCreated := envNow E, cnState := ConnStateEstablished, cnLastReceived := envNow E,
       rekeyTriggered := False\<rparr>"

definition clear_handshake :: "'w conn \<Rightarrow> 'w conn" where
  "clear_handshake c =
     c\<lparr>hsState := None, handshakeStarted := 0, handshakeAttemptStart := 0, lastHandshakeSent := 0\<rparr>"

definition completeHandshake ::
  "'w conn_env \<Rightarrow> u32 \<Rightarrow> key option \<Rightarrow> 'w conn \<Rightarrow> conn_error option \<times> 'w conn"
where
  "completeHandshake E remoteIdx rpk c =
     (case hsState c of
        None \<Rightarrow> (Some ErrHandshakeIncomplete, c)
      | Some hs \<Rightarrow>
          if \<not> hsFinished hs then (Some ErrHandshakeIncomplete, c)
          else case Split (envCrypto E) hs of
              Inl e \<Rightarrow> (Some (HandshakeError e), resetHandshakeStateLocked c)
            | Inr (sendCS, recvCS) \<Rightarrow>
                let c1 = (case rpk of None \<Rightarrow> c | Some pk \<Rightarrow> c\<lparr>cnRemotePK := pk\<rparr>)
                in (case session_of E (localIdx c1) remoteIdx sendCS recvCS (cnRemotePK c1) of
                      Inl e \<Rightarrow> (Some (SessionError e), resetHandshakeStateLocked c1)
                    | Inr s \<Rightarrow>
                        let c2 = (clear_handshake (rotate E s c1))\<lparr>cnLastSent := envNow E\<rparr>;
                            c3 = (if pendingPackets c2 \<noteq> [] then flushPendingPackets E c2 else c2)
                        in (None, snd (doTick E False c3))))"

definition failHandshake :: "'w conn \<Rightarrow> 'w conn" where
  "failHandshake c = resetHandshakeStateLocked c"

text \<open>The responder of an initiation packet: the handshake after its first message.\<close>

definition read_init :: "crypto \<Rightarrow> key_pair \<Rightarrow> handshake_init_message \<Rightarrow> hs_error + handshake" where
  "read_init C kp msg =
     (case NewHandshakeState C (ik_responder kp) of
        Inl e \<Rightarrow> Inl e
      | Inr hs \<Rightarrow>
          (case ReadMessage C hs (init_noise msg) of (Inl e, _) \<Rightarrow> Inl e | (Inr _, hs1) \<Rightarrow> Inr hs1))"

definition conn_accept ::
  "'w conn_env \<Rightarrow> handshake_init_message \<Rightarrow> 'w conn \<Rightarrow> (conn_error + byte list) \<times> 'w conn"
where
  "conn_accept E msg c =
     (if cnState c \<noteq> ConnStateNew then (Inl ErrInvalidConnState, c)
      else let c1 = c\<lparr>cnState := ConnStateHandshaking, handshakeStarted := envNow E\<rparr>
        in case read_init (envCrypto E) (localKey c) msg of
             Inl e \<Rightarrow> (Inl (HandshakeError e), failHandshake c1)
           | Inr hs1 \<Rightarrow>
               (case WriteMessage (envCrypto E) hs1 [] (envRandom E) of
                  (Inl e, _) \<Rightarrow> (Inl (HandshakeError e), failHandshake c1)
                | (Inr msg2, hs2) \<Rightarrow>
                    (case completeHandshake E (hiSenderIndex msg) (Some (remoteStatic hs1)) (c1\<lparr>hsState := Some hs2\<rparr>) of
                       (Some e, c2) \<Rightarrow> (Inl e, c2)
                     | (None, c2) \<Rightarrow>
                         (Inr (BuildHandshakeResp (localIdx c2) (hiSenderIndex msg) (LocalEphemeral hs2)
                                 (drop KeySize msg2)), c2))))"

definition handleHandshakeResponse ::
  "'w conn_env \<Rightarrow> handshake_resp_message \<Rightarrow> addr option \<Rightarrow> 'w conn \<Rightarrow> (conn_error + (byte \<times> byte list)) \<times> 'w conn"
where
  "handleHandshakeResponse E resp fromAddr c =
     (case hsState c of
        None \<Rightarrow> (Inl ErrInvalidConnState, c)
      | Some hs \<Rightarrow>
          if hrReceiverIndex resp \<noteq> localIdx c then (Inl ErrInvalidReceiverIndex, c)
          else case ReadMessage (envCrypto E) hs (resp_noise resp) of
              (Inl e, _) \<Rightarrow> (Inl (HandshakeError e), resetHandshakeStateLocked c)
            | (Inr _, hs1) \<Rightarrow>
                (case Split (envCrypto E) hs1 of
                   Inl e \<Rightarrow> (Inl (HandshakeError e), resetHandshakeStateLocked c)
                 | Inr (sendCS, recvCS) \<Rightarrow>
                     (case session_of E (localIdx c) (hrSenderIndex resp) sendCS recvCS (cnRemotePK c) of
                        Inl e \<Rightarrow> (Inl (SessionError e), resetHandshakeStateLocked c)
                      | Inr s \<Rightarrow>
                          let c1 = (clear_handshake (rotate E s c))\<lparr>isInitiator := True,
                                remoteAddr := (case fromAddr of None \<Rightarrow> remoteAddr c | Some a \<Rightarrow> a)\<rparr>
                          in (Inr (0, []), snd (doTick E False c1)))))"

definition handleHandshakeInit ::
  "'w conn_env \<Rightarrow> handshake_init_message \<Rightarrow> addr option \<Rightarrow> 'w conn \<Rightarrow> (conn_error + (byte \<times> byte list)) \<times> 'w conn"
where
  "handleHandshakeInit E init fromAddr c =
     (let replyTo = (case fromAddr of None \<Rightarrow> remoteAddr c | Some a \<Rightarrow> a)
      in case read_init (envCrypto E) (localKey c) init of
           Inl e \<Rightarrow> (Inl (HandshakeError e), c)
         | Inr hs1 \<Rightarrow>
             if cnRemotePK c \<noteq> remoteStatic hs1 then (Inl ErrInvalidRemotePK, c)
             else case WriteMessage (envCrypto E) hs1 [] (envRandom E) of
                 (Inl e, _) \<Rightarrow> (Inl (HandshakeError e), c)
               | (Inr msg2, hs2) \<Rightarrow>
                   (case envIndex E of
                      None \<Rightarrow> (Inl IndexError, c)
                    | Some newIdx \<Rightarrow>
                        (case Split (envCrypto E) hs2 of
                           Inl e \<Rightarrow> (Inl (HandshakeError e), c)
                         | Inr (sendCS, recvCS) \<Rightarrow>
                             (case session_of E newIdx (hiSenderIndex init) sendCS recvCS (cnRemotePK c) of
                                Inl e \<Rightarrow> (Inl (SessionError e), c)
                              | Inr s \<Rightarrow>
                                  (case envWrite E (network c)
                                      (BuildHandshakeResp newIdx (hiSenderIndex init) (LocalEphemeral hs2)
                                         (drop KeySize msg2)) replyTo of
                                     (failed, w) \<Rightarrow>
                                       if failed then (Inl TransportError, c\<lparr>network := w\<rparr>)
                                       else let c1 = (rotate E s c)\<lparr>network := w, localIdx := newIdx,
                                                cnLastSent := envNow E, isInitiator := False, remoteAddr := replyTo\<rparr>
                                         in (Inr (0, []), snd (doTick E False c1)))))))"

section \<open>Receiving\<close>

definition handleTransportMessage ::
  "'w conn_env \<Rightarrow> transport_message \<Rightarrow> 'w conn \<Rightarrow> (conn_error + (byte \<times> byte list)) \<times> 'w conn"
where
  "handleTransportMessage E msg c =
     (case current c of
        None \<Rightarrow> (Inl ErrNotEstablished, c)
      | Some cur \<Rightarrow>
          let onCurrent = (tmReceiverIndex msg = localIndex cur);
              onPrevious = (case previous c of None \<Rightarrow> False | Some p \<Rightarrow> tmReceiverIndex msg = localIndex p)
          in if \<not> onCurrent \<and> \<not> onPrevious then (Inl ErrInvalidReceiverIndex, c)
             else case Decrypt (chacha (envCrypto E)) (envNow E) (if onCurrent then cur else the (previous c))
                    (tmCiphertext msg) (tmCounter msg) of
                 (r, s1) \<Rightarrow>
                   let c1 = (if onCurrent then c\<lparr>current := Some s1\<rparr> else c\<lparr>previous := Some s1\<rparr>)
                   in (case r of
                         Inl e \<Rightarrow> (Inl (SessionError e), c1)
                       | Inr plaintext \<Rightarrow>
                           let c2 = snd (doTick E False (c1\<lparr>cnLastReceived := envNow E\<rparr>));
                               c3 = (if isInitiator c \<and> \<not> rekeyTriggered c \<and> sessionCreated c \<noteq> 0
                                       \<and> RekeyOnRecvThreshold < envNow E - sessionCreated c
                                     then c2\<lparr>spawned := spawned c2 + 1\<rparr> else c2)
                           in if plaintext = [] then (Inr (0, []), c3)
                              else case DecodePayload plaintext of
                                  Inl e \<Rightarrow> (Inl (PayloadError e), c3)
                                | Inr (protocol, payload) \<Rightarrow>
                                    if protocol = ProtocolKCP then (Inl ErrKCPMustUseStream, c3)
                                    else (Inr (protocol, payload), c3)))"

text \<open>The goroutine started above; its error is only logged.\<close>

definition background_rekey :: "'w conn_env \<Rightarrow> 'w conn \<Rightarrow> 'w conn" where
  "background_rekey E c =
     (if spawned c = 0 then c else snd (initiateRekey E (c\<lparr>spawned := spawned c - 1\<rparr>)))"

definition recv_ready :: "'w conn \<Rightarrow> conn_error option" where
  "recv_ready c =
     (if cnState c = ConnStateClosed then Some ErrConnClosed
      else if cnState c = ConnStateNew \<and> current c = None \<and> hsState c = None then Some ErrNotEstablished
      else None)"

definition recv_packet ::
  "'w conn_env \<Rightarrow> byte list \<Rightarrow> addr option \<Rightarrow> 'w conn \<Rightarrow> (conn_error + (byte \<times> byte list)) \<times> 'w conn"
where
  "recv_packet E data fromAddr c =
     (case GetMessageType data of
        Inl e \<Rightarrow> (Inl (MessageError e), c)
      | Inr msgType \<Rightarrow>
          if msgType = MessageTypeTransport
          then (case ParseTransportMessage data of
                  Inl e \<Rightarrow> (Inl (MessageError e), c) | Inr msg \<Rightarrow> handleTransportMessage E msg c)
          else if msgType = MessageTypeHandshakeResp
          then (case ParseHandshakeResp data of
                  Inl e \<Rightarrow> (Inl (MessageError e), c) | Inr resp \<Rightarrow> handleHandshakeResponse E resp fromAddr c)
          else if msgType = MessageTypeHandshakeInit
          then (case ParseHandshakeInit data of
                  Inl e \<Rightarrow> (Inl (MessageError e), c) | Inr init \<Rightarrow> handleHandshakeInit E init fromAddr c)
          else (Inl (MessageError InvalidMessageType), c))"

text \<open>The connection of a listener reads its queue instead: \<open>None\<close> when it blocks.\<close>

definition recv_inbound ::
  "'w conn_env \<Rightarrow> 'w conn \<Rightarrow> ((conn_error + (byte \<times> byte list)) \<times> 'w conn) option"
where
  "recv_inbound E c =
     (case inbound c of
        None \<Rightarrow> None
      | Some q \<Rightarrow>
          (case inPackets q of
             [] \<Rightarrow> if inClosed q then Some (Inl ErrConnClosed, c) else None
           | (msg, from) # rest \<Rightarrow>
               let c1 = c\<lparr>inbound := Some (q\<lparr>inPackets := rest\<rparr>),
                          remoteAddr := (case from of None \<Rightarrow> remoteAddr c | Some a \<Rightarrow> a)\<rparr>
               in Some (handleTransportMessage E msg c1)))"

definition setInbound :: "inbound_queue \<Rightarrow> 'w conn \<Rightarrow> 'w conn" where
  "setInbound q c = c\<lparr>inbound := Some q\<rparr>"

text \<open>A send on a closed channel panics, hence the option.\<close>

definition deliverPacket :: "transport_message \<Rightarrow> addr option \<Rightarrow> 'w conn \<Rightarrow> (bool \<times> 'w conn) option" where
  "deliverPacket msg from c =
     (case inbound c of
        None \<Rightarrow> Some (False, c)
      | Some q \<Rightarrow>
          if cnState c = ConnStateClosed then Some (False, c)
          else if inClosed q then None
          else if length (inPackets q) < inCapacity q
          then Some (True, c\<lparr>inbound := Some (q\<lparr>inPackets := inPackets q @ [(msg, from)]\<rparr>)\<rparr>)
          else Some (False, c))"

definition conn_CloseConn :: "'w conn \<Rightarrow> 'w conn" where
  "conn_CloseConn c =
     (if cnState c = ConnStateClosed then c
      else (clear_handshake c)\<lparr>cnState := ConnStateClosed, current := map_option Expire (current c),
        previous := map_option Expire (previous c), pendingPackets := [], rekeyTriggered := False,
        tickTimer := timer_Close (tickTimer c)\<rparr>)"

definition SetSession :: "'w conn_env \<Rightarrow> session option \<Rightarrow> 'w conn \<Rightarrow> 'w conn" where
  "SetSession E s c =
     (case s of
        None \<Rightarrow> c\<lparr>current := None\<rparr>
      | Some s' \<Rightarrow>
          snd (doTick E False (c\<lparr>current := Some s', cnState := ConnStateEstablished,
            localIdx := localIndex s', sessionCreated := envNow E, cnLastSent := envNow E,
            cnLastReceived := envNow E, rekeyTriggered := False\<rparr>)))"

definition SetRemoteAddr :: "addr \<Rightarrow> 'w conn \<Rightarrow> 'w conn" where
  "SetRemoteAddr a c = c\<lparr>remoteAddr := a\<rparr>"

section \<open>Dialling\<close>

text \<open>
  One turn of the retry loop has its own environment, whether the context is done, and what reading
  the transport gives.
\<close>

datatype read_result = ReadTimeout | ReadFailed | ReadData "byte list" "addr option"

record 'w dial_turn =
  turnEnv :: "'w conn_env"
  turnDone :: bool
  turnRead :: read_result

definition read_response ::
  "crypto \<Rightarrow> read_result \<Rightarrow> handshake \<Rightarrow> 'w conn \<Rightarrow> (conn_error + (handshake_resp_message \<times> handshake)) \<times> 'w conn"
where
  "read_response C rd hs c =
     (case rd of
        ReadTimeout \<Rightarrow> (Inl ErrHandshakeTimeout, c)
      | ReadFailed \<Rightarrow> (Inl TransportError, c)
      | ReadData data from \<Rightarrow>
          (case ParseHandshakeResp data of
             Inl e \<Rightarrow> (Inl (MessageError e), c)
           | Inr resp \<Rightarrow>
               if hrReceiverIndex resp \<noteq> localIdx c then (Inl ErrInvalidReceiverIndex, c)
               else case ReadMessage C hs (resp_noise resp) of
                   (Inl e, hs1) \<Rightarrow> (Inl (HandshakeError e), c\<lparr>hsState := Some hs1\<rparr>)
                 | (Inr _, hs1) \<Rightarrow>
                     (Inr (resp, hs1), c\<lparr>hsState := Some hs1,
                        remoteAddr := (case from of None \<Rightarrow> remoteAddr c | Some a \<Rightarrow> a)\<rparr>)))"

text \<open>The loop over the turns given so far: \<open>None\<close> when it is still waiting after them.\<close>

fun dial_loop :: "'w dial_turn list \<Rightarrow> 'w conn \<Rightarrow> (conn_error option \<times> 'w conn) option" where
  "dial_loop [] c = None"
| "dial_loop (turn # turns) c =
     (let E = turnEnv turn
      in if turnDone turn then Some (Some ContextError, failHandshake c)
         else case make_init (envCrypto E) (envRandom E) (localKey c) (cnRemotePK c) (localIdx c) of
             Inl e \<Rightarrow> Some (Some (HandshakeError e), failHandshake c)
           | Inr (hs, wireMsg) \<Rightarrow>
               (case envWrite E (network c) wireMsg (remoteAddr c) of
                  (failed, w) \<Rightarrow>
                    if failed then Some (Some TransportError, failHandshake (c\<lparr>network := w\<rparr>))
                    else let c1 = c\<lparr>network := w, hsState := Some hs, lastHandshakeSent := envNow E,
                                isInitiator := True\<rparr>
                      in (case read_response (envCrypto E) (turnRead turn) hs c1 of
                            (Inl e, c2) \<Rightarrow>
                              if e = ErrHandshakeTimeout then dial_loop turns c2
                              else Some (Some e, failHandshake c2)
                          | (Inr (resp, _), c2) \<Rightarrow> Some (completeHandshake E (hrSenderIndex resp) None c2))))"

definition dialWithRetry :: "int \<Rightarrow> 'w dial_turn list \<Rightarrow> 'w conn \<Rightarrow> (conn_error option \<times> 'w conn) option" where
  "dialWithRetry now turns c =
     (if cnState c \<noteq> ConnStateNew then Some (Some ErrInvalidConnState, c)
      else dial_loop turns (c\<lparr>cnState := ConnStateHandshaking, handshakeStarted := now,
             handshakeAttemptStart := now\<rparr>))"

definition Dial ::
  "'w conn_env \<Rightarrow> 'w dial_turn list \<Rightarrow> 'w option \<Rightarrow> addr option \<Rightarrow> key \<Rightarrow> key_pair option \<Rightarrow> (conn_error + 'w conn) option"
where
  "Dial E turns transport raddr rpk key =
     (if key = None then Some (Inl ErrMissingLocalKey)
      else if transport = None then Some (Inl ErrMissingTransport)
      else if IsZero rpk then Some (Inl ErrMissingRemotePK)
      else case raddr of
          None \<Rightarrow> Some (Inl ErrMissingRemoteAddr)
        | Some a \<Rightarrow>
            (case newConn E key transport a rpk of
               Inl e \<Rightarrow> Some (Inl e)
             | Inr c \<Rightarrow>
                 (case dialWithRetry (envNow E) turns c of
                    None \<Rightarrow> None
                  | Some (Some e, _) \<Rightarrow> Some (Inl e)
                  | Some (None, c1) \<Rightarrow> Some (Inr c1))))"

end
