(* ===== verification/ConnExchange.thy ===== *)
theory ConnExchange
  imports Conn
begin

text \<open>
  The handshake of two connections over their packets: the sizes of the messages, the exchange seen from
  both ends, and that it leaves connections which deliver each other's data.
\<close>

section \<open>The handshake on the wire\<close>

lemma GenerateKeyPairFrom_length: "GenerateKeyPairFrom C r = Some kp \<Longrightarrow> length (kpPublic kp) = KeySize"
  by (auto simp: GenerateKeyPairFrom_def NewKeyPair_def Let_def split: option.splits)

lemma EncryptAndHash_length: "crypto_ok C \<Longrightarrow> length (fst (EncryptAndHash C ss k p)) = length p + TagSize"
  by (simp add: EncryptAndHash_def EncryptWithAD_def Let_def crypto_ok_def aead_correct_def)

lemma write_token_other:
  assumes "crypto_ok C" "write_token C r hs tok = (Inr out, hs1)" "tok \<noteq> TokE"
    and "\<And>kp. hcLocalStatic (hsConfig hs) = Some kp \<Longrightarrow> length (kpPublic kp) = KeySize"
  shows "hsConfig hs1 = hsConfig hs \<and> msgIndex hs1 = msgIndex hs \<and> localEphemeral hs1 = localEphemeral hs \<and>
    length out = (if tok = TokS then KeySize + TagSize else 0)"
proof (cases "tok = TokS")
  case True
  obtain k ss1 where m: "MixKey C (hsSS hs) [] = (k, ss1)" by (metis surj_pair)
  obtain kp where kp: "hcLocalStatic (hsConfig hs) = Some kp" using assms(2) True m by (auto split: option.splits)
  obtain c ss2 where e: "EncryptAndHash C ss1 k (kpPublic kp) = (c, ss2)" by (metis surj_pair)
  have "length c = KeySize + TagSize" using EncryptAndHash_length [OF assms(1), of ss1 k "kpPublic kp"] e assms(4) kp by simp
  then show ?thesis using assms(2) True m kp e by auto
next
  case False
  then show ?thesis using assms(2,3) by (cases tok; auto split: sum.splits)
qed

lemma write_tokens_other:
  assumes "crypto_ok C" "write_tokens C r hs toks = (Inr out, hs1)" "TokE \<notin> set toks"
    and "\<And>kp. hcLocalStatic (hsConfig hs) = Some kp \<Longrightarrow> length (kpPublic kp) = KeySize"
  shows "hsConfig hs1 = hsConfig hs \<and> msgIndex hs1 = msgIndex hs \<and> localEphemeral hs1 = localEphemeral hs \<and>
    length out = (KeySize + TagSize) * count_list toks TokS"
  using assms(2-)
proof (induction toks arbitrary: hs out)
  case Nil
  then show ?case by simp
next
  case (Cons tok toks)
  obtain o1 h1 o2 where 1: "write_token C r hs tok = (Inr o1, h1)" "write_tokens C r h1 toks = (Inr o2, hs1)" "out = o1 @ o2"
    using Cons.prems(1) by (auto split: prod.splits sum.splits)
  have t: "tok \<noteq> TokE" using Cons.prems(2) by auto
  note T = write_token_other [OF assms(1) 1(1) t Cons.prems(3)]
  have "hsConfig hs1 = hsConfig h1 \<and> msgIndex hs1 = msgIndex h1 \<and> localEphemeral hs1 = localEphemeral h1 \<and>
    length o2 = (KeySize + TagSize) * count_list toks TokS"
    using Cons.IH [OF 1(2)] Cons.prems(2,3) T by simp
  then show ?case using T 1(3) by auto
qed

lemma WriteMessage_shape:
  assumes "crypto_ok C" "WriteMessage C hs payload r = (Inr msg, hs1)"
    and "hs_messages hs ! msgIndex hs = TokE # toks" "TokE \<notin> set toks"
    and "\<And>kp. hcLocalStatic (hsConfig hs) = Some kp \<Longrightarrow> length (kpPublic kp) = KeySize"
  shows "take KeySize msg = LocalEphemeral hs1 \<and> length (LocalEphemeral hs1) = KeySize \<and>
    length msg = KeySize + (KeySize + TagSize) * count_list toks TokS +
      (if payload \<noteq> [] \<or> msgIndex hs + 1 = length (hs_messages hs) then length payload + TagSize else 0)"
proof -
  obtain m h where w: "write_tokens C r hs (TokE # toks) = (Inr m, h)"
    and msg: "if payload \<noteq> [] \<or> msgIndex h + 1 = length (hs_messages h)
      then \<exists>k ss1 c ss2. EncryptAndHash C ss1 k payload = (c, ss2) \<and> msg = m @ c \<and> hs1 = next_message (h\<lparr>hsSS := ss2\<rparr>)
      else msg = m \<and> hs1 = next_message h"
    using assms(2,3)
    by (auto simp: WriteMessage_def simp del: write_tokens.simps split: if_splits prod.splits sum.splits)
  obtain kp o2 where 1: "GenerateKeyPairFrom C r = Some kp" "m = kpPublic kp @ o2"
    "write_tokens C r (hs\<lparr>localEphemeral := Some kp, hsSS := mix_ephemeral C hs (kpPublic kp)\<rparr>) toks = (Inr o2, h)"
    using w by (auto split: option.splits prod.splits sum.splits)
  note S = write_tokens_other [OF assms(1) 1(3) assms(4)]
  have S: "hsConfig h = hsConfig hs" "msgIndex h = msgIndex hs" "localEphemeral h = Some kp"
    "length o2 = (KeySize + TagSize) * count_list toks TokS"
    using S assms(5) by auto
  have l: "length (kpPublic kp) = KeySize" by (rule GenerateKeyPairFrom_length [OF 1(1)])
  show ?thesis
  proof (cases "payload \<noteq> [] \<or> msgIndex hs + 1 = length (hs_messages hs)")
    case True
    then obtain k ss1 c ss2 where c: "EncryptAndHash C ss1 k payload = (c, ss2)" "msg = m @ c"
        "hs1 = next_message (h\<lparr>hsSS := ss2\<rparr>)" using msg S(1,2) by auto
    have "length c = length payload + TagSize" using EncryptAndHash_length [OF assms(1), of ss1 k payload] c(1) by simp
    then show ?thesis using c 1(2) S l True by (auto simp: LocalEphemeral_def)
  next
    case False
    then have "msg = m" "hs1 = next_message h" using msg S(1,2) by auto
    then show ?thesis using False 1(2) S l by (auto simp: LocalEphemeral_def)
  qed
qed

lemma ik_configs:
  "ik_initiator si (kpPublic sr) = initiator_config PatternIK [] None si sr"
  "ik_responder sr = responder_config PatternIK [] None sr"
  by (simp_all add: ik_initiator_def ik_responder_def initiator_config_def responder_config_def)

text \<open>The packets of an IK handshake carry its messages, and it completes over them.\<close>

lemma ik_exchange:
  assumes C: "crypto_ok C" and si: "good_pair C si" and sr: "good_pair C sr"
    and a: "length a = KeySize" and b: "length b = KeySize"
  shows "\<exists>hs1 msg1 init hr1 msg2 hr2 hs2 k1 k2.
    make_init C (Some a) si (kpPublic sr) idx = Inr (hs1, BuildHandshakeInit idx (LocalEphemeral hs1) (drop KeySize msg1)) \<and>
    ParseHandshakeInit (BuildHandshakeInit idx (LocalEphemeral hs1) (drop KeySize msg1)) = Inr init \<and>
    hiSenderIndex init = idx \<and>
    read_init C sr init = Inr hr1 \<and> remoteStatic hr1 = kpPublic si \<and>
    WriteMessage C hr1 [] (Some b) = (Inr msg2, hr2) \<and> hsFinished hr2 \<and>
    (\<forall>j. \<exists>resp. ParseHandshakeResp (BuildHandshakeResp j idx (LocalEphemeral hr2) (drop KeySize msg2)) = Inr resp \<and>
       hrSenderIndex resp = j \<and> hrReceiverIndex resp = idx \<and> ReadMessage C hs1 (resp_noise resp) = (Inr [], hs2)) \<and>
    hsFinished hs2 \<and> Split C hs2 = Inr (k1, k2) \<and> Split C hr2 = Inr (k2, k1) \<and>
    length (csKey k1) = KeySize \<and> length (csKey k2) = KeySize"
proof -
  obtain i r where s: "NewHandshakeState C (ik_initiator si (kpPublic sr)) = Inr i"
      "NewHandshakeState C (ik_responder sr) = Inr r" "sync C (False, False, False, True) i r"
      "hsConfig i = ik_initiator si (kpPublic sr)" "hsConfig r = ik_responder sr" "msgIndex i = 0" "\<not> hsFinished i"
    using handshake_starts [OF si sr, of PatternIK "[]" None] unfolding ik_configs by auto
  note lk = good_pair_length [OF si] good_pair_length [OF sr]
  have pat: "hs_messages i = [[TokE, TokES, TokS, TokSS], [TokE, TokEE, TokSE]]" "hcInitiator (hsConfig i)"
    using s(4) by (simp_all add: ik_initiator_def PatternIK_def)
  have turn: "my_turn i" using pat(2) s(6) by (simp add: my_turn_def)
  obtain msg1 i1 r1 where 1: "WriteMessage C i [] (Some a) = (Inr msg1, i1)" "ReadMessage C r msg1 = (Inr [], r1)"
      "sync C (False, True, True, True) r1 i1" "hsConfig i1 = hsConfig i" "hsConfig r1 = hsConfig r" "msgIndex i1 = 1"
      "\<not> hsFinished i1"
    using message_delivered [OF C a s(3), of True False True True "[]"] pat turn s(4,6,7) by (auto simp: ik_initiator_def)
  note F1 = sync_fields [OF 1(3)]
  have w1: "take KeySize msg1 = LocalEphemeral i1" "length (LocalEphemeral i1) = KeySize" "length msg1 = 2 * KeySize + TagSize"
    using WriteMessage_shape [OF C 1(1), of "[TokES, TokS, TokSS]"] pat s(4,6) lk by (auto simp: ik_initiator_def)
  have m1: "hs_messages r1 = hs_messages i" "\<not> hcInitiator (hsConfig r1)" "msgIndex r1 = 1" "\<not> hsFinished r1"
    using F1 1(4,6,7) pat(2) by simp_all
  have turn1: "my_turn r1" using m1 by (simp add: my_turn_def)
  obtain msg2 r2 i2 where 2: "WriteMessage C r1 [] (Some b) = (Inr msg2, r2)" "ReadMessage C i1 msg2 = (Inr [], i2)"
      "sync C (True, True, True, True) i2 r2" "hsConfig r2 = hsConfig r1" "hsConfig i2 = hsConfig i1" "hsFinished r2"
    using message_delivered [OF C b 1(3), of True True True True "[]"] pat turn1 m1 by auto
  have sk: "\<And>kp. hcLocalStatic (hsConfig r1) = Some kp \<Longrightarrow> length (kpPublic kp) = KeySize"
    using 1(5) s(5) lk by (simp add: ik_responder_def)
  have w2: "take KeySize msg2 = LocalEphemeral r2" "length (LocalEphemeral r2) = KeySize" "length msg2 = KeySize + TagSize"
    using WriteMessage_shape [OF C 2(1), of "[TokEE, TokSE]"] m1 pat sk by auto
  have fin: "hsFinished i2" "hcInitiator (hsConfig i2)" using sync_fields [OF 2(3)] 2(5,6) 1(4) pat(2) by auto
  obtain k1 k2 where k: "Split C i2 = Inr (k1, k2)" "Split C r2 = Inr (k2, k1)"
    using Split_sync [OF C 2(3) fin] by auto
  have kl: "length (csKey k1) = KeySize" "length (csKey k2) = KeySize"
    using k(1) fin by (auto simp: Split_def ss_Split_def NewCipherState_def Let_def HKDF_def HMAC_def
        HashSize_def KeySize_def split: if_splits sum.splits)
  let ?init = "\<lparr>hiSenderIndex = idx, hiEphemeral = LocalEphemeral i1, hiStatic = drop KeySize msg1\<rparr>"
  let ?resp = "\<lambda>j. \<lparr>hrSenderIndex = j, hrReceiverIndex = idx, hrEphemeral = LocalEphemeral r2, hrEmpty = drop KeySize msg2\<rparr>"
  have p1: "ParseHandshakeInit (BuildHandshakeInit idx (LocalEphemeral i1) (drop KeySize msg1)) = Inr ?init"
    using parse_build_init [of "LocalEphemeral i1" "drop KeySize msg1" idx "[]"] w1 by simp
  have p2: "ParseHandshakeResp (BuildHandshakeResp j idx (LocalEphemeral r2) (drop KeySize msg2)) = Inr (?resp j)" for j
    using parse_build_resp [of "LocalEphemeral r2" "drop KeySize msg2" j idx "[]"] w2 by simp
  have n1: "init_noise ?init = msg1"
    using w1 append_take_drop_id [of KeySize msg1] by (simp add: init_noise_def message_sizes)
  have n2: "resp_noise (?resp j) = msg2" for j
    using w2 append_take_drop_id [of KeySize msg2] by (simp add: resp_noise_def message_sizes)
  have "make_init C (Some a) si (kpPublic sr) idx = Inr (i1, BuildHandshakeInit idx (LocalEphemeral i1) (drop KeySize msg1))"
    using s(1) 1(1) by (simp add: make_init_def)
  moreover have "read_init C sr ?init = Inr r1" using s(2) 1(2) n1 by (simp add: read_init_def)
  moreover have "remoteStatic r1 = kpPublic si"
    using 1(3,4) s(4) by (auto simp: sync_def known_def ik_initiator_def)
  ultimately show ?thesis using p1 p2 n2 2 fin k kl by (metis handshake_init_message.select_convs(1) handshake_resp_message.select_convs(1,2))
qed

section \<open>Sending over an established connection\<close>

text \<open>A network that records what is sent.\<close>

definition wire_env :: "crypto \<Rightarrow> int \<Rightarrow> u32 option \<Rightarrow> key option \<Rightarrow> (byte list \<times> addr) list conn_env" where
  "wire_env C now idx random =
     \<lparr>envCrypto = C, envNow = now, envIndex = idx, envRandom = random,
      envWrite = (\<lambda>w bytes a. (False, w @ [(bytes, a)]))\<rparr>"

lemma wire_env_simps [simp]:
  "envCrypto (wire_env C now idx r) = C" "envNow (wire_env C now idx r) = now"
  "envIndex (wire_env C now idx r) = idx" "envRandom (wire_env C now idx r) = r"
  "envWrite (wire_env C now idx r) w p a = (False, w @ [(p, a)])"
  by (simp_all add: wire_env_def)

text \<open>
  A conversation: each item says when the packet is sent and read, its protocol and payload, the address
  it comes from, and whether the other end speaks next.  Every packet goes out and its payload is read as
  it was sent.
\<close>

type_synonym utterance = "int \<times> int \<times> byte \<times> byte list \<times> addr option \<times> bool"

fun conversation :: "crypto \<Rightarrow> utterance list \<Rightarrow> (byte list \<times> addr) list conn \<Rightarrow> (byte list \<times> addr) list conn \<Rightarrow> bool" where
  "conversation C [] x y \<longleftrightarrow> True"
| "conversation C ((now, now', protocol, payload, src, turn) # rest) x y \<longleftrightarrow>
     (\<exists>pkt x' y'. Send (wire_env C now None None) protocol payload x = (None, x') \<and>
        network x' = network x @ [(pkt, remoteAddr x)] \<and>
        recv_packet (wire_env C now' None None) pkt src y = (Inr (protocol, payload), y') \<and>
        (if turn then conversation C rest y' x' else conversation C rest x' y'))"

text \<open>
  The times of a conversation between two ends of which the first last heard something at \<open>h\<close> and has its
  session since \<open>c\<close>, the second at \<open>h'\<close> and since \<open>c'\<close>: nobody speaks who has a reason to handshake again,
  and nobody is spoken to whose session is too old.
\<close>

fun timely :: "int \<Rightarrow> int \<Rightarrow> int \<Rightarrow> int \<Rightarrow> utterance list \<Rightarrow> bool" where
  "timely h c h' c' [] \<longleftrightarrow> True"
| "timely h c h' c' ((now, now', protocol, payload, src, turn) # rest) \<longleftrightarrow>
     protocol \<noteq> ProtocolKCP \<and> now \<le> h + KeepaliveTimeout + RekeyTimeout \<and> now \<le> c + RekeyAfterTime \<and>
     now' \<le> c' + RekeyAfterTime \<and> (if turn then timely now' c' h c rest else timely h c now' c' rest)"

text \<open>Sessions that were made at the given times carry every timely conversation shorter than a rekey allows.\<close>

definition delivers ::
  "crypto \<Rightarrow> int \<Rightarrow> (byte list \<times> addr) list conn \<Rightarrow> int \<Rightarrow> (byte list \<times> addr) list conn \<Rightarrow> bool" where
  "delivers C t x t' y \<longleftrightarrow>
     (\<forall>said. timely t t t' t' said \<longrightarrow> length said \<le> unat RekeyAfterMessages \<longrightarrow> conversation C said x y)"

text \<open>An established connection that has nothing to do.\<close>

definition quiet :: "int \<Rightarrow> bool \<Rightarrow> 'w conn \<Rightarrow> bool" where
  "quiet now skip c \<longleftrightarrow>
     cnState c = ConnStateEstablished \<and> hsState c = None \<and> \<not> session_exhausted (current c) \<and>
     now - cnLastReceived c \<le> KeepaliveTimeout + RekeyTimeout \<and> \<not> needsRekey now c \<and>
     (skip \<or> now - cnLastSent c \<le> KeepaliveTimeout)"

lemma doTick_quiet:
  assumes "quiet (envNow E) skip c"
  shows "\<exists>tm. doTick E skip c = (None, c\<lparr>tickTimer := tm\<rparr>)"
proof -
  have t: "KeepaliveTimeout + RekeyTimeout \<le> RejectAfterTime" "KeepaliveTimeout + RekeyTimeout \<le> SessionCleanupTime"
    by (simp_all add: time_defs)
  have "\<exists>due. doTick_state E skip c = (Inr due, c)"
    using assms t by (auto simp: doTick_state_def tick_established_def quiet_def Let_def)
  then show ?thesis by (auto simp: doTick_def)
qed

lemma fresh_session:
  assumes "crypto_ok (envCrypto E)" "length (csKey k1) = KeySize" "length (csKey k2) = KeySize"
  shows "\<exists>s. session_of E li ri k1 k2 pk = Inr s \<and> localIndex s = li \<and> remoteIndex s = ri \<and>
    sendKey s = csKey k1 \<and> recvKey s = csKey k2 \<and> sendNonce s = 0 \<and> recvNonce s = NewReplayFilter \<and>
    sstate s = Established \<and> remotePK s = pk"
  using assms by (simp add: session_of_def NewSession_def crypto_ok_def aead_correct_def)

text \<open>A connection whose session is new: its indices, the own one first, and its keys, the sending one first.\<close>

definition established_with :: "u32 \<Rightarrow> u32 \<Rightarrow> key \<Rightarrow> key \<Rightarrow> 'w conn \<Rightarrow> bool" where
  "established_with li ri sk rk c \<longleftrightarrow>
     cnState c = ConnStateEstablished \<and> hsState c = None \<and> sessionCreated c = cnLastReceived c \<and>
     (\<exists>s. current c = Some s \<and> localIndex s = li \<and> remoteIndex s = ri \<and> sendKey s = sk \<and> recvKey s = rk \<and>
        sstate s = Established \<and> sendNonce s = 0 \<and> recvNonce s = NewReplayFilter)"

text \<open>Two established connections whose sessions fit.\<close>

definition joined :: "nat \<Rightarrow> 'w conn \<Rightarrow> 'w conn \<Rightarrow> bool" where
  "joined k x y \<longleftrightarrow>
     cnState x = ConnStateEstablished \<and> cnState y = ConnStateEstablished \<and> hsState x = None \<and> hsState y = None \<and>
     (\<exists>s r. current x = Some s \<and> current y = Some r \<and> session_link s r \<and> session_link r s \<and>
        unat (sendNonce s) + k \<le> unat RekeyAfterMessages \<and> unat (sendNonce r) + k \<le> unat RekeyAfterMessages)"

lemma joined_sym: "joined k x y \<Longrightarrow> joined k y x"
  by (auto simp: joined_def)

lemma room_left: "unat n + Suc k \<le> unat RekeyAfterMessages \<Longrightarrow> n < RekeyAfterMessages \<and> unat (n + 1) + k \<le> unat RekeyAfterMessages"
proof -
  assume n: "unat n + Suc k \<le> unat RekeyAfterMessages"
  then have "unat n + 1 < 2 ^ 64" using unat_u64_less [of RekeyAfterMessages] by linarith
  then have "unat (n + 1) = unat n + 1" by (simp add: unat_word_ariths(1))
  then show ?thesis using n by (simp add: word_less_nat_alt)
qed

lemma message_limits: "RekeyAfterMessages < MaxNonce" "RekeyAfterMessages < RejectAfterMessages"
  by (simp_all add: RekeyAfterMessages_def MaxNonce_def RejectAfterMessages_def)

lemma joined_quiet:
  assumes "cnState c = ConnStateEstablished" "hsState c = None" "current c = Some s" "session_link r s"
    and "sendNonce s \<le> RekeyAfterMessages" "sendNonce r \<le> RekeyAfterMessages"
    and "now \<le> cnLastReceived c + KeepaliveTimeout + RekeyTimeout" "now \<le> sessionCreated c + RekeyAfterTime"
  shows "quiet now True c"
proof -
  have "maxNonce (recvNonce s) \<le> RekeyAfterMessages" using assms(4,6) by (auto simp: session_link_def)
  then have "\<not> RejectAfterMessages < maxNonce (recvNonce s)" "\<not> RejectAfterMessages < sendNonce s"
    using message_limits(2) assms(5) by (meson less_le_trans less_trans not_less)+
  then show ?thesis using assms by (auto simp: quiet_def session_exhausted_def needsRekey_def)
qed

text \<open>A tick of a connection that has just heard something sends at most a keepalive.\<close>

lemma doTick_reader:
  assumes q: "quiet now True c" and s: "current c = Some s" "sstate s = Established" "sendNonce s < RekeyAfterMessages"
  shows "\<exists>s'. (s' = s \<or> s' = sent_one now s) \<and> cnState (snd (doTick (wire_env C now None None) False c)) = ConnStateEstablished \<and>
    cnLastReceived (snd (doTick (wire_env C now None None) False c)) = cnLastReceived c \<and>
    sessionCreated (snd (doTick (wire_env C now None None) False c)) = sessionCreated c \<and>
    hsState (snd (doTick (wire_env C now None None) False c)) = None \<and>
    current (snd (doTick (wire_env C now None None) False c)) = Some s'"
proof -
  let ?E = "wire_env C now None None"
  have t: "KeepaliveTimeout + RekeyTimeout \<le> RejectAfterTime" "KeepaliveTimeout + RekeyTimeout \<le> SessionCleanupTime"
    by (simp_all add: time_defs)
  have "sendNonce s < MaxNonce" using s(3) message_limits(1) by (rule less_trans)
  note enc = Encrypt_sends [OF s(2) this]
  obtain ct where k: "SendKeepalive ?E c = (None, c\<lparr>current := Some (sent_one now s),
      network := network c @ [(ct, remoteAddr c)], cnLastSent := now\<rparr>)"
    using q s by (auto simp: SendKeepalive_def cn_sendPayload_def quiet_def enc)
  have "\<exists>due c'. doTick_state ?E False c = (Inr due, c') \<and> (c' = c \<or> c' = c\<lparr>current := Some (sent_one now s),
      network := network c @ [(ct, remoteAddr c)], cnLastSent := now\<rparr>)"
    using q t by (auto simp: doTick_state_def tick_established_def quiet_def Let_def k)
  then show ?thesis using q s(1) by (auto simp: doTick_def quiet_def)
qed

text \<open>One packet of a conversation.\<close>

lemma joined_speaks:
  assumes C: "crypto_ok C" and j: "joined (Suc k) x y" and p: "protocol \<noteq> ProtocolKCP"
    and m: "now \<le> cnLastReceived x + KeepaliveTimeout + RekeyTimeout" "now \<le> sessionCreated x + RekeyAfterTime"
    and mr: "now' \<le> sessionCreated y + RekeyAfterTime"
  shows "\<exists>pkt x' y'. Send (wire_env C now None None) protocol payload x = (None, x') \<and>
    network x' = network x @ [(pkt, remoteAddr x)] \<and>
    recv_packet (wire_env C now' None None) pkt src y = (Inr (protocol, payload), y') \<and> joined k x' y' \<and>
    cnLastReceived x' = cnLastReceived x \<and> sessionCreated x' = sessionCreated x \<and>
    cnLastReceived y' = now' \<and> sessionCreated y' = sessionCreated y"
proof -
  obtain s r where x: "cnState x = ConnStateEstablished" "hsState x = None" "current x = Some s" and
    y: "cnState y = ConnStateEstablished" "hsState y = None" "current y = Some r" and
    l: "session_link s r" "session_link r s" and
    room: "unat (sendNonce s) + Suc k \<le> unat RekeyAfterMessages" "unat (sendNonce r) + Suc k \<le> unat RekeyAfterMessages"
    using j by (auto simp: joined_def)
  have few: "sendNonce s \<le> RekeyAfterMessages" "sendNonce r \<le> RekeyAfterMessages"
    using room_left [OF room(1)] room_left [OF room(2)] by auto
  let ?E = "wire_env C now None None" and ?E' = "wire_env C now' None None" and ?pl = "EncodePayload protocol payload"
  have A: "aead_correct (chacha C)" using C by (simp add: crypto_ok_def)
  have st: "sstate s = Established" "sstate r = Established" using l by (simp_all add: session_link_def)
  have n: "sendNonce s < RekeyAfterMessages" "sendNonce s < MaxNonce"
    using room_left [OF room(1)] message_limits(1) by auto
  have n1: "sendNonce s + 1 \<le> RekeyAfterMessages" using n(1) by (rule inc_le)
  let ?s1 = "sent_one now s"
  define ct where "ct = aead_seal (chacha C) (sendKey s) (nonceBytes (sendNonce s)) ?pl []"
  define pkt where "pkt = BuildTransportMessage (remoteIndex s) (sendNonce s) ct"
  have q1: "quiet now True x" using joined_quiet [OF x l(2) few] m by simp
  then obtain tm where t1: "doTick ?E True x = (None, x\<lparr>tickTimer := tm\<rparr>)" using doTick_quiet [of ?E True x] by auto
  let ?x1 = "x\<lparr>tickTimer := tm, current := Some ?s1, network := network x @ [(pkt, remoteAddr x)], cnLastSent := now\<rparr>"
  have s1: "cn_sendPayload ?E (Some ?pl) False (x\<lparr>tickTimer := tm\<rparr>) = (None, ?x1)"
    using x by (simp add: cn_sendPayload_def Encrypt_sends [OF st(1) n(2)] ct_def pkt_def)
  have "quiet now True ?x1"
    using joined_quiet [of ?x1 ?s1 r now] x n1 few(2) m l(2) by (simp add: session_link_sent_back)
  then have "quiet now False ?x1" by (simp add: quiet_def time_defs)
  then obtain tm2 where t2: "doTick ?E False ?x1 = (None, ?x1\<lparr>tickTimer := tm2\<rparr>)" using doTick_quiet [of ?E False ?x1] by auto
  let ?x' = "?x1\<lparr>tickTimer := tm2\<rparr>"
  have snd: "Send ?E protocol payload x = (None, ?x')" using p t1 s1 t2 by (simp add: Send_def)
  let ?r1 = "received_one now' (sendNonce s) r"
  note dl = session_link_delivers [OF A l n(2) ct_def]
  note D = dl(1) [where tb = now'] dl(2,3) [where ta = now and tb = now']
  obtain msg where msg: "ParseTransportMessage pkt = Inr msg" "tmReceiverIndex msg = localIndex r"
    "Decrypt (chacha C) now' r (tmCiphertext msg) (tmCounter msg) = (Inr ?pl, ?r1)" using D(1) by (auto simp: pkt_def)
  have ty: "GetMessageType pkt = Inr MessageTypeTransport" by (simp add: pkt_def GetMessageType_def BuildTransportMessage_def)
  have ne: "?pl \<noteq> []" by (simp add: EncodePayload_def)
  let ?y1 = "y\<lparr>current := Some ?r1, cnLastReceived := now'\<rparr>"
  let ?y2 = "snd (doTick ?E' False ?y1)"
  obtain y' where y': "recv_packet ?E' pkt src y = (Inr (protocol, payload), y')"
    "y' = ?y2 \<or> y' = ?y2\<lparr>spawned := spawned ?y2 + 1\<rparr>"
    using ty ne msg y(3) p by (simp add: recv_packet_def handleTransportMessage_def decode_encode_payload Let_def)
  have few_r: "sendNonce ?r1 < RekeyAfterMessages" using room_left [OF room(2)] by simp
  have "quiet now' True ?y1"
    using joined_quiet [of ?y1 ?r1 ?s1 now'] y n1 few(2) D(2) mr by (simp add: time_defs)
  from doTick_reader [OF this _ _ few_r, of C]
  obtain r' where r': "r' = ?r1 \<or> r' = sent_one now' ?r1" "cnState ?y2 = ConnStateEstablished" "hsState ?y2 = None"
    "current ?y2 = Some r'" "cnLastReceived ?y2 = now'" "sessionCreated ?y2 = sessionCreated y"
    using st(2) by auto
  have "sendNonce ?r1 < MaxNonce" using few_r message_limits(1) by (rule less_trans)
  then have "session_link ?s1 r' \<and> session_link r' ?s1" using r'(1) D(2,3) session_link_sent session_link_sent_back by blast
  moreover have "unat (sendNonce r') + k \<le> unat RekeyAfterMessages" using r'(1) room(2) room_left [OF room(2)] by auto
  moreover have "unat (sendNonce ?s1) + k \<le> unat RekeyAfterMessages" using room_left [OF room(1)] by simp
  ultimately have "joined k ?x' y'" using x r' y'(2) by (auto simp: joined_def)
  moreover have "cnLastReceived y' = now'" "sessionCreated y' = sessionCreated y" using r'(5,6) y'(2) by auto
  ultimately show ?thesis using snd y'(1) by (intro exI [of _ pkt] exI [of _ ?x'] exI [of _ y']) simp
qed

lemma joined_converses:
  "crypto_ok C \<Longrightarrow> joined (length said) x y \<Longrightarrow>
    timely (cnLastReceived x) (sessionCreated x) (cnLastReceived y) (sessionCreated y) said \<Longrightarrow> conversation C said x y"
proof (induction said arbitrary: x y)
  case (Cons u said)
  obtain now now' protocol payload src turn where u: "u = (now, now', protocol, payload, src, turn)" by (metis prod_cases6)
  have j: "joined (Suc (length said)) x y" using Cons.prems(2) by simp
  have c: "protocol \<noteq> ProtocolKCP" "now \<le> cnLastReceived x + KeepaliveTimeout + RekeyTimeout"
    "now \<le> sessionCreated x + RekeyAfterTime" "now' \<le> sessionCreated y + RekeyAfterTime"
    using Cons.prems(3) by (simp_all add: u)
  obtain pkt x' y' where *: "Send (wire_env C now None None) protocol payload x = (None, x')"
    "network x' = network x @ [(pkt, remoteAddr x)]"
    "recv_packet (wire_env C now' None None) pkt src y = (Inr (protocol, payload), y')" "joined (length said) x' y'"
    "cnLastReceived x' = cnLastReceived x" "sessionCreated x' = sessionCreated x"
    "cnLastReceived y' = now'" "sessionCreated y' = sessionCreated y"
    using joined_speaks [OF Cons.prems(1) j c] by blast
  have "if turn then conversation C said y' x' else conversation C said x' y'"
    using Cons.IH [OF Cons.prems(1) *(4)] Cons.IH [OF Cons.prems(1) joined_sym [OF *(4)]] Cons.prems(3) *(5-8)
    by (simp add: u split: if_splits)
  then show ?case unfolding u conversation.simps using *(1-3) by blast
qed simp

lemma fresh_delivers:
  assumes C: "crypto_ok C" and x: "established_with li ri k1 k2 x" and y: "established_with ri li k2 k1 y"
    and t: "cnLastReceived x = t" "cnLastReceived y = t'"
  shows "delivers C t x t' y"
proof -
  have "joined k x y" if "k \<le> unat RekeyAfterMessages" for k
    using x y that session_link_new by (fastforce simp: established_with_def joined_def)
  moreover have "sessionCreated x = t" "sessionCreated y = t'" using x y t by (simp_all add: established_with_def)
  ultimately show ?thesis using joined_converses [OF C] t by (simp add: delivers_def)
qed

text \<open>The dialler's lost turns only replace the handshake and send another initiation.\<close>

definition lost_turn :: "crypto \<Rightarrow> (byte list \<times> addr) list dial_turn \<Rightarrow> bool" where
  "lost_turn C turn \<longleftrightarrow>
     (\<exists>now a. turnEnv turn = wire_env C now None (Some a) \<and> length a = KeySize \<and> \<not> turnDone turn \<and>
       turnRead turn = ReadTimeout)"

lemma dial_lost_turns:
  assumes "crypto_ok C" "good_pair C (localKey c)" "good_pair C sr" "cnRemotePK c = kpPublic sr"
    and "\<forall>turn \<in> set lost. lost_turn C turn"
  shows "\<exists>hs sent last init. \<forall>turns. dial_loop (lost @ turns) c =
    dial_loop turns (c\<lparr>network := network c @ sent, hsState := hs, lastHandshakeSent := last, isInitiator := init\<rparr>)"
  using assms
proof (induction lost arbitrary: c)
  case Nil
  have "c = c\<lparr>network := network c @ [], hsState := hsState c, lastHandshakeSent := lastHandshakeSent c, isInitiator := isInitiator c\<rparr>"
    by simp
  then show ?case by (metis append_Nil)
next
  case (Cons turn lost)
  obtain now a where t: "turnEnv turn = wire_env C now None (Some a)" "length a = KeySize" "\<not> turnDone turn"
      "turnRead turn = ReadTimeout"
    using Cons.prems(5) by (auto simp: lost_turn_def)
  obtain hs wire where m: "make_init C (Some a) (localKey c) (kpPublic sr) (localIdx c) = Inr (hs, wire)"
    using ik_exchange [OF Cons.prems(1-3) t(2) t(2)] by metis
  let ?c = "c\<lparr>network := network c @ [(wire, remoteAddr c)], hsState := Some hs, lastHandshakeSent := now, isInitiator := True\<rparr>"
  have "dial_loop ((turn # lost) @ turns) c = dial_loop (lost @ turns) ?c" for turns
    using t m Cons.prems(4) by (simp add: read_response_def Let_def)
  moreover obtain hs' sent last init where "\<forall>turns. dial_loop (lost @ turns) ?c =
      dial_loop turns (?c\<lparr>network := network ?c @ sent, hsState := hs', lastHandshakeSent := last, isInitiator := init\<rparr>)"
    using Cons.IH [of ?c] Cons.prems by auto
  ultimately have "\<forall>turns. dial_loop ((turn # lost) @ turns) c =
      dial_loop turns (c\<lparr>network := network c @ ((wire, remoteAddr c) # sent), hsState := hs', lastHandshakeSent := last, isInitiator := init\<rparr>)"
    by simp
  then show ?case by blast
qed

lemma completeHandshake_fresh:
  assumes "crypto_ok (envCrypto E)" "hsState c = Some hs" "hsFinished hs" "Split (envCrypto E) hs = Inr (k1, k2)"
    and "length (csKey k1) = KeySize" "length (csKey k2) = KeySize" "pendingPackets c = []"
  shows "\<exists>c'. completeHandshake E ri rpk c = (None, c') \<and> established_with (localIdx c) ri (csKey k1) (csKey k2) c' \<and>
    cnRemotePK c' = (case rpk of None \<Rightarrow> cnRemotePK c | Some pk \<Rightarrow> pk) \<and> network c' = network c \<and> localIdx c' = localIdx c \<and>
    cnLastReceived c' = envNow E"
proof -
  define pk where "pk = (case rpk of None \<Rightarrow> cnRemotePK c | Some pk \<Rightarrow> pk)"
  let ?c1 = "case rpk of None \<Rightarrow> c | Some pk \<Rightarrow> c\<lparr>cnRemotePK := pk\<rparr>"
  have c1: "?c1 = c\<lparr>cnRemotePK := pk\<rparr>" by (cases rpk) (simp_all add: pk_def)
  obtain s where s: "session_of E (localIdx c) ri k1 k2 pk = Inr s" "localIndex s = localIdx c" "remoteIndex s = ri"
      "sendKey s = csKey k1" "recvKey s = csKey k2" "sendNonce s = 0" "recvNonce s = NewReplayFilter"
      "sstate s = Established"
    using fresh_session [OF assms(1,5,6)] by blast
  let ?c2 = "(clear_handshake (rotate E s (c\<lparr>cnRemotePK := pk\<rparr>)))\<lparr>cnLastSent := envNow E\<rparr>"
  have "quiet (envNow E) False ?c2"
    using s(6,7) by (simp add: quiet_def clear_handshake_def rotate_def session_exhausted_def needsRekey_def
        maxNonce_new time_defs)
  then obtain tm where "doTick E False ?c2 = (None, ?c2\<lparr>tickTimer := tm\<rparr>)" using doTick_quiet by blast
  moreover have "pendingPackets ?c2 = []" using assms(7) by (simp add: clear_handshake_def rotate_def)
  ultimately have "completeHandshake E ri rpk c = (None, ?c2\<lparr>tickTimer := tm\<rparr>)"
    using assms(2-4) s(1) by (simp add: completeHandshake_def c1 Let_def)
  then show ?thesis unfolding pk_def [symmetric]
    using s by (simp add: clear_handshake_def rotate_def established_with_def)
qed

text \<open>The two ends of one exchange: the responder answers the initiation with \<open>reply\<close>, and the dialler, reading
  \<open>reply\<close> in the turn it sent the initiation, completes the handshake.\<close>

lemma exchange_established:
  assumes C: "crypto_ok C" "good_pair C (localKey ci)" "good_pair C sr" "length a = KeySize" "length b = KeySize"
    and ci: "cnRemotePK ci = kpPublic sr" "pendingPackets ci = []"
    and cr: "cnState cr = ConnStateNew" "localKey cr = sr" "pendingPackets cr = []"
  shows "\<exists>wire init reply ci' cr' k1 k2. ParseHandshakeInit wire = Inr init \<and>
    conn_accept (wire_env C t' None (Some b)) init cr = (Inr reply, cr') \<and>
    dial_loop [\<lparr>turnEnv = wire_env C t None (Some a), turnDone = False, turnRead = ReadData reply None\<rparr>] ci =
      Some (None, ci') \<and>
    last (network ci') = (wire, remoteAddr ci) \<and> cnRemotePK ci' = kpPublic sr \<and> cnRemotePK cr' = kpPublic (localKey ci) \<and>
    established_with (localIdx ci) (localIdx cr) k1 k2 ci' \<and> established_with (localIdx cr) (localIdx ci) k2 k1 cr' \<and>
    cnLastReceived ci' = t \<and> cnLastReceived cr' = t'"
proof -
  let ?Er = "wire_env C t' None (Some b)" and ?Ei = "wire_env C t None (Some a)" and ?i = "localIdx ci" and ?r = "localIdx cr"
  obtain hs1 msg1 init hr1 msg2 hr2 hs2 k1 k2 where X:
    "make_init C (Some a) (localKey ci) (kpPublic sr) ?i = Inr (hs1, BuildHandshakeInit ?i (LocalEphemeral hs1) (drop KeySize msg1))"
    "ParseHandshakeInit (BuildHandshakeInit ?i (LocalEphemeral hs1) (drop KeySize msg1)) = Inr init"
    "hiSenderIndex init = ?i" "read_init C sr init = Inr hr1" "remoteStatic hr1 = kpPublic (localKey ci)"
    "WriteMessage C hr1 [] (Some b) = (Inr msg2, hr2)" "hsFinished hr2"
    "\<And>j. \<exists>resp. ParseHandshakeResp (BuildHandshakeResp j ?i (LocalEphemeral hr2) (drop KeySize msg2)) = Inr resp \<and>
       hrSenderIndex resp = j \<and> hrReceiverIndex resp = ?i \<and> ReadMessage C hs1 (resp_noise resp) = (Inr [], hs2)"
    "hsFinished hs2" "Split C hs2 = Inr (k1, k2)" "Split C hr2 = Inr (k2, k1)"
    "length (csKey k1) = KeySize" "length (csKey k2) = KeySize"
    using ik_exchange [OF C, of ?i] by metis
  let ?wire = "BuildHandshakeInit ?i (LocalEphemeral hs1) (drop KeySize msg1)"
  let ?reply = "BuildHandshakeResp ?r ?i (LocalEphemeral hr2) (drop KeySize msg2)"
  obtain resp where resp: "ParseHandshakeResp ?reply = Inr resp" "hrSenderIndex resp = ?r" "hrReceiverIndex resp = ?i"
      "ReadMessage C hs1 (resp_noise resp) = (Inr [], hs2)" using X(8) by blast
  let ?cr1 = "cr\<lparr>cnState := ConnStateHandshaking, handshakeStarted := t', hsState := Some hr2\<rparr>"
  obtain cr' where R: "completeHandshake ?Er ?i (Some (kpPublic (localKey ci))) ?cr1 = (None, cr')"
      "established_with ?r ?i (csKey k2) (csKey k1) cr'" "cnRemotePK cr' = kpPublic (localKey ci)" "localIdx cr' = ?r" "cnLastReceived cr' = t'"
    using completeHandshake_fresh [of ?Er ?cr1 hr2 k2 k1 ?i "Some (kpPublic (localKey ci))"] C(1) X cr by auto
  have acc: "conn_accept ?Er init cr = (Inr ?reply, cr')" using R(1,4) X(3-6) cr by (simp add: conn_accept_def)
  let ?ci1 = "ci\<lparr>network := network ci @ [(?wire, remoteAddr ci)], lastHandshakeSent := t, isInitiator := True, hsState := Some hs2\<rparr>"
  obtain ci' where I: "completeHandshake ?Ei ?r None ?ci1 = (None, ci')"
      "established_with ?i ?r (csKey k1) (csKey k2) ci'" "cnRemotePK ci' = kpPublic sr" "network ci' = network ?ci1" "cnLastReceived ci' = t"
    using completeHandshake_fresh [of ?Ei ?ci1 hs2 k1 k2 ?r None] C(1) X ci by auto
  have "dial_loop [\<lparr>turnEnv = ?Ei, turnDone = False, turnRead = ReadData ?reply None\<rparr>] ci = Some (None, ci')"
    using X(1) ci resp I(1) by (simp add: read_response_def Let_def)
  moreover have "last (network ci') = (?wire, remoteAddr ci)" using I(4) by simp
  ultimately show ?thesis using X(2) acc R(2,3,5) I(2,3,5) by blast
qed

lemma handle_init_fresh:
  assumes "crypto_ok (envCrypto E)" "read_init (envCrypto E) (localKey c) init = Inr hr1" "remoteStatic hr1 = cnRemotePK c"
    and "WriteMessage (envCrypto E) hr1 [] (envRandom E) = (Inr msg2, hr2)" "envIndex E = Some r"
    and "Split (envCrypto E) hr2 = Inr (k1, k2)" "length (csKey k1) = KeySize" "length (csKey k2) = KeySize"
    and "\<And>w p a. \<not> fst (envWrite E w p a)" "hsState c = None"
  shows "\<exists>c'. handleHandshakeInit E init src c = (Inr (0, []), c') \<and>
    established_with r (hiSenderIndex init) (csKey k1) (csKey k2) c'"
proof -
  obtain s where s: "session_of E r (hiSenderIndex init) k1 k2 (cnRemotePK c) = Inr s" "localIndex s = r"
      "remoteIndex s = hiSenderIndex init" "sendKey s = csKey k1" "recvKey s = csKey k2" "sendNonce s = 0"
      "recvNonce s = NewReplayFilter" "sstate s = Established"
    using fresh_session [OF assms(1,7,8)] by blast
  let ?ra = "case src of None \<Rightarrow> remoteAddr c | Some a \<Rightarrow> a"
  let ?reply = "BuildHandshakeResp r (hiSenderIndex init) (LocalEphemeral hr2) (drop KeySize msg2)"
  obtain w where w: "envWrite E (network c) ?reply ?ra = (False, w)" using assms(9) by (metis prod.collapse)
  let ?c1 = "(rotate E s c)\<lparr>network := w, localIdx := r, cnLastSent := envNow E, isInitiator := False, remoteAddr := ?ra\<rparr>"
  have "quiet (envNow E) False ?c1"
    using s(6,7) assms(10) by (simp add: quiet_def rotate_def session_exhausted_def needsRekey_def maxNonce_new time_defs)
  then obtain tm where "doTick E False ?c1 = (None, ?c1\<lparr>tickTimer := tm\<rparr>)" using doTick_quiet by blast
  then have "handleHandshakeInit E init src c = (Inr (0, []), ?c1\<lparr>tickTimer := tm\<rparr>)"
    using assms(2-6) s(1) w by (simp add: handleHandshakeInit_def Let_def)
  then show ?thesis using s assms(10) by (simp add: established_with_def rotate_def)
qed

section \<open>Properties\<close>

text \<open>
  C2: Dialling and accepting establish a connection that carries data both ways: whatever number of
  initiations is lost, the reply of the responder to the last one makes both ends established, each
  knowing the other's static key and session index, and from then on every conversation of the two,
  whoever speaks when, goes through as it was said.  Bounds: at most RekeyAfterMessages packets, sessions
  not older than RekeyAfterTime, and nobody speaks who has heard nothing for longer than the time after
  which an initiator handshakes again (\<open>timely\<close>).
\<close>

theorem dial_accept_deliver:
  assumes "crypto_ok C" and "good_pair C si" and "good_pair C sr" and "length a = KeySize" and "length b = KeySize"
    and "newConn (wire_env C t0 (Some i) None) (Some si) (Some []) ai (kpPublic sr) = Inr ci"
    and "newConn (wire_env C t1 (Some r) None) (Some sr) (Some []) ar (replicate KeySize 0) = Inr cr"
    and "\<forall>turn \<in> set lost. lost_turn C turn"
  shows "\<exists>wire init reply ci' cr'.
    dialWithRetry t2 (lost @ [\<lparr>turnEnv = wire_env C t3 None (Some a), turnDone = False,
      turnRead = ReadData reply None\<rparr>]) ci = Some (None, ci') \<and>
    last (network ci') = (wire, ai) \<and> ParseHandshakeInit wire = Inr init \<and>
    conn_accept (wire_env C t4 None (Some b)) init cr = (Inr reply, cr') \<and>
    cnState ci' = ConnStateEstablished \<and> cnState cr' = ConnStateEstablished \<and>
    cnRemotePK ci' = kpPublic sr \<and> cnRemotePK cr' = kpPublic si \<and>
    map_option localIndex (current ci') = map_option remoteIndex (current cr') \<and>
    map_option localIndex (current cr') = map_option remoteIndex (current ci') \<and>
    delivers C t3 ci' t4 cr' \<and> delivers C t4 cr' t3 ci'"
proof -
  have ci: "cnState ci = ConnStateNew" "localKey ci = si" "cnRemotePK ci = kpPublic sr" "pendingPackets ci = []" "remoteAddr ci = ai"
    using assms(6) by (auto simp: newConn_def)
  have cr: "cnState cr = ConnStateNew" "localKey cr = sr" "pendingPackets cr = []"
    using assms(7) by (auto simp: newConn_def)
  let ?turn = "\<lambda>reply. \<lparr>turnEnv = wire_env C t3 None (Some a), turnDone = False, turnRead = ReadData reply None\<rparr>"
  let ?ci0 = "ci\<lparr>cnState := ConnStateHandshaking, handshakeStarted := t2, handshakeAttemptStart := t2\<rparr>"
  obtain hs sent ls ini where L: "dial_loop (lost @ [?turn reply]) ?ci0 =
      dial_loop [?turn reply] (?ci0\<lparr>network := network ci @ sent, hsState := hs, lastHandshakeSent := ls, isInitiator := ini\<rparr>)" for reply
    using dial_lost_turns [of C ?ci0 sr lost] assms ci by auto
  let ?ci1 = "?ci0\<lparr>network := network ci @ sent, hsState := hs, lastHandshakeSent := ls, isInitiator := ini\<rparr>"
  obtain wire init reply ci' cr' k1 k2 where X: "ParseHandshakeInit wire = Inr init"
    "conn_accept (wire_env C t4 None (Some b)) init cr = (Inr reply, cr')"
    "dial_loop [?turn reply] ?ci1 = Some (None, ci')"
    "last (network ci') = (wire, ai)" "cnRemotePK ci' = kpPublic sr" "cnRemotePK cr' = kpPublic si"
    "established_with (localIdx ci) (localIdx cr) k1 k2 ci'" "established_with (localIdx cr) (localIdx ci) k2 k1 cr'"
    "cnLastReceived ci' = t3" "cnLastReceived cr' = t4"
    using exchange_established [of C ?ci1 sr a b cr t4 t3] assms(1-5) ci cr by auto
  have D: "dialWithRetry t2 (lost @ [?turn reply]) ci = Some (None, ci')" using ci(1) L X(3) by (simp add: dialWithRetry_def)
  have "delivers C t3 ci' t4 cr'" "delivers C t4 cr' t3 ci'" using fresh_delivers [OF assms(1)] X(7-10) by blast+
  moreover have "map_option localIndex (current ci') = map_option remoteIndex (current cr')"
    "map_option localIndex (current cr') = map_option remoteIndex (current ci')"
    "cnState ci' = ConnStateEstablished" "cnState cr' = ConnStateEstablished"
    using X(7,8) by (auto simp: established_with_def)
  ultimately show ?thesis using D X(1,2,4-6) by blast
qed

section \<open>The properties at a concrete input\<close>

theorem dial_accept_deliver_witness:
  "\<exists>si sr ci cr. newConn (wire_env demo_crypto 1 (Some 7) None) (Some si) (Some []) ''r'' (kpPublic sr) = Inr ci \<and>
    newConn (wire_env demo_crypto 1 (Some 9) None) (Some sr) (Some []) ''i'' (replicate KeySize 0) = Inr cr \<and>
    (\<exists>reply ci' cr'. dialWithRetry 1
        [\<lparr>turnEnv = wire_env demo_crypto 1 None (Some (replicate 32 5)), turnDone = False, turnRead = ReadTimeout\<rparr>,
         \<lparr>turnEnv = wire_env demo_crypto 3 None (Some (replicate 32 3)), turnDone = False,
          turnRead = ReadData reply None\<rparr>] ci = Some (None, ci') \<and>
      delivers demo_crypto 3 ci' 2 cr' \<and> delivers demo_crypto 2 cr' 3 ci')"
proof -
  obtain kp where kp: "good_pair demo_crypto kp" using demo_key_pair by blast
  let ?lost = "[\<lparr>turnEnv = wire_env demo_crypto 1 None (Some (replicate 32 5)), turnDone = False, turnRead = ReadTimeout\<rparr>]"
  obtain ci cr where c: "newConn (wire_env demo_crypto 1 (Some 7) None) (Some kp) (Some []) ''r'' (kpPublic kp) = Inr ci"
    "newConn (wire_env demo_crypto 1 (Some 9) None) (Some kp) (Some []) ''i'' (replicate KeySize 0) = Inr cr"
    by (simp add: newConn_def)
  have "\<forall>turn \<in> set ?lost. lost_turn demo_crypto turn"
    unfolding lost_turn_def by (auto simp: KeySize_def intro!: exI [of _ 1] exI [of _ "replicate 32 5"])
  from dial_accept_deliver [OF demo_crypto_ok kp kp _ _ c this, of "replicate 32 3" "replicate 32 4" 1 3 2]
  have F: "\<exists>reply ci' cr'. dialWithRetry 1
        [\<lparr>turnEnv = wire_env demo_crypto 1 None (Some (replicate 32 5)), turnDone = False, turnRead = ReadTimeout\<rparr>,
         \<lparr>turnEnv = wire_env demo_crypto 3 None (Some (replicate 32 3)), turnDone = False,
          turnRead = ReadData reply None\<rparr>] ci = Some (None, ci') \<and>
      delivers demo_crypto 3 ci' 2 cr' \<and> delivers demo_crypto 2 cr' 3 ci'"
    by (auto simp: KeySize_def)
  show ?thesis by (rule exI [of _ kp], rule exI [of _ kp], rule exI [of _ ci], rule exI [of _ cr]) (intro conjI c F)
qed

end
