(* ===== verification/ConnTimers.thy ===== *)
theory ConnTimers
  imports ConnExchange
begin

text \<open>
  The timers of a connection and its end: that the deadline a tick computes covers everything a later
  tick could do, what closing a connection guarantees, and the situations in which a connection stops
  working without being closed.
\<close>

section \<open>The timer\<close>

















lemma retransmit_timer [simp]: "tickTimer (snd (retransmitHandshake E c)) = tickTimer c"
  by (auto simp: retransmitHandshake_def split: option.splits sum.splits prod.splits)

lemma rekey_timer [simp]: "tickTimer (snd (initiateRekey E c)) = tickTimer c"
  by (auto simp: initiateRekey_def split: option.splits sum.splits prod.splits)

lemma keepalive_timer [simp]: "tickTimer (snd (SendKeepalive E c)) = tickTimer c"
proof (cases "current c")
  case None
  then show ?thesis by (simp add: SendKeepalive_def cn_sendPayload_def)
next
  case (Some s)
  then show ?thesis
    by (cases "Encrypt (chacha (envCrypto E)) (envNow E) s []"; cases "fst (Encrypt (chacha (envCrypto E)) (envNow E) s [])")
      (auto simp: SendKeepalive_def cn_sendPayload_def split: bool.split prod.splits)
qed








section \<open>After the end\<close>

text \<open>What can be done with a connection once it is set up; SetSession is left out.\<close>

datatype 'w conn_use =
    UseTick "'w conn_env" bool
  | UseTimer "'w conn_env"
  | UseSend "'w conn_env" byte "byte list"
  | UseKeepalive "'w conn_env"
  | UseRekey "'w conn_env"
  | UseBackground "'w conn_env"
  | UseRetransmit "'w conn_env"
  | UseAccept "'w conn_env" handshake_init_message
  | ReceivePacket "'w conn_env" "byte list" "addr option"
  | ReceiveInbound "'w conn_env"
  | Deliver transport_message "addr option"
  | UseInbound inbound_queue
  | UseRemoteAddr addr
  | UseClose

fun use_conn :: "'w conn_use \<Rightarrow> 'w conn \<Rightarrow> 'w conn" where
  "use_conn (UseTick E skip) c = snd (doTick E skip c)"
| "use_conn (UseTimer E) c = timer_tick E c"
| "use_conn (UseSend E protocol payload) c = snd (Send E protocol payload c)"
| "use_conn (UseKeepalive E) c = snd (SendKeepalive E c)"
| "use_conn (UseRekey E) c = snd (initiateRekey E c)"
| "use_conn (UseBackground E) c = background_rekey E c"
| "use_conn (UseRetransmit E) c = snd (retransmitHandshake E c)"
| "use_conn (UseAccept E msg) c = snd (conn_accept E msg c)"
| "use_conn (ReceivePacket E data src) c = snd (recv_packet E data src c)"
| "use_conn (ReceiveInbound E) c = (case recv_inbound E c of None \<Rightarrow> c | Some r \<Rightarrow> snd r)"
| "use_conn (Deliver msg src) c = (case deliverPacket msg src c of None \<Rightarrow> c | Some r \<Rightarrow> snd r)"
| "use_conn (UseInbound q) c = setInbound q c"
| "use_conn (UseRemoteAddr a) c = SetRemoteAddr a c"
| "use_conn UseClose c = conn_CloseConn c"

text \<open>A packet that is a handshake initiation and authenticates the peer of the connection.\<close>

definition initiation_of_peer :: "'w conn_env \<Rightarrow> byte list \<Rightarrow> 'w conn \<Rightarrow> bool" where
  "initiation_of_peer E data c \<longleftrightarrow>
     (case ParseHandshakeInit data of
        Inl _ \<Rightarrow> False
      | Inr init \<Rightarrow>
          (case read_init (envCrypto E) (localKey c) init of
             Inl _ \<Rightarrow> False | Inr hs \<Rightarrow> remoteStatic hs = cnRemotePK c))"

lemma initiation_of_same:
  "localKey c = localKey c1 \<Longrightarrow> cnRemotePK c = cnRemotePK c1 \<Longrightarrow> initiation_of_peer E data c = initiation_of_peer E data c1"
  by (simp add: initiation_of_peer_def split: sum.split)

definition conn_shut :: "'w conn \<Rightarrow> bool" where
  "conn_shut c \<longleftrightarrow> cnState c = ConnStateClosed \<and> hsState c = None \<and> tmClosed (tickTimer c) \<and>
     (\<forall>s. current c = Some s \<or> previous c = Some s \<longrightarrow> sstate s \<noteq> Established)"

lemma close_shuts: "cnState c \<noteq> ConnStateClosed \<Longrightarrow> conn_shut (conn_CloseConn c)"
  by (auto simp: conn_shut_def conn_CloseConn_def clear_handshake_def timer_Close_def Expire_def)

lemma shut_transport: "conn_shut z \<Longrightarrow> \<exists>e. handleTransportMessage E msg z = (Inl e, z)"
  by (cases "current z"; cases "previous z")
    (auto simp: conn_shut_def handleTransportMessage_def Decrypt_def Let_def)

lemma shut_reports:
  assumes "conn_shut z"
  shows "timer_fires (tickTimer z) now = None \<and> doTick E skip z = (Some ErrConnClosed, z) \<and>
    Send E protocol payload z = (Some (if protocol = ProtocolKCP then ErrKCPMustUseStream else ErrConnClosed), z) \<and>
    SendKeepalive E z = (Some ErrConnClosed, z) \<and>
    initiateRekey E z = (Some ErrConnClosed, z) \<and> retransmitHandshake E z = (Some ErrConnClosed, z) \<and>
    recv_ready z = Some ErrConnClosed \<and> handleHandshakeResponse E resp src z = (Inl ErrInvalidConnState, z) \<and>
    conn_accept E init z = (Inl ErrInvalidConnState, z) \<and> conn_CloseConn z = z \<and>
    deliverPacket msg src z = Some (False, z) \<and> (\<exists>e. handleTransportMessage E msg z = (Inl e, z))"
proof -
  have z: "cnState z = ConnStateClosed" "hsState z = None" "tmClosed (tickTimer z)"
    using assms by (simp_all add: conn_shut_def)
  have "doTick E skip z = (Some ErrConnClosed, z)" for E and skip
    using z(1) by (simp add: doTick_def doTick_state_def)
  then show ?thesis
    using z shut_transport [OF assms] by (simp add: Send_def SendKeepalive_def cn_sendPayload_def initiateRekey_def
        retransmitHandshake_def recv_ready_def handleHandshakeResponse_def conn_accept_def conn_CloseConn_def
        timer_fires_def currentDeadline_def deliverPacket_def split: option.split)
qed

lemma shut_fields: "conn_shut c \<Longrightarrow> conn_shut (c\<lparr>inbound := i, remoteAddr := a\<rparr>)"
  by (simp add: conn_shut_def)

lemma shut_refuses_packet:
  assumes "conn_shut z" and "\<not> initiation_of_peer E data z"
  shows "snd (recv_packet E data src z) = z"
proof -
  have "\<exists>e. handleHandshakeInit E init src z = (Inl e, z)" if "ParseHandshakeInit data = Inr init" for init
    using assms(2) that by (auto simp: initiation_of_peer_def handleHandshakeInit_def Let_def split: sum.splits)
  then have "snd (handleHandshakeInit E init src z) = z" if "ParseHandshakeInit data = Inr init" for init
    using that by (metis snd_conv)
  moreover have "snd (handleTransportMessage E msg z) = z" for msg using shut_transport [OF assms(1)] by (metis snd_conv)
  moreover have "snd (handleHandshakeResponse E resp src z) = z" for resp
    using assms(1) by (simp add: conn_shut_def handleHandshakeResponse_def)
  ultimately show ?thesis by (simp add: recv_packet_def split: sum.split)
qed

lemma recv_inbound_cases:
  "recv_inbound E c = None \<or> (\<exists>e. recv_inbound E c = Some (Inl e, c)) \<or>
    (\<exists>msg i a. recv_inbound E c = Some (handleTransportMessage E msg (c\<lparr>inbound := i, remoteAddr := a\<rparr>)))"
proof (cases "inbound c")
  case (Some q)
  then show ?thesis
    by (cases "inPackets q"; cases "hd (inPackets q)") (auto simp: recv_inbound_def Let_def simp del: not_None_eq)
qed (simp add: recv_inbound_def)

lemma shut_step:
  assumes "conn_shut z" and "\<And>E data src. u = ReceivePacket E data src \<Longrightarrow> \<not> initiation_of_peer E data z"
  shows "conn_shut (use_conn u z) \<and> network (use_conn u z) = network z \<and> localKey (use_conn u z) = localKey z \<and>
    cnRemotePK (use_conn u z) = cnRemotePK z"
proof (cases u)
  case (ReceiveInbound E)
  have "snd (handleTransportMessage E msg (z\<lparr>inbound := i, remoteAddr := a\<rparr>)) = z\<lparr>inbound := i, remoteAddr := a\<rparr>" for msg i a
    using shut_transport [of "z\<lparr>inbound := i, remoteAddr := a\<rparr>"] assms(1) by (metis (no_types) shut_fields snd_conv)
  then have "use_conn u z = z \<or> (\<exists>i a. use_conn u z = z\<lparr>inbound := i, remoteAddr := a\<rparr>)"
    using recv_inbound_cases [of E z] ReceiveInbound by (elim disjE exE) (simp, simp, simp, blast)
  then show ?thesis using assms(1) shut_fields by auto
next
  case (UseBackground E)
  then show ?thesis using assms(1) by (auto simp: background_rekey_def initiateRekey_def conn_shut_def)
next
  case (ReceivePacket E data src)
  then show ?thesis using shut_refuses_packet [OF assms(1) assms(2) [OF ReceivePacket]] assms(1) by simp
qed (use assms(1) shut_reports [OF assms(1)] in
    \<open>simp_all add: timer_tick_def setInbound_def SetRemoteAddr_def conn_shut_def\<close>)

lemma shut_stays:
  assumes "conn_shut z" and "\<And>E data src. ReceivePacket E data src \<in> set us \<Longrightarrow> \<not> initiation_of_peer E data z"
  shows "conn_shut (fold use_conn us z) \<and> network (fold use_conn us z) = network z"
  using assms
proof (induction us arbitrary: z)
  case (Cons u us)
  have s: "conn_shut (use_conn u z) \<and> network (use_conn u z) = network z \<and> localKey (use_conn u z) = localKey z \<and>
      cnRemotePK (use_conn u z) = cnRemotePK z"
    by (rule shut_step [OF Cons.prems(1)]) (use Cons.prems(2) in auto)
  have "\<not> initiation_of_peer E data (use_conn u z)" if "ReceivePacket E data src \<in> set us" for E data src
    using Cons.prems(2) [of E data src] that s initiation_of_same [of "use_conn u z" z E data] by simp
  then show ?case using Cons.IH [of "use_conn u z"] s by simp
qed simp

section \<open>Properties\<close>


text \<open>
  C23: A closed connection is inert and stays closed: whatever is done with it afterwards, in any
  order, it sends nothing and delivers nothing, its timer never fires again, and every further
  operation reports an error and leaves it as it is. Two things are excepted: SetSession, which
  installs a session, and the receipt of a handshake initiation that authenticates its peer.
\<close>

theorem closed_is_inert:
  assumes "cnState c \<noteq> ConnStateClosed" and "z = fold use_conn us (conn_CloseConn c)"
    and "\<And>E data src. ReceivePacket E data src \<in> set us \<Longrightarrow> \<not> initiation_of_peer E data c"
  shows "cnState z = ConnStateClosed \<and> network z = network c \<and> timer_fires (tickTimer z) now = None \<and>
    doTick E skip z = (Some ErrConnClosed, z) \<and>
    Send E protocol payload z = (Some (if protocol = ProtocolKCP then ErrKCPMustUseStream else ErrConnClosed), z) \<and>
    SendKeepalive E z = (Some ErrConnClosed, z) \<and>
    initiateRekey E z = (Some ErrConnClosed, z) \<and> retransmitHandshake E z = (Some ErrConnClosed, z) \<and>
    recv_ready z = Some ErrConnClosed \<and> handleHandshakeResponse E resp src z = (Inl ErrInvalidConnState, z) \<and>
    conn_accept E init z = (Inl ErrInvalidConnState, z) \<and> conn_CloseConn z = z \<and>
    deliverPacket msg src z = Some (False, z) \<and> (\<exists>e. handleTransportMessage E msg z = (Inl e, z))"
proof -
  have p: "initiation_of_peer E data (conn_CloseConn c) = initiation_of_peer E data c" for E :: "'a conn_env" and data
    by (rule initiation_of_same) (simp_all add: conn_CloseConn_def clear_handshake_def)
  have "conn_shut z \<and> network z = network (conn_CloseConn c)"
    unfolding assms(2) by (rule shut_stays [OF close_shuts [OF assms(1)]]) (simp add: p assms(3))
  moreover have "network (conn_CloseConn c) = network c" by (simp add: conn_CloseConn_def clear_handshake_def)
  ultimately have z: "conn_shut z" "network z = network c" by simp_all
  then have "cnState z = ConnStateClosed" by (simp add: conn_shut_def)
  then show ?thesis using z(2)
      shut_reports [OF z(1), of now E skip protocol payload resp src init msg] by (intro conjI) blast+
qed

text \<open>
  A receive that is already waiting when the connection is closed revives it: a handshake initiation
  of the configured peer makes the closed connection established, and it sends and delivers again.
\<close>

theorem closed_connection_revived:
  assumes "crypto_ok C" and "good_pair C si" and "good_pair C sr" and "length a = KeySize" and "length b = KeySize"
    and "cnState c \<noteq> ConnStateClosed" and "localKey c = sr" and "cnRemotePK c = kpPublic si"
    and "make_init C (Some a) si (kpPublic sr) i = Inr (hs, wire)"
  shows "\<exists>c'. recv_packet (wire_env C now (Some r) (Some b)) wire src (conn_CloseConn c) = (Inr (0, []), c') \<and>
    cnState c' = ConnStateEstablished \<and> recv_ready c' = None \<and>
    (\<exists>s. current c' = Some s \<and> sstate s = Established \<and> localIndex s = r \<and> remoteIndex s = i)"
proof -
  let ?z = "conn_CloseConn c" and ?E = "wire_env C now (Some r) (Some b)"
  obtain msg1 init hr1 msg2 hr2 k1 k2 where X:
    "wire = BuildHandshakeInit i (LocalEphemeral hs) (drop KeySize msg1)" "ParseHandshakeInit wire = Inr init"
    "hiSenderIndex init = i" "read_init C sr init = Inr hr1" "remoteStatic hr1 = kpPublic si"
    "WriteMessage C hr1 [] (Some b) = (Inr msg2, hr2)" "Split C hr2 = Inr (k2, k1)"
    "length (csKey k1) = KeySize" "length (csKey k2) = KeySize"
    using ik_exchange [OF assms(1-5), of i] assms(9) by auto
  have z: "localKey ?z = sr" "cnRemotePK ?z = kpPublic si" "hsState ?z = None"
    using assms(6-8) by (simp_all add: conn_CloseConn_def clear_handshake_def)
  obtain c' where c': "handleHandshakeInit ?E init src ?z = (Inr (0, []), c')" "established_with r i (csKey k2) (csKey k1) c'"
    using handle_init_fresh [of ?E ?z init hr1 msg2 hr2 r k2 k1 src] assms(1) X(3-9) z by auto
  have "wire \<noteq> []" "wire ! 0 = MessageTypeHandshakeInit" using X(1) by (simp_all add: BuildHandshakeInit_def)
  then have "recv_packet ?E wire src ?z = (Inr (0, []), c')"
    using X(2) c'(1) by (simp add: recv_packet_def GetMessageType_def message_types Suc_le_eq not_less)
  then show ?thesis using c'(2) by (auto simp: established_with_def recv_ready_def)
qed

text \<open>
  One forged handshake response silences an established connection: while a rekey is pending, any
  packet of the right shape with the right receiver index that fails authentication sends the
  connection back to the state New; its session is still there, but from then on nothing it is given
  to send leaves it, and no tick starts another handshake.
\<close>

theorem forged_response_silences:
  assumes "ParseHandshakeResp data = Inr resp" and "hrReceiverIndex resp = localIdx c" and "hsState c = Some hs"
    and "fst (ReadMessage (envCrypto E) hs (resp_noise resp)) = Inl err"
    and "c' = snd (recv_packet E data src c)" and "protocol \<noteq> ProtocolKCP"
  shows "fst (recv_packet E data src c) = Inl (HandshakeError err) \<and> current c' = current c \<and>
    network c' = network c \<and> network (snd (doTick E' skip c')) = network c' \<and>
    fst (Send E' protocol payload c') = Some ErrNotEstablished \<and>
    network (snd (Send E' protocol payload c')) = network c'"
proof -
  have "data ! 0 = MessageTypeHandshakeResp" "data \<noteq> []"
    using assms(1) by (auto simp: ParseHandshakeResp_def message_sizes split: if_splits)
  then have r: "recv_packet E data src c = (Inl (HandshakeError err), resetHandshakeStateLocked c)"
    using assms(1-4) by (cases "ReadMessage (envCrypto E) hs (resp_noise resp)")
      (auto simp: recv_packet_def GetMessageType_def message_types handleHandshakeResponse_def Suc_le_eq not_less)
  have c': "cnState c' = ConnStateNew" "hsState c' = None" "network c' = network c" "current c' = current c"
    using assms(5) r by (simp_all add: resetHandshakeStateLocked_def)
  have t: "\<exists>c1. doTick E' skip c' = (None, c1) \<and> cnState c1 = ConnStateNew \<and> hsState c1 = None \<and> network c1 = network c'" for skip
    using c'(1,2) by (auto simp: doTick_def doTick_state_def cleanupSessions_def)
  obtain c1 where c1: "doTick E' True c' = (None, c1)" "cnState c1 = ConnStateNew" "hsState c1 = None" "network c1 = network c'"
    using t by blast
  then have "Send E' protocol payload c' = (Some ErrNotEstablished, c1\<lparr>pendingPackets := pendingPackets c1 @ [EncodePayload protocol payload]\<rparr>)"
    using assms(6) by (simp add: Send_def cn_sendPayload_def split: option.split)
  moreover obtain c2 where "doTick E' skip c' = (None, c2)" "network c2 = network c'" using t by blast
  ultimately show ?thesis using r c' c1 by simp
qed

text \<open>
  The timer stops at the first error: when the tick of a fired timer fails, as it does once a rekey
  has been unanswered for its whole attempt time, the timer is left disarmed and never fires again, and
  the sessions it was to clean up keep their keys.
\<close>

theorem timer_stops_on_error:
  assumes "timer_fires (tickTimer c) (envNow E) = Some (True, tm)" and "cnState c = ConnStateEstablished"
    and "hsState c \<noteq> None" and "handshakeAttemptStart c \<noteq> 0"
    and "RekeyAttemptTime < envNow E - handshakeAttemptStart c" and "envNow E - cnLastReceived c \<le> RejectAfterTime"
    and "\<not> session_exhausted (current c)" and "c' = timer_tick E c"
  shows "doTick E False (c\<lparr>tickTimer := tm\<rparr>) = (Some ErrHandshakeTimeout, c\<lparr>tickTimer := tm\<rparr>) \<and>
    current c' = current c \<and> previous c' = previous c \<and> timer_fires (tickTimer c') now = None \<and> timer_tick E' c' = c'"
proof -
  have "RejectAfterTime \<le> SessionCleanupTime" by (simp add: time_defs)
  then have d: "doTick E False (c\<lparr>tickTimer := tm\<rparr>) = (Some ErrHandshakeTimeout, c\<lparr>tickTimer := tm\<rparr>)"
    using assms by (simp add: doTick_def doTick_state_def tick_established_def tick_waiting_def Let_def)
  have tm: "\<not> armed tm" using assms(1) by (auto simp: timer_fires_iff)
  then have "timer_fires tm now' = None" for now' by (simp add: timer_fires_def currentDeadline_def)
  then show ?thesis using d assms(1,8) by (simp add: timer_tick_def)
qed

section \<open>The properties at a concrete input\<close>

text \<open>The connection of a dialler with the demonstration primitives, before and after it is established.\<close>

definition demo_conn :: "key_pair \<Rightarrow> key_pair \<Rightarrow> (byte list \<times> addr) list conn" where
  "demo_conn si sr = \<lparr>tickTimer = timer_New, localKey = si, cnRemotePK = kpPublic sr, remoteAddr = ''r'',
     cnState = ConnStateNew, localIdx = 7, current = None, previous = None, hsState = None,
     handshakeStarted = 0, handshakeAttemptStart = 0, lastHandshakeSent = 0, isInitiator = False,
     cnCreatedAt = 1, sessionCreated = 0, cnLastSent = 1, cnLastReceived = 1, pendingPackets = [],
     rekeyTriggered = False, inbound = None, network = [], spawned = 0\<rparr>"

definition demo_established :: "key_pair \<Rightarrow> key_pair \<Rightarrow> (byte list \<times> addr) list conn" where
  "demo_established si sr = (demo_conn si sr)\<lparr>cnState := ConnStateEstablished, sessionCreated := 1,
     current := Some demo_session, isInitiator := True\<rparr>"

lemma demo_established_simps:
  "cnState (demo_established si sr) = ConnStateEstablished" "hsState (demo_established si sr) = None"
  "tickTimer (demo_established si sr) = timer_New" "current (demo_established si sr) = Some demo_session"
  "cnLastReceived (demo_established si sr) = 1" "cnLastSent (demo_established si sr) = 1"
  "sessionCreated (demo_established si sr) = 1" "handshakeAttemptStart (demo_established si sr) = 0"
  "lastHandshakeSent (demo_established si sr) = 0" "isInitiator (demo_established si sr)"
  "\<not> rekeyTriggered (demo_established si sr)"
  by (simp_all add: demo_established_def demo_conn_def)

lemma demo_session_count: "sendNonce demo_session = 0" "maxNonce (recvNonce demo_session) = 0"
  by (simp_all add: demo_session_def maxNonce_new)


theorem closed_is_inert_witness:
  "\<exists>z :: (byte list \<times> addr) list conn. cnState z = ConnStateClosed \<and>
    doTick (wire_env demo_crypto 5000 None None) False z = (Some ErrConnClosed, z)"
proof -
  obtain kp :: key_pair where True by blast
  let ?c = "demo_established kp kp"
  have "doTick (wire_env demo_crypto 5000 None None) False (conn_CloseConn ?c) = (Some ErrConnClosed, conn_CloseConn ?c)"
    using closed_is_inert [of ?c "conn_CloseConn ?c" "[]"] by (simp add: demo_established_simps)
  moreover have "cnState (conn_CloseConn ?c) = ConnStateClosed" by (simp add: conn_CloseConn_def)
  ultimately show ?thesis by blast
qed

theorem closed_connection_revived_witness:
  "\<exists>si sr wire c'. recv_packet (wire_env demo_crypto 9 (Some 4) (Some (replicate 32 3))) wire None
      (conn_CloseConn (demo_conn sr si)) = (Inr (0, []), c') \<and> cnState c' = ConnStateEstablished"
proof -
  obtain kp where kp: "good_pair demo_crypto kp" using demo_key_pair by blast
  have l: "length (replicate 32 3 :: key) = KeySize" by (simp add: KeySize_def)
  obtain hs wire where m: "make_init demo_crypto (Some (replicate 32 3)) kp (kpPublic kp) 5 = Inr (hs, wire)"
    using ik_exchange [OF demo_crypto_ok kp kp l l, of 5] by auto
  have "cnState (demo_conn kp kp) \<noteq> ConnStateClosed" "localKey (demo_conn kp kp) = kp"
    "cnRemotePK (demo_conn kp kp) = kpPublic kp" by (simp_all add: demo_conn_def)
  from closed_connection_revived [OF demo_crypto_ok kp kp l l this m, of 9 4 None]
  show ?thesis by blast
qed

text \<open>A response packet of zeros, read by a dialler with concrete keys.\<close>

definition demo_si :: key_pair where "demo_si = the (NewKeyPair demo_crypto (replicate 32 1))"

definition demo_hs :: handshake where
  "demo_hs = fst (projr (make_init demo_crypto (Some (replicate 32 3)) demo_si (kpPublic demo_si) 7))"

lemma demo_forged: "fst (ReadMessage demo_crypto demo_hs (replicate 48 9)) = Inl PayloadDecryptFailed"
  by code_simp

theorem forged_response_silences_witness:
  "\<exists>c data. cnState c = ConnStateEstablished \<and>
    fst (Send (wire_env demo_crypto 9 None None) 1 [] (snd (recv_packet (wire_env demo_crypto 8 None None) data None c)))
      = Some ErrNotEstablished"
proof -
  let ?E = "wire_env demo_crypto 8 None None"
  let ?c = "(demo_established demo_si demo_si)\<lparr>hsState := Some demo_hs\<rparr>"
  let ?data = "BuildHandshakeResp 1 7 (replicate 32 9) (replicate 16 9)"
  let ?resp = "\<lparr>hrSenderIndex = 1, hrReceiverIndex = 7, hrEphemeral = replicate 32 9, hrEmpty = replicate 16 9\<rparr>"
  have p: "ParseHandshakeResp ?data = Inr ?resp"
    using parse_build_resp [of "replicate 32 9" "replicate 16 9" 1 7 "[]"] by (simp add: message_sizes)
  have n: "resp_noise ?resp = replicate 48 9"
    by (simp add: resp_noise_def message_sizes flip: replicate_add)
  have h: "hsState ?c = Some demo_hs" "localIdx ?c = 7" "cnState ?c = ConnStateEstablished"
    by (simp_all add: demo_established_def demo_conn_def)
  have "fst (ReadMessage (envCrypto ?E) demo_hs (resp_noise ?resp)) = Inl PayloadDecryptFailed"
    using demo_forged by (simp only: n wire_env_simps)
  then have "fst (Send (wire_env demo_crypto 9 None None) 1 [] (snd (recv_packet ?E ?data None ?c))) = Some ErrNotEstablished"
    using forged_response_silences [OF p _ h(1) _ refl, where E = ?E and protocol = 1] h(2) by (simp add: ProtocolKCP_def)
  then show ?thesis using h(3) by blast
qed

theorem timer_stops_on_error_witness:
  "\<exists>c :: (byte list \<times> addr) list conn. current (timer_tick (wire_env demo_crypto (95 * second) None None) c) = Some demo_session \<and>
    timer_fires (tickTimer (timer_tick (wire_env demo_crypto (95 * second) None None) c)) (1000 * second) = None"
proof -
  let ?E = "wire_env demo_crypto (95 * second) None None"
  let ?c = "(demo_established demo_si demo_si)\<lparr>hsState := Some demo_hs, handshakeAttemptStart := 1,
    tickTimer := \<lparr>deadline = 90 * second, armed = True, tmClosed = False\<rparr>\<rparr>"
  have s: "\<not> session_exhausted (Some demo_session)" by (simp add: session_exhausted_def demo_session_count)
  from timer_stops_on_error [of ?c ?E "\<lparr>deadline = 90 * second, armed = False, tmClosed = False\<rparr>" "timer_tick ?E ?c" "1000 * second"]
  have "current (timer_tick ?E ?c) = current ?c \<and> timer_fires (tickTimer (timer_tick ?E ?c)) (1000 * second) = None"
    using s by (simp add: timer_fires_iff demo_established_simps time_defs)
  then have "current (timer_tick ?E ?c) = Some demo_session \<and> timer_fires (tickTimer (timer_tick ?E ?c)) (1000 * second) = None"
    by (simp add: demo_established_simps)
  then show ?thesis by blast
qed

end
