(* ===== verification/Udp.thy ===== *)
theory Udp
  imports Conn ServiceMux "HOL-Library.List_Lexorder"
begin

text \<open>
  \<open>pkg/giznet/internal/core/udp.go\<close> and \<open>peer.go\<close>: the peers of a UDP socket, the index that routes
  packets to their sessions, the handshakes of both roles and the service mux of each peer.

  Entries of \<open>peers\<close> are never removed and one key has one \<open>peerState\<close>, so its pointer is the key.  The
  environment of an operation is that of a connection; an index or a random key of \<open>None\<close> is a failing
  source.  The callback by which a service mux sends works on the part of the state that sending needs,
  a \<open>link\<close>; \<open>run_smux\<close> loads it, runs an operation of the mux and stores it back.  Sending changes
  nothing of a session but its counter and its time.  A service mux is told from its predecessors by a
  generation number.  \<open>initiateHandshake\<close> is split where it waits: \<open>hsResults\<close> is what was sent on the
  channel of a handshake.  The field \<open>hsState\<close> of a peer is never used.
\<close>

section \<open>State\<close>

datatype udp_error =
  UdpClosed | PeerNotFound | NoEndpoint | UdpNoSession | HandshakeFailedErr | NoData | UdpTimeout
| UdpMessage message_error | UdpSession session_error | UdpHandshake hs_error | UdpPayload payload_error
| UdpVarint varint_error | UdpKcp kcp_error | UdpTransport | UdpIndex

datatype peer_status = PeerNew | PeerConnecting | PeerEstablished | PeerFailed | PeerOffline

definition ProtocolConnCtrl :: byte where "ProtocolConnCtrl = 0xFF"
definition closeCtrlPayload :: "byte list" where "closeCtrlPayload = [1]"

record 'w link =
  lkEnv :: "'w conn_env"
  lkSession :: "session option"
  lkEndpoint :: "addr option"
  lkTx :: u64
  lkTotalTx :: u64
  lkKcpErrors :: u64
  lkNet :: 'w

record 'w peer =
  endpoint :: "addr option"
  peSession :: "session option"
  pePrevious :: "session option"
  peStatus :: peer_status
  rxBytes :: u64
  txBytes :: u64
  peLastSeen :: int
  serviceMux :: "(nat \<times> ('w link) service_mux) option"

record pending_handshake =
  pdPeer :: key
  pdHs :: handshake
  pdCreatedAt :: int

record 'w udp =
  uKey :: key_pair
  allowUnknown :: bool
  uOnNewService :: "(key \<Rightarrow> u64 \<Rightarrow> bool) option"
  uOnOutputError :: "(key \<Rightarrow> u64 \<Rightarrow> kcp_error \<Rightarrow> 'w \<Rightarrow> 'w) option"
  uKcpConfig :: kcp_mux_config
  onPeerEvent :: "(key \<Rightarrow> peer_status \<Rightarrow> bool) option"
  peers :: "key \<Rightarrow> 'w peer option"
  uByIndex :: "u32 \<Rightarrow> key option"
  pending :: "u32 \<Rightarrow> pending_handshake option"
  hsResults :: "u32 \<Rightarrow> udp_error option option"
  nextGen :: nat
  totalTx :: u64
  droppedInbound :: u64
  rpcRouteErrors :: u64
  kcpOutputErrors :: u64
  droppedPeerEvents :: u64
  peerEvents :: "(key \<times> peer_status) list"
  uClosing :: bool
  uClosed :: bool
  uNet :: 'w

definition NewUDP ::
  "key_pair \<Rightarrow> bool \<Rightarrow> (key \<Rightarrow> u64 \<Rightarrow> bool) option \<Rightarrow> (key \<Rightarrow> u64 \<Rightarrow> kcp_error \<Rightarrow> 'w \<Rightarrow> 'w) option \<Rightarrow> kcp_mux_config
     \<Rightarrow> (key \<Rightarrow> peer_status \<Rightarrow> bool) option \<Rightarrow> 'w \<Rightarrow> 'w udp"
where
  "NewUDP kp unknown onNew onErr cfg onEvent w =
     \<lparr>uKey = kp, allowUnknown = unknown, uOnNewService = onNew, uOnOutputError = onErr, uKcpConfig = cfg,
      onPeerEvent = onEvent, peers = (\<lambda>_. None), uByIndex = (\<lambda>_. None), pending = (\<lambda>_. None),
      hsResults = (\<lambda>_. None), nextGen = 0, totalTx = 0, droppedInbound = 0, rpcRouteErrors = 0,
      kcpOutputErrors = 0, droppedPeerEvents = 0, peerEvents = [], uClosing = False, uClosed = False,
      uNet = w\<rparr>"

definition fresh_peer :: "'w peer" where
  "fresh_peer = \<lparr>endpoint = None, peSession = None, pePrevious = None, peStatus = PeerNew, rxBytes = 0,
     txBytes = 0, peLastSeen = 0, serviceMux = None\<rparr>"

abbreviation set_peer :: "key \<Rightarrow> 'w peer \<Rightarrow> 'w udp \<Rightarrow> 'w udp" where
  "set_peer pk p u \<equiv> u\<lparr>peers := (peers u)(pk \<mapsto> p)\<rparr>"

definition emitPeerEvent :: "key \<Rightarrow> peer_status \<Rightarrow> 'w udp \<Rightarrow> 'w udp" where
  "emitPeerEvent pk st u =
     (case onPeerEvent u of
        None \<Rightarrow> u
      | Some f \<Rightarrow>
          if f pk st then u\<lparr>peerEvents := peerEvents u @ [(pk, st)]\<rparr>
          else u\<lparr>droppedPeerEvents := droppedPeerEvents u + 1\<rparr>)"

section \<open>Sending\<close>

definition link_sendPayload :: "byte \<Rightarrow> byte list \<Rightarrow> 'w link \<Rightarrow> udp_error option \<times> 'w link" where
  "link_sendPayload protocol payload l =
     (case lkEndpoint l of
        None \<Rightarrow> (Some NoEndpoint, l)
      | Some a \<Rightarrow>
          (case lkSession l of
             None \<Rightarrow> (Some UdpNoSession, l)
           | Some s \<Rightarrow>
               (case Encrypt (chacha (envCrypto (lkEnv l))) (envNow (lkEnv l)) s (EncodePayload protocol payload) of
                  (Inl e, s1) \<Rightarrow> (Some (UdpSession e), l\<lparr>lkSession := Some s1\<rparr>)
                | (Inr (ciphertext, counter), s1) \<Rightarrow>
                    let msg = BuildTransportMessage (remoteIndex s1) counter ciphertext
                    in (case envWrite (lkEnv l) (lkNet l) msg a of
                          (failed, w) \<Rightarrow>
                            if failed then (Some UdpTransport, l\<lparr>lkSession := Some s1, lkNet := w\<rparr>)
                            else (None, l\<lparr>lkSession := Some s1, lkNet := w, lkTx := lkTx l + of_nat (length msg),
                                   lkTotalTx := lkTotalTx l + of_nat (length msg)\<rparr>)))))"

definition link_sendKCP :: "u64 \<Rightarrow> byte list \<Rightarrow> 'w link \<Rightarrow> udp_error option \<times> 'w link" where
  "link_sendKCP service data l = link_sendPayload ProtocolKCP (AppendVarint [] service @ data) l"

text \<open>The errors of this layer as the service mux sees them.\<close>

definition as_output_error :: "udp_error \<Rightarrow> kcp_error" where
  "as_output_error e =
     (case e of UdpNoSession \<Rightarrow> NoSession | NoEndpoint \<Rightarrow> OutputFailed 0 | UdpSession _ \<Rightarrow> OutputFailed 1
      | _ \<Rightarrow> OutputFailed 2)"

definition link_output :: "'w link \<Rightarrow> u64 \<Rightarrow> byte \<Rightarrow> byte list \<Rightarrow> kcp_error option \<times> 'w link" where
  "link_output l service protocol data =
     (case (if protocol = ProtocolKCP then link_sendKCP service data l else link_sendPayload protocol data l) of
        (e, l1) \<Rightarrow> (map_option as_output_error e, l1))"

definition link_error ::
  "(key \<Rightarrow> u64 \<Rightarrow> kcp_error \<Rightarrow> 'w \<Rightarrow> 'w) option \<Rightarrow> key \<Rightarrow> 'w link \<Rightarrow> u64 \<Rightarrow> kcp_error \<Rightarrow> 'w link"
where
  "link_error user pk l service e =
     l\<lparr>lkKcpErrors := lkKcpErrors l + 1,
       lkNet := (case user of None \<Rightarrow> lkNet l | Some f \<Rightarrow> f pk service e (lkNet l))\<rparr>"

definition load_link :: "'w conn_env \<Rightarrow> 'w udp \<Rightarrow> 'w peer \<Rightarrow> 'w link" where
  "load_link E u p =
     \<lparr>lkEnv = E, lkSession = peSession p, lkEndpoint = endpoint p, lkTx = txBytes p, lkTotalTx = totalTx u,
      lkKcpErrors = kcpOutputErrors u, lkNet = uNet u\<rparr>"

definition merge_sent :: "session option \<Rightarrow> session option \<Rightarrow> session option" where
  "merge_sent new old =
     (case (new, old) of
        (Some n, Some s) \<Rightarrow> Some (s\<lparr>sendNonce := sendNonce n, lastSent := lastSent n\<rparr>) | _ \<Rightarrow> old)"

definition store_link :: "key \<Rightarrow> 'w peer \<Rightarrow> 'w link \<Rightarrow> 'w udp \<Rightarrow> 'w udp" where
  "store_link pk p l u =
     set_peer pk (p\<lparr>peSession := merge_sent (lkSession l) (peSession p), txBytes := lkTx l\<rparr>)
       (u\<lparr>totalTx := lkTotalTx l, kcpOutputErrors := lkKcpErrors l, uNet := lkNet l\<rparr>)"

definition udp_sendPayload ::
  "'w conn_env \<Rightarrow> key \<Rightarrow> 'w peer \<Rightarrow> byte \<Rightarrow> byte list \<Rightarrow> 'w udp \<Rightarrow> udp_error option \<times> 'w udp"
where
  "udp_sendPayload E pk p protocol payload u =
     (case link_sendPayload protocol payload (load_link E u p) of (e, l) \<Rightarrow> (e, store_link pk p l u))"

definition WriteTo :: "'w conn_env \<Rightarrow> key \<Rightarrow> byte list \<Rightarrow> 'w udp \<Rightarrow> udp_error option \<times> 'w udp" where
  "WriteTo E pk data u =
     (if uClosed u \<or> uClosing u then (Some UdpClosed, u)
      else case peers u pk of
          None \<Rightarrow> (Some PeerNotFound, u)
        | Some p \<Rightarrow> udp_sendPayload E pk p 1 data u)"

section \<open>Peers and their service muxes\<close>

definition SetPeerEndpoint :: "key \<Rightarrow> addr option \<Rightarrow> 'w udp \<Rightarrow> 'w udp" where
  "SetPeerEndpoint pk a u =
     (if uClosed u \<or> uClosing u then u
      else set_peer pk ((case peers u pk of None \<Rightarrow> fresh_peer | Some p \<Rightarrow> p)\<lparr>endpoint := a\<rparr>) u)"

definition GetPeer :: "key \<Rightarrow> 'w udp \<Rightarrow> udp_error + 'w peer" where
  "GetPeer pk u =
     (if uClosed u \<or> uClosing u then Inl UdpClosed
      else case peers u pk of None \<Rightarrow> Inl PeerNotFound | Some p \<Rightarrow> Inr p)"

definition isKCPClient :: "'w udp \<Rightarrow> key \<Rightarrow> bool" where
  "isKCPClient u pk = (kpPublic (uKey u) < pk)"

definition createServiceMux :: "'w conn_env \<Rightarrow> key \<Rightarrow> 'w peer \<Rightarrow> 'w udp \<Rightarrow> ('w link) service_mux" where
  "createServiceMux E pk p u =
     NewServiceMux (isKCPClient u pk) (Some link_output) (Some (link_error (uOnOutputError u) pk))
       (map_option (\<lambda>f. f pk) (uOnNewService u)) (uKcpConfig u) (envNow E) (load_link E u p)"

text \<open>Whether a mux was made, the peer, and the state.\<close>

definition ensureServiceMuxLocked :: "'w conn_env \<Rightarrow> key \<Rightarrow> 'w peer \<Rightarrow> 'w udp \<Rightarrow> bool \<times> 'w peer \<times> 'w udp" where
  "ensureServiceMuxLocked E pk p u =
     (if serviceMux p \<noteq> None then (False, p, u)
      else (True, p\<lparr>serviceMux := Some (nextGen u, createServiceMux E pk p u)\<rparr>, u\<lparr>nextGen := nextGen u + 1\<rparr>))"

text \<open>An operation of a service mux, of the peer's present one or of one it had.\<close>

definition run_smux ::
  "'w conn_env \<Rightarrow> key \<Rightarrow> 'w peer \<Rightarrow> ('w link) service_mux \<Rightarrow> (('w link) service_mux \<Rightarrow> 'r \<times> ('w link) service_mux)
     \<Rightarrow> 'w udp \<Rightarrow> 'r \<times> ('w link) service_mux \<times> 'w udp"
where
  "run_smux E pk p m oper u =
     (case oper (m\<lparr>smWorld := load_link E u p, smNow := envNow E\<rparr>) of
        (r, m1) \<Rightarrow> (r, m1, store_link pk p (smWorld m1) u))"

definition on_smux ::
  "'w conn_env \<Rightarrow> key \<Rightarrow> 'w peer \<Rightarrow> nat \<times> ('w link) service_mux \<Rightarrow> (('w link) service_mux \<Rightarrow> 'r \<times> ('w link) service_mux)
     \<Rightarrow> 'w udp \<Rightarrow> 'r \<times> 'w udp"
where
  "on_smux E pk p gm oper u =
     (case run_smux E pk p (snd gm) oper u of
        (r, m1, u1) \<Rightarrow>
          (r, set_peer pk ((case peers u1 pk of Some p1 \<Rightarrow> p1 | None \<Rightarrow> p)\<lparr>serviceMux := Some (fst gm, m1)\<rparr>) u1))"

definition ensureServiceMux ::
  "'w conn_env \<Rightarrow> key \<Rightarrow> 'w peer \<Rightarrow> 'w udp \<Rightarrow> (udp_error + (nat \<times> ('w link) service_mux)) \<times> 'w udp"
where
  "ensureServiceMux E pk p u =
     (if peSession p = None then (Inl UdpNoSession, u)
      else case serviceMux p of
          Some gm \<Rightarrow> (Inr gm, u)
        | None \<Rightarrow>
            let gm = (nextGen u, createServiceMux E pk p u)
            in (Inr gm, emitPeerEvent pk PeerEstablished
                  (set_peer pk (p\<lparr>serviceMux := Some gm, peStatus := PeerEstablished\<rparr>) (u\<lparr>nextGen := nextGen u + 1\<rparr>))))"

definition PeerServiceMux ::
  "'w conn_env \<Rightarrow> key \<Rightarrow> 'w udp \<Rightarrow> (udp_error + (nat \<times> ('w link) service_mux)) \<times> 'w udp"
where
  "PeerServiceMux E pk u =
     (case GetPeer pk u of Inl e \<Rightarrow> (Inl e, u) | Inr p \<Rightarrow> ensureServiceMux E pk p u)"

definition OpenServiceMux ::
  "'w conn_env \<Rightarrow> key \<Rightarrow> 'w udp \<Rightarrow> (udp_error + (nat \<times> ('w link) service_mux)) \<times> 'w udp"
where
  "OpenServiceMux E pk u =
     (case GetPeer pk u of
        Inl e \<Rightarrow> (Inl e, u)
      | Inr p \<Rightarrow>
          if peSession p = None then (Inl UdpNoSession, u)
          else let gm = (nextGen u, createServiceMux E pk p u);
                   p1 = p\<lparr>serviceMux := Some gm, peStatus := PeerEstablished\<rparr>;
                   u1 = set_peer pk p1 (u\<lparr>nextGen := nextGen u + 1\<rparr>);
                   u2 = (case serviceMux p of
                       None \<Rightarrow> u1
                     | Some (_, oldMux) \<Rightarrow> snd (snd (run_smux E pk p1 oldMux sm_Close u1)))
               in (Inr gm, emitPeerEvent pk PeerEstablished u2))"

definition CloseServiceMux :: "'w conn_env \<Rightarrow> key \<Rightarrow> 'w peer \<Rightarrow> nat option \<Rightarrow> 'w udp \<Rightarrow> 'w udp" where
  "CloseServiceMux E pk p ifMatch u =
     (if ifMatch \<noteq> None \<and> map_option fst (serviceMux p) \<noteq> ifMatch then u
      else let p1 = p\<lparr>peStatus := PeerOffline, serviceMux := None\<rparr>;
               u1 = set_peer pk p1 u;
               u2 = (case serviceMux p of
                   None \<Rightarrow> u1
                 | Some (_, m) \<Rightarrow> snd (snd (run_smux E pk p1 m sm_Close u1)))
           in if peStatus p \<noteq> PeerOffline then emitPeerEvent pk PeerOffline u2 else u2)"

definition ClosePeerServiceMux :: "'w conn_env \<Rightarrow> key \<Rightarrow> 'w udp \<Rightarrow> 'w udp" where
  "ClosePeerServiceMux E pk u =
     (case GetPeer pk u of Inl e \<Rightarrow> u | Inr p \<Rightarrow> CloseServiceMux E pk p None u)"

section \<open>Handshakes\<close>

text \<open>Both roles end by installing the session, which replaces the entry of the session before the last.\<close>

definition route_session :: "key \<Rightarrow> 'w peer \<Rightarrow> session \<Rightarrow> (u32 \<Rightarrow> key option) \<Rightarrow> u32 \<Rightarrow> key option" where
  "route_session pk p s index =
     (let index1 = (case pePrevious p of
            None \<Rightarrow> index
          | Some old \<Rightarrow> if index (localIndex old) = Some pk then index(localIndex old := None) else index);
          index2 = (case peSession p of None \<Rightarrow> index1 | Some old \<Rightarrow> index1(localIndex old \<mapsto> pk))
      in index2(localIndex s \<mapsto> pk))"

definition install_session :: "'w conn_env \<Rightarrow> key \<Rightarrow> 'w peer \<Rightarrow> session \<Rightarrow> addr \<Rightarrow> 'w udp \<Rightarrow> 'w udp" where
  "install_session E pk p s src u =
     (case ensureServiceMuxLocked E pk p u of
        (createMux, p1, u1) \<Rightarrow>
          let p2 = p1\<lparr>endpoint := Some src, peSession := Some s, pePrevious := peSession p1,
                peStatus := PeerEstablished, peLastSeen := envNow E\<rparr>;
              u2 = (set_peer pk p2 u1)\<lparr>uByIndex := route_session pk p1 s (uByIndex u1)\<rparr>
          in if createMux then emitPeerEvent pk PeerEstablished u2 else u2)"

definition udp_handleHandshakeInit :: "'w conn_env \<Rightarrow> byte list \<Rightarrow> addr \<Rightarrow> 'w udp \<Rightarrow> 'w udp" where
  "udp_handleHandshakeInit E data src u =
     (case ParseHandshakeInit data of
        Inl _ \<Rightarrow> u
      | Inr msg \<Rightarrow>
          (case read_init (envCrypto E) (uKey u) msg of
             Inl _ \<Rightarrow> u
           | Inr hs \<Rightarrow>
               let pk = remoteStatic hs
               in if peers u pk = None \<and> \<not> allowUnknown u then u
                  else let p = (case peers u pk of None \<Rightarrow> fresh_peer | Some p \<Rightarrow> p);
                           u1 = set_peer pk p u
                    in case envIndex E of
                         None \<Rightarrow> u1
                       | Some idx \<Rightarrow>
                           (case WriteMessage (envCrypto E) hs [] (envRandom E) of
                              (Inl _, _) \<Rightarrow> u1
                            | (Inr payload, hs1) \<Rightarrow>
                                (case envWrite E (uNet u1) (BuildHandshakeResp idx (hiSenderIndex msg)
                                    (LocalEphemeral hs1) (drop KeySize payload)) src of
                                   (failed, w) \<Rightarrow>
                                     let u2 = u1\<lparr>uNet := w\<rparr>
                                     in if failed then u2
                                        else case Split (envCrypto E) hs1 of
                                            Inl _ \<Rightarrow> u2
                                          | Inr (sendCS, recvCS) \<Rightarrow>
                                              (case session_of E idx (hiSenderIndex msg) sendCS recvCS pk of
                                                 Inl _ \<Rightarrow> u2
                                               | Inr s \<Rightarrow> install_session E pk p s src u2)))))"

abbreviation hs_result :: "u32 \<Rightarrow> udp_error option \<Rightarrow> 'w udp \<Rightarrow> 'w udp" where
  "hs_result idx r u \<equiv> u\<lparr>hsResults := (hsResults u)(idx \<mapsto> r)\<rparr>"

definition set_failed :: "key \<Rightarrow> 'w udp \<Rightarrow> 'w udp" where
  "set_failed pk u =
     emitPeerEvent pk PeerFailed
       (case peers u pk of None \<Rightarrow> u | Some p \<Rightarrow> set_peer pk (p\<lparr>peStatus := PeerFailed\<rparr>) u)"

definition udp_handleHandshakeResp :: "'w conn_env \<Rightarrow> byte list \<Rightarrow> addr \<Rightarrow> 'w udp \<Rightarrow> 'w udp" where
  "udp_handleHandshakeResp E data src u =
     (case ParseHandshakeResp data of
        Inl _ \<Rightarrow> u
      | Inr msg \<Rightarrow>
          (case pending u (hrReceiverIndex msg) of
             None \<Rightarrow> u
           | Some pd \<Rightarrow>
               let idx = hrReceiverIndex msg; pk = pdPeer pd;
                   u1 = u\<lparr>pending := (pending u)(idx := None)\<rparr>
               in case ReadMessage (envCrypto E) (pdHs pd) (resp_noise msg) of
                    (Inl _, _) \<Rightarrow> hs_result idx (Some HandshakeFailedErr) (set_failed pk u1)
                  | (Inr _, hs1) \<Rightarrow>
                      (case Split (envCrypto E) hs1 of
                         Inl e \<Rightarrow> hs_result idx (Some (UdpHandshake e)) (set_failed pk u1)
                       | Inr (sendCS, recvCS) \<Rightarrow>
                           (case session_of E idx (hrSenderIndex msg) sendCS recvCS pk of
                              Inl e \<Rightarrow> hs_result idx (Some (UdpSession e)) (set_failed pk u1)
                            | Inr s \<Rightarrow>
                                hs_result idx None (case peers u1 pk of
                                    None \<Rightarrow> u1 | Some p \<Rightarrow> install_session E pk p s src u1)))))"

text \<open>\<open>initiateHandshake\<close> up to the wait: an error, or the index whose result it waits for.\<close>

definition initiateHandshake :: "'w conn_env \<Rightarrow> key \<Rightarrow> 'w peer \<Rightarrow> 'w udp \<Rightarrow> (udp_error + u32) \<times> 'w udp" where
  "initiateHandshake E pk p u =
     (let u1 = emitPeerEvent pk PeerConnecting (set_peer pk (p\<lparr>peStatus := PeerConnecting\<rparr>) u)
      in case endpoint p of
           None \<Rightarrow> (Inl NoEndpoint, u1)
         | Some a \<Rightarrow>
             (case envIndex E of
                None \<Rightarrow> (Inl UdpIndex, u1)
              | Some idx \<Rightarrow>
                  (case make_init (envCrypto E) (envRandom E) (uKey u) pk idx of
                     Inl e \<Rightarrow> (Inl (UdpHandshake e), u1)
                   | Inr (hs, wireMsg) \<Rightarrow>
                       let u2 = u1\<lparr>pending := (pending u1)(idx \<mapsto> \<lparr>pdPeer = pk, pdHs = hs, pdCreatedAt = envNow E\<rparr>),
                                   hsResults := (hsResults u1)(idx := None)\<rparr>
                       in (case envWrite E (uNet u2) wireMsg a of
                             (failed, w) \<Rightarrow>
                               if failed then (Inl UdpTransport, u2\<lparr>uNet := w, pending := (pending u2)(idx := None)\<rparr>)
                               else (Inr idx, u2\<lparr>uNet := w\<rparr>)))))"

definition handshake_timeout :: "key \<Rightarrow> u32 \<Rightarrow> 'w udp \<Rightarrow> udp_error \<times> 'w udp" where
  "handshake_timeout pk idx u = (UdpTimeout, set_failed pk (u\<lparr>pending := (pending u)(idx := None)\<rparr>))"

definition Connect :: "'w conn_env \<Rightarrow> key \<Rightarrow> 'w udp \<Rightarrow> (udp_error + u32) \<times> 'w udp" where
  "Connect E pk u =
     (if uClosed u \<or> uClosing u then (Inl UdpClosed, u)
      else case peers u pk of None \<Rightarrow> (Inl PeerNotFound, u) | Some p \<Rightarrow> initiateHandshake E pk p u)"

section \<open>Receiving\<close>

text \<open>The peer, whether the session is its present one, and the session.\<close>

definition transportPeerSession :: "u32 \<Rightarrow> 'w udp \<Rightarrow> udp_error + (key \<times> 'w peer \<times> bool \<times> session)" where
  "transportPeerSession idx u =
     (case uByIndex u idx of
        None \<Rightarrow> Inl PeerNotFound
      | Some pk \<Rightarrow>
          (case peers u pk of
             None \<Rightarrow> Inl PeerNotFound
           | Some p \<Rightarrow>
               (case peSession p of
                  Some s \<Rightarrow>
                    if localIndex s = idx then Inr (pk, p, True, s)
                    else (case pePrevious p of
                            Some o1 \<Rightarrow> if localIndex o1 = idx then Inr (pk, p, False, o1) else Inl UdpNoSession
                          | None \<Rightarrow> Inl UdpNoSession)
                | None \<Rightarrow>
                    (case pePrevious p of
                       Some o1 \<Rightarrow> if localIndex o1 = idx then Inr (pk, p, False, o1) else Inl UdpNoSession
                     | None \<Rightarrow> Inl UdpNoSession))))"

definition recordTransportActivity :: "int \<Rightarrow> addr \<Rightarrow> nat \<Rightarrow> bool \<Rightarrow> 'w peer \<Rightarrow> 'w peer" where
  "recordTransportActivity now src packetLen updateEndpoint p =
     p\<lparr>endpoint := (if updateEndpoint then Some src else endpoint p),
       rxBytes := rxBytes p + of_nat packetLen, peLastSeen := now\<rparr>"

text \<open>A packet for a service mux, which is made when the peer has none.\<close>

definition with_service_mux ::
  "'w conn_env \<Rightarrow> key \<Rightarrow> 'w peer \<Rightarrow> (('w link) service_mux \<Rightarrow> 'r \<times> ('w link) service_mux) \<Rightarrow> 'w udp \<Rightarrow> (udp_error + 'r) \<times> 'w udp"
where
  "with_service_mux E pk p oper u =
     (case (case serviceMux p of Some gm \<Rightarrow> (Inr gm, u) | None \<Rightarrow> ensureServiceMux E pk p u) of
        (Inl e, u1) \<Rightarrow> (Inl e, u1)
      | (Inr gm, u1) \<Rightarrow>
          (case on_smux E pk (case peers u1 pk of Some p1 \<Rightarrow> p1 | None \<Rightarrow> p) gm oper u1 of (r, u2) \<Rightarrow> (Inr r, u2)))"

text \<open>The payload of an authenticated packet.  A call that waits in the mux goes on as a step of the mux.\<close>

definition route_payload ::
  "'w conn_env \<Rightarrow> key \<Rightarrow> 'w peer \<Rightarrow> bool \<Rightarrow> byte list \<Rightarrow> 'w udp \<Rightarrow> (udp_error + (key \<times> byte \<times> byte list)) \<times> 'w udp"
where
  "route_payload E pk p onCurrent plaintext u =
     (if plaintext = [] then (Inl NoData, u)
      else case DecodePayload plaintext of
          Inl e \<Rightarrow> (Inl (UdpPayload e), u)
        | Inr (protocol, payload) \<Rightarrow>
            if protocol = ProtocolConnCtrl
            then (Inl NoData,
                  if payload = closeCtrlPayload \<and> onCurrent then ClosePeerServiceMux E pk u else u)
            else if protocol = ProtocolKCP
            then (case DecodeVarint payload of
                    Inl e \<Rightarrow> (Inl (UdpVarint e), u\<lparr>rpcRouteErrors := rpcRouteErrors u + 1\<rparr>)
                  | Inr (service, n) \<Rightarrow>
                      (case with_service_mux E pk p (\<lambda>m. InputKCP m service (drop n payload)) u of
                         (Inl e, u1) \<Rightarrow> (Inl e, u1\<lparr>rpcRouteErrors := rpcRouteErrors u1 + 1\<rparr>)
                       | (Inr (Some (Some e)), u1) \<Rightarrow> (Inl (UdpKcp e), u1\<lparr>rpcRouteErrors := rpcRouteErrors u1 + 1\<rparr>)
                       | (Inr _, u1) \<Rightarrow> (Inl NoData, u1)))
            else (case with_service_mux E pk p (\<lambda>m. InputPacket m protocol payload) u of
                    (Inl e, u1) \<Rightarrow> (Inl e, u1\<lparr>droppedInbound := droppedInbound u1 + 1\<rparr>)
                  | (Inr (Some e), u1) \<Rightarrow> (Inr (pk, protocol, payload), u1\<lparr>droppedInbound := droppedInbound u1 + 1\<rparr>)
                  | (Inr None, u1) \<Rightarrow> (Inr (pk, protocol, payload), u1)))"

definition decryptTransport ::
  "'w conn_env \<Rightarrow> byte list \<Rightarrow> addr \<Rightarrow> 'w udp \<Rightarrow> (udp_error + (key \<times> byte \<times> byte list)) \<times> 'w udp"
where
  "decryptTransport E data src u =
     (case ParseTransportMessage data of
        Inl e \<Rightarrow> (Inl (UdpMessage e), u)
      | Inr msg \<Rightarrow>
          (case transportPeerSession (tmReceiverIndex msg) u of
             Inl e \<Rightarrow> (Inl e, u)
           | Inr (pk, p, onCurrent, s) \<Rightarrow>
               (case Decrypt (chacha (envCrypto E)) (envNow E) s (tmCiphertext msg) (tmCounter msg) of
                  (r, s1) \<Rightarrow>
                    let p1 = (if onCurrent then p\<lparr>peSession := Some s1\<rparr> else p\<lparr>pePrevious := Some s1\<rparr>)
                    in (case r of
                          Inl e \<Rightarrow> (Inl (UdpSession e), set_peer pk p1 u)
                        | Inr plaintext \<Rightarrow>
                            let p2 = recordTransportActivity (envNow E) src (length data) onCurrent p1
                            in route_payload E pk p2 onCurrent plaintext (set_peer pk p2 u)))))"

definition processPacket ::
  "'w conn_env \<Rightarrow> byte list \<Rightarrow> addr \<Rightarrow> 'w udp \<Rightarrow> (udp_error + (key \<times> byte \<times> byte list)) \<times> 'w udp"
where
  "processPacket E data src u =
     (if data = [] then (Inl NoData, u)
      else if data ! 0 = MessageTypeHandshakeInit then (Inl NoData, udp_handleHandshakeInit E data src u)
      else if data ! 0 = MessageTypeHandshakeResp then (Inl NoData, udp_handleHandshakeResp E data src u)
      else if data ! 0 = MessageTypeTransport then decryptTransport E data src u
      else (Inl NoData, u))"

section \<open>Closing\<close>

text \<open>\<open>order\<close> is the order in which the map of peers is visited.\<close>

definition close_notice :: "'w conn_env \<Rightarrow> key \<Rightarrow> 'w udp \<Rightarrow> 'w udp" where
  "close_notice E pk u =
     (case peers u pk of
        None \<Rightarrow> u
      | Some p \<Rightarrow>
          if peSession p \<noteq> None \<and> endpoint p \<noteq> None
          then snd (udp_sendPayload E pk p ProtocolConnCtrl closeCtrlPayload u) else u)"

definition close_mux :: "'w conn_env \<Rightarrow> key \<Rightarrow> 'w udp \<Rightarrow> 'w udp" where
  "close_mux E pk u =
     (case peers u pk of
        None \<Rightarrow> u
      | Some p \<Rightarrow>
          (case serviceMux p of
             None \<Rightarrow> u
           | Some gm \<Rightarrow> snd (on_smux E pk p gm sm_Close u)))"

definition drop_mux :: "key \<Rightarrow> 'w udp \<Rightarrow> 'w udp" where
  "drop_mux pk u = (case peers u pk of None \<Rightarrow> u | Some p \<Rightarrow> set_peer pk (p\<lparr>serviceMux := None\<rparr>) u)"

definition udp_Close :: "'w conn_env \<Rightarrow> key list \<Rightarrow> 'w udp \<Rightarrow> 'w udp" where
  "udp_Close E order u =
     (if uClosed u \<or> uClosing u then u
      else let u1 = fold (close_notice E) order (u\<lparr>uClosing := True\<rparr>);
               u2 = fold (close_mux E) order u1;
               u3 = fold drop_mux order u2
           in u3\<lparr>uClosed := True\<rparr>)"

end
