(* ===== verification/UdpExchange.thy ===== *)
theory UdpExchange
  imports Udp ConnExchange
begin

text \<open>
  Two sockets over their packets: the handshake of \<open>Connect\<close>, what the peers of both ends then hold, and
  that a packet which one end sends is routed by the other to the session it was sealed for.
\<close>

section \<open>Peers after a handshake\<close>

definition new_session :: "u32 \<Rightarrow> u32 \<Rightarrow> key \<Rightarrow> key \<Rightarrow> session \<Rightarrow> bool" where
  "new_session li ri sk rk s \<longleftrightarrow>
     localIndex s = li \<and> remoteIndex s = ri \<and> sendKey s = sk \<and> recvKey s = rk \<and> sstate s = Established \<and>
     sendNonce s = 0 \<and> recvNonce s = NewReplayFilter"

definition linked :: "u32 \<Rightarrow> u32 \<Rightarrow> key \<Rightarrow> key \<Rightarrow> key \<Rightarrow> addr \<Rightarrow> 'w udp \<Rightarrow> bool" where
  "linked li ri sk rk pk a u \<longleftrightarrow>
     \<not> uClosed u \<and> \<not> uClosing u \<and> uByIndex u li = Some pk \<and>
     (\<exists>p s. peers u pk = Some p \<and> endpoint p = Some a \<and> peStatus p = PeerEstablished \<and> peSession p = Some s \<and>
        new_session li ri sk rk s)"

text \<open>A service mux nothing was done with.\<close>

definition fresh_smux :: "'w udp \<Rightarrow> key \<Rightarrow> ('w link) service_mux \<Rightarrow> bool" where
  "fresh_smux u pk m \<longleftrightarrow>
     (\<forall>w n. m\<lparr>smWorld := w, smNow := n\<rparr> =
        NewServiceMux (isKCPClient u pk) (Some link_output) (Some (link_error (uOnOutputError u) pk))
          (map_option (\<lambda>f. f pk) (uOnNewService u)) (uKcpConfig u) n w)"

definition fresh_link :: "key \<Rightarrow> 'w udp \<Rightarrow> bool" where
  "fresh_link pk u \<longleftrightarrow> (\<exists>p gm. peers u pk = Some p \<and> serviceMux p = Some gm \<and> fresh_smux u pk (snd gm))"

lemma emit_more [simp]:
  "uClosed (emitPeerEvent pk st u) = uClosed u" "uClosing (emitPeerEvent pk st u) = uClosing u"
  "uNet (emitPeerEvent pk st u) = uNet u" "uKey (emitPeerEvent pk st u) = uKey u"
  "uOnNewService (emitPeerEvent pk st u) = uOnNewService u" "uKcpConfig (emitPeerEvent pk st u) = uKcpConfig u"
  "uOnOutputError (emitPeerEvent pk st u) = uOnOutputError u" "hsResults (emitPeerEvent pk st u) = hsResults u"
  "peers (emitPeerEvent pk st u) = peers u" "uByIndex (emitPeerEvent pk st u) = uByIndex u"
  "pending (emitPeerEvent pk st u) = pending u" "allowUnknown (emitPeerEvent pk st u) = allowUnknown u"
  by (simp_all add: emitPeerEvent_def split: option.split)

lemma install_session_fields:
  "uNet (install_session E pk p s src u) = uNet u" "uKey (install_session E pk p s src u) = uKey u"
  "uClosed (install_session E pk p s src u) = uClosed u" "uClosing (install_session E pk p s src u) = uClosing u"
  "hsResults (install_session E pk p s src u) = hsResults u"
  "uOnNewService (install_session E pk p s src u) = uOnNewService u"
  "uOnOutputError (install_session E pk p s src u) = uOnOutputError u"
  "uKcpConfig (install_session E pk p s src u) = uKcpConfig u"
  by (simp_all add: install_session_def ensureServiceMuxLocked_def Let_def)

lemma install_linked:
  assumes "\<not> uClosed u" "\<not> uClosing u" "new_session li ri sk rk s"
  shows "linked li ri sk rk pk src (install_session E pk p s src u)"
  using assms by (simp add: linked_def install_session_def ensureServiceMuxLocked_def route_session_def Let_def new_session_def)

lemma createServiceMux_fresh: "fresh_smux u pk (createServiceMux E pk p u)"
  by (simp add: fresh_smux_def createServiceMux_def NewServiceMux_def)

lemma fresh_smux_cong:
  "fresh_smux u pk m \<Longrightarrow> uKey u' = uKey u \<Longrightarrow> uOnNewService u' = uOnNewService u \<Longrightarrow> uOnOutputError u' = uOnOutputError u \<Longrightarrow>
   uKcpConfig u' = uKcpConfig u \<Longrightarrow> fresh_smux u' pk m"
  by (simp add: fresh_smux_def isKCPClient_def)

lemma hs_result_fresh [simp]: "fresh_link pk (hs_result idx r u) = fresh_link pk u"
  by (simp add: fresh_link_def fresh_smux_def isKCPClient_def)

lemma install_fresh:
  assumes "serviceMux p = None"
  shows "fresh_link pk (install_session E pk p s src u)"
proof -
  have "fresh_smux (install_session E pk p s src u) pk (createServiceMux E pk p u)"
    by (rule fresh_smux_cong [OF createServiceMux_fresh]) (simp_all add: install_session_fields)
  then show ?thesis using assms
    by (simp add: fresh_link_def install_session_def ensureServiceMuxLocked_def Let_def)
qed

section \<open>The handshake\<close>

lemma udp_exchange:
  assumes C: "crypto_ok C" "good_pair C (uKey u)" "good_pair C (uKey v)" "length a = KeySize" "length b = KeySize"
    and u: "peers u (kpPublic (uKey v)) = Some p" "endpoint p = Some av" "\<not> uClosed u" "\<not> uClosing u"
    and v: "\<not> uClosed v" "\<not> uClosing v" "allowUnknown v \<or> peers v (kpPublic (uKey u)) \<noteq> None"
  shows "\<exists>init reply u1 v1 u2 k1 k2.
    Connect (wire_env C t1 (Some i) (Some a)) (kpPublic (uKey v)) u = (Inr i, u1) \<and>
    uNet u1 = uNet u @ [(init, av)] \<and>
    processPacket (wire_env C t2 (Some j) (Some b)) init au v = (Inl NoData, v1) \<and>
    uNet v1 = uNet v @ [(reply, au)] \<and>
    processPacket (wire_env C t3 None None) reply av' u1 = (Inl NoData, u2) \<and>
    hsResults u2 i = Some None \<and> uKey u2 = uKey u \<and> uKey v1 = uKey v \<and>
    uOnNewService u2 = uOnNewService u \<and> uOnNewService v1 = uOnNewService v \<and>
    linked i j k1 k2 (kpPublic (uKey v)) av' u2 \<and> linked j i k2 k1 (kpPublic (uKey u)) au v1 \<and>
    (serviceMux p = None \<longrightarrow> fresh_link (kpPublic (uKey v)) u2) \<and>
    (pred_option (\<lambda>q. serviceMux q = None) (peers v (kpPublic (uKey u))) \<longrightarrow> fresh_link (kpPublic (uKey u)) v1)"
proof -
  let ?E1 = "wire_env C t1 (Some i) (Some a)" and ?E2 = "wire_env C t2 (Some j) (Some b)" and ?E3 = "wire_env C t3 None None"
  let ?pkv = "kpPublic (uKey v)" and ?pku = "kpPublic (uKey u)"
  obtain hs1 msg1 ini hr1 msg2 hr2 hs2 k1 k2 where X:
    "make_init C (Some a) (uKey u) ?pkv i = Inr (hs1, BuildHandshakeInit i (LocalEphemeral hs1) (drop KeySize msg1))"
    "ParseHandshakeInit (BuildHandshakeInit i (LocalEphemeral hs1) (drop KeySize msg1)) = Inr ini"
    "hiSenderIndex ini = i" "read_init C (uKey v) ini = Inr hr1" "remoteStatic hr1 = ?pku"
    "WriteMessage C hr1 [] (Some b) = (Inr msg2, hr2)"
    "\<And>j. \<exists>resp. ParseHandshakeResp (BuildHandshakeResp j i (LocalEphemeral hr2) (drop KeySize msg2)) = Inr resp \<and>
       hrSenderIndex resp = j \<and> hrReceiverIndex resp = i \<and> ReadMessage C hs1 (resp_noise resp) = (Inr [], hs2)"
    "Split C hs2 = Inr (k1, k2)" "Split C hr2 = Inr (k2, k1)"
    "length (csKey k1) = KeySize" "length (csKey k2) = KeySize"
    using ik_exchange [OF C, of i] by metis
  let ?init = "BuildHandshakeInit i (LocalEphemeral hs1) (drop KeySize msg1)"
  let ?reply = "BuildHandshakeResp j i (LocalEphemeral hr2) (drop KeySize msg2)"
  define u0 where "u0 = emitPeerEvent ?pkv PeerConnecting (set_peer ?pkv (p\<lparr>peStatus := PeerConnecting\<rparr>) u)"
  define u1 where "u1 = u0\<lparr>pending := (pending u0)(i \<mapsto> \<lparr>pdPeer = ?pkv, pdHs = hs1, pdCreatedAt = t1\<rparr>),
    hsResults := (hsResults u0)(i := None), uNet := uNet u0 @ [(?init, av)]\<rparr>"
  have 1: "Connect ?E1 ?pkv u = (Inr i, u1)"
    unfolding u1_def u0_def using u X(1) by (simp add: Connect_def initiateHandshake_def Let_def)
  obtain sv where sv: "session_of ?E2 j i k2 k1 ?pku = Inr sv" "new_session j i (csKey k2) (csKey k1) sv"
    using fresh_session [of ?E2 k2 k1 j i ?pku] C(1) X by (auto simp: new_session_def)
  obtain su where su: "session_of ?E3 i j k1 k2 ?pkv = Inr su" "new_session i j (csKey k1) (csKey k2) su"
    using fresh_session [of ?E3 k1 k2 i j ?pkv] C(1) X by (auto simp: new_session_def)
  define q where "q = (case peers v ?pku of None \<Rightarrow> fresh_peer | Some q \<Rightarrow> q)"
  define v0 where "v0 = set_peer ?pku q v\<lparr>uNet := uNet v @ [(?reply, au)]\<rparr>"
  have 2: "processPacket ?E2 ?init au v = (Inl NoData, install_session ?E2 ?pku q sv au v0)"
    using X v(3) sv(1)
    by (auto simp: processPacket_def udp_handleHandshakeInit_def BuildHandshakeInit_def Let_def v0_def q_def)
  obtain resp where resp: "ParseHandshakeResp ?reply = Inr resp" "hrSenderIndex resp = j" "hrReceiverIndex resp = i"
      "ReadMessage C hs1 (resp_noise resp) = (Inr [], hs2)" using X(7) by blast
  define p1 where "p1 = p\<lparr>peStatus := PeerConnecting\<rparr>"
  define u2 where "u2 = u1\<lparr>pending := (pending u1)(i := None)\<rparr>"
  have p1: "peers u2 ?pkv = Some p1" by (simp add: u2_def u1_def u0_def p1_def)
  have 3: "processPacket ?E3 ?reply av' u1 = (Inl NoData, hs_result i None (install_session ?E3 ?pkv p1 su av' u2))"
  proof -
    have "pending u1 i = Some \<lparr>pdPeer = ?pkv, pdHs = hs1, pdCreatedAt = t1\<rparr>" by (simp add: u1_def)
    then have "udp_handleHandshakeResp ?E3 ?reply av' u1 = hs_result i None (install_session ?E3 ?pkv p1 su av' u2)"
      using resp X(8) su(1) p1 unfolding udp_handleHandshakeResp_def u2_def by (simp add: Let_def)
    then show ?thesis
      by (simp add: processPacket_def BuildHandshakeResp_def MessageTypeHandshakeInit_def MessageTypeHandshakeResp_def)
  qed
  have u2: "uNet u2 = uNet u @ [(?init, av)]" "\<not> uClosed u2" "\<not> uClosing u2" "uKey u2 = uKey u" "uOnNewService u2 = uOnNewService u"
    using u by (simp_all add: u2_def u1_def u0_def)
  have "linked i j (csKey k1) (csKey k2) ?pkv av' (hs_result i None (install_session ?E3 ?pkv p1 su av' u2))"
    using install_linked [OF u2(2,3) su(2), of ?pkv av' ?E3 p1] by (simp add: linked_def)
  moreover have "linked j i (csKey k2) (csKey k1) ?pku au (install_session ?E2 ?pku q sv au v0)"
    by (rule install_linked) (use v sv(2) in \<open>simp_all add: v0_def\<close>)
  moreover have "serviceMux p = None \<longrightarrow> fresh_link ?pkv (hs_result i None (install_session ?E3 ?pkv p1 su av' u2))"
    using install_fresh [of p1 ?pkv ?E3 su av' u2]
    by (simp add: p1_def)
  moreover have "pred_option (\<lambda>q. serviceMux q = None) (peers v ?pku) \<longrightarrow> fresh_link ?pku (install_session ?E2 ?pku q sv au v0)"
    by (auto simp: q_def fresh_peer_def split: option.split intro!: install_fresh)
  ultimately show ?thesis using 1 2 3 u2
    by (intro exI conjI; (assumption | rule refl)?) (simp_all add: install_session_fields v0_def u1_def u0_def)
qed

section \<open>Packets between two ends\<close>

definition sealed :: "crypto \<Rightarrow> session \<Rightarrow> byte \<Rightarrow> byte list \<Rightarrow> byte list" where
  "sealed C s protocol payload =
     BuildTransportMessage (remoteIndex s) (sendNonce s)
       (aead_seal (chacha C) (sendKey s) (nonceBytes (sendNonce s)) (EncodePayload protocol payload) [])"

lemma link_sends:
  assumes "lkEnv l = wire_env C now x y" "lkEndpoint l = Some a" "lkSession l = Some s" "sstate s = Established"
    and "sendNonce s < MaxNonce"
  shows "link_sendPayload protocol payload l =
    (None, l\<lparr>lkSession := Some (sent_one now s), lkNet := lkNet l @ [(sealed C s protocol payload, a)],
       lkTx := lkTx l + of_nat (length (sealed C s protocol payload)),
       lkTotalTx := lkTotalTx l + of_nat (length (sealed C s protocol payload))\<rparr>)"
  using assms by (simp add: link_sendPayload_def Encrypt_sends sealed_def)

lemma zero_below_max: "(0 :: u64) < MaxNonce"
  unfolding not_le [symmetric] by (simp add: MaxNonce_def)

lemma linked_receives:
  assumes C: "crypto_ok C" and s: "new_session ri li rk sk s" and v: "linked li ri sk rk pk a v"
  shows "\<exists>p p2. peers v pk = Some p \<and> serviceMux p2 = serviceMux p \<and> peSession p2 \<noteq> None \<and>
    processPacket (wire_env C now x y) (sealed C s protocol payload) src v =
      route_payload (wire_env C now x y) pk p2 True (EncodePayload protocol payload) (set_peer pk p2 v)"
proof -
  let ?E = "wire_env C now x y" and ?pkt = "sealed C s protocol payload"
  obtain p r where p: "peers v pk = Some p" "peSession p = Some r" "new_session li ri sk rk r" "uByIndex v li = Some pk"
    using v by (auto simp: linked_def)
  have sr: "sstate s = Established" "sendNonce s = 0" "sendNonce s < MaxNonce" "remoteIndex s = li" "sstate r = Established"
      "recvKey r = sendKey s" "recvNonce r = NewReplayFilter" "localIndex r = li"
    using s p(3) zero_below_max by (simp_all add: new_session_def)
  have "fst (Encrypt (chacha C) now s (EncodePayload protocol payload)) =
      Inr (aead_seal (chacha C) (sendKey s) (nonceBytes (sendNonce s)) (EncodePayload protocol payload) [], sendNonce s)"
    using sr(1,3) unfolding not_le [symmetric] by (simp add: Encrypt_def Let_def)
  moreover have "aead_correct (chacha C)" using C by (simp add: crypto_ok_def)
  moreover have "in_window (maxNonce (recvNonce r)) (sendNonce s)" "tracks (recvNonce r) {}"
    using sr(2,7) by (simp_all add: maxNonce_new in_window_def ReplayWindowSize_def tracks_new)
  ultimately obtain m where m: "ParseTransportMessage ?pkt = Inr m" "tmReceiverIndex m = li"
    "fst (Decrypt (chacha C) now r (tmCiphertext m) (tmCounter m)) = Inr (EncodePayload protocol payload)"
    using transport_delivers [of "chacha C" s r "{}" now "EncodePayload protocol payload" _ _ now] sr
    unfolding sealed_def by (metis empty_iff)
  obtain r1 where r1: "Decrypt (chacha C) now r (tmCiphertext m) (tmCounter m) = (Inr (EncodePayload protocol payload), r1)"
    using m(3) by (metis prod.collapse)
  have "transportPeerSession li v = Inr (pk, p, True, r)" using p sr(8) by (simp add: transportPeerSession_def)
  then have d: "decryptTransport ?E ?pkt src v =
      (let p2 = recordTransportActivity now src (length ?pkt) True (p\<lparr>peSession := Some r1\<rparr>)
       in route_payload ?E pk p2 True (EncodePayload protocol payload) (set_peer pk p2 v))"
    using m(1,2) r1 by (simp add: decryptTransport_def Let_def)
  have "processPacket ?E ?pkt src v = decryptTransport ?E ?pkt src v"
    by (simp add: processPacket_def sealed_def BuildTransportMessage_def MessageTypeHandshakeInit_def
        MessageTypeHandshakeResp_def MessageTypeTransport_def)
  then show ?thesis using p(1) d
    by (intro exI [of _ p] exI [of _ "recordTransportActivity now src (length ?pkt) True (p\<lparr>peSession := Some r1\<rparr>)"])
      (simp add: Let_def recordTransportActivity_def)
qed

lemma route_direct:
  assumes "protocol \<noteq> ProtocolConnCtrl" "protocol \<noteq> ProtocolKCP" "peSession p \<noteq> None"
  shows "fst (route_payload E pk p c (EncodePayload protocol payload) u) = Inr (pk, protocol, payload)"
proof -
  have "\<exists>r u1. with_service_mux E pk p (\<lambda>m. InputPacket m protocol payload) u = (Inr r, u1)"
    using assms(3) by (auto simp: with_service_mux_def ensureServiceMux_def Let_def split: option.split prod.split)
  then show ?thesis using assms(1,2)
    by (auto simp: route_payload_def decode_encode_payload split: option.split) (simp_all add: EncodePayload_def)
qed

text \<open>A socket that holds a session with a peer, and two sockets whose sessions fit.\<close>

definition holds :: "key \<Rightarrow> session \<Rightarrow> 'w udp \<Rightarrow> bool" where
  "holds pk s u \<longleftrightarrow> \<not> uClosed u \<and> \<not> uClosing u \<and> uByIndex u (localIndex s) = Some pk \<and>
     (\<exists>p. peers u pk = Some p \<and> endpoint p \<noteq> None \<and> peSession p = Some s)"

lemma holds_sends:
  assumes h: "holds pk s u" and s: "sstate s = Established" "sendNonce s < MaxNonce"
  shows "\<exists>a u'. WriteTo (wire_env C now x y) pk data u = (None, u') \<and> uNet u' = uNet u @ [(sealed C s 1 data, a)] \<and>
    holds pk (sent_one now s) u'"
proof -
  obtain p a where p: "peers u pk = Some p" "endpoint p = Some a" "peSession p = Some s" "uByIndex u (localIndex s) = Some pk"
      "\<not> uClosed u" "\<not> uClosing u" using h by (auto simp: holds_def)
  have "merge_sent (Some (sent_one now s)) (Some s) = Some (sent_one now s)" by (simp add: merge_sent_def sent_one_def)
  then show ?thesis
    using link_sends [of "load_link (wire_env C now x y) u p" C now x y a s 1 data] p s
    by (simp add: WriteTo_def udp_sendPayload_def load_link_def store_link_def holds_def)
qed

lemma InputPacket_world: "smWorld (snd (InputPacket m protocol data)) = smWorld m"
  by (simp add: InputPacket_def)

lemma merge_same: "merge_sent s s = s"
  by (cases s) (simp_all add: merge_sent_def)

lemma input_keeps_session:
  assumes "holds pk s u" "peers u pk = Some p"
  shows "holds pk s (snd (on_smux E pk p gm (\<lambda>m. InputPacket m protocol payload) u))"
  using assms
  by (auto simp: on_smux_def run_smux_def store_link_def load_link_def InputPacket_world merge_same holds_def case_prod_beta)

lemma packet_keeps_session:
  assumes h: "holds pk s u" and p: "peers u pk = Some p"
  shows "\<exists>r u'. with_service_mux E pk p (\<lambda>m. InputPacket m protocol payload) u = (Inr r, u') \<and> holds pk s u'"
proof -
  have keep: ?thesis if a: "(case serviceMux p of Some gm \<Rightarrow> (Inr gm, u) | None \<Rightarrow> ensureServiceMux E pk p u) = (Inr gm, u1)"
    "holds pk s u1" for gm u1
  proof -
    obtain p1 where p1: "peers u1 pk = Some p1" using a(2) by (auto simp: holds_def)
    from input_keeps_session [OF a(2) p1, of E gm protocol payload]
    show ?thesis using a(1) p1 by (simp add: with_service_mux_def case_prod_beta)
  qed
  show ?thesis
  proof (cases "serviceMux p")
    case None
    have "peSession p = Some s" using assms by (simp add: holds_def)
    then show ?thesis
      by (intro keep [of "(nextGen u, createServiceMux E pk p u)"
          "emitPeerEvent pk PeerEstablished (set_peer pk (p\<lparr>serviceMux := Some (nextGen u, createServiceMux E pk p u), peStatus := PeerEstablished\<rparr>)
            (u\<lparr>nextGen := nextGen u + 1\<rparr>))"]) (use assms None in \<open>simp_all add: ensureServiceMux_def Let_def holds_def\<close>)
  next
    case (Some gm)
    then show ?thesis using keep [of gm u] h by simp
  qed
qed

lemma holds_reads:
  assumes C: "crypto_ok C" and h: "holds pk r u" and l: "session_link s r" "session_link r s" and n: "sendNonce s < MaxNonce"
  shows "\<exists>u'. processPacket (wire_env C now x y) (sealed C s 1 data) src u = (Inr (pk, 1, data), u') \<and>
    holds pk (received_one now (sendNonce s) r) u'"
proof -
  let ?E = "wire_env C now x y" and ?pkt = "sealed C s 1 data" and ?r1 = "received_one now (sendNonce s) r"
  obtain p where p: "peers u pk = Some p" "peSession p = Some r" "uByIndex u (localIndex r) = Some pk" "\<not> uClosed u" "\<not> uClosing u"
    using h by (auto simp: holds_def)
  have A: "aead_correct (chacha C)" using C by (simp add: crypto_ok_def)
  obtain m where m: "ParseTransportMessage ?pkt = Inr m" "tmReceiverIndex m = localIndex r"
    "Decrypt (chacha C) now r (tmCiphertext m) (tmCounter m) = (Inr (EncodePayload 1 data), ?r1)"
    using session_link_delivers(1) [OF A l n refl, where tb = now] unfolding sealed_def by blast
  let ?p2 = "recordTransportActivity now src (length ?pkt) True (p\<lparr>peSession := Some ?r1\<rparr>)"
  have "transportPeerSession (localIndex r) u = Inr (pk, p, True, r)" using p by (simp add: transportPeerSession_def)
  then have d: "decryptTransport ?E ?pkt src u = route_payload ?E pk ?p2 True (EncodePayload 1 data) (set_peer pk ?p2 u)"
    using m by (simp add: decryptTransport_def Let_def)
  have "holds pk ?r1 (set_peer pk ?p2 u)" "peers (set_peer pk ?p2 u) pk = Some ?p2"
    using p by (simp_all add: holds_def recordTransportActivity_def)
  from packet_keeps_session [OF this, of ?E 1 data]
  obtain e u' where w: "with_service_mux ?E pk ?p2 (\<lambda>m. InputPacket m 1 data) (set_peer pk ?p2 u) = (Inr e, u')" "holds pk ?r1 u'"
    by blast
  have "EncodePayload 1 data \<noteq> []" by (simp add: EncodePayload_def)
  then have "\<exists>u''. route_payload ?E pk ?p2 True (EncodePayload 1 data) (set_peer pk ?p2 u) = (Inr (pk, 1, data), u'') \<and> holds pk ?r1 u''"
    using w by (cases e) (simp_all add: route_payload_def decode_encode_payload ProtocolConnCtrl_def ProtocolKCP_def holds_def)
  moreover have "processPacket ?E ?pkt src u = decryptTransport ?E ?pkt src u"
    by (simp add: processPacket_def sealed_def BuildTransportMessage_def MessageTypeHandshakeInit_def
        MessageTypeHandshakeResp_def MessageTypeTransport_def)
  ultimately show ?thesis by (simp add: d)
qed

text \<open>
  A conversation of two sockets: each item says when a packet is sent and read, its data, the address it
  comes from, and whether the other end writes next.  What one writes the other reads, as from the key of
  the writer.
\<close>

fun udp_conversation ::
  "crypto \<Rightarrow> (int \<times> int \<times> byte list \<times> addr \<times> bool) list \<Rightarrow> (byte list \<times> addr) list udp \<Rightarrow> key \<Rightarrow>
    (byte list \<times> addr) list udp \<Rightarrow> key \<Rightarrow> bool" where
  "udp_conversation C [] x pky y pkx \<longleftrightarrow> True"
| "udp_conversation C ((now, now', data, src, turn) # rest) x pky y pkx \<longleftrightarrow>
     (\<exists>pkt a x' y'. WriteTo (wire_env C now None None) pky data x = (None, x') \<and>
        uNet x' = uNet x @ [(pkt, a)] \<and>
        processPacket (wire_env C now' None None) pkt src y = (Inr (pkx, 1, data), y') \<and>
        (if turn then udp_conversation C rest y' pkx x' pky else udp_conversation C rest x' pky y' pkx))"

text \<open>
  The two sockets carry every conversation of at most \<open>MaxNonce\<close> packets: so many the counter of a new
  session allows, one more is refused.
\<close>

definition udp_delivers :: "crypto \<Rightarrow> (byte list \<times> addr) list udp \<Rightarrow> key \<Rightarrow> (byte list \<times> addr) list udp \<Rightarrow> key \<Rightarrow> bool" where
  "udp_delivers C x pky y pkx \<longleftrightarrow> (\<forall>said. length said \<le> unat MaxNonce \<longrightarrow> udp_conversation C said x pky y pkx)"

lemma nonce_room:
  "unat n + Suc k \<le> unat MaxNonce \<Longrightarrow> n < MaxNonce \<and> unat (n + 1) + k \<le> unat MaxNonce"
proof -
  assume n: "unat n + Suc k \<le> unat MaxNonce"
  then have "unat n + 1 < 2 ^ 64" using unat_u64_less [of MaxNonce] by linarith
  then have "unat (n + 1) = unat n + 1" by (simp add: unat_word_ariths(1))
  then show ?thesis using n by (simp add: word_less_nat_alt)
qed

lemma holds_converse:
  assumes C: "crypto_ok C" and "holds pky s x" "holds pkx r y" "session_link s r" "session_link r s"
    and "unat (sendNonce s) + length said \<le> unat MaxNonce" "unat (sendNonce r) + length said \<le> unat MaxNonce"
  shows "udp_conversation C said x pky y pkx"
  using assms(2-7)
proof (induction said arbitrary: x pky s y pkx r)
  case (Cons u said)
  obtain now now' data src turn where u: "u = (now, now', data, src, turn)" by (metis prod_cases5)
  have n: "sendNonce s < MaxNonce" "unat (sendNonce s + 1) + length said \<le> unat MaxNonce"
    using nonce_room [of "sendNonce s" "length said"] Cons.prems(5) by simp_all
  have r: "unat (sendNonce r) + length said \<le> unat MaxNonce" using Cons.prems(6) by simp
  have st: "sstate s = Established" using Cons.prems(3) by (simp add: session_link_def)
  have A: "aead_correct (chacha C)" using C by (simp add: crypto_ok_def)
  obtain a x' where 1: "WriteTo (wire_env C now None None) pky data x = (None, x')"
    "uNet x' = uNet x @ [(sealed C s 1 data, a)]" "holds pky (sent_one now s) x'"
    using holds_sends [OF Cons.prems(1) st n(1)] by blast
  obtain y' where 2: "processPacket (wire_env C now' None None) (sealed C s 1 data) src y = (Inr (pkx, 1, data), y')"
    "holds pkx (received_one now' (sendNonce s) r) y'"
    using holds_reads [OF C Cons.prems(2-4) n(1)] by blast
  note L = session_link_delivers(2,3) [OF A Cons.prems(3,4) n(1) refl, where ta = now and tb = now']
  have "udp_conversation C said x' pky y' pkx" "udp_conversation C said y' pkx x' pky"
    using Cons.IH [OF 1(3) 2(2) L] Cons.IH [OF 2(2) 1(3) L(2,1)] n(2) r by simp_all
  then show ?case unfolding u udp_conversation.simps using 1 2 by auto
qed simp

lemma linked_delivers:
  assumes C: "crypto_ok C" and x: "linked i j k1 k2 pky a x" and y: "linked j i k2 k1 pkx b y"
  shows "udp_delivers C x pky y pkx"
proof -
  obtain s r where s: "holds pky s x" "new_session i j k1 k2 s" and r: "holds pkx r y" "new_session j i k2 k1 r"
    using x y by (fastforce simp: linked_def holds_def new_session_def)
  have "session_link s r" "session_link r s" using s(2) r(2) by (auto simp: new_session_def intro!: session_link_new)
  moreover have "sendNonce s = 0" "sendNonce r = 0" using s(2) r(2) by (simp_all add: new_session_def)
  ultimately show ?thesis using holds_converse [OF C s(1) r(1)] by (simp add: udp_delivers_def)
qed

section \<open>Properties\<close>

text \<open>
  C6: Two sockets connect over three calls.  The initiation \<open>Connect\<close> sends makes the other socket
  answer and hold a session; the answer makes the first socket hold the same keys crosswise, ends the wait
  with success, and from then on any sequence of writes, by either end in any order, is what the other end
  reads, under the key of its sender, for as many packets as the counter of a session allows.  Of two different keys
  exactly one end is the client of the service mux.
\<close>

theorem connect_links_sockets:
  assumes "crypto_ok C" and "good_pair C (uKey u)" and "good_pair C (uKey v)" and "length a = KeySize" and "length b = KeySize"
    and "peers u (kpPublic (uKey v)) = Some p" and "endpoint p = Some av" and "\<not> uClosed u" and "\<not> uClosing u"
    and "\<not> uClosed v" and "\<not> uClosing v" and "allowUnknown v \<or> peers v (kpPublic (uKey u)) \<noteq> None"
  shows "\<exists>init reply u1 v1 u2 k1 k2.
    Connect (wire_env C t1 (Some i) (Some a)) (kpPublic (uKey v)) u = (Inr i, u1) \<and> uNet u1 = uNet u @ [(init, av)] \<and>
    processPacket (wire_env C t2 (Some j) (Some b)) init au v = (Inl NoData, v1) \<and> uNet v1 = uNet v @ [(reply, au)] \<and>
    processPacket (wire_env C t3 None None) reply av' u1 = (Inl NoData, u2) \<and> hsResults u2 i = Some None \<and>
    linked i j k1 k2 (kpPublic (uKey v)) av' u2 \<and> linked j i k2 k1 (kpPublic (uKey u)) au v1 \<and>
    udp_delivers C u2 (kpPublic (uKey v)) v1 (kpPublic (uKey u)) \<and>
    udp_delivers C v1 (kpPublic (uKey u)) u2 (kpPublic (uKey v)) \<and>
    (kpPublic (uKey u) = kpPublic (uKey v) \<or> isKCPClient u2 (kpPublic (uKey v)) \<noteq> isKCPClient v1 (kpPublic (uKey u)))"
proof -
  obtain init reply u1 v1 u2 k1 k2 where X:
    "Connect (wire_env C t1 (Some i) (Some a)) (kpPublic (uKey v)) u = (Inr i, u1)" "uNet u1 = uNet u @ [(init, av)]"
    "processPacket (wire_env C t2 (Some j) (Some b)) init au v = (Inl NoData, v1)" "uNet v1 = uNet v @ [(reply, au)]"
    "processPacket (wire_env C t3 None None) reply av' u1 = (Inl NoData, u2)" "hsResults u2 i = Some None"
    "uKey u2 = uKey u" "uKey v1 = uKey v"
    "linked i j k1 k2 (kpPublic (uKey v)) av' u2" "linked j i k2 k1 (kpPublic (uKey u)) au v1"
    using udp_exchange [OF assms, of t1 i t2 j au t3 av'] by (elim exE conjE) (rule that)
  have "udp_delivers C u2 (kpPublic (uKey v)) v1 (kpPublic (uKey u))"
    "udp_delivers C v1 (kpPublic (uKey u)) u2 (kpPublic (uKey v))"
    using linked_delivers [OF assms(1)] X(9,10) by blast+
  moreover have "kpPublic (uKey u) = kpPublic (uKey v) \<or>
      isKCPClient u2 (kpPublic (uKey v)) \<noteq> isKCPClient v1 (kpPublic (uKey u))"
    using X(7,8) by (auto simp: isKCPClient_def)
  ultimately show ?thesis using X by blast
qed

section \<open>The properties at a concrete input\<close>

lemma demo_two_pairs: "\<exists>kp kq. good_pair demo_crypto kp \<and> good_pair demo_crypto kq \<and> kpPublic kp \<noteq> kpPublic kq"
proof -
  let ?p = "NewKeyPair demo_crypto (replicate 32 0)" and ?q = "NewKeyPair demo_crypto (replicate 32 16)"
  have n: "?p \<noteq> None" "?q \<noteq> None"
    and d: "map_option (\<lambda>k. kpPublic k ! 0) ?p \<noteq> map_option (\<lambda>k. kpPublic k ! 0) ?q" by code_simp+
  obtain kp kq where "?p = Some kp" "?q = Some kq" using n by blast
  moreover from this have "kpPublic kp \<noteq> kpPublic kq" using d by auto
  moreover have "length (replicate 32 (n :: byte)) = KeySize" for n by (simp add: KeySize_def)
  ultimately show ?thesis unfolding good_pair_def by blast
qed

text \<open>The dialling socket knows the address of the other, which takes any peer.\<close>

definition demo_udp :: "key_pair \<Rightarrow> bool \<Rightarrow> (byte list \<times> addr) list udp" where
  "demo_udp kp unknown = NewUDP kp unknown None None
     \<lparr>CloseAckTimeout = 0, IdleStreamTimeout = 0, AcceptBacklog = 0, MaxActiveStreams = 0\<rparr> None []"

lemma demo_dialler:
  "peers (SetPeerEndpoint pk (Some a) (demo_udp kp b)) pk = Some (fresh_peer\<lparr>endpoint := Some a\<rparr>)"
  "uKey (SetPeerEndpoint pk (Some a) (demo_udp kp b)) = kp" "uNet (SetPeerEndpoint pk (Some a) (demo_udp kp b)) = []"
  "\<not> uClosed (SetPeerEndpoint pk (Some a) (demo_udp kp b))" "\<not> uClosing (SetPeerEndpoint pk (Some a) (demo_udp kp b))"
  "uKey (demo_udp kp b) = kp" "\<not> uClosed (demo_udp kp b)" "\<not> uClosing (demo_udp kp b)" "allowUnknown (demo_udp kp b) = b"
  "peers (demo_udp kp b) = (\<lambda>_. None)" "uNet (demo_udp kp b) = []"
  by (simp_all add: SetPeerEndpoint_def demo_udp_def NewUDP_def)

theorem connect_links_sockets_witness:
  "\<exists>u v u2 v1 pku pkv. udp_delivers demo_crypto u2 pkv v1 pku \<and> udp_delivers demo_crypto v1 pku u2 pkv \<and>
    isKCPClient u2 pkv \<noteq> isKCPClient v1 pku \<and> hsResults u2 7 = Some None \<and>
    u = SetPeerEndpoint pkv (Some ''b'') (demo_udp (uKey u) False) \<and> v = demo_udp (uKey v) True \<and>
    uNet v1 \<noteq> [] \<and> fst (Connect (wire_env demo_crypto 1 (Some 7) (Some (replicate 32 1))) pkv u) = Inr 7"
proof -
  obtain kp kq where k: "good_pair demo_crypto kp" "good_pair demo_crypto kq" "kpPublic kp \<noteq> kpPublic kq"
    using demo_two_pairs by blast
  let ?u = "SetPeerEndpoint (kpPublic kq) (Some ''b'') (demo_udp kp False)" and ?v = "demo_udp kq True"
  note X = connect_links_sockets [OF demo_crypto_ok, of ?u ?v "replicate 32 1" "replicate 32 2"
      "fresh_peer\<lparr>endpoint := Some ''b''\<rparr>" "''b''" 1 7 1 9 "''a''" 1 "''b''"]
  obtain u2 v1 init reply where "udp_delivers demo_crypto u2 (kpPublic kq) v1 (kpPublic kp)"
    "udp_delivers demo_crypto v1 (kpPublic kp) u2 (kpPublic kq)"
    "isKCPClient u2 (kpPublic kq) \<noteq> isKCPClient v1 (kpPublic kp)" "hsResults u2 7 = Some None"
    "uNet v1 = uNet ?v @ [(reply, ''a'')]"
    "fst (Connect (wire_env demo_crypto 1 (Some 7) (Some (replicate 32 1))) (kpPublic kq) ?u) = Inr 7"
    using X k by (simp add: demo_dialler KeySize_def) (metis fst_conv)
  then show ?thesis
    by (intro exI [of _ ?u] exI [of _ ?v] exI [of _ u2] exI [of _ v1] exI [of _ "kpPublic kp"] exI [of _ "kpPublic kq"])
      (simp add: demo_dialler)
qed

end
