(* ===== verification/UdpRouting.thy ===== *)
theory UdpRouting
  imports UdpExchange
begin

text \<open>
  The index of \<open>Udp\<close>: over every history it leads a packet only to a session of the peer it names, and it
  leads each packet to the one session that has its receiver index as long as no index was drawn twice.
  Local indices are drawn at random and never compared with the index, so the code does not ensure that.
\<close>

section \<open>The indices of a peer\<close>

definition peer_view :: "'w peer \<Rightarrow> u32 option \<times> u32 option" where
  "peer_view p = (map_option localIndex (peSession p), map_option localIndex (pePrevious p))"

definition peer_keys :: "'w peer \<Rightarrow> key option \<times> key option" where
  "peer_keys p = (map_option remotePK (peSession p), map_option remotePK (pePrevious p))"

definition keys :: "'w udp \<Rightarrow> key \<Rightarrow> (key option \<times> key option) option" where
  "keys u pk = map_option peer_keys (peers u pk)"

definition view :: "'w udp \<Rightarrow> key \<Rightarrow> (u32 option \<times> u32 option) option" where
  "view u pk = map_option peer_view (peers u pk)"

definition routes_ok :: "'w udp \<Rightarrow> bool" where
  "routes_ok u \<longleftrightarrow>
     (\<forall>pk c p. view u pk = Some (c, p) \<longrightarrow>
        (\<forall>i. c = Some i \<or> p = Some i \<longrightarrow> uByIndex u i = Some pk) \<and> (p \<noteq> None \<longrightarrow> c \<noteq> None \<and> c \<noteq> p)) \<and>
     (\<forall>i pk. uByIndex u i = Some pk \<longrightarrow> (\<exists>c p. view u pk = Some (c, p) \<and> (c = Some i \<or> p = Some i))) \<and>
     (\<forall>i pd. pending u i = Some pd \<longrightarrow> uByIndex u i = None \<and> view u (pdPeer pd) \<noteq> None)"

text \<open>Nothing of the routing changes, except that peers without sessions are added and handshakes end.\<close>

definition same_routes :: "'w udp \<Rightarrow> 'w udp \<Rightarrow> bool" where
  "same_routes u u' \<longleftrightarrow>
     uByIndex u' = uByIndex u \<and> (\<forall>i. pending u' i = pending u i \<or> pending u' i = None) \<and>
     (\<forall>pk. view u' pk = view u pk \<or> view u pk = None \<and> view u' pk = Some (None, None)) \<and>
     (\<forall>pk. keys u' pk = keys u pk \<or> keys u pk = None \<and> keys u' pk = Some (None, None))"

lemma same_routes_ok: "same_routes u u' \<Longrightarrow> routes_ok u \<Longrightarrow> routes_ok u'"
  unfolding routes_ok_def same_routes_def by (smt (verit) fst_conv option.distinct(1) option.sel snd_conv)

lemma same_routes_refl [simp, intro]: "same_routes u u"
  by (simp add: same_routes_def)

lemma same_routes_trans:
  assumes "same_routes u v" "same_routes v w"
  shows "same_routes u w"
proof -
  have "view w pk = view u pk \<or> view u pk = None \<and> view w pk = Some (None, None)"
    "keys w pk = keys u pk \<or> keys u pk = None \<and> keys w pk = Some (None, None)" for pk
    using assms unfolding same_routes_def by (metis option.distinct(1))+
  moreover have "pending w i = pending u i \<or> pending w i = None" for i
    using assms unfolding same_routes_def by metis
  ultimately show ?thesis using assms by (simp add: same_routes_def)
qed

lemma same_routes_fields:
  "peers u' = peers u \<Longrightarrow> uByIndex u' = uByIndex u \<Longrightarrow> pending u' = pending u \<Longrightarrow> same_routes u u'"
  by (simp add: same_routes_def view_def keys_def)

lemma same_routes_peer:
  assumes "uByIndex u' = uByIndex u" "pending u' = pending u" "\<And>q. q \<noteq> pk \<Longrightarrow> peers u' q = peers u q"
    and "map_option peer_view (peers u' pk) = map_option peer_view (peers u pk) \<or>
      peers u pk = None \<and> map_option peer_view (peers u' pk) = Some (None, None)"
    and "map_option peer_keys (peers u' pk) = map_option peer_keys (peers u pk) \<or>
      peers u pk = None \<and> map_option peer_keys (peers u' pk) = Some (None, None)"
  shows "same_routes u u'"
proof -
  have "view u' q = view u q \<or> view u q = None \<and> view u' q = Some (None, None)" for q
    using assms(3,4) unfolding view_def by (cases "q = pk") auto
  moreover have "keys u' q = keys u q \<or> keys u q = None \<and> keys u' q = Some (None, None)" for q
    using assms(3,5) unfolding keys_def by (cases "q = pk") auto
  ultimately show ?thesis using assms(1,2) by (simp add: same_routes_def)
qed

section \<open>What the service muxes leave alone\<close>

text \<open>All of a peer but its status, its mux and what sending counts.\<close>

definition peer_core :: "'w peer \<Rightarrow> addr option \<times> session option \<times> session option \<times> u64 \<times> int" where
  "peer_core p =
     (endpoint p, map_option (\<lambda>s. s\<lparr>sendNonce := 0, lastSent := 0\<rparr>) (peSession p), pePrevious p, rxBytes p, peLastSeen p)"

definition core_same :: "'w udp \<Rightarrow> 'w udp \<Rightarrow> bool" where
  "core_same u u' \<longleftrightarrow>
     uByIndex u' = uByIndex u \<and> pending u' = pending u \<and>
     (\<forall>pk. map_option peer_core (peers u' pk) = map_option peer_core (peers u pk))"

lemma core_view:
  "map_option peer_view p = map_option (\<lambda>(_, s, old, _). (map_option localIndex s, map_option localIndex old)) (map_option peer_core p)"
  by (cases p) (simp_all add: peer_view_def peer_core_def option.map_comp comp_def)

lemma core_keys:
  "map_option peer_keys p = map_option (\<lambda>(_, s, old, _). (map_option remotePK s, map_option remotePK old)) (map_option peer_core p)"
  by (cases p) (simp_all add: peer_keys_def peer_core_def option.map_comp comp_def)

lemma core_endpoint: "map_option endpoint p = map_option fst (map_option peer_core p)"
  by (cases p) (simp_all add: peer_core_def)

lemma core_same_routes: "core_same u u' \<Longrightarrow> same_routes u u'"
  unfolding core_same_def same_routes_def view_def core_view keys_def core_keys by simp

lemma core_same_refl [simp, intro]: "core_same u u"
  by (simp add: core_same_def)

lemma core_same_trans: "core_same u v \<Longrightarrow> core_same v w \<Longrightarrow> core_same u w"
  by (simp add: core_same_def)

lemma core_same_fields:
  "peers u' = peers u \<Longrightarrow> uByIndex u' = uByIndex u \<Longrightarrow> pending u' = pending u \<Longrightarrow> core_same u u'"
  by (simp add: core_same_def)

lemma core_same_peer:
  assumes "uByIndex u' = uByIndex u" "pending u' = pending u" "\<And>q. q \<noteq> pk \<Longrightarrow> peers u' q = peers u q"
    and "map_option peer_core (peers u' pk) = map_option peer_core (peers u pk)"
  shows "core_same u u'"
  unfolding core_same_def
proof (intro conjI allI)
  show "map_option peer_core (peers u' q) = map_option peer_core (peers u q)" for q
    using assms(3,4) by (cases "q = pk") simp_all
qed (rule assms(1), rule assms(2))

lemma core_merge [simp]:
  "map_option (\<lambda>s. s\<lparr>sendNonce := 0, lastSent := 0\<rparr>) (merge_sent n old) =
   map_option (\<lambda>s. s\<lparr>sendNonce := 0, lastSent := 0\<rparr>) old"
  by (simp add: merge_sent_def split: option.split)

lemma store_link_fields [simp]:
  "peers (store_link pk p l u) = (peers u)(pk \<mapsto> p\<lparr>peSession := merge_sent (lkSession l) (peSession p), txBytes := lkTx l\<rparr>)"
  "uByIndex (store_link pk p l u) = uByIndex u" "pending (store_link pk p l u) = pending u"
  by (simp_all add: store_link_def)

lemma store_link_same: "peers u pk = Some p \<Longrightarrow> core_same u (store_link pk p l u)"
  by (rule core_same_peer [where pk = pk]) (simp_all add: peer_core_def)

lemma send_same: "peers u pk = Some p \<Longrightarrow> core_same u (snd (udp_sendPayload E pk p protocol payload u))"
  by (simp add: udp_sendPayload_def store_link_same split: prod.split)

lemma run_smux_same: "peers u pk = Some p \<Longrightarrow> core_same u (snd (snd (run_smux E pk p m oper u)))"
  by (simp add: run_smux_def store_link_same split: prod.split)

lemma on_smux_same: "peers u pk = Some p \<Longrightarrow> core_same u (snd (on_smux E pk p gm oper u))"
  by (rule core_same_peer [where pk = pk])
    (auto simp: on_smux_def run_smux_def peer_core_def split: prod.split)

lemma ensureServiceMux_same: "peers u pk = Some p \<Longrightarrow> core_same u (snd (ensureServiceMux E pk p u))"
  by (auto simp: ensureServiceMux_def Let_def peer_core_def split: option.split
      intro!: core_same_peer [where pk = pk])

lemma PeerServiceMux_same: "core_same u (snd (PeerServiceMux E pk u))"
  by (auto simp: PeerServiceMux_def GetPeer_def ensureServiceMux_same split: sum.split option.split)

lemma OpenServiceMux_same: "core_same u (snd (OpenServiceMux E pk u))"
proof (cases "GetPeer pk u")
  case (Inl e)
  then show ?thesis by (simp add: OpenServiceMux_def)
next
  case (Inr p)
  then have p: "peers u pk = Some p" by (auto simp: GetPeer_def split: if_splits option.splits)
  let ?p1 = "p\<lparr>serviceMux := Some (nextGen u, createServiceMux E pk p u), peStatus := PeerEstablished\<rparr>"
  let ?u1 = "set_peer pk ?p1 (u\<lparr>nextGen := nextGen u + 1\<rparr>)"
  have 1: "core_same u ?u1" using p by (intro core_same_peer [where pk = pk]) (auto simp: peer_core_def)
  have 2: "core_same ?u1 (snd (snd (run_smux E pk ?p1 m sm_Close ?u1)))" for m by (rule run_smux_same) simp
  show ?thesis
  proof (cases "peSession p = None")
    case False
    have "core_same u (case serviceMux p of None \<Rightarrow> ?u1 | Some (_, m) \<Rightarrow> snd (snd (run_smux E pk ?p1 m sm_Close ?u1)))"
      using core_same_trans [OF 1 2] 1 by (auto split: option.split)
    then have "core_same u (emitPeerEvent pk PeerEstablished
        (case serviceMux p of None \<Rightarrow> ?u1 | Some (_, m) \<Rightarrow> snd (snd (run_smux E pk ?p1 m sm_Close ?u1))))"
      by (rule core_same_trans) (rule core_same_fields; simp)
    then show ?thesis using False by (simp only: OpenServiceMux_def Let_def Inr sum.case if_False snd_conv)
  qed (use Inr in \<open>simp add: OpenServiceMux_def\<close>)
qed

lemma CloseServiceMux_same:
  assumes "peers u pk = Some p"
  shows "core_same u (CloseServiceMux E pk p g u)"
proof (cases "g \<noteq> None \<and> map_option fst (serviceMux p) \<noteq> g")
  case False
  let ?p1 = "p\<lparr>peStatus := PeerOffline, serviceMux := None\<rparr>"
  let ?u1 = "set_peer pk ?p1 u"
  let ?u2 = "case serviceMux p of None \<Rightarrow> ?u1 | Some (_, m) \<Rightarrow> snd (snd (run_smux E pk ?p1 m sm_Close ?u1))"
  have 1: "core_same u ?u1" using assms by (intro core_same_peer [where pk = pk]) (auto simp: peer_core_def)
  have "core_same ?u1 (snd (snd (run_smux E pk ?p1 m sm_Close ?u1)))" for m by (rule run_smux_same) simp
  then have "core_same u ?u2" using 1 core_same_trans by (auto split: option.split)
  moreover have "core_same ?u2 (emitPeerEvent pk PeerOffline ?u2)" by (rule core_same_fields) simp_all
  ultimately have "core_same u (if peStatus p \<noteq> PeerOffline then emitPeerEvent pk PeerOffline ?u2 else ?u2)"
    using core_same_trans by auto
  then show ?thesis using False by (simp only: CloseServiceMux_def Let_def if_False)
qed (simp add: CloseServiceMux_def)

lemma ClosePeerServiceMux_same: "core_same u (ClosePeerServiceMux E pk u)"
  by (auto simp: ClosePeerServiceMux_def GetPeer_def split: sum.split option.split intro: CloseServiceMux_same)

lemma with_service_mux_same:
  assumes "peers u pk = Some p"
  shows "core_same u (snd (with_service_mux E pk p oper u))"
proof -
  let ?mux = "case serviceMux p of Some gm \<Rightarrow> (Inr gm, u) | None \<Rightarrow> ensureServiceMux E pk p u"
  obtain r u1 where e: "?mux = (r, u1)" by (metis surj_pair)
  have 1: "core_same u u1" using ensureServiceMux_same [OF assms, of E] e by (auto split: option.splits)
  have "peers u1 pk \<noteq> None"
    using e assms by (auto simp: ensureServiceMux_def Let_def split: if_splits option.splits)
  then obtain p1 where "peers u1 pk = Some p1" by blast
  have 2: "core_same u (snd (on_smux E pk p1 gm oper u1))" for gm
    by (rule core_same_trans [OF 1 on_smux_same [OF \<open>peers u1 pk = Some p1\<close>]])
  show ?thesis
  proof (cases r)
    case (Inr gm)
    then show ?thesis using e 2 [of gm] \<open>peers u1 pk = Some p1\<close>
      by (simp add: with_service_mux_def case_prod_unfold)
  qed (use e 1 in \<open>simp add: with_service_mux_def\<close>)
qed

lemma count_same:
  "core_same u v \<Longrightarrow> core_same u (v\<lparr>rpcRouteErrors := n\<rparr>)" "core_same u v \<Longrightarrow> core_same u (v\<lparr>droppedInbound := n\<rparr>)"
  by (erule core_same_trans, rule core_same_fields; simp)+

lemma route_payload_same:
  assumes "peers u pk = Some p"
  shows "core_same u (snd (route_payload E pk p cur plaintext u))"
proof (cases "plaintext = []")
  case False
  then obtain protocol payload where d: "DecodePayload plaintext = Inr (protocol, payload)"
    by (cases plaintext) (simp_all add: DecodePayload_def)
  have w: "core_same u (snd (with_service_mux E pk p oper u))"
    for oper :: "('a link) service_mux \<Rightarrow> 'r \<times> ('a link) service_mux"
    by (rule with_service_mux_same [OF assms])
  have K: "core_same u (snd (case with_service_mux E pk p oper u of
             (Inl e, u1) \<Rightarrow> (Inl e, u1\<lparr>rpcRouteErrors := rpcRouteErrors u1 + 1\<rparr>)
           | (Inr (Some (Some e)), u1) \<Rightarrow> (Inl (UdpKcp e), u1\<lparr>rpcRouteErrors := rpcRouteErrors u1 + 1\<rparr>)
           | (Inr _, u1) \<Rightarrow> (Inl NoData, u1)))" for oper
    using w [of oper] by (auto split: prod.split sum.split option.split intro: count_same)
  have P: "core_same u (snd (case with_service_mux E pk p oper u of
             (Inl e, u1) \<Rightarrow> (Inl e, u1\<lparr>droppedInbound := droppedInbound u1 + 1\<rparr>)
           | (Inr (Some e), u1) \<Rightarrow> (Inr (pk, protocol, payload), u1\<lparr>droppedInbound := droppedInbound u1 + 1\<rparr>)
           | (Inr None, u1) \<Rightarrow> (Inr (pk, protocol, payload), u1)))" for oper
    using w [of oper] by (auto split: prod.split sum.split option.split intro: count_same)
  show ?thesis
    using False d K P ClosePeerServiceMux_same [of u E pk]
    by (auto simp: route_payload_def split: sum.split intro!: count_same)
qed (simp add: route_payload_def)

section \<open>Operations that keep the routes\<close>

lemma Decrypt_localIndex:
  "Decrypt A now s ciphertext counter = (r, s1) \<Longrightarrow> localIndex s1 = localIndex s \<and> remotePK s1 = remotePK s"
  by (auto simp: Decrypt_def Let_def split: if_splits option.splits prod.splits)

lemma decryptTransport_same: "same_routes u (snd (decryptTransport E data src u))"
proof (cases "ParseTransportMessage data")
  case (Inr msg)
  show ?thesis
  proof (cases "transportPeerSession (tmReceiverIndex msg) u")
    case (Inr t)
    then obtain pk p c s where t: "transportPeerSession (tmReceiverIndex msg) u = Inr (pk, p, c, s)"
      by (cases t) simp
    then have p: "peers u pk = Some p" and s: "if c then peSession p = Some s else pePrevious p = Some s"
      by (auto simp: transportPeerSession_def split: option.splits if_splits)
    obtain r s1 where d:
        "Decrypt (chacha (envCrypto E)) (envNow E) s (tmCiphertext msg) (tmCounter msg) = (r, s1)"
      by (metis surj_pair)
    then have i: "localIndex s1 = localIndex s" "remotePK s1 = remotePK s" using Decrypt_localIndex by blast+
    let ?p1 = "if c then p\<lparr>peSession := Some s1\<rparr> else p\<lparr>pePrevious := Some s1\<rparr>"
    let ?p2 = "recordTransportActivity (envNow E) src (length data) c ?p1"
    have 1: "same_routes u (set_peer pk ?p1 u)"
      using p s i by (intro same_routes_peer [where pk = pk]) (auto simp: peer_view_def peer_keys_def)
    have 2: "same_routes u (set_peer pk ?p2 u)"
      using p s i by (intro same_routes_peer [where pk = pk]) (auto simp: peer_view_def peer_keys_def recordTransportActivity_def)
    have "same_routes u (snd (route_payload E pk ?p2 c x (set_peer pk ?p2 u)))" for x
      by (rule same_routes_trans [OF 2 core_same_routes [OF route_payload_same]]) simp
    then show ?thesis using \<open>ParseTransportMessage data = Inr msg\<close> t d 1
      by (cases c; cases r) (simp_all add: decryptTransport_def Let_def)
  qed (use \<open>ParseTransportMessage data = Inr msg\<close> in \<open>simp add: decryptTransport_def\<close>)
qed (simp add: decryptTransport_def)

lemma SetPeerEndpoint_same: "same_routes u (SetPeerEndpoint pk a u)"
  by (auto simp: SetPeerEndpoint_def peer_view_def peer_keys_def fresh_peer_def split: option.split
      intro!: same_routes_peer [where pk = pk])

lemma WriteTo_same: "same_routes u (snd (WriteTo E pk data u))"
  by (auto simp: WriteTo_def core_same_routes [OF send_same] split: option.split)

lemma set_failed_same: "same_routes u (set_failed pk u)"
  by (auto simp: set_failed_def peer_view_def peer_keys_def split: option.split intro!: same_routes_peer [where pk = pk])

lemma forget_same: "same_routes u (u\<lparr>pending := (pending u)(idx := None)\<rparr>)"
  by (simp add: same_routes_def view_def keys_def)

lemma handshake_timeout_same: "same_routes u (snd (handshake_timeout pk idx u))"
  by (simp add: handshake_timeout_def same_routes_trans [OF forget_same set_failed_same])

lemma fold_same:
  assumes "\<And>x v. same_routes v (f x v)"
  shows "same_routes u (fold f xs u)"
proof (induction xs arbitrary: u)
  case (Cons x xs)
  show ?case using same_routes_trans [OF assms Cons.IH] by simp
qed simp

lemma udp_Close_same: "same_routes u (udp_Close E order u)"
proof (cases "uClosed u \<or> uClosing u")
  case False
  have c: "same_routes v (close_notice E pk v)" "same_routes v (close_mux E pk v)" "same_routes v (drop_mux pk v)"
    for pk and v :: "'a udp"
    by (auto simp: close_notice_def close_mux_def drop_mux_def core_same_routes [OF send_same] core_same_routes [OF on_smux_same] peer_view_def peer_keys_def
        split: option.split intro!: same_routes_peer [where pk = pk])
  have "same_routes u (u\<lparr>uClosing := True\<rparr>)" by (rule same_routes_fields) simp_all
  from same_routes_trans [OF same_routes_trans [OF same_routes_trans [OF this fold_same [OF c(1)]]
        fold_same [OF c(2)]] fold_same [OF c(3)]]
  have "same_routes u (fold drop_mux order (fold (close_mux E) order (fold (close_notice E) order (u\<lparr>uClosing := True\<rparr>))))" .
  then have "same_routes u (fold drop_mux order
      (fold (close_mux E) order (fold (close_notice E) order (u\<lparr>uClosing := True\<rparr>)))\<lparr>uClosed := True\<rparr>)"
    by (rule same_routes_trans) (rule same_routes_fields; simp)
  then show ?thesis using False by (simp only: udp_Close_def Let_def if_False)
qed (simp add: udp_Close_def)

section \<open>New sessions\<close>

lemma install_session_view:
  fixes u :: "'w udp"
  shows "peers (install_session E pk p s src u) = (peers u)(pk \<mapsto> (fst (snd (ensureServiceMuxLocked E pk p u)))\<lparr>endpoint := Some src, peSession := Some s,
            pePrevious := peSession p, peStatus := PeerEstablished, peLastSeen := envNow E\<rparr>)"
    and "uByIndex (install_session E pk p s src u) = route_session pk p s (uByIndex u)" and "pending (install_session E pk p s src u) = pending u"
  by (simp_all add: install_session_def ensureServiceMuxLocked_def route_session_def Let_def split: option.split)

lemma install_routes:
  assumes ok: "routes_ok u" and p: "peers u pk = Some p"
    and free: "uByIndex u (localIndex s) = None" "pending u (localIndex s) = None"
  shows "routes_ok (install_session E pk p s src u)"
proof -
  let ?v = "install_session E pk p s src u"
  note V = install_session_view [of E pk p s src u]
  have v: "view ?v q = (if q = pk then Some (Some (localIndex s), map_option localIndex (peSession p)) else view u q)" for q
    by (simp add: view_def V(1) peer_view_def)
  have u: "view u pk = Some (map_option localIndex (peSession p), map_option localIndex (pePrevious p))"
    using p by (simp add: view_def peer_view_def)
  have ok1: "\<And>i. map_option localIndex (peSession p) = Some i \<or> map_option localIndex (pePrevious p) = Some i \<Longrightarrow>
      uByIndex u i = Some pk"
    and ok2: "pePrevious p \<noteq> None \<Longrightarrow> map_option localIndex (peSession p) \<noteq> map_option localIndex (pePrevious p)"
    using ok u unfolding routes_ok_def by (blast, simp)
  have i: "uByIndex ?v j = (if j = localIndex s then Some pk
      else if map_option localIndex (pePrevious p) = Some j then None else uByIndex u j)" for j
    using ok1 ok2 unfolding V(2) route_session_def Let_def by (auto split: option.split)
  show ?thesis
    using ok u free unfolding routes_ok_def v i V(3)
    apply (intro conjI)
    subgoal by (smt (verit) option.distinct(1) option.inject prod.inject)
    subgoal by (smt (verit) option.distinct(1) option.inject prod.inject)
    subgoal by (smt (verit) option.distinct(1) option.inject prod.inject)
    done
qed

text \<open>The index an operation draws is not in use.\<close>

definition fresh_draw :: "'w conn_env \<Rightarrow> 'w udp \<Rightarrow> bool" where
  "fresh_draw E u \<longleftrightarrow>
     (case envIndex E of None \<Rightarrow> True | Some i \<Rightarrow> uByIndex u i = None \<and> pending u i = None)"

lemma session_of_localIndex: "session_of E li ri k1 k2 pk = Inr s \<Longrightarrow> localIndex s = li"
  by (auto simp: session_of_def NewSession_def split: if_splits)

lemma add_peer_same: "same_routes u (set_peer pk (case peers u pk of None \<Rightarrow> fresh_peer | Some p \<Rightarrow> p) u)"
  by (auto simp: peer_view_def peer_keys_def fresh_peer_def split: option.split intro!: same_routes_peer [where pk = pk])

lemma net_same: "same_routes u v \<Longrightarrow> same_routes u (v\<lparr>uNet := w\<rparr>)"
  by (erule same_routes_trans, rule same_routes_fields; simp)

lemma hs_result_same: "same_routes u v \<Longrightarrow> same_routes u (hs_result idx r v)"
  by (erule same_routes_trans, rule same_routes_fields; simp)

lemma handleHandshakeInit_routes:
  fixes u :: "'w udp"
  assumes ok: "routes_ok u" and fresh: "fresh_draw E u"
  shows "routes_ok (udp_handleHandshakeInit E data src u)"
proof (cases "ParseHandshakeInit data")
  case (Inr msg)
  show ?thesis
  proof (cases "read_init (envCrypto E) (uKey u) msg")
    fix hs assume hs: "read_init (envCrypto E) (uKey u) msg = Inr hs"
    define pk where "pk = remoteStatic hs"
    define p :: "'w peer" where "p = (case peers u pk of None \<Rightarrow> fresh_peer | Some p \<Rightarrow> p)"
    define u1 where "u1 = set_peer pk p u"
    have s1: "same_routes u u1" unfolding u1_def p_def by (rule add_peer_same)
    have 1: "routes_ok u1" "routes_ok (u1\<lparr>uNet := w\<rparr>)" for w
      using same_routes_ok [OF s1 ok] same_routes_ok [OF net_same [OF s1] ok] by simp_all
    have 2: "routes_ok (install_session E pk p s src (u1\<lparr>uNet := w\<rparr>))"
      if "envIndex E = Some idx" "session_of E idx ri k1 k2 pk = Inr s" for idx ri k1 k2 s w
      using install_routes [OF 1(2), of w pk p s E src] fresh that session_of_localIndex [OF that(2)]
      by (auto simp: fresh_draw_def u1_def)
    show ?thesis
      unfolding udp_handleHandshakeInit_def Inr hs sum.case Let_def
        pk_def [symmetric] p_def [symmetric] u1_def [symmetric]
      by (auto simp: ok 1 2 split: option.split sum.split prod.split)
  qed (use Inr ok in \<open>simp add: udp_handleHandshakeInit_def\<close>)
qed (use ok in \<open>simp add: udp_handleHandshakeInit_def\<close>)

lemma handleHandshakeResp_routes:
  assumes ok: "routes_ok u"
  shows "routes_ok (udp_handleHandshakeResp E data src u)"
proof (cases "ParseHandshakeResp data")
  case (Inr msg)
  define idx where "idx = hrReceiverIndex msg"
  show ?thesis
  proof (cases "pending u idx")
    case (Some pd)
    define pk where "pk = pdPeer pd"
    define u1 where "u1 = u\<lparr>pending := (pending u)(idx := None)\<rparr>"
    have s1: "same_routes u u1" unfolding u1_def by (rule forget_same)
    have 1: "routes_ok u1" "routes_ok (hs_result idx r (set_failed pk u1))" "routes_ok (hs_result idx r u1)" for r
      using s1 hs_result_same [OF same_routes_trans [OF s1 set_failed_same]] hs_result_same [OF s1]
      by (blast intro: same_routes_ok [OF _ ok])+
    have "uByIndex u1 idx = None" "pending u1 idx = None"
      using ok Some by (auto simp: u1_def routes_ok_def)
    then have 2: "routes_ok (hs_result idx None (install_session E pk p s src u1))"
      if "session_of E idx ri k1 k2 pk = Inr s" "peers u1 pk = Some p" for ri k1 k2 s p
      using install_routes [OF 1(1) that(2), of s E src] session_of_localIndex [OF that(1)]
      by (auto intro: same_routes_ok [OF hs_result_same [OF same_routes_refl]])
    show ?thesis
      unfolding udp_handleHandshakeResp_def Inr sum.case Let_def idx_def [symmetric] Some option.case
        pk_def [symmetric] u1_def [symmetric]
      by (auto simp: 1 2 split: option.split sum.split prod.split)
  qed (use Inr ok in \<open>simp add: udp_handleHandshakeResp_def idx_def\<close>)
qed (use ok in \<open>simp add: udp_handleHandshakeResp_def\<close>)

lemma add_pending_routes:
  "routes_ok u \<Longrightarrow> peers u pk \<noteq> None \<Longrightarrow> uByIndex u idx = None \<Longrightarrow> pdPeer pd = pk \<Longrightarrow>
   routes_ok (u\<lparr>pending := (pending u)(idx \<mapsto> pd)\<rparr>)"
  by (auto simp: routes_ok_def view_def)

lemma Connect_routes:
  assumes ok: "routes_ok u" and fresh: "fresh_draw E u"
  shows "routes_ok (snd (Connect E pk u))"
proof (cases "(uClosed u \<or> uClosing u) \<or> peers u pk = None")
  case False
  then obtain p where p: "peers u pk = Some p" "\<not> (uClosed u \<or> uClosing u)" by blast
  define u1 where "u1 = emitPeerEvent pk PeerConnecting (set_peer pk (p\<lparr>peStatus := PeerConnecting\<rparr>) u)"
  have s1: "same_routes u u1" "peers u1 pk \<noteq> None" "uByIndex u1 = uByIndex u"
    unfolding u1_def using p(1) by (auto simp: peer_view_def peer_keys_def intro!: same_routes_peer [where pk = pk])
  have 1: "routes_ok u1" by (rule same_routes_ok [OF s1(1) ok])
  have 2: "routes_ok (u1\<lparr>pending := (pending u1)(idx \<mapsto> \<lparr>pdPeer = pk, pdHs = hs, pdCreatedAt = t\<rparr>),
      hsResults := r, uNet := w\<rparr>)" if "envIndex E = Some idx" for idx hs t r w
    by (rule same_routes_ok [OF same_routes_fields add_pending_routes [OF 1 s1(2), of idx]])
      (use fresh that s1(3) in \<open>auto simp: fresh_draw_def\<close>)
  have 3: "routes_ok (u1\<lparr>hsResults := r, uNet := w, pending := (pending u1)(idx := None)\<rparr>)" for r w idx
    by (rule same_routes_ok [OF same_routes_fields same_routes_ok [OF forget_same 1]]) simp_all
  show ?thesis
    unfolding Connect_def if_not_P [OF p(2)] p(1) option.case initiateHandshake_def Let_def u1_def [symmetric]
    by (auto simp: 1 2 3 split: option.split sum.split prod.split)
qed (use ok in \<open>auto simp: Connect_def\<close>)

lemma processPacket_routes:
  "routes_ok u \<Longrightarrow> fresh_draw E u \<Longrightarrow> routes_ok (snd (processPacket E data src u))"
  by (simp add: processPacket_def handleHandshakeInit_routes handleHandshakeResp_routes
      same_routes_ok [OF decryptTransport_same])

section \<open>The keys of the sessions\<close>

text \<open>The sessions of a peer are with the key of the peer, whatever indices were drawn.\<close>

definition keyed :: "'w udp \<Rightarrow> bool" where
  "keyed u \<longleftrightarrow> (\<forall>pk c p k. keys u pk = Some (c, p) \<longrightarrow> c = Some k \<or> p = Some k \<longrightarrow> k = pk)"

lemma keyed_same: "keyed u \<Longrightarrow> same_routes u v \<Longrightarrow> keyed v"
  unfolding keyed_def same_routes_def by (metis fst_conv option.distinct(1) option.inject snd_conv)

lemma session_of_remotePK: "session_of E li ri k1 k2 pk = Inr s \<Longrightarrow> remotePK s = pk"
  by (auto simp: session_of_def NewSession_def split: if_splits)

lemma install_keyed:
  assumes "keyed u" "remotePK s = pk" "peers u pk = Some p \<or> peSession p = None"
  shows "keyed (install_session E pk p s src u)"
  using assms unfolding keyed_def keys_def install_session_view(1)
  by (auto simp: peer_keys_def split: if_splits)

lemma handleHandshakeInit_keyed:
  assumes ok: "keyed u"
  shows "keyed (udp_handleHandshakeInit E data src u)"
proof (cases "ParseHandshakeInit data")
  case (Inr msg)
  show ?thesis
  proof (cases "read_init (envCrypto E) (uKey u) msg")
    fix hs assume hs: "read_init (envCrypto E) (uKey u) msg = Inr hs"
    define pk where "pk = remoteStatic hs"
    define p :: "'a peer" where "p = (case peers u pk of None \<Rightarrow> fresh_peer | Some p \<Rightarrow> p)"
    define u1 where "u1 = set_peer pk p u"
    have s1: "same_routes u u1" unfolding u1_def p_def by (rule add_peer_same)
    have 1: "keyed u1" "keyed (u1\<lparr>uNet := w\<rparr>)" for w
      using keyed_same [OF ok s1] keyed_same [OF ok net_same [OF s1]] by simp_all
    have 2: "keyed (install_session E pk p s src (u1\<lparr>uNet := w\<rparr>))" if "session_of E idx ri k1 k2 pk = Inr s" for idx ri k1 k2 s w
      by (rule install_keyed [OF 1(2) session_of_remotePK [OF that]]) (simp add: u1_def)
    show ?thesis
      unfolding udp_handleHandshakeInit_def Inr hs sum.case Let_def
        pk_def [symmetric] p_def [symmetric] u1_def [symmetric]
      by (auto simp: ok 1 2 split: option.split sum.split prod.split)
  qed (use Inr ok in \<open>simp add: udp_handleHandshakeInit_def\<close>)
qed (use ok in \<open>simp add: udp_handleHandshakeInit_def\<close>)

lemma handleHandshakeResp_keyed:
  assumes ok: "keyed u"
  shows "keyed (udp_handleHandshakeResp E data src u)"
proof (cases "ParseHandshakeResp data")
  case (Inr msg)
  define idx where "idx = hrReceiverIndex msg"
  show ?thesis
  proof (cases "pending u idx")
    case (Some pd)
    define pk where "pk = pdPeer pd"
    define u1 where "u1 = u\<lparr>pending := (pending u)(idx := None)\<rparr>"
    have s1: "same_routes u u1" unfolding u1_def by (rule forget_same)
    have 1: "keyed u1" "keyed (hs_result idx r (set_failed pk u1))" "keyed (hs_result idx r u1)" for r
      using s1 hs_result_same [OF same_routes_trans [OF s1 set_failed_same]] hs_result_same [OF s1]
      by (blast intro: keyed_same [OF ok])+
    have 2: "keyed (hs_result idx None (install_session E pk p s src u1))"
      if "session_of E idx ri k1 k2 pk = Inr s" "peers u1 pk = Some p" for ri k1 k2 s p
    proof -
      have "keyed (install_session E pk p s src u1)"
        by (rule install_keyed [OF 1(1) session_of_remotePK [OF that(1)]]) (simp add: that(2))
      then show ?thesis by (rule keyed_same [OF _ hs_result_same [OF same_routes_refl]])
    qed
    show ?thesis
      unfolding udp_handleHandshakeResp_def Inr sum.case Let_def idx_def [symmetric] Some option.case
        pk_def [symmetric] u1_def [symmetric]
      by (auto simp: 1 2 split: option.split sum.split prod.split)
  qed (use Inr ok in \<open>simp add: udp_handleHandshakeResp_def idx_def\<close>)
qed (use ok in \<open>simp add: udp_handleHandshakeResp_def\<close>)

lemma Connect_keyed:
  assumes ok: "keyed u"
  shows "keyed (snd (Connect E pk u))"
proof (cases "(uClosed u \<or> uClosing u) \<or> peers u pk = None")
  case False
  then obtain p where p: "peers u pk = Some p" "\<not> (uClosed u \<or> uClosing u)" by blast
  define u1 where "u1 = emitPeerEvent pk PeerConnecting (set_peer pk (p\<lparr>peStatus := PeerConnecting\<rparr>) u)"
  have "same_routes u u1"
    unfolding u1_def using p(1) by (auto simp: peer_view_def peer_keys_def intro!: same_routes_peer [where pk = pk])
  then have 1: "keyed u1" by (rule keyed_same [OF ok])
  have 2: "keyed v" if "peers v = peers u1" for v using 1 that by (simp add: keyed_def keys_def)
  show ?thesis
    unfolding Connect_def if_not_P [OF p(2)] p(1) option.case initiateHandshake_def Let_def u1_def [symmetric]
    by (auto simp: 1 intro!: 2 split: option.split sum.split prod.split)
qed (use ok in \<open>auto simp: Connect_def\<close>)

lemma processPacket_keyed: "keyed u \<Longrightarrow> keyed (snd (processPacket E data src u))"
  by (simp add: processPacket_def handleHandshakeInit_keyed handleHandshakeResp_keyed keyed_same [OF _ decryptTransport_same])

section \<open>Histories\<close>

text \<open>
  A step is one call, or what is left of a call that waited: a handshake that timed out, an operation on
  a service mux, be it the peer's present one or one that was replaced.  The flag says that the indices
  drawn have to be unused.
\<close>

inductive udp_step :: "bool \<Rightarrow> 'w udp \<Rightarrow> 'w udp \<Rightarrow> bool" for fresh where
  step_endpoint: "udp_step fresh u (SetPeerEndpoint pk a u)"
| step_connect: "(fresh \<longrightarrow> fresh_draw E u) \<Longrightarrow> udp_step fresh u (snd (Connect E pk u))"
| step_timeout: "udp_step fresh u (snd (handshake_timeout pk idx u))"
| step_packet: "(fresh \<longrightarrow> fresh_draw E u) \<Longrightarrow> udp_step fresh u (snd (processPacket E data src u))"
| step_write: "udp_step fresh u (snd (WriteTo E pk data u))"
| step_mux: "udp_step fresh u (snd (PeerServiceMux E pk u))"
| step_open_mux: "udp_step fresh u (snd (OpenServiceMux E pk u))"
| step_close_mux: "udp_step fresh u (ClosePeerServiceMux E pk u)"
| step_close_match: "GetPeer pk u = Inr p \<Longrightarrow> udp_step fresh u (CloseServiceMux E pk p g u)"
| step_on_mux: "peers u pk = Some p \<Longrightarrow> serviceMux p = Some gm \<Longrightarrow>
    udp_step fresh u (snd (on_smux E pk p gm (\<lambda>m. ((), oper m)) u))"
| step_old_mux: "peers u pk = Some p \<Longrightarrow> udp_step fresh u (snd (snd (run_smux E pk p m (\<lambda>m. ((), oper m)) u)))"
| step_close: "udp_step fresh u (udp_Close E order u)"

lemma udp_step_routes: "udp_step True u v \<Longrightarrow> routes_ok u \<Longrightarrow> routes_ok v"
proof (induction rule: udp_step.induct)
  case (step_close_match pk u p E g)
  then have "peers u pk = Some p" by (auto simp: GetPeer_def split: if_splits option.splits)
  then show ?case using core_same_routes [OF CloseServiceMux_same] step_close_match.prems same_routes_ok by blast
qed (blast intro: same_routes_ok SetPeerEndpoint_same Connect_routes handshake_timeout_same processPacket_routes
    WriteTo_same udp_Close_same core_same_routes PeerServiceMux_same OpenServiceMux_same ClosePeerServiceMux_same
    on_smux_same run_smux_same)+

lemma udp_step_keyed: "udp_step fresh u v \<Longrightarrow> keyed u \<Longrightarrow> keyed v"
proof (induction rule: udp_step.induct)
  case (step_close_match pk u p E g)
  then have "peers u pk = Some p" by (auto simp: GetPeer_def split: if_splits option.splits)
  then show ?case using core_same_routes [OF CloseServiceMux_same] step_close_match.prems keyed_same by blast
qed (blast intro: keyed_same SetPeerEndpoint_same Connect_keyed handshake_timeout_same processPacket_keyed
    WriteTo_same udp_Close_same core_same_routes PeerServiceMux_same OpenServiceMux_same ClosePeerServiceMux_same
    on_smux_same run_smux_same)+

lemma NewUDP_routes: "routes_ok (NewUDP kp unknown onNew onErr cfg onEvent w)"
  by (simp add: routes_ok_def NewUDP_def view_def)

lemma NewUDP_keyed: "keyed (NewUDP kp unknown onNew onErr cfg onEvent w)"
  by (simp add: keyed_def NewUDP_def keys_def)

lemma udp_history_routes: "(udp_step True)\<^sup>*\<^sup>* u v \<Longrightarrow> routes_ok u \<Longrightarrow> routes_ok v"
  by (induction rule: rtranclp_induct) (auto intro: udp_step_routes)

lemma udp_history_keyed: "(udp_step fresh)\<^sup>*\<^sup>* u v \<Longrightarrow> keyed u \<Longrightarrow> keyed v"
  by (induction rule: rtranclp_induct) (auto intro: udp_step_keyed)

lemma routes_ok_session:
  assumes "routes_ok u"
  shows "transportPeerSession i u = Inr (pk, p, c, s) \<longleftrightarrow>
    peers u pk = Some p \<and> localIndex s = i \<and> (if c then peSession p = Some s else pePrevious p = Some s)"
proof
  assume "transportPeerSession i u = Inr (pk, p, c, s)"
  then show "peers u pk = Some p \<and> localIndex s = i \<and> (if c then peSession p = Some s else pePrevious p = Some s)"
    by (auto simp: transportPeerSession_def split: option.splits if_splits)
next
  assume *: "peers u pk = Some p \<and> localIndex s = i \<and> (if c then peSession p = Some s else pePrevious p = Some s)"
  have v: "view u pk = Some (map_option localIndex (peSession p), map_option localIndex (pePrevious p))"
    using * by (simp add: view_def peer_view_def)
  with assms have "\<And>j. map_option localIndex (peSession p) = Some j \<or> map_option localIndex (pePrevious p) = Some j \<Longrightarrow>
      uByIndex u j = Some pk"
    and "pePrevious p \<noteq> None \<Longrightarrow> peSession p \<noteq> None \<and>
      map_option localIndex (peSession p) \<noteq> map_option localIndex (pePrevious p)"
    unfolding routes_ok_def by (blast, fastforce)
  then show "transportPeerSession i u = Inr (pk, p, c, s)"
    using * by (auto simp: transportPeerSession_def split: if_splits option.split)
qed

text \<open>
  C4: Whatever calls and packets a socket has seen, and whatever indices it drew, a receiver index leads, if
  anywhere, to a session a peer has under that index, and the session is with the key of that peer.  As
  long as no index was drawn that was in use, it leads to every such session: no index is left behind when
  a session is replaced, and no session, present or previous, is without its index.
\<close>

theorem routing_exact:
  assumes "(udp_step fresh)\<^sup>*\<^sup>* (NewUDP kp unknown onNew onErr cfg onEvent w) u"
  shows "(transportPeerSession i u = Inr (pk, p, c, s) \<longrightarrow>
      peers u pk = Some p \<and> localIndex s = i \<and> remotePK s = pk \<and> (if c then peSession p = Some s else pePrevious p = Some s)) \<and>
    (fresh \<longrightarrow> (transportPeerSession i u = Inr (pk, p, c, s) \<longleftrightarrow>
      peers u pk = Some p \<and> localIndex s = i \<and> (if c then peSession p = Some s else pePrevious p = Some s)))"
proof -
  have "keyed u" by (rule udp_history_keyed [OF assms NewUDP_keyed])
  then have key: "remotePK s = pk" if "peers u pk = Some p" "if c then peSession p = Some s else pePrevious p = Some s"
    using that unfolding keyed_def keys_def peer_keys_def by (cases c) auto
  have found: "peers u pk = Some p \<and> localIndex s = i \<and> (if c then peSession p = Some s else pePrevious p = Some s)"
    if "transportPeerSession i u = Inr (pk, p, c, s)"
    using that by (auto simp: transportPeerSession_def split: option.splits if_splits)
  have exact: "transportPeerSession i u = Inr (pk, p, c, s) \<longleftrightarrow>
      peers u pk = Some p \<and> localIndex s = i \<and> (if c then peSession p = Some s else pePrevious p = Some s)" if fresh
    using that udp_history_routes [OF _ NewUDP_routes] assms by (intro routes_ok_session) simp
  show ?thesis using key found exact by blast
qed

theorem routing_exact_witness:
  "\<exists>kp u pk p s. (udp_step True)\<^sup>*\<^sup>* (demo_udp kp False) u \<and> transportPeerSession 7 u = Inr (pk, p, True, s) \<and>
    peers u pk = Some p \<and> localIndex s = 7 \<and> peSession p = Some s \<and> transportPeerSession 7 u \<noteq> Inr (pk, p, False, s)"
proof -
  obtain kp kq where k: "good_pair demo_crypto kp" "good_pair demo_crypto kq" "kpPublic kp \<noteq> kpPublic kq"
    using demo_two_pairs by blast
  let ?E = "wire_env demo_crypto 1 (Some 7) (Some (replicate 32 1))"
  let ?u = "SetPeerEndpoint (kpPublic kq) (Some ''b'') (demo_udp kp False)" and ?v = "demo_udp kq True"
  obtain reply u1 u2 k1 k2 where X: "Connect ?E (kpPublic kq) ?u = (Inr 7, u1)"
    "processPacket (wire_env demo_crypto 1 None None) reply ''b'' u1 = (Inl NoData, u2)" "linked 7 9 k1 k2 (kpPublic kq) ''b'' u2"
    using udp_exchange [OF demo_crypto_ok, of ?u ?v "replicate 32 1" "replicate 32 2" "fresh_peer\<lparr>endpoint := Some ''b''\<rparr>"
        "''b''" 1 7 1 9 "''a''" 1 "''b''"] k by (simp add: demo_dialler KeySize_def) blast
  have f: "fresh_draw ?E ?u" "fresh_draw (wire_env demo_crypto 1 None None) u1"
    by (simp_all add: fresh_draw_def SetPeerEndpoint_def demo_udp_def NewUDP_def)
  have "udp_step True (demo_udp kp False) ?u" by (rule step_endpoint)
  moreover have "udp_step True ?u u1" using step_connect [of True ?E ?u "kpPublic kq"] f(1) X(1) by simp
  moreover have "udp_step True u1 u2" using step_packet [of True _ u1 reply "''b''"] f(2) X(2) by fastforce
  ultimately have r: "(udp_step True)\<^sup>*\<^sup>* (demo_udp kp False) u2" by (meson converse_rtranclp_into_rtranclp rtranclp.rtrancl_refl)
  obtain p s where p: "peers u2 (kpPublic kq) = Some p" "peSession p = Some s" "localIndex s = 7"
    using X(3) by (auto simp: linked_def new_session_def)
  note R = routing_exact [OF r [unfolded demo_udp_def]]
  have "transportPeerSession 7 u2 = Inr (kpPublic kq, p, True, s)" using R [of 7 "kpPublic kq" p True s] p by simp
  then show ?thesis using r p
    by (intro exI [of _ kp] exI [of _ u2] exI [of _ "kpPublic kq"] exI [of _ p] exI [of _ s]) simp
qed

end
