(* ===== verification/UdpSafety.thy ===== *)
theory UdpSafety
  imports UdpRouting ConnTimers
begin

text \<open>
  What packets can do to the peers of a socket: only those that authenticate move a peer, which still
  lets a recorded initiation redirect it and a forged response end a handshake.
\<close>

section \<open>Authentication\<close>

text \<open>
  The counter of a packet for a session is entered into the replay window of the session before the
  packet is authenticated: this is the peer with the counter of the packet entered.
\<close>

definition counter_entered :: "u64 \<Rightarrow> session \<Rightarrow> session" where
  "counter_entered n s = s\<lparr>recvNonce := snd (CheckAndUpdate (recvNonce s) n)\<rparr>"

definition window_entered :: "byte list \<Rightarrow> 'w peer \<Rightarrow> 'w peer" where
  "window_entered data p =
     (case ParseTransportMessage data of
        Inl _ \<Rightarrow> p
      | Inr msg \<Rightarrow>
          if map_option localIndex (peSession p) = Some (tmReceiverIndex msg)
          then p\<lparr>peSession := map_option (counter_entered (tmCounter msg)) (peSession p)\<rparr>
          else p\<lparr>pePrevious := map_option (counter_entered (tmCounter msg)) (pePrevious p)\<rparr>)"

lemma window_entered_endpoint [simp]: "endpoint (window_entered data p) = endpoint p"
  by (simp add: window_entered_def split: sum.split)






lemma set_failed_peers:
  "peers (set_failed k u) q = (if q = k then map_option (\<lambda>p. p\<lparr>peStatus := PeerFailed\<rparr>) (peers u k) else peers u q)"
  by (simp add: set_failed_def split: option.split)



section \<open>Properties\<close>


text \<open>
  Nothing stops a recorded initiation from being used again: whoever saw the first packet of a
  handshake can send it from another address, upon which the responder replaces the session of the peer
  by a new one and sends the peer's data to that address.
\<close>

theorem replayed_initiation_redirects:
  assumes "crypto_ok C" and "good_pair C (uKey u)" and "good_pair C (uKey v)" and "length a = KeySize" and "length b = KeySize"
    and "peers u (kpPublic (uKey v)) = Some p" and "endpoint p = Some av" and "\<not> uClosed u" and "\<not> uClosing u"
    and "\<not> uClosed v" and "\<not> uClosing v" and "allowUnknown v" and "length b' = KeySize"
  shows "\<exists>init u1 v1 v2 k1 k2 k3 k4 pkt v3.
    Connect (wire_env C t1 (Some i) (Some a)) (kpPublic (uKey v)) u = (Inr i, u1) \<and> uNet u1 = uNet u @ [(init, av)] \<and>
    processPacket (wire_env C t2 (Some j) (Some b)) init au v = (Inl NoData, v1) \<and>
    linked j i k1 k2 (kpPublic (uKey u)) au v1 \<and>
    processPacket (wire_env C t3 (Some j') (Some b')) init evil v1 = (Inl NoData, v2) \<and>
    linked j' i k3 k4 (kpPublic (uKey u)) evil v2 \<and>
    WriteTo (wire_env C t4 None None) (kpPublic (uKey u)) data v2 = (None, v3) \<and> uNet v3 = uNet v2 @ [(pkt, evil)]"
proof -
  let ?pku = "kpPublic (uKey u)" and ?pkv = "kpPublic (uKey v)"
  have known: "allowUnknown v \<or> peers v ?pku \<noteq> None" using assms(12) by simp
  obtain init u1 v1 k1 k2 where X: "Connect (wire_env C t1 (Some i) (Some a)) ?pkv u = (Inr i, u1)"
    "uNet u1 = uNet u @ [(init, av)]" "processPacket (wire_env C t2 (Some j) (Some b)) init au v = (Inl NoData, v1)"
    "uKey v1 = uKey v" "linked j i k2 k1 ?pku au v1"
    using udp_exchange [OF assms(1-11) known, of t1 i t2 j au t2 av] by (elim exE conjE) (rule that; assumption)
  have v1: "\<not> uClosed v1" "\<not> uClosing v1" "allowUnknown v1 \<or> peers v1 ?pku \<noteq> None" using X(5) by (auto simp: linked_def)
  obtain init' u1' v2 k3 k4 where Y: "Connect (wire_env C t1 (Some i) (Some a)) ?pkv u = (Inr i, u1')"
    "uNet u1' = uNet u @ [(init', av)]" "processPacket (wire_env C t3 (Some j') (Some b')) init' evil v1 = (Inl NoData, v2)"
    "linked j' i k4 k3 ?pku evil v2"
    using udp_exchange [of C u v1 a b' p av, unfolded X(4), OF assms(1-4,13,6-9) v1, of t1 i t3 j' evil t2 av]
    by (elim exE conjE) (rule that; assumption)
  have "init' = init" using X(1,2) Y(1,2) by simp
  moreover obtain q s where q: "peers v2 ?pku = Some q" "endpoint q = Some evil" "peSession q = Some s" "new_session j' i k4 k3 s"
      "\<not> uClosed v2" "\<not> uClosing v2" using Y(4) by (auto simp: linked_def)
  moreover have "sstate s = Established" "sendNonce s < MaxNonce" using q(4) zero_below_max by (simp_all add: new_session_def)
  then have "\<exists>v3. WriteTo (wire_env C t4 None None) ?pku data v2 = (None, v3) \<and> uNet v3 = uNet v2 @ [(sealed C s 1 data, evil)]"
    using link_sends [of "load_link (wire_env C t4 None None) v2 q" C t4 None None evil s 1 data] q
    by (simp add: WriteTo_def udp_sendPayload_def load_link_def store_link_def)
  ultimately show ?thesis using X(1-3,5) Y(3,4) by blast
qed

lemma ParseHandshakeResp_type: "ParseHandshakeResp data = Inr m \<Longrightarrow> data \<noteq> [] \<and> data ! 0 = MessageTypeHandshakeResp"
  by (auto simp: ParseHandshakeResp_def message_sizes split: if_splits)

text \<open>
  A response that fails to authenticate ends the handshake it names: the index, which travels in
  the clear, is enough to make \<open>Connect\<close> fail and mark the peer as failed, also one that has a working
  session, and the genuine response is then ignored.
\<close>

theorem forged_response_cancels:
  assumes "pending u i = Some pd" and "peers u (pdPeer pd) = Some p"
    and "ParseHandshakeResp forged = Inr m" and "hrReceiverIndex m = i"
    and "fst (ReadMessage (envCrypto E) (pdHs pd) (resp_noise m)) = Inl e"
    and "ParseHandshakeResp genuine = Inr g" and "hrReceiverIndex g = i"
  shows "\<exists>u1. processPacket E forged src u = (Inl NoData, u1) \<and> hsResults u1 i = Some (Some HandshakeFailedErr) \<and>
    peers u1 (pdPeer pd) = Some (p\<lparr>peStatus := PeerFailed\<rparr>) \<and> processPacket E' genuine src' u1 = (Inl NoData, u1)"
proof -
  let ?u1 = "hs_result i (Some HandshakeFailedErr) (set_failed (pdPeer pd) (u\<lparr>pending := (pending u)(i := None)\<rparr>))"
  have ty: "MessageTypeHandshakeResp \<noteq> MessageTypeHandshakeInit"
    by (simp add: MessageTypeHandshakeResp_def MessageTypeHandshakeInit_def)
  obtain hs where "ReadMessage (envCrypto E) (pdHs pd) (resp_noise m) = (Inl e, hs)" using assms(5) by (metis prod.collapse)
  then have 1: "processPacket E forged src u = (Inl NoData, ?u1)"
    using ParseHandshakeResp_type [OF assms(3)] assms(1,3,4) ty
    by (simp add: processPacket_def udp_handleHandshakeResp_def Let_def)
  have "pending ?u1 i = None" by (simp add: set_failed_def split: option.split)
  then have "processPacket E' genuine src' ?u1 = (Inl NoData, ?u1)"
    using ParseHandshakeResp_type [OF assms(6)] assms(6,7) ty
    by (simp add: processPacket_def udp_handleHandshakeResp_def)
  then show ?thesis using 1 assms(2) by (intro exI [of _ ?u1]) (simp add: set_failed_peers)
qed

section \<open>The properties at a concrete input\<close>


theorem replayed_initiation_redirects_witness:
  "\<exists>kp init v1 v2 k1 k2 v3 pkt.
    processPacket (wire_env demo_crypto 2 (Some 9) (Some (replicate 32 2))) init ''a'' (demo_udp kp True) = (Inl NoData, v1) \<and>
    processPacket (wire_env demo_crypto 3 (Some 11) (Some (replicate 32 5))) init ''evil'' v1 = (Inl NoData, v2) \<and>
    linked 11 7 k1 k2 (kpPublic kp) ''evil'' v2 \<and>
    WriteTo (wire_env demo_crypto 4 None None) (kpPublic kp) [1, 2] v2 = (None, v3) \<and> uNet v3 = uNet v2 @ [(pkt, ''evil'')]"
proof -
  obtain kp where kp: "good_pair demo_crypto kp" using demo_key_pair by blast
  let ?u = "SetPeerEndpoint (kpPublic kp) (Some ''b'') (demo_udp kp False)" and ?v = "demo_udp kp True"
  from replayed_initiation_redirects [OF demo_crypto_ok, of ?u ?v "replicate 32 1" "replicate 32 2"
      "fresh_peer\<lparr>endpoint := Some ''b''\<rparr>" "''b''" "replicate 32 5" 1 7 2 9 "''a''" 3 11 "''evil''" 4 "[1, 2]"] kp
  show ?thesis by (simp add: demo_dialler KeySize_def) blast
qed

theorem forged_response_cancels_witness:
  "\<exists>(kp :: key_pair) (u :: (byte list \<times> addr) list udp) u1 forged genuine p. pending u 7 \<noteq> None \<and> peers u (kpPublic kp) = Some p \<and>
    peStatus p = PeerConnecting \<and>
    processPacket (wire_env demo_crypto 8 None None) forged ''evil'' u = (Inl NoData, u1) \<and>
    hsResults u1 7 = Some (Some HandshakeFailedErr) \<and>
    processPacket (wire_env demo_crypto 9 None None) genuine ''b'' u1 = (Inl NoData, u1)"
proof -
  let ?pd = "\<lparr>pdPeer = kpPublic demo_si, pdHs = demo_hs, pdCreatedAt = 1\<rparr>"
  let ?p = "fresh_peer\<lparr>endpoint := Some ''b'', peStatus := PeerConnecting\<rparr> :: (byte list \<times> addr) list peer"
  let ?u = "set_peer (kpPublic demo_si) ?p (demo_udp demo_si False)\<lparr>pending := [7 \<mapsto> ?pd]\<rparr>"
  let ?data = "BuildHandshakeResp 1 7 (replicate 32 9) (replicate 16 9)"
  let ?resp = "\<lparr>hrSenderIndex = 1, hrReceiverIndex = 7, hrEphemeral = replicate 32 9, hrEmpty = replicate 16 9\<rparr>"
  have d: "ParseHandshakeResp ?data = Inr ?resp"
    using parse_build_resp [of "replicate 32 9" "replicate 16 9" 1 7 "[]"] by (simp add: message_sizes)
  have n: "resp_noise ?resp = replicate 48 9" by (simp add: resp_noise_def message_sizes flip: replicate_add)
  have f: "fst (ReadMessage (envCrypto (wire_env demo_crypto 8 None None)) (pdHs ?pd) (resp_noise ?resp)) = Inl PayloadDecryptFailed"
    using demo_forged by (simp only: n wire_env_simps pending_handshake.select_convs)
  have "pending ?u 7 = Some ?pd" "peers ?u (pdPeer ?pd) = Some ?p" by simp_all
  from forged_response_cancels [OF this d _ f d, of "''evil''" "wire_env demo_crypto 9 None None" "''b''"]
  obtain u1 where u1: "processPacket (wire_env demo_crypto 8 None None) ?data ''evil'' ?u = (Inl NoData, u1)"
    "hsResults u1 7 = Some (Some HandshakeFailedErr)" "processPacket (wire_env demo_crypto 9 None None) ?data ''b'' u1 = (Inl NoData, u1)"
    by auto
  show ?thesis
    by (rule exI [of _ demo_si], rule exI [of _ ?u], rule exI [of _ u1], rule exI [of _ ?data], rule exI [of _ ?data],
        rule exI [of _ ?p]) (intro conjI u1; simp)
qed

end
