(* ===== verification/UdpStreams.thy ===== *)
theory UdpStreams
  imports UdpExchange
begin

text \<open>
  All layers together: a stream that one end opens on its service mux is sealed by the session, routed by
  the other socket to the service mux of the sender and queued there for \<open>Accept\<close>.
\<close>

section \<open>Opening and queueing on new muxes\<close>

lemma new_mux_open:
  assumes "out w service (mux_frame (initialLocalStreamID cl) frameOpen []) = (None, w')"
  shows "\<exists>m'. mux_Open (NewKcpMux service cl cfg (Some out) rep now w) =
      (Inr \<lparr>streamService = service, streamID = initialLocalStreamID cl, streamConn = 0\<rparr>, m') \<and> world m' = w'"
  using assms
  by (cases cl) (simp_all add: mux_Open_def NewKcpMux_def allocateLocalStreamIDLocked_def alloc_loop.simps
      newStreamEntryLocked_def Let_def sendFrame_def wrapStream_def initialLocalStreamID_def resetIdleTimerLocked_def)

lemma NewKcpMux_reload [simp]:
  "NewKcpMux service cl cfg outp rep now w\<lparr>world := w, muxNow := now\<rparr> = NewKcpMux service cl cfg outp rep now w"
  by (simp add: NewKcpMux_def)

lemma fresh_service_open:
  assumes "out w service ProtocolKCP (mux_frame (initialLocalStreamID cl) frameOpen []) = (None, w')"
  shows "\<exists>m'. OpenStream (NewServiceMux cl (Some out) onErr onNew cfg now w) service =
      (Inr \<lparr>streamService = service, streamID = initialLocalStreamID cl, streamConn = 0\<rparr>, m') \<and> smWorld m' = w'"
proof -
  have "kcp_output (Some out) (w, 0) service (mux_frame (initialLocalStreamID cl) frameOpen []) = (None, (w', 0))"
    using assms by (simp add: kcp_output_def)
  from new_mux_open [where out = "kcp_output (Some out)" and cfg = cfg and rep = "Some (kcp_report onErr)" and now = now,
      OF this]
  obtain k where k: "mux_Open (NewKcpMux service cl cfg (Some (kcp_output (Some out))) (Some (kcp_report onErr)) now (w, 0)) =
      (Inr \<lparr>streamService = service, streamID = initialLocalStreamID cl, streamConn = 0\<rparr>, k)" "world k = (w', 0)" by blast
  show ?thesis using k
    by (simp add: OpenStream_def NewServiceMux_def getOrCreateService_def on_service_def ensureKcpMux_def
        fresh_service_def with_mux_def Let_def)
qed

lemma new_mux_queues:
  assumes "sid \<le> MaxUint32" "sid mod 2 = initialLocalStreamID (\<not> cl)" and k_def: "k = NewKcpMux service cl cfg out rep now w"
  shows "mux_Input k (mux_frame sid frameOpen []) = (Some None, handleOpen k sid) \<and>
    acceptCh (handleOpen k sid) = [sid] \<and>
    (\<exists>t k'. accepts (handleOpen k sid) (Inr t) k' \<and> streamID t = sid)"
proof -
  have i: "mux_inv k" "acceptingRemote k" "getEntry k sid = None" "acceptCh k = []"
      "activeStreams k < MaxActiveStreams (muxConfig k)" "int (length (acceptCh k)) < AcceptBacklog (muxConfig k)"
    unfolding k_def by (rule NewKcpMux_inv, simp_all add: NewKcpMux_def defaultKcpMuxConfig_def)
  note H = handleOpen_queues [OF i(1-3,5,6)]
  have "isRemoteStreamID k sid" using assms by (auto simp: isRemoteStreamID_def NewKcpMux_def initialLocalStreamID_def not_less split: if_splits)
  then have 1: "mux_Input k (mux_frame sid frameOpen []) = (Some None, handleOpen k sid)"
    using i muxClosing_closed [OF i(1,2)] assms(1)
    by (simp add: mux_Input_def decode_mux_frame Let_def frameOpen_def frameClose_def frameCloseAck_def)
  obtain e where e: "getEntry (handleOpen k sid) sid = Some e" "entryQueued e" using H by blast
  obtain t k' where "acceptQueued ((handleOpen k sid)\<lparr>acceptCh := []\<rparr>) sid = (Inr (Some t), k')" "streamID t = sid"
    using H e by (simp add: acceptQueued_def Let_def wrapStream_def)
  then show ?thesis using 1 H i(4) accepts_stream [of "handleOpen k sid" sid "[]"] by fastforce
qed

definition accepts_service :: "'w udp \<Rightarrow> key \<Rightarrow> u64 \<Rightarrow> bool" where
  "accepts_service u pk service \<longleftrightarrow> (case uOnNewService u of None \<Rightarrow> service = 0 | Some f \<Rightarrow> f pk service)"

text \<open>The stream waits in the queue of the peer's service, and \<open>Accept\<close> returns it.\<close>

definition stream_queued :: "'w udp \<Rightarrow> key \<Rightarrow> u64 \<Rightarrow> u64 \<Rightarrow> bool" where
  "stream_queued u pk service sid \<longleftrightarrow>
     (\<exists>p gm sv k. peers u pk = Some p \<and> serviceMux p = Some gm \<and> get_service (snd gm) service = Some sv \<and>
        serviceKcp sv = Some k \<and> acceptCh k = [sid] \<and> (\<exists>t k'. accepts k (Inr t) k' \<and> streamID t = sid))"

lemma fresh_service_queues:
  assumes "sid \<le> MaxUint32" "sid mod 2 = initialLocalStreamID (\<not> cl)"
    and "case onNew of None \<Rightarrow> service = 0 | Some f \<Rightarrow> f service"
  shows "\<exists>m' sv k. InputKCP (NewServiceMux cl outp onErr onNew cfg now w) service (mux_frame sid frameOpen []) =
      (Some None, m') \<and> get_service m' service = Some sv \<and> serviceKcp sv = Some k \<and> acceptCh k = [sid] \<and>
      (\<exists>t k'. accepts k (Inr t) k' \<and> streamID t = sid)"
proof -
  let ?k = "NewKcpMux service cl cfg (Some (kcp_output outp)) (Some (kcp_report onErr)) now (w, 0)"
  note Q = new_mux_queues [OF assms(1,2) refl [of ?k]]
  show ?thesis using Q assms(3)
    by (simp add: InputKCP_def NewServiceMux_def getOrCreateService_def inputKCPToService_def on_service_def
        ensureKcpMux_def fresh_service_def with_mux_def Let_def split: option.splits)
qed

section \<open>Opening a stream of a peer\<close>

lemma linked_opens:
  assumes u: "linked i j k1 k2 pk a u" and f: "fresh_link pk u"
  shows "\<exists>p gm s u' st. peers u pk = Some p \<and> PeerServiceMux (wire_env C now x y) pk u = (Inr gm, u) \<and>
    on_smux (wire_env C now x y) pk p gm (\<lambda>m. OpenStream m service) u = (Inr st, u') \<and>
    streamID st = initialLocalStreamID (isKCPClient u pk) \<and> new_session i j k1 k2 s \<and>
    uNet u' = uNet u @ [(sealed C s ProtocolKCP (AppendVarint [] service @ mux_frame (streamID st) frameOpen []), a)]"
proof -
  let ?E = "wire_env C now x y"
  obtain p s where p: "peers u pk = Some p" "endpoint p = Some a" "peSession p = Some s" "new_session i j k1 k2 s"
      "\<not> uClosed u" "\<not> uClosing u" using u by (auto simp: linked_def)
  obtain gm where gm: "serviceMux p = Some gm" "fresh_smux u pk (snd gm)" using f p(1) by (auto simp: fresh_link_def)
  let ?sid = "initialLocalStreamID (isKCPClient u pk)" and ?l = "load_link ?E u p"
  let ?pkt = "sealed C s ProtocolKCP (AppendVarint [] service @ mux_frame ?sid frameOpen [])"
  have s: "sstate s = Established" "sendNonce s < MaxNonce" using p(4) zero_below_max by (simp_all add: new_session_def)
  obtain l where l: "link_output ?l service ProtocolKCP (mux_frame ?sid frameOpen []) = (None, l)"
      "lkNet l = uNet u @ [(?pkt, a)]"
    using link_sends [of ?l C now x y a s ProtocolKCP "AppendVarint [] service @ mux_frame ?sid frameOpen []"] p(2,3) s
    by (simp add: link_output_def link_sendKCP_def load_link_def)
  have m: "snd gm\<lparr>smWorld := ?l, smNow := now\<rparr> = NewServiceMux (isKCPClient u pk) (Some link_output)
      (Some (link_error (uOnOutputError u) pk)) (map_option (\<lambda>f. f pk) (uOnNewService u)) (uKcpConfig u) now ?l"
    using gm(2) by (simp add: fresh_smux_def)
  obtain m' where m': "OpenStream (snd gm\<lparr>smWorld := ?l, smNow := now\<rparr>) service =
      (Inr \<lparr>streamService = service, streamID = ?sid, streamConn = 0\<rparr>, m')" "smWorld m' = l"
    unfolding m using fresh_service_open [where out = link_output, OF l(1)] by blast
  have "\<exists>u'. on_smux ?E pk p gm (\<lambda>m. OpenStream m service) u =
      (Inr \<lparr>streamService = service, streamID = ?sid, streamConn = 0\<rparr>, u') \<and> uNet u' = lkNet l"
    using m' by (simp add: on_smux_def run_smux_def store_link_def)
  moreover have "PeerServiceMux ?E pk u = (Inr gm, u)"
    using p gm(1) by (simp add: PeerServiceMux_def GetPeer_def ensureServiceMux_def)
  ultimately show ?thesis using p(1,4) l(2) by fastforce
qed

lemma linked_queues:
  assumes C: "crypto_ok C" and s: "new_session ri li rk sk s" and v: "linked li ri sk rk pk a v" and f: "fresh_link pk v"
    and "accepts_service v pk service" "sid \<le> MaxUint32" "sid mod 2 = initialLocalStreamID (\<not> isKCPClient v pk)"
  shows "\<exists>v'. processPacket (wire_env C now x y)
      (sealed C s ProtocolKCP (AppendVarint [] service @ mux_frame sid frameOpen [])) src v = (Inl NoData, v') \<and>
    stream_queued v' pk service sid"
proof -
  let ?E = "wire_env C now x y" and ?data = "AppendVarint [] service @ mux_frame sid frameOpen []"
  obtain p p2 where p: "peers v pk = Some p" "serviceMux p2 = serviceMux p" "peSession p2 \<noteq> None"
    "processPacket ?E (sealed C s ProtocolKCP ?data) src v =
      route_payload ?E pk p2 True (EncodePayload ProtocolKCP ?data) (set_peer pk p2 v)"
    using linked_receives [OF C s v] by blast
  obtain gm where gm: "serviceMux p = Some gm" "fresh_smux v pk (snd gm)" using f p(1) by (auto simp: fresh_link_def)
  let ?v = "set_peer pk p2 v"
  have m: "snd gm\<lparr>smWorld := load_link ?E ?v p2, smNow := now\<rparr> = NewServiceMux (isKCPClient v pk) (Some link_output)
      (Some (link_error (uOnOutputError v) pk)) (map_option (\<lambda>f. f pk) (uOnNewService v)) (uKcpConfig v) now (load_link ?E ?v p2)"
    using gm(2) by (simp add: fresh_smux_def)
  have acc: "case map_option (\<lambda>f. f pk) (uOnNewService v) of None \<Rightarrow> service = 0 | Some f \<Rightarrow> f service"
    using assms(5) by (simp add: accepts_service_def split: option.splits)
  obtain m' sv k where m': "InputKCP (snd gm\<lparr>smWorld := load_link ?E ?v p2, smNow := now\<rparr>) service (mux_frame sid frameOpen []) =
      (Some None, m')" "get_service m' service = Some sv" "serviceKcp sv = Some k" "acceptCh k = [sid]"
      "\<exists>t k'. accepts k (Inr t) k' \<and> streamID t = sid"
    unfolding m using fresh_service_queues [where outp = "Some link_output", OF assms(6,7) acc] by blast
  obtain v' where w: "with_service_mux ?E pk p2 (\<lambda>m. InputKCP m service (mux_frame sid frameOpen [])) ?v = (Inr (Some None), v')"
      "\<exists>q. peers v' pk = Some q \<and> serviceMux q = Some (fst gm, m')"
    using p(2,3) gm(1) m'(1)
    by (auto simp: with_service_mux_def ensureServiceMux_def on_smux_def run_smux_def store_link_def)
  have "DecodeVarint ?data = Inr (service, VarintLen service)" "drop (VarintLen service) ?data = mux_frame sid frameOpen []"
    by (simp_all add: DecodeVarint_uvarint AppendVarint_uvarint VarintLen_uvarint)
  then have "route_payload ?E pk p2 True (EncodePayload ProtocolKCP ?data) ?v = (Inl NoData, v')"
    using w(1) by (simp add: route_payload_def decode_encode_payload ProtocolKCP_def ProtocolConnCtrl_def)
      (simp add: EncodePayload_def)
  moreover have "stream_queued v' pk service sid" using w(2) m' by (fastforce simp: stream_queued_def)
  ultimately show ?thesis using p(4) by simp
qed

section \<open>Properties\<close>

text \<open>
  C1: A stream goes through all layers: two sockets that meet for the first time connect, one opens a
  stream of a service that the other accepts, the one packet this sends is authenticated by the other's
  session, routed to the service mux of the sender and leaves exactly that stream in the queue of the
  service, whence \<open>Accept\<close> takes it.
\<close>

theorem stream_reaches_peer:
  assumes "crypto_ok C" and "good_pair C (uKey u)" and "good_pair C (uKey v)" and "length a = KeySize" and "length b = KeySize"
    and "peers u (kpPublic (uKey v)) = Some p" and "endpoint p = Some av" and "\<not> uClosed u" and "\<not> uClosing u"
    and "\<not> uClosed v" and "\<not> uClosing v" and "allowUnknown v" and "peers v (kpPublic (uKey u)) = None"
    and "serviceMux p = None" and "kpPublic (uKey u) \<noteq> kpPublic (uKey v)" and "accepts_service v (kpPublic (uKey u)) service"
  shows "\<exists>init reply frame u1 v1 u2 u3 v2 q gm st.
    Connect (wire_env C t1 (Some i) (Some a)) (kpPublic (uKey v)) u = (Inr i, u1) \<and> uNet u1 = uNet u @ [(init, av)] \<and>
    processPacket (wire_env C t2 (Some j) (Some b)) init au v = (Inl NoData, v1) \<and> uNet v1 = uNet v @ [(reply, au)] \<and>
    processPacket (wire_env C t3 None None) reply av u1 = (Inl NoData, u2) \<and>
    peers u2 (kpPublic (uKey v)) = Some q \<and> PeerServiceMux (wire_env C t4 None None) (kpPublic (uKey v)) u2 = (Inr gm, u2) \<and>
    on_smux (wire_env C t4 None None) (kpPublic (uKey v)) q gm (\<lambda>m. OpenStream m service) u2 = (Inr st, u3) \<and>
    uNet u3 = uNet u2 @ [(frame, av)] \<and>
    processPacket (wire_env C t5 None None) frame au v1 = (Inl NoData, v2) \<and>
    stream_queued v2 (kpPublic (uKey u)) service (streamID st)"
proof -
  have known: "allowUnknown v \<or> peers v (kpPublic (uKey u)) \<noteq> None" using assms(12) by simp
  obtain init reply u1 v1 u2 k1 k2 where X:
    "Connect (wire_env C t1 (Some i) (Some a)) (kpPublic (uKey v)) u = (Inr i, u1)" "uNet u1 = uNet u @ [(init, av)]"
    "processPacket (wire_env C t2 (Some j) (Some b)) init au v = (Inl NoData, v1)" "uNet v1 = uNet v @ [(reply, au)]"
    "processPacket (wire_env C t3 None None) reply av u1 = (Inl NoData, u2)"
    "uKey u2 = uKey u" "uKey v1 = uKey v" "uOnNewService v1 = uOnNewService v"
    "linked i j k1 k2 (kpPublic (uKey v)) av u2" "linked j i k2 k1 (kpPublic (uKey u)) au v1"
    "fresh_link (kpPublic (uKey v)) u2" "fresh_link (kpPublic (uKey u)) v1"
    using udp_exchange [OF assms(1-11) known, of t1 i t2 j au t3 av] assms(13,14)
    by (elim exE conjE) (rule that; simp)
  obtain q gm s u3 st where O: "peers u2 (kpPublic (uKey v)) = Some q"
    "PeerServiceMux (wire_env C t4 None None) (kpPublic (uKey v)) u2 = (Inr gm, u2)"
    "on_smux (wire_env C t4 None None) (kpPublic (uKey v)) q gm (\<lambda>m. OpenStream m service) u2 = (Inr st, u3)"
    "streamID st = initialLocalStreamID (isKCPClient u2 (kpPublic (uKey v)))" "new_session i j k1 k2 s"
    "uNet u3 = uNet u2 @
       [(sealed C s ProtocolKCP (AppendVarint [] service @ mux_frame (streamID st) frameOpen []), av)]"
    using linked_opens [OF X(9,11), of C t4 None None service] by blast
  have "isKCPClient u2 (kpPublic (uKey v)) \<longleftrightarrow> \<not> isKCPClient v1 (kpPublic (uKey u))"
    using X(6,7) assms(15) by (auto simp: isKCPClient_def)
  then have "streamID st \<le> MaxUint32" "streamID st mod 2 = initialLocalStreamID (\<not> isKCPClient v1 (kpPublic (uKey u)))"
    using O(4) by (simp_all add: initialLocalStreamID_def MaxUint32_def)
  moreover have "accepts_service v1 (kpPublic (uKey u)) service" using assms(16) X(8) by (simp add: accepts_service_def)
  ultimately obtain v2 where "processPacket (wire_env C t5 None None)
        (sealed C s ProtocolKCP (AppendVarint [] service @ mux_frame (streamID st) frameOpen [])) au v1 = (Inl NoData, v2)"
      "stream_queued v2 (kpPublic (uKey u)) service (streamID st)"
    using linked_queues [OF assms(1) O(5) X(10,12)] by blast
  then show ?thesis using X(1-5) O(1-3,6) by blast
qed

section \<open>The property at a concrete input\<close>

theorem stream_reaches_peer_witness:
  "\<exists>u v v2 pku pkv sid frame. u = SetPeerEndpoint pkv (Some ''b'') (demo_udp (uKey u) False) \<and> v = demo_udp (uKey v) True \<and>
    pku \<noteq> pkv \<and> stream_queued v2 pku 0 sid \<and>
    (\<exists>v1. fst (processPacket (wire_env demo_crypto 5 None None) frame ''a'' v1) = Inl NoData \<and>
       v2 = snd (processPacket (wire_env demo_crypto 5 None None) frame ''a'' v1))"
proof -
  obtain kp kq where k: "good_pair demo_crypto kp" "good_pair demo_crypto kq" "kpPublic kp \<noteq> kpPublic kq"
    using demo_two_pairs by blast
  let ?u = "SetPeerEndpoint (kpPublic kq) (Some ''b'') (demo_udp kp False)" and ?v = "demo_udp kq True"
  have acc: "accepts_service ?v pk 0" for pk by (simp add: accepts_service_def demo_udp_def NewUDP_def)
  note X = stream_reaches_peer [OF demo_crypto_ok, of ?u ?v "replicate 32 1" "replicate 32 2"
      "fresh_peer\<lparr>endpoint := Some ''b''\<rparr>" "''b''" 0 1 7 1 9 "''a''" 1 4 5]
  obtain v1 v2 frame sid where "processPacket (wire_env demo_crypto 5 None None) frame ''a'' v1 = (Inl NoData, v2)"
    "stream_queued v2 (kpPublic kp) 0 sid"
    using X k acc by (simp add: demo_dialler KeySize_def fresh_peer_def) metis
  then show ?thesis using k(3)
    by (intro exI [of _ ?u] exI [of _ ?v] exI [of _ v2] exI [of _ "kpPublic kp"] exI [of _ "kpPublic kq"] exI [of _ sid]
        exI [of _ frame] conjI exI [of _ v1]) (simp_all add: demo_dialler)
qed

end
