(* ===== verification/UdpPipeline.thy ===== *)
theory UdpPipeline
  imports Udp
begin

text \<open>
  The packet pipeline of \<open>pkg/giznet/internal/core/udp.go\<close>: pooled packets with their reference counts,
  the receive loop, the decrypt workers and \<open>ReadPacket\<close>, which run concurrently.

  A packet structure is named by a number; \<open>plPool\<close> holds those the pool may hand out again.  The channels
  are lists, \<open>plWorkers\<close> and \<open>plReaders\<close> hold the packets that a worker processes and that a \<open>ReadPacket\<close>
  waits for.  The receive loop holds \<open>plAcquired\<close>, packets it has not filled (one, or a batch), and is
  between the two sends of \<open>dispatchToChannels\<close> or not.  A \<open>select\<close> takes any ready case, and its default
  only when none is.  Closing a channel twice would panic, which \<open>plPanic\<close> records.
\<close>

section \<open>Packets\<close>

record udp_packet =
  pkData :: "byte list"
  pkFrom :: addr
  pkResult :: "(udp_error + (key \<times> byte \<times> byte list)) option"
  pkRefs :: int
  pkReleased :: bool
  pkReady :: bool

datatype io_stage = IoIdle | IoOutput nat | IoDecrypt nat bool

record 'w pipeline =
  plUdp :: "'w udp"
  plPkts :: "nat \<Rightarrow> udp_packet"
  plNext :: nat
  plPool :: "nat list"
  outstandingPackets :: int
  plAcquired :: "nat list"
  plIo :: io_stage
  decryptChan :: "nat list"
  decryptSize :: nat
  outputChan :: "nat list"
  outputSize :: nat
  plWorkers :: "nat list"
  plReaders :: "nat list"
  plCloseChan :: bool
  totalRx :: u64
  droppedOutput :: u64
  droppedDecrypt :: u64
  plPanic :: bool

definition RawChanSize :: nat where "RawChanSize = 4096"
definition DecryptedChanSize :: nat where "DecryptedChanSize = 256"

definition new_pipeline :: "'w udp \<Rightarrow> int \<Rightarrow> int \<Rightarrow> 'w pipeline" where
  "new_pipeline u rawChanSize decryptedChanSize =
     \<lparr>plUdp = u, plPkts = (\<lambda>_. \<lparr>pkData = [], pkFrom = [], pkResult = None, pkRefs = 0, pkReleased = False, pkReady = False\<rparr>),
      plNext = 0, plPool = [], outstandingPackets = 0, plAcquired = [], plIo = IoIdle, decryptChan = [],
      decryptSize = (if rawChanSize \<le> 0 then RawChanSize else nat rawChanSize), outputChan = [],
      outputSize = (if decryptedChanSize \<le> 0 then DecryptedChanSize else nat decryptedChanSize),
      plWorkers = [], plReaders = [], plCloseChan = False, totalRx = 0, droppedOutput = 0, droppedDecrypt = 0,
      plPanic = False\<rparr>"

abbreviation set_pkt :: "nat \<Rightarrow> udp_packet \<Rightarrow> 'w pipeline \<Rightarrow> 'w pipeline" where
  "set_pkt i p pl \<equiv> pl\<lparr>plPkts := (plPkts pl)(i := p)\<rparr>"

text \<open>The pool gives a structure it has, or none and a new one is made.\<close>

definition acquirePacket :: "nat option \<Rightarrow> 'w pipeline \<Rightarrow> 'w pipeline" where
  "acquirePacket pooled pl =
     (let i = (case pooled of None \<Rightarrow> plNext pl | Some i \<Rightarrow> i)
      in (set_pkt i \<lparr>pkData = [], pkFrom = [], pkResult = None, pkRefs = 0, pkReleased = False, pkReady = False\<rparr> pl)
           \<lparr>plNext := (if pooled = None then plNext pl + 1 else plNext pl), plPool := remove1 i (plPool pl),
            outstandingPackets := outstandingPackets pl + 1, plAcquired := i # plAcquired pl\<rparr>)"

definition releasePacket :: "nat \<Rightarrow> 'w pipeline \<Rightarrow> 'w pipeline" where
  "releasePacket i pl =
     (if pkReleased (plPkts pl i) then pl
      else (set_pkt i ((plPkts pl i)\<lparr>pkReleased := True\<rparr>) pl)
             \<lparr>plPool := i # plPool pl, outstandingPackets := outstandingPackets pl - 1\<rparr>)"

definition unrefPacket :: "nat \<Rightarrow> 'w pipeline \<Rightarrow> 'w pipeline" where
  "unrefPacket i pl =
     (let p = (plPkts pl i)\<lparr>pkRefs := pkRefs (plPkts pl i) - 1\<rparr>; pl1 = set_pkt i p pl
      in if pkRefs p = 0 then releasePacket i pl1 else pl1)"

definition close_ready :: "nat \<Rightarrow> 'w pipeline \<Rightarrow> 'w pipeline" where
  "close_ready i pl =
     (if pkReady (plPkts pl i) then pl\<lparr>plPanic := True\<rparr>
      else set_pkt i ((plPkts pl i)\<lparr>pkReady := True\<rparr>) pl)"

definition set_result :: "nat \<Rightarrow> udp_error + (key \<times> byte \<times> byte list) \<Rightarrow> 'w pipeline \<Rightarrow> 'w pipeline" where
  "set_result i r pl = set_pkt i ((plPkts pl i)\<lparr>pkResult := Some r\<rparr>) pl"

section \<open>The receive loop\<close>

text \<open>A packet the socket filled, up to the first send of \<open>dispatchToChannels\<close>.\<close>

definition io_receive :: "nat \<Rightarrow> byte list \<Rightarrow> addr \<Rightarrow> 'w pipeline \<Rightarrow> 'w pipeline" where
  "io_receive i data src pl =
     (if data = [] then releasePacket i (pl\<lparr>plAcquired := remove1 i (plAcquired pl)\<rparr>)
      else let pl1 = (set_pkt i ((plPkts pl i)\<lparr>pkData := data, pkFrom := src\<rparr>) pl)
                 \<lparr>plAcquired := remove1 i (plAcquired pl), totalRx := totalRx pl + of_nat (length data)\<rparr>
           in if plCloseChan pl then releasePacket i pl1
              else (set_pkt i ((plPkts pl1 i)\<lparr>pkRefs := 2\<rparr>) pl1)\<lparr>plIo := IoOutput i\<rparr>)"

definition io_release :: "nat \<Rightarrow> 'w pipeline \<Rightarrow> 'w pipeline" where
  "io_release i pl = releasePacket i (pl\<lparr>plAcquired := remove1 i (plAcquired pl)\<rparr>)"

definition output_queued :: "nat \<Rightarrow> 'w pipeline \<Rightarrow> 'w pipeline" where
  "output_queued i pl = pl\<lparr>outputChan := outputChan pl @ [i], plIo := IoDecrypt i True\<rparr>"

definition output_closed :: "nat \<Rightarrow> 'w pipeline \<Rightarrow> 'w pipeline" where
  "output_closed i pl = unrefPacket i (unrefPacket i (pl\<lparr>plIo := IoIdle\<rparr>))"

definition output_dropped :: "nat \<Rightarrow> 'w pipeline \<Rightarrow> 'w pipeline" where
  "output_dropped i pl =
     unrefPacket i (pl\<lparr>droppedOutput := droppedOutput pl + 1, plIo := IoDecrypt i False\<rparr>)"

definition decrypt_queued :: "nat \<Rightarrow> 'w pipeline \<Rightarrow> 'w pipeline" where
  "decrypt_queued i pl = pl\<lparr>decryptChan := decryptChan pl @ [i], plIo := IoIdle\<rparr>"

definition abandon_output :: "nat \<Rightarrow> bool \<Rightarrow> 'w pipeline \<Rightarrow> 'w pipeline" where
  "abandon_output i outputQueued pl =
     (if outputQueued then close_ready i (set_result i (Inl NoData) pl) else pl)"

definition decrypt_closed :: "nat \<Rightarrow> bool \<Rightarrow> 'w pipeline \<Rightarrow> 'w pipeline" where
  "decrypt_closed i q pl = unrefPacket i (abandon_output i q (pl\<lparr>plIo := IoIdle\<rparr>))"

definition decrypt_dropped :: "nat \<Rightarrow> bool \<Rightarrow> 'w pipeline \<Rightarrow> 'w pipeline" where
  "decrypt_dropped i q pl =
     unrefPacket i (abandon_output i q (pl\<lparr>droppedDecrypt := droppedDecrypt pl + 1, plIo := IoIdle\<rparr>))"

section \<open>Workers and readers\<close>

definition worker_take :: "nat \<Rightarrow> nat list \<Rightarrow> 'w pipeline \<Rightarrow> 'w pipeline" where
  "worker_take i rest pl = pl\<lparr>decryptChan := rest, plWorkers := i # plWorkers pl\<rparr>"

definition decryptWorker :: "'w conn_env \<Rightarrow> nat \<Rightarrow> 'w pipeline \<Rightarrow> 'w pipeline" where
  "decryptWorker E i pl =
     (case processPacket E (pkData (plPkts pl i)) (pkFrom (plPkts pl i)) (plUdp pl) of
        (r, u) \<Rightarrow> unrefPacket i (close_ready i (set_result i r
          (pl\<lparr>plUdp := u, plWorkers := remove1 i (plWorkers pl)\<rparr>))))"

definition reader_take :: "nat \<Rightarrow> nat list \<Rightarrow> 'w pipeline \<Rightarrow> 'w pipeline" where
  "reader_take i rest pl = pl\<lparr>outputChan := rest, plReaders := i # plReaders pl\<rparr>"

text \<open>\<open>ReadPacket\<close> once its packet is ready: what it returns, or \<open>None\<close> when it goes on to the next packet.\<close>

definition ReadPacket :: "nat \<Rightarrow> nat \<Rightarrow> 'w pipeline \<Rightarrow> (key \<times> byte \<times> byte list) option \<times> 'w pipeline" where
  "ReadPacket i len pl =
     (case pkResult (plPkts pl i) of
        Some (Inr (pk, protocol, payload)) \<Rightarrow> Some (pk, protocol, take len payload)
      | Some (Inl _) \<Rightarrow> None
      | None \<Rightarrow> Some ([], 0, []),
      unrefPacket i (pl\<lparr>plReaders := remove1 i (plReaders pl)\<rparr>))"

definition reader_closed :: "nat \<Rightarrow> 'w pipeline \<Rightarrow> 'w pipeline" where
  "reader_closed i pl = unrefPacket i (pl\<lparr>plReaders := remove1 i (plReaders pl)\<rparr>)"

section \<open>Steps\<close>

inductive pipe_step :: "'w pipeline \<Rightarrow> 'w pipeline \<Rightarrow> bool" where
  pipe_acquire: "pooled = None \<or> (\<exists>i \<in> set (plPool pl). pooled = Some i) \<Longrightarrow> pipe_step pl (acquirePacket pooled pl)"
| pipe_receive: "i \<in> set (plAcquired pl) \<Longrightarrow> plIo pl = IoIdle \<Longrightarrow> pipe_step pl (io_receive i data src pl)"
| pipe_release: "i \<in> set (plAcquired pl) \<Longrightarrow> pipe_step pl (io_release i pl)"
| pipe_output: "plIo pl = IoOutput i \<Longrightarrow> length (outputChan pl) < outputSize pl \<Longrightarrow> pipe_step pl (output_queued i pl)"
| pipe_output_closed: "plIo pl = IoOutput i \<Longrightarrow> plCloseChan pl \<Longrightarrow> pipe_step pl (output_closed i pl)"
| pipe_output_full: "plIo pl = IoOutput i \<Longrightarrow> \<not> length (outputChan pl) < outputSize pl \<Longrightarrow> \<not> plCloseChan pl
    \<Longrightarrow> pipe_step pl (output_dropped i pl)"
| pipe_decrypt: "plIo pl = IoDecrypt i q \<Longrightarrow> length (decryptChan pl) < decryptSize pl \<Longrightarrow> pipe_step pl (decrypt_queued i pl)"
| pipe_decrypt_closed: "plIo pl = IoDecrypt i q \<Longrightarrow> plCloseChan pl \<Longrightarrow> pipe_step pl (decrypt_closed i q pl)"
| pipe_decrypt_full: "plIo pl = IoDecrypt i q \<Longrightarrow> \<not> length (decryptChan pl) < decryptSize pl \<Longrightarrow> \<not> plCloseChan pl
    \<Longrightarrow> pipe_step pl (decrypt_dropped i q pl)"
| pipe_worker: "decryptChan pl = i # rest \<Longrightarrow> pipe_step pl (worker_take i rest pl)"
| pipe_process: "i \<in> set (plWorkers pl) \<Longrightarrow> pipe_step pl (decryptWorker E i pl)"
| pipe_reader: "outputChan pl = i # rest \<Longrightarrow> pipe_step pl (reader_take i rest pl)"
| pipe_read: "i \<in> set (plReaders pl) \<Longrightarrow> pkReady (plPkts pl i) \<Longrightarrow> pipe_step pl (snd (ReadPacket i len pl))"
| pipe_reader_closed: "i \<in> set (plReaders pl) \<Longrightarrow> plCloseChan pl \<Longrightarrow> pipe_step pl (reader_closed i pl)"
| pipe_close: "pipe_step pl (pl\<lparr>plCloseChan := True\<rparr>)"
| pipe_udp: "pipe_step pl (pl\<lparr>plUdp := u\<rparr>)"

section \<open>The invariant\<close>

definition decrypt_side :: "'w pipeline \<Rightarrow> nat list" where
  "decrypt_side pl =
     (case plIo pl of IoIdle \<Rightarrow> [] | IoOutput i \<Rightarrow> [i] | IoDecrypt i _ \<Rightarrow> [i]) @ decryptChan pl @ plWorkers pl"

definition output_side :: "'w pipeline \<Rightarrow> nat list" where
  "output_side pl = (case plIo pl of IoOutput i \<Rightarrow> [i] | _ \<Rightarrow> []) @ outputChan pl @ plReaders pl"

text \<open>
  The books on packets \<open>P\<close>, with the packets \<open>D\<close> and \<open>O\<close> that the decrypt and the output side hold.
\<close>

definition books_ok :: "(nat \<Rightarrow> udp_packet) \<Rightarrow> nat \<Rightarrow> nat list \<Rightarrow> int \<Rightarrow> nat list \<Rightarrow> nat set \<Rightarrow> nat set \<Rightarrow> bool" where
  "books_ok P next pool out acq D O' \<longleftrightarrow>
     distinct pool \<and> distinct acq \<and> finite D \<and> finite O' \<and>
     set pool \<inter> (set acq \<union> D \<union> O') = {} \<and> set acq \<inter> (D \<union> O') = {} \<and>
     (\<forall>i \<in> set pool \<union> set acq \<union> D \<union> O'. i < next) \<and>
     (\<forall>i \<in> D \<union> O'. \<not> pkReleased (P i) \<and> pkRefs (P i) = of_bool (i \<in> D) + of_bool (i \<in> O')) \<and>
     (\<forall>i \<in> set acq. \<not> pkReleased (P i) \<and> \<not> pkReady (P i)) \<and> (\<forall>i \<in> set pool. pkReleased (P i)) \<and>
     out = int (card (set acq \<union> D \<union> O'))"

abbreviation books :: "'w pipeline \<Rightarrow> nat set \<Rightarrow> nat set \<Rightarrow> bool" where
  "books pl \<equiv> books_ok (plPkts pl) (plNext pl) (plPool pl) (outstandingPackets pl) (plAcquired pl)"

definition pipe_inv :: "'w pipeline \<Rightarrow> bool" where
  "pipe_inv pl \<longleftrightarrow>
     distinct (decrypt_side pl) \<and> distinct (output_side pl) \<and> \<not> plPanic pl \<and>
     books pl (set (decrypt_side pl)) (set (output_side pl)) \<and>
     (\<forall>i \<in> set (decrypt_side pl). \<not> pkReady (plPkts pl i)) \<and>
     (\<forall>i \<in> set (output_side pl). i \<notin> set (decrypt_side pl) \<longrightarrow> pkReady (plPkts pl i) \<and> pkResult (plPkts pl i) \<noteq> None) \<and>
     (\<forall>i q. plIo pl = IoDecrypt i q \<and> \<not> q \<longrightarrow> i \<notin> set (output_side pl))"

lemma unref_fields [simp]:
  "plNext (unrefPacket i pl) = plNext pl" "plAcquired (unrefPacket i pl) = plAcquired pl" "plIo (unrefPacket i pl) = plIo pl"
  "decryptChan (unrefPacket i pl) = decryptChan pl" "outputChan (unrefPacket i pl) = outputChan pl"
  "plWorkers (unrefPacket i pl) = plWorkers pl" "plReaders (unrefPacket i pl) = plReaders pl"
  "plPanic (unrefPacket i pl) = plPanic pl" "plCloseChan (unrefPacket i pl) = plCloseChan pl"
  "pkReady (plPkts (unrefPacket i pl) j) = pkReady (plPkts pl j)"
  "pkResult (plPkts (unrefPacket i pl) j) = pkResult (plPkts pl j)"
  by (simp_all add: unrefPacket_def releasePacket_def Let_def)

lemma books_unref:
  assumes b: "books pl D O'" and i: "i \<in> D \<union> O'"
    and D: "D' = D - {i} \<and> i \<in> D \<and> O'' = O' \<or> O'' = O' - {i} \<and> i \<in> O' \<and> D' = D"
  shows "books (unrefPacket i pl) D' O''"
proof -
  have refs: "pkRefs (plPkts pl i) = of_bool (i \<in> D) + of_bool (i \<in> O')" "\<not> pkReleased (plPkts pl i)" "i \<notin> set (plPool pl)"
      "i \<notin> set (plAcquired pl)" "i < plNext pl"
    using b i by (auto simp: books_ok_def)
  have same: "\<And>j. j \<noteq> i \<Longrightarrow> (j \<in> D' \<longleftrightarrow> j \<in> D) \<and> (j \<in> O'' \<longleftrightarrow> j \<in> O')"
    and one: "of_bool (i \<in> D') + of_bool (i \<in> O'') = pkRefs (plPkts pl i) - 1" and sub: "D' \<subseteq> D" "O'' \<subseteq> O'"
    using D refs(1) by auto
  show ?thesis
  proof (cases "pkRefs (plPkts pl i) - 1 = 0")
    case True
    then have n: "i \<notin> D'" "i \<notin> O''" using one by (auto simp: of_bool_def split: if_splits)
    have "set (plAcquired pl) \<union> D \<union> O' = insert i (set (plAcquired pl) \<union> D' \<union> O'')"
      using same i sub by auto
    then have "card (set (plAcquired pl) \<union> D \<union> O') = card (set (plAcquired pl) \<union> D' \<union> O'') + 1"
      using b n refs(4) finite_subset [OF sub(1)] finite_subset [OF sub(2)] by (simp add: books_ok_def)
    moreover have "unrefPacket i pl = (set_pkt i ((plPkts pl i)\<lparr>pkRefs := 0, pkReleased := True\<rparr>) pl)
        \<lparr>plPool := i # plPool pl, outstandingPackets := outstandingPackets pl - 1\<rparr>"
      using True refs(2) by (simp add: unrefPacket_def releasePacket_def)
    ultimately show ?thesis
      using b n refs same sub finite_subset [OF sub(1)] finite_subset [OF sub(2)] unfolding books_ok_def by auto
  next
    case False
    then have e: "unrefPacket i pl = set_pkt i ((plPkts pl i)\<lparr>pkRefs := pkRefs (plPkts pl i) - 1\<rparr>) pl"
      by (simp add: unrefPacket_def)
    have "i \<in> D' \<union> O''" using False one by (auto simp: of_bool_def split: if_splits)
    then have "x \<in> D' \<union> O'' \<longleftrightarrow> x \<in> D \<union> O'" for x using same [of x] i by (cases "x = i") auto
    then have "D' \<union> O'' = D \<union> O'" by blast
    then have "set (plAcquired pl) \<union> D' \<union> O'' = set (plAcquired pl) \<union> D \<union> O'" by (simp only: Un_assoc)
    then show ?thesis
      using b refs same sub one finite_subset [OF sub(1)] finite_subset [OF sub(2)] unfolding books_ok_def e by auto
  qed
qed

lemma books_acquired: "books pl D O' \<Longrightarrow> i \<in> set (plAcquired pl) \<Longrightarrow>
    i \<notin> D \<and> i \<notin> O' \<and> i \<notin> set (plPool pl) \<and> i < plNext pl \<and> \<not> pkReleased (plPkts pl i) \<and> \<not> pkReady (plPkts pl i) \<and> distinct (plAcquired pl)"
  by (auto simp: books_ok_def)

lemma card_remove_acquired:
  assumes "books pl D O'" "i \<in> set (plAcquired pl)"
  shows "int (card (set (remove1 i (plAcquired pl)) \<union> D \<union> O')) = outstandingPackets pl - 1"
proof -
  note A = books_acquired [OF assms]
  have "set (plAcquired pl) \<union> D \<union> O' = insert i (set (remove1 i (plAcquired pl)) \<union> D \<union> O')"
    using A assms(2) by auto
  moreover have "i \<notin> set (remove1 i (plAcquired pl)) \<union> D \<union> O'" "finite (set (remove1 i (plAcquired pl)) \<union> D \<union> O')"
    using A assms(1) by (auto simp: books_ok_def)
  ultimately have "card (set (plAcquired pl) \<union> D \<union> O') = card (set (remove1 i (plAcquired pl)) \<union> D \<union> O') + 1" by simp
  then show ?thesis using assms(1) by (simp add: books_ok_def)
qed

lemma books_release:
  assumes b: "books pl D O'" and i: "i \<in> set (plAcquired pl)" and p: "pkReleased p = pkReleased (plPkts pl i)"
  shows "books (releasePacket i ((set_pkt i p pl)\<lparr>plAcquired := remove1 i (plAcquired pl), totalRx := n\<rparr>)) D O'"
  using b books_acquired [OF b i] card_remove_acquired [OF b i] i p
  unfolding releasePacket_def books_ok_def by auto

lemma books_fill:
  assumes b: "books pl D O'" and i: "i \<in> set (plAcquired pl)" and p: "pkReleased p = pkReleased (plPkts pl i)" "pkRefs p = 2"
  shows "books ((set_pkt i p pl)\<lparr>plAcquired := remove1 i (plAcquired pl)\<rparr>) (insert i D) (insert i O')"
proof -
  have "insert i (set (plAcquired pl) - {i} \<union> D \<union> O') = set (plAcquired pl) \<union> D \<union> O'"
    "insert i (set (plAcquired pl) \<union> D \<union> O') = set (plAcquired pl) \<union> D \<union> O'" using i by auto
  then show ?thesis
    using b books_acquired [OF b i] i p unfolding books_ok_def by auto
qed

lemma books_acquire:
  assumes b: "books pl D O'" and i: "pooled = None \<or> (\<exists>i \<in> set (plPool pl). pooled = Some i)"
  shows "books (acquirePacket pooled pl) D O'"
proof -
  define i where "i = (case pooled of None \<Rightarrow> plNext pl | Some i \<Rightarrow> i)"
  have i: "i \<notin> set (plAcquired pl) \<union> D \<union> O'" "i \<notin> set (remove1 i (plPool pl))" "pooled \<noteq> None \<Longrightarrow> i < plNext pl"
      "pooled = None \<Longrightarrow> i = plNext pl"
    using b i by (auto simp: books_ok_def i_def)
  have "card (set (plAcquired pl) \<union> D \<union> O' \<union> {i}) = card (set (plAcquired pl) \<union> D \<union> O') + 1"
    using b i by (simp add: books_ok_def)
  then have "card (insert i (set (plAcquired pl) \<union> D \<union> O')) = card (set (plAcquired pl) \<union> D \<union> O') + 1" by simp
  then show ?thesis using b i
    unfolding acquirePacket_def Let_def i_def [symmetric] books_ok_def
    by (auto simp: less_Suc_eq split: if_splits dest: notin_set_remove1)
qed

lemma books_pkt:
  "books pl D O' \<Longrightarrow> i \<notin> set (plAcquired pl) \<Longrightarrow> pkReleased p = pkReleased (plPkts pl i) \<Longrightarrow> pkRefs p = pkRefs (plPkts pl i) \<Longrightarrow>
   books (set_pkt i p pl) D O'"
  unfolding books_ok_def by auto

lemmas side_defs = decrypt_side_def output_side_def

lemma inv_books: "pipe_inv pl \<Longrightarrow> books pl (set (decrypt_side pl)) (set (output_side pl))"
  by (simp add: pipe_inv_def)

lemma unref_sides [simp]:
  "decrypt_side (unrefPacket i pl) = decrypt_side pl" "output_side (unrefPacket i pl) = output_side pl"
  by (simp_all add: side_defs)

text \<open>After the decrypt side gave packet \<open>i\<close> up.\<close>

lemma unref_decrypt_inv:
  assumes b: "books pl (insert i (set (decrypt_side pl))) (set (output_side pl))" and i: "i \<notin> set (decrypt_side pl)"
    and d: "distinct (decrypt_side pl)" "distinct (output_side pl)" "\<not> plPanic pl"
    and r: "\<forall>j \<in> set (decrypt_side pl). \<not> pkReady (plPkts pl j)"
      "\<forall>j \<in> set (output_side pl). j \<notin> set (decrypt_side pl) \<longrightarrow> pkReady (plPkts pl j) \<and> pkResult (plPkts pl j) \<noteq> None"
      "\<forall>j q. plIo pl = IoDecrypt j q \<and> \<not> q \<longrightarrow> j \<notin> set (output_side pl)"
  shows "pipe_inv (unrefPacket i pl)"
  using books_unref [OF b, of i "set (decrypt_side pl)" "set (output_side pl)"] i d r by (simp add: pipe_inv_def)

lemma unref_output_inv:
  assumes b: "books pl (set (decrypt_side pl)) (insert i (set (output_side pl)))" and i: "i \<notin> set (output_side pl)"
    and d: "distinct (decrypt_side pl)" "distinct (output_side pl)" "\<not> plPanic pl"
    and r: "\<forall>j \<in> set (decrypt_side pl). \<not> pkReady (plPkts pl j)"
      "\<forall>j \<in> set (output_side pl). j \<notin> set (decrypt_side pl) \<longrightarrow> pkReady (plPkts pl j) \<and> pkResult (plPkts pl j) \<noteq> None"
      "\<forall>j q. plIo pl = IoDecrypt j q \<and> \<not> q \<longrightarrow> j \<notin> set (output_side pl)"
  shows "pipe_inv (unrefPacket i pl)"
  using books_unref [OF b, of i "set (decrypt_side pl)" "set (output_side pl)"] i d r by (simp add: pipe_inv_def)

lemma acquire_inv:
  assumes "pipe_inv pl" "pooled = None \<or> (\<exists>i \<in> set (plPool pl). pooled = Some i)"
  shows "pipe_inv (acquirePacket pooled pl)"
proof -
  define i where "i = (case pooled of None \<Rightarrow> plNext pl | Some i \<Rightarrow> i)"
  have "i \<notin> set (decrypt_side pl)" "i \<notin> set (output_side pl)"
    using inv_books [OF assms(1)] assms(2) by (auto simp: books_ok_def i_def)
  moreover have "decrypt_side (acquirePacket pooled pl) = decrypt_side pl" "output_side (acquirePacket pooled pl) = output_side pl"
    "plPanic (acquirePacket pooled pl) = plPanic pl" "plIo (acquirePacket pooled pl) = plIo pl"
    "\<And>j. j \<noteq> i \<Longrightarrow> plPkts (acquirePacket pooled pl) j = plPkts pl j"
    by (simp_all add: acquirePacket_def Let_def side_defs i_def)
  ultimately show ?thesis using assms(1) books_acquire [OF inv_books [OF assms(1)] assms(2)]
    unfolding pipe_inv_def by metis
qed

lemma release_inv:
  assumes inv: "pipe_inv pl" and i: "i \<in> set (plAcquired pl)" and p: "pkReleased p = pkReleased (plPkts pl i)"
  shows "pipe_inv (releasePacket i ((set_pkt i p pl)\<lparr>plAcquired := remove1 i (plAcquired pl), totalRx := n\<rparr>))"
proof -
  let ?v = "releasePacket i ((set_pkt i p pl)\<lparr>plAcquired := remove1 i (plAcquired pl), totalRx := n\<rparr>)"
  have "i \<notin> set (decrypt_side pl)" "i \<notin> set (output_side pl)"
    using books_acquired [OF inv_books [OF inv] i] by simp_all
  moreover have "decrypt_side ?v = decrypt_side pl" "output_side ?v = output_side pl" "plPanic ?v = plPanic pl"
    "plIo ?v = plIo pl" "\<And>j. j \<noteq> i \<Longrightarrow> plPkts ?v j = plPkts pl j"
    by (simp_all add: releasePacket_def side_defs)
  ultimately show ?thesis using inv books_release [OF inv_books [OF inv] i p, of n] unfolding pipe_inv_def by metis
qed

lemma io_release_inv: "pipe_inv pl \<Longrightarrow> i \<in> set (plAcquired pl) \<Longrightarrow> pipe_inv (io_release i pl)"
  using release_inv [of pl i "plPkts pl i" "totalRx pl"] by (simp add: io_release_def)

lemma io_receive_inv:
  assumes inv: "pipe_inv pl" and i: "i \<in> set (plAcquired pl)" and idle: "plIo pl = IoIdle"
  shows "pipe_inv (io_receive i data src pl)"
proof -
  let ?p = "(plPkts pl i)\<lparr>pkData := data, pkFrom := src\<rparr>" and ?n = "totalRx pl + of_nat (length data)"
  consider "data = []" | "data \<noteq> []" "plCloseChan pl" | "data \<noteq> []" "\<not> plCloseChan pl" by blast
  then show ?thesis
  proof cases
    case 1
    then show ?thesis using release_inv [OF inv i, of "plPkts pl i" "totalRx pl"] by (simp add: io_receive_def)
  next
    case 2
    then show ?thesis using release_inv [OF inv i, of ?p ?n] by (simp add: io_receive_def Let_def)
  next
    case 3
    let ?v = "((set_pkt i (?p\<lparr>pkRefs := 2\<rparr>) pl)\<lparr>plAcquired := remove1 i (plAcquired pl)\<rparr>)\<lparr>totalRx := ?n, plIo := IoOutput i\<rparr>"
    have e: "io_receive i data src pl = ?v" using 3 by (simp add: io_receive_def Let_def)
    have s: "decrypt_side ?v = i # decrypt_side pl" "output_side ?v = i # output_side pl"
      using idle by (simp_all add: side_defs)
    have n: "i \<notin> set (decrypt_side pl)" "i \<notin> set (output_side pl)" "\<not> pkReady (plPkts pl i)"
      using books_acquired [OF inv_books [OF inv] i] by simp_all
    have "books ?v (set (decrypt_side ?v)) (set (output_side ?v))"
      using books_fill [OF inv_books [OF inv] i, of "?p\<lparr>pkRefs := 2\<rparr>"] unfolding s by simp
    then show ?thesis using inv n unfolding e pipe_inv_def s by auto
  qed
qed

lemma output_queued_inv:
  assumes "pipe_inv pl" "plIo pl = IoOutput i"
  shows "pipe_inv (output_queued i pl)"
proof -
  have "decrypt_side (output_queued i pl) = decrypt_side pl" "set (output_side (output_queued i pl)) = set (output_side pl)"
    "distinct (output_side (output_queued i pl)) = distinct (output_side pl)"
    using assms(2) by (auto simp: output_queued_def side_defs)
  moreover have "plPkts (output_queued i pl) = plPkts pl" "plPanic (output_queued i pl) = plPanic pl"
    "plNext (output_queued i pl) = plNext pl" "plPool (output_queued i pl) = plPool pl"
    "outstandingPackets (output_queued i pl) = outstandingPackets pl" "plAcquired (output_queued i pl) = plAcquired pl"
    "plIo (output_queued i pl) = IoDecrypt i True"
    by (simp_all add: output_queued_def)
  ultimately show ?thesis using assms(1) unfolding pipe_inv_def by auto
qed

lemma output_dropped_inv:
  assumes inv: "pipe_inv pl" and io: "plIo pl = IoOutput i"
  shows "pipe_inv (output_dropped i pl)"
proof -
  let ?v = "pl\<lparr>droppedOutput := droppedOutput pl + 1, plIo := IoDecrypt i False\<rparr>"
  have s: "decrypt_side ?v = decrypt_side pl" "output_side pl = i # output_side ?v" using io by (simp_all add: side_defs)
  show ?thesis unfolding output_dropped_def
    by (rule unref_output_inv) (use inv s in \<open>auto simp: pipe_inv_def\<close>)
qed

lemma output_closed_inv:
  assumes inv: "pipe_inv pl" and io: "plIo pl = IoOutput i"
  shows "pipe_inv (output_closed i pl)"
proof -
  let ?v = "pl\<lparr>plIo := IoIdle\<rparr>"
  have s: "decrypt_side pl = i # decrypt_side ?v" "output_side pl = i # output_side ?v" using io by (simp_all add: side_defs)
  have "books ?v (insert i (set (decrypt_side ?v))) (insert i (set (output_side ?v)))" using inv_books [OF inv] s by simp
  moreover have "i \<notin> set (output_side ?v)" using inv s by (simp add: pipe_inv_def)
  ultimately have "books (unrefPacket i ?v) (insert i (set (decrypt_side ?v))) (set (output_side ?v))"
    by (intro books_unref [where i = i and D = "insert i (set (decrypt_side ?v))" and O' = "insert i (set (output_side ?v))"]) auto
  then show ?thesis unfolding output_closed_def
    by (intro unref_decrypt_inv) (use inv s in \<open>auto simp: pipe_inv_def\<close>)
qed

lemma decrypt_queued_inv:
  assumes "pipe_inv pl" "plIo pl = IoDecrypt i q"
  shows "pipe_inv (decrypt_queued i pl)"
proof -
  have "set (decrypt_side (decrypt_queued i pl)) = set (decrypt_side pl)" "output_side (decrypt_queued i pl) = output_side pl"
    "distinct (decrypt_side (decrypt_queued i pl)) = distinct (decrypt_side pl)"
    using assms(2) by (auto simp: decrypt_queued_def side_defs)
  moreover have "plPkts (decrypt_queued i pl) = plPkts pl" "plPanic (decrypt_queued i pl) = plPanic pl"
    "plNext (decrypt_queued i pl) = plNext pl" "plPool (decrypt_queued i pl) = plPool pl"
    "outstandingPackets (decrypt_queued i pl) = outstandingPackets pl" "plAcquired (decrypt_queued i pl) = plAcquired pl"
    "plIo (decrypt_queued i pl) = IoIdle"
    by (simp_all add: decrypt_queued_def)
  ultimately show ?thesis using assms(1) unfolding pipe_inv_def by auto
qed

text \<open>The decrypt side finishes with a packet: it sets a result, signals it and gives its reference back.\<close>

lemma finish_inv:
  assumes b: "books pl (insert i (set (decrypt_side pl))) (set (output_side pl))" and i: "i \<notin> set (decrypt_side pl)"
    and d: "distinct (decrypt_side pl)" "distinct (output_side pl)" "\<not> plPanic pl" "\<not> pkReady (plPkts pl i)"
    and r: "\<forall>j \<in> set (decrypt_side pl). \<not> pkReady (plPkts pl j)"
      "\<forall>j \<in> set (output_side pl). j \<notin> insert i (set (decrypt_side pl)) \<longrightarrow> pkReady (plPkts pl j) \<and> pkResult (plPkts pl j) \<noteq> None"
      "\<forall>j q. plIo pl = IoDecrypt j q \<and> \<not> q \<longrightarrow> j \<notin> set (output_side pl)"
  shows "pipe_inv (unrefPacket i (close_ready i (set_result i x pl)))"
proof -
  let ?p = "(plPkts pl i)\<lparr>pkResult := Some x, pkReady := True\<rparr>"
  have e: "close_ready i (set_result i x pl) = set_pkt i ?p pl"
    using d(4) by (simp add: close_ready_def set_result_def)
  have "i \<notin> set (plAcquired pl)" using b by (auto simp: books_ok_def)
  from books_pkt [OF b this, of ?p] have "books (set_pkt i ?p pl) (insert i (set (decrypt_side pl))) (set (output_side pl))" by simp
  moreover have s: "decrypt_side (set_pkt i ?p pl) = decrypt_side pl" "output_side (set_pkt i ?p pl) = output_side pl"
    by (simp_all add: side_defs)
  ultimately show ?thesis unfolding e by (intro unref_decrypt_inv) (use i d r in \<open>auto simp: s\<close>)
qed

lemma decrypt_gone_inv:
  assumes inv: "pipe_inv pl" and io: "plIo pl = IoDecrypt i q"
  shows "pipe_inv (unrefPacket i (abandon_output i q (pl\<lparr>droppedDecrypt := n, plIo := IoIdle\<rparr>)))"
proof -
  let ?v = "pl\<lparr>droppedDecrypt := n, plIo := IoIdle\<rparr>"
  have s: "decrypt_side pl = i # decrypt_side ?v" "output_side ?v = output_side pl" using io by (simp_all add: side_defs)
  have b: "books ?v (insert i (set (decrypt_side ?v))) (set (output_side ?v))" using inv_books [OF inv] s by simp
  show ?thesis
  proof (cases q)
    case True
    then show ?thesis unfolding abandon_output_def if_P [OF True]
      by (intro finish_inv [OF b]) (use inv s in \<open>auto simp: pipe_inv_def\<close>)
  next
    case False
    then have "i \<notin> set (output_side ?v)" using inv io unfolding s(2) pipe_inv_def by blast
    then show ?thesis unfolding abandon_output_def if_not_P [OF False]
      by (intro unref_decrypt_inv [OF b]) (use inv s in \<open>auto simp: pipe_inv_def\<close>)
  qed
qed

lemma decrypt_closed_inv: "pipe_inv pl \<Longrightarrow> plIo pl = IoDecrypt i q \<Longrightarrow> pipe_inv (decrypt_closed i q pl)"
  using decrypt_gone_inv [of pl i q "droppedDecrypt pl"] by (simp add: decrypt_closed_def)

lemma decrypt_dropped_inv: "pipe_inv pl \<Longrightarrow> plIo pl = IoDecrypt i q \<Longrightarrow> pipe_inv (decrypt_dropped i q pl)"
  unfolding decrypt_dropped_def by (rule decrypt_gone_inv)

lemma take_inv:
  assumes inv: "pipe_inv pl" and v: "set (decrypt_side v) = set (decrypt_side pl)" "set (output_side v) = set (output_side pl)"
    and "distinct (decrypt_side v)" "distinct (output_side v)"
    and "plPkts v = plPkts pl" "plPanic v = plPanic pl" "plNext v = plNext pl" "plPool v = plPool pl"
      "outstandingPackets v = outstandingPackets pl" "plAcquired v = plAcquired pl" "plIo v = plIo pl"
  shows "pipe_inv v"
  using assms unfolding pipe_inv_def by auto

lemma worker_take_inv:
  assumes "pipe_inv pl" "decryptChan pl = i # rest"
  shows "pipe_inv (worker_take i rest pl)"
  by (rule take_inv [OF assms(1)])
    (use assms in \<open>auto simp: worker_take_def side_defs pipe_inv_def split: io_stage.splits\<close>)

lemma reader_take_inv:
  assumes "pipe_inv pl" "outputChan pl = i # rest"
  shows "pipe_inv (reader_take i rest pl)"
  by (rule take_inv [OF assms(1)])
    (use assms in \<open>auto simp: reader_take_def side_defs pipe_inv_def split: io_stage.splits\<close>)

lemma decryptWorker_inv:
  assumes inv: "pipe_inv pl" and i: "i \<in> set (plWorkers pl)"
  shows "pipe_inv (decryptWorker E i pl)"
proof -
  obtain r u where r: "processPacket E (pkData (plPkts pl i)) (pkFrom (plPkts pl i)) (plUdp pl) = (r, u)" by (metis surj_pair)
  let ?v = "pl\<lparr>plUdp := u, plWorkers := remove1 i (plWorkers pl)\<rparr>"
  have "distinct (plWorkers pl)" using inv by (simp add: pipe_inv_def side_defs)
  moreover have "i \<in> set (decrypt_side pl)" "distinct (decrypt_side pl)" using inv i by (simp_all add: pipe_inv_def side_defs)
  ultimately have s: "set (decrypt_side pl) = insert i (set (decrypt_side ?v))" "i \<notin> set (decrypt_side ?v)"
    "distinct (decrypt_side ?v)" "output_side ?v = output_side pl"
    using i by (auto simp: side_defs dest: notin_set_remove1)
  have b: "books ?v (insert i (set (decrypt_side ?v))) (set (output_side ?v))" using inv_books [OF inv] s by simp
  show ?thesis unfolding decryptWorker_def r prod.case
    by (intro finish_inv [OF b]) (use inv s in \<open>auto simp: pipe_inv_def\<close>)
qed

lemma reader_gone_inv:
  assumes inv: "pipe_inv pl" and i: "i \<in> set (plReaders pl)"
  shows "pipe_inv (unrefPacket i (pl\<lparr>plReaders := remove1 i (plReaders pl)\<rparr>))"
proof -
  let ?v = "pl\<lparr>plReaders := remove1 i (plReaders pl)\<rparr>"
  have "distinct (plReaders pl)" using inv by (simp add: pipe_inv_def side_defs)
  moreover have "i \<in> set (output_side pl)" "distinct (output_side pl)" using inv i by (simp_all add: pipe_inv_def side_defs)
  ultimately have s: "set (output_side pl) = insert i (set (output_side ?v))" "i \<notin> set (output_side ?v)"
    "distinct (output_side ?v)" "decrypt_side ?v = decrypt_side pl"
    using i by (auto simp: side_defs dest: notin_set_remove1)
  have b: "books ?v (set (decrypt_side ?v)) (insert i (set (output_side ?v)))" using inv_books [OF inv] s by simp
  show ?thesis by (intro unref_output_inv [OF b]) (use inv s in \<open>auto simp: pipe_inv_def\<close>)
qed

lemma pipe_step_inv: "pipe_step pl v \<Longrightarrow> pipe_inv pl \<Longrightarrow> pipe_inv v"
proof (induction rule: pipe_step.induct)
  case (pipe_close pl)
  then show ?case by (rule take_inv) (use pipe_close in \<open>auto simp: side_defs pipe_inv_def\<close>)
next
  case (pipe_udp pl u)
  then show ?case by (rule take_inv) (use pipe_udp in \<open>auto simp: side_defs pipe_inv_def\<close>)
qed (simp_all add: acquire_inv io_receive_inv io_release_inv output_queued_inv output_closed_inv output_dropped_inv
    decrypt_queued_inv decrypt_closed_inv decrypt_dropped_inv worker_take_inv decryptWorker_inv reader_take_inv
    ReadPacket_def reader_closed_def reader_gone_inv)

lemma new_pipeline_inv: "pipe_inv (new_pipeline u n m)"
  by (simp add: pipe_inv_def new_pipeline_def side_defs books_ok_def)

lemma pipe_reachable_inv: "pipe_step\<^sup>*\<^sup>* (new_pipeline u n m) pl \<Longrightarrow> pipe_inv pl"
  by (induction rule: rtranclp_induct) (auto intro: new_pipeline_inv pipe_step_inv)

section \<open>Properties\<close>

text \<open>
  C5: However the receive loop, the workers and the readers interleave, and whenever the socket is closed,
  a packet's count is the number of sides that hold it, so none is used after it went back to the pool and
  none is given back twice; the outstanding count is the number of packets held; no ready channel is
  closed twice; and a reader's packet is either still on its way to a worker or ready with a result.
\<close>

theorem packets_counted_exactly:
  assumes "pipe_step\<^sup>*\<^sup>* (new_pipeline u rawSize decryptedSize) pl"
  shows "\<not> plPanic pl \<and>
    outstandingPackets pl = int (card (set (plAcquired pl) \<union> set (decrypt_side pl) \<union> set (output_side pl))) \<and>
    list_all (\<lambda>i. \<not> pkReleased (plPkts pl i) \<and> i \<notin> set (plPool pl) \<and>
      pkRefs (plPkts pl i) = of_bool (i \<in> set (decrypt_side pl)) + of_bool (i \<in> set (output_side pl)))
      (decrypt_side pl @ output_side pl) \<and>
    list_all (\<lambda>i. if i \<in> set (decrypt_side pl) then \<not> pkReady (plPkts pl i)
      else pkReady (plPkts pl i) \<and> pkResult (plPkts pl i) \<noteq> None) (output_side pl)"
proof -
  have i: "pipe_inv pl" by (rule pipe_reachable_inv [OF assms])
  then have b: "books pl (set (decrypt_side pl)) (set (output_side pl))" by (rule inv_books)
  have "list_all (\<lambda>i. \<not> pkReleased (plPkts pl i) \<and> i \<notin> set (plPool pl) \<and>
      pkRefs (plPkts pl i) = of_bool (i \<in> set (decrypt_side pl)) + of_bool (i \<in> set (output_side pl)))
      (decrypt_side pl @ output_side pl)"
    using b unfolding books_ok_def list_all_iff by auto
  moreover have "list_all (\<lambda>i. if i \<in> set (decrypt_side pl) then \<not> pkReady (plPkts pl i)
      else pkReady (plPkts pl i) \<and> pkResult (plPkts pl i) \<noteq> None) (output_side pl)"
    using i unfolding pipe_inv_def list_all_iff by simp
  ultimately show ?thesis using i b unfolding pipe_inv_def books_ok_def by blast
qed

section \<open>The pipeline at a concrete input\<close>

text \<open>One packet of two bytes, queued for a reader and for the workers.\<close>

definition demo_queued :: "'w udp \<Rightarrow> 'w pipeline" where
  "demo_queued u = decrypt_queued 0 (output_queued 0 (io_receive 0 [9, 9] [] (acquirePacket None (new_pipeline u 0 0))))"

lemmas demo_queued_simps = demo_queued_def decrypt_queued_def output_queued_def io_receive_def acquirePacket_def
  new_pipeline_def Let_def RawChanSize_def DecryptedChanSize_def

lemma demo_queued_reached: "pipe_step\<^sup>*\<^sup>* (new_pipeline u 0 0) (demo_queued u)"
proof -
  let ?p0 = "new_pipeline u 0 0"
  let ?p1 = "acquirePacket None ?p0"
  let ?p2 = "io_receive 0 [9, 9] [] ?p1"
  let ?p3 = "output_queued 0 ?p2"
  have "pipe_step ?p0 ?p1" by (rule pipe_acquire) simp
  moreover have "pipe_step ?p1 ?p2" by (rule pipe_receive) (simp_all add: demo_queued_simps)
  moreover have "pipe_step ?p2 ?p3" by (rule pipe_output) (simp_all add: demo_queued_simps)
  moreover have "pipe_step ?p3 (demo_queued u)" unfolding demo_queued_def
    by (rule pipe_decrypt [where q = True]) (simp_all add: demo_queued_simps)
  ultimately show ?thesis by (meson rtranclp.rtrancl_into_rtrancl rtranclp.rtrancl_refl)
qed

definition demo_socket :: "unit udp" where
  "demo_socket = NewUDP \<lparr>kpPrivate = [], kpPublic = []\<rparr> True None None
     \<lparr>CloseAckTimeout = 0, IdleStreamTimeout = 0, AcceptBacklog = 0, MaxActiveStreams = 0\<rparr> None ()"

theorem packets_counted_exactly_witness:
  "outstandingPackets (demo_queued demo_socket) = 1 \<and> decrypt_side (demo_queued demo_socket) = [0] \<and>
    output_side (demo_queued demo_socket) = [0] \<and> pkRefs (plPkts (demo_queued demo_socket) 0) = 2 \<and>
    \<not> pkReady (plPkts (demo_queued demo_socket) 0)"
proof -
  have s: "plAcquired (demo_queued u) = []" "decrypt_side (demo_queued u) = [0]" "output_side (demo_queued u) = [0]"
    for u :: "unit udp"
    by (simp_all add: side_defs demo_queued_simps)
  show ?thesis using packets_counted_exactly [OF demo_queued_reached [of demo_socket]] unfolding s by simp
qed

text \<open>
  Closing stops the workers and the readers, but nobody gives back what is still queued: such packets
  stay outstanding.
\<close>

theorem close_abandons_queued:
  "\<exists>pl. pipe_step\<^sup>*\<^sup>* (new_pipeline u 0 0) pl \<and> plCloseChan pl \<and> plWorkers pl = [] \<and> plReaders pl = [] \<and>
    plAcquired pl = [] \<and> plIo pl = IoIdle \<and> outstandingPackets pl = 1"
proof -
  let ?pl = "(demo_queued u)\<lparr>plCloseChan := True\<rparr>"
  have "pipe_step\<^sup>*\<^sup>* (new_pipeline u 0 0) ?pl" using demo_queued_reached pipe_close by (rule rtranclp.rtrancl_into_rtrancl)
  moreover have "plWorkers ?pl = []" "plReaders ?pl = []" "plAcquired ?pl = []" "plIo ?pl = IoIdle" "outstandingPackets ?pl = 1"
    by (simp_all add: demo_queued_simps)
  ultimately show ?thesis by (intro exI [of _ ?pl]) simp
qed

end
