(* ===== verification/Trie.thy ===== *)
theory Trie
  imports Prelude "HOL-Library.AList"
begin

text \<open>
  \<open>pkg/trie/trie.go\<close>: a trie of paths whose patterns may hold the wildcards \<open>+\<close>, for one segment, and
  \<open>#\<close>, for all that remain.

  The map of children is an association list, a loop over it goes in list order.  The reference for
  \<open>match\<close> is the list of all patterns that match a path, most specific first.
\<close>

section \<open>The trie\<close>

datatype 'a trie =
  Trie (children: "(string \<times> 'a trie) list") (matchAny: "'a trie option") (matchAll: "'a trie option")
    (isset: bool) (trieValue: 'a)

definition trie_New :: "'a \<Rightarrow> 'a trie" where
  "trie_New zero = Trie [] None None False zero"

text \<open>The segment before the first \<open>/\<close> and what follows it.\<close>

definition cut_segment :: "string \<Rightarrow> string \<times> string" where
  "cut_segment path = (takeWhile (\<lambda>c. c \<noteq> CHR ''/'') path, drop 1 (dropWhile (\<lambda>c. c \<noteq> CHR ''/'') path))"

lemma cut_segment_shorter: "cut_segment path = (first, subseq) \<Longrightarrow> path \<noteq> [] \<Longrightarrow> length subseq < length path"
proof -
  assume a: "cut_segment path = (first, subseq)" "path \<noteq> []"
  have "length subseq = length (dropWhile (\<lambda>c. c \<noteq> CHR ''/'') path) - 1" using a(1) by (auto simp: cut_segment_def)
  moreover have "length (dropWhile (\<lambda>c. c \<noteq> CHR ''/'') path) \<le> length path" by (rule length_dropWhile_le)
  moreover have "0 < length path" using a(2) by simp
  ultimately show ?thesis by linarith
qed

text \<open>A \<open>setFunc\<close> changes the value and may fail, with the value as it left it.\<close>

datatype 'e trie_error = InvalidPattern | SetFailed 'e

definition trie_setFunc :: "('a \<Rightarrow> bool \<Rightarrow> 'e option \<times> 'a) \<Rightarrow> 'a trie \<Rightarrow> 'e trie_error option \<times> 'a trie" where
  "trie_setFunc fn t =
     (case fn (trieValue t) (isset t) of
        (Some e, v) \<Rightarrow> (Some (SetFailed e), Trie (children t) (matchAny t) (matchAll t) (isset t) v)
      | (None, v) \<Rightarrow> (None, Trie (children t) (matchAny t) (matchAll t) True v))"

function trie_Set ::
  "'a \<Rightarrow> ('a \<Rightarrow> bool \<Rightarrow> 'e option \<times> 'a) \<Rightarrow> 'a trie \<Rightarrow> string \<Rightarrow> 'e trie_error option \<times> 'a trie"
where
  "trie_Set zero fn t path =
     (if path = [] then trie_setFunc fn t
      else let first = fst (cut_segment path); subseq = snd (cut_segment path)
        in case map_of (children t) first of
             Some ch \<Rightarrow>
               (case trie_Set zero fn ch subseq of
                  (e, ch') \<Rightarrow> (e, Trie (AList.update first ch' (children t)) (matchAny t) (matchAll t) (isset t) (trieValue t)))
           | None \<Rightarrow>
               if first = ''+'' then
                 (case trie_Set zero fn (case matchAny t of None \<Rightarrow> trie_New zero | Some n \<Rightarrow> n) subseq of
                    (e, n) \<Rightarrow> (e, Trie (children t) (Some n) (matchAll t) (isset t) (trieValue t)))
               else if first = ''#'' then
                 (if subseq \<noteq> [] then (Some InvalidPattern, t)
                  else case trie_setFunc fn (case matchAll t of None \<Rightarrow> trie_New zero | Some n \<Rightarrow> n) of
                      (e, n) \<Rightarrow> (e, Trie (children t) (matchAny t) (Some n) (isset t) (trieValue t)))
               else
                 (case trie_Set zero fn (trie_New zero) subseq of
                    (e, ch) \<Rightarrow> (e, Trie (AList.update first ch (children t)) (matchAny t) (matchAll t) (isset t) (trieValue t))))"
  by pat_completeness auto
termination
  by (relation "measure (\<lambda>(_, _, _, path). length path)") (auto intro: cut_segment_shorter [OF prod.collapse [symmetric]])

declare trie_Set.simps [simp del]

definition SetValue :: "'a \<Rightarrow> 'a trie \<Rightarrow> string \<Rightarrow> 'a \<Rightarrow> unit trie_error option \<times> 'a trie" where
  "SetValue zero t path v = trie_Set zero (\<lambda>_ _. (None, v)) t path"

function trie_match :: "'a trie \<Rightarrow> string \<Rightarrow> string \<Rightarrow> (string \<times> 'a) option" where
  "trie_match t matched path =
     (if path = [] then (if isset t then Some (matched, trieValue t) else None)
      else let first = fst (cut_segment path); subseq = snd (cut_segment path)
        in case (case map_of (children t) first of
               None \<Rightarrow> None | Some ch \<Rightarrow> trie_match ch (matched @ ''/'' @ first) subseq) of
             Some r \<Rightarrow> Some r
           | None \<Rightarrow>
               (case (case matchAny t of None \<Rightarrow> None | Some n \<Rightarrow> trie_match n (matched @ ''/+'') subseq) of
                  Some r \<Rightarrow> Some r
                | None \<Rightarrow> (case matchAll t of None \<Rightarrow> None | Some n \<Rightarrow> trie_match n (matched @ ''/#'') [])))"
  by pat_completeness auto
termination
  by (relation "measure (\<lambda>(_, _, path). length path)") (auto intro: cut_segment_shorter [OF prod.collapse [symmetric]])

declare trie_match.simps [simp del]

definition trie_Match :: "'a trie \<Rightarrow> string \<Rightarrow> (string \<times> 'a) option" where
  "trie_Match t path = trie_match t [] path"

definition trie_Get :: "'a trie \<Rightarrow> string \<Rightarrow> 'a option" where
  "trie_Get t path = map_option snd (trie_match t [] path)"

definition GetValue :: "'a \<Rightarrow> 'a trie \<Rightarrow> string \<Rightarrow> 'a \<times> bool" where
  "GetValue zero t path = (case trie_Get t path of None \<Rightarrow> (zero, False) | Some v \<Rightarrow> (v, True))"

text \<open>The nodes a walk visits, with the segments that lead to them.\<close>

fun walkWithPath :: "string list \<Rightarrow> 'a trie \<Rightarrow> (string list \<times> bool \<times> 'a) list" where
  "walkWithPath path (Trie chs any all s v) =
     concat (map (\<lambda>(seg, ch). walkWithPath (path @ [seg]) ch) chs) @
     (case any of None \<Rightarrow> [] | Some n \<Rightarrow> walkWithPath (path @ [''+'']) n) @
     (case all of None \<Rightarrow> [] | Some n \<Rightarrow> walkWithPath (path @ [''#'']) n) @ [(path, s, v)]"

definition trie_Walk :: "'a trie \<Rightarrow> (string \<times> 'a \<times> bool) list" where
  "trie_Walk t = map (\<lambda>(path, s, v). (join_on CHR ''/'' path, v, s)) (walkWithPath [] t)"

definition trie_Len :: "'a trie \<Rightarrow> nat" where
  "trie_Len t = length (filter (\<lambda>(_, _, s). s) (trie_Walk t))"

section \<open>The reference\<close>

function path_segments :: "string \<Rightarrow> string list" where
  "path_segments path =
     (if path = [] then [] else fst (cut_segment path) # path_segments (snd (cut_segment path)))"
  by pat_completeness auto
termination
  by (relation "measure length") (auto intro: cut_segment_shorter [OF prod.collapse [symmetric]])

declare path_segments.simps [simp del]

lemma path_segments_Nil [simp]: "path_segments [] = []"
  by (simp add: path_segments.simps)

lemma path_segments_cut: "path \<noteq> [] \<Longrightarrow> path_segments path = fst (cut_segment path) # path_segments (snd (cut_segment path))"
  by (subst path_segments.simps) simp

lemma path_segments_empty [simp]: "path_segments path = [] \<longleftrightarrow> path = []"
  by (subst path_segments.simps) simp

abbreviation wildcard :: "string \<Rightarrow> bool" where
  "wildcard s \<equiv> s = ''+'' \<or> s = ''#''"

fun valid_pattern :: "string list \<Rightarrow> bool" where
  "valid_pattern [] \<longleftrightarrow> True"
| "valid_pattern (s # ps) \<longleftrightarrow> (if s = ''#'' then ps = [] else valid_pattern ps)"

fun topic_matches :: "string list \<Rightarrow> string list \<Rightarrow> bool" where
  "topic_matches [] ss \<longleftrightarrow> ss = []"
| "topic_matches (p # ps) ss \<longleftrightarrow>
     (if p = ''#'' then ps = [] \<and> ss \<noteq> []
      else case ss of [] \<Rightarrow> False | s # ss' \<Rightarrow> (p = ''+'' \<or> p = s) \<and> topic_matches ps ss')"

fun matching_patterns :: "string list \<Rightarrow> string list list" where
  "matching_patterns [] = [[]]"
| "matching_patterns (s # ss) =
     (if wildcard s then [] else map ((#) s) (matching_patterns ss)) @ map ((#) ''+'') (matching_patterns ss) @ [[''#'']]"

lemma matching_patterns_iff: "ps \<in> set (matching_patterns ss) \<longleftrightarrow> topic_matches ps ss"
proof (induction ss arbitrary: ps)
  case Nil
  show ?case by (cases ps) auto
next
  case (Cons s ss)
  show ?case by (cases ps) (auto simp: Cons.IH image_iff)
qed

fun trie_node :: "'a trie \<Rightarrow> string list \<Rightarrow> 'a trie option" where
  "trie_node t [] = Some t"
| "trie_node t (s # ps) =
     (if s = ''+'' then (case matchAny t of None \<Rightarrow> None | Some n \<Rightarrow> trie_node n ps)
      else if s = ''#'' then (if ps = [] then matchAll t else None)
      else case map_of (children t) s of None \<Rightarrow> None | Some ch \<Rightarrow> trie_node ch ps)"

definition entry_at :: "'a trie \<Rightarrow> string list \<Rightarrow> 'a option" where
  "entry_at t ps = (case trie_node t ps of None \<Rightarrow> None | Some n \<Rightarrow> if isset n then Some (trieValue n) else None)"

definition route_of :: "string list \<Rightarrow> string" where
  "route_of ps = concat (map (\<lambda>p. CHR ''/'' # p) ps)"

fun trie_ok :: "'a trie \<Rightarrow> bool" where
  "trie_ok (Trie chs any all s v) \<longleftrightarrow>
     distinct (map fst chs) \<and> (\<forall>(k, ch) \<in> set chs. \<not> wildcard k \<and> trie_ok ch) \<and>
     (case any of None \<Rightarrow> True | Some n \<Rightarrow> trie_ok n) \<and>
     (case all of None \<Rightarrow> True | Some n \<Rightarrow> children n = [] \<and> matchAny n = None \<and> matchAll n = None)"

lemma trie_ok_iff:
  "trie_ok t \<longleftrightarrow> distinct (map fst (children t)) \<and> (\<forall>(k, ch) \<in> set (children t). \<not> wildcard k \<and> trie_ok ch) \<and>
     (case matchAny t of None \<Rightarrow> True | Some n \<Rightarrow> trie_ok n) \<and>
     (case matchAll t of None \<Rightarrow> True | Some n \<Rightarrow> children n = [] \<and> matchAny n = None \<and> matchAll n = None)"
  by (cases t) simp

lemma trie_ok_map:
  "trie_ok t \<longleftrightarrow> distinct (map fst (children t)) \<and>
     (\<forall>k ch. map_of (children t) k = Some ch \<longrightarrow> \<not> wildcard k \<and> trie_ok ch) \<and>
     (case matchAny t of None \<Rightarrow> True | Some n \<Rightarrow> trie_ok n) \<and>
     (case matchAll t of None \<Rightarrow> True | Some n \<Rightarrow> children n = [] \<and> matchAny n = None \<and> matchAll n = None)"
proof (cases "distinct (map fst (children t))")
  case True
  then have "(k, ch) \<in> set (children t) \<longleftrightarrow> map_of (children t) k = Some ch" for k ch by simp
  then show ?thesis unfolding trie_ok_iff [of t] by auto
qed (simp add: trie_ok_iff [of t])

lemma trie_ok_child: "trie_ok t \<Longrightarrow> map_of (children t) s = Some ch \<Longrightarrow> trie_ok ch \<and> \<not> wildcard s"
  by (simp add: trie_ok_map [of t])

lemma trie_ok_any: "trie_ok t \<Longrightarrow> matchAny t = Some n \<Longrightarrow> trie_ok n"
  by (simp add: trie_ok_iff [of t])

lemma entry_Nil: "entry_at t [] = (if isset t then Some (trieValue t) else None)"
  by (simp add: entry_at_def)

lemma entry_literal: "\<not> wildcard s \<Longrightarrow> entry_at t (s # ps) = (case map_of (children t) s of None \<Rightarrow> None | Some ch \<Rightarrow> entry_at ch ps)"
  by (simp add: entry_at_def split: option.split)

lemma entry_plus: "entry_at t (''+'' # ps) = (case matchAny t of None \<Rightarrow> None | Some n \<Rightarrow> entry_at n ps)"
  by (simp add: entry_at_def split: option.split)

lemma entry_hash: "entry_at t [''#''] = (case matchAll t of None \<Rightarrow> None | Some n \<Rightarrow> entry_at n [])"
  by (simp add: entry_at_def split: option.split)

text \<open>The first of a list of patterns that is stored.\<close>

definition first_stored :: "'a trie \<Rightarrow> string list list \<Rightarrow> string \<Rightarrow> (string \<times> 'a) option" where
  "first_stored t pss m =
     (case find (\<lambda>ps. entry_at t ps \<noteq> None) pss of
        None \<Rightarrow> None | Some ps \<Rightarrow> Some (m @ route_of ps, the (entry_at t ps)))"

lemma first_stored_append:
  "first_stored t (xs @ ys) m = (case first_stored t xs m of None \<Rightarrow> first_stored t ys m | Some r \<Rightarrow> Some r)"
  by (induction xs) (simp_all add: first_stored_def)

lemma first_stored_map:
  assumes "\<And>ps. entry_at t (s # ps) = (case n of None \<Rightarrow> None | Some ch \<Rightarrow> entry_at ch ps)"
  shows "first_stored t (map ((#) s) pss) m = (case n of None \<Rightarrow> None | Some ch \<Rightarrow> first_stored ch pss (m @ ''/'' @ s))"
  by (induction pss) (simp_all add: assms first_stored_def route_of_def split: option.split)

lemma trie_match_first: "trie_ok t \<Longrightarrow> trie_match t m path = first_stored t (matching_patterns (path_segments path)) m"
proof (induction t m path rule: trie_match.induct)
  case (1 t m path)
  show ?case
  proof (cases "path = []")
    case True
    then show ?thesis by (subst trie_match.simps) (simp add: first_stored_def entry_Nil route_of_def)
  next
    case False
    let ?s = "fst (cut_segment path)" and ?r = "snd (cut_segment path)"
    let ?pss = "matching_patterns (path_segments ?r)"
    have lit: "(case map_of (children t) ?s of None \<Rightarrow> None | Some ch \<Rightarrow> trie_match ch (m @ ''/'' @ ?s) ?r) =
        first_stored t (if wildcard ?s then [] else map ((#) ?s) ?pss) m"
    proof (cases "wildcard ?s")
      case True
      then have "map_of (children t) ?s = None" using trie_ok_child [OF 1(4)] by (metis option.exhaust)
      then show ?thesis using True by (simp add: first_stored_def)
    next
      case n: False
      have "first_stored t (map ((#) ?s) ?pss) m =
          (case map_of (children t) ?s of None \<Rightarrow> None | Some ch \<Rightarrow> first_stored ch ?pss (m @ ''/'' @ ?s))"
        by (rule first_stored_map) (rule entry_literal [OF n])
      then show ?thesis using n 1(1) [OF False refl refl] trie_ok_child [OF 1(4)] by (auto split: option.split)
    qed
    let ?lit = "case map_of (children t) ?s of None \<Rightarrow> None | Some ch \<Rightarrow> trie_match ch (m @ ''/'' @ ?s) ?r"
    have any: "?lit = None \<Longrightarrow>
        (case matchAny t of None \<Rightarrow> None | Some n \<Rightarrow> trie_match n (m @ ''/+'') ?r) = first_stored t (map ((#) ''+'') ?pss) m"
      using first_stored_map [of t "''+''" "matchAny t" ?pss m, OF entry_plus] 1(2) [OF False refl refl] trie_ok_any [OF 1(4)]
      by (auto split: option.split)
    have all: "(case matchAll t of None \<Rightarrow> None | Some n \<Rightarrow> trie_match n (m @ ''/#'') []) = first_stored t [[''#'']] m"
      by (subst trie_match.simps) (simp add: first_stored_def entry_hash entry_Nil route_of_def split: option.split)
    have "trie_match t m path = (case ?lit of Some r \<Rightarrow> Some r
        | None \<Rightarrow> (case first_stored t (map ((#) ''+'') ?pss) m of Some r \<Rightarrow> Some r | None \<Rightarrow> first_stored t [[''#'']] m))"
    proof (cases ?lit)
      case None
      then show ?thesis using False all any [OF None] by (subst trie_match.simps) (simp cong: option.case_cong)
    next
      case (Some r)
      then show ?thesis using False by (subst trie_match.simps) simp
    qed
    then show ?thesis unfolding lit using False by (simp add: path_segments_cut first_stored_append split: option.split)
  qed
qed

section \<open>Setting\<close>

text \<open>What is at a pattern: whether it is set, and the value, which a failed \<open>setFunc\<close> may have changed.\<close>

definition slot_at :: "'a \<Rightarrow> 'a trie \<Rightarrow> string list \<Rightarrow> bool \<times> 'a" where
  "slot_at zero t ps = (case trie_node t ps of None \<Rightarrow> (False, zero) | Some n \<Rightarrow> (isset n, trieValue n))"

lemma entry_slot: "entry_at t ps = (if fst (slot_at zero t ps) then Some (snd (slot_at zero t ps)) else None)"
  by (simp add: entry_at_def slot_at_def split: option.split)

lemma slot_Nil [simp]: "slot_at zero t [] = (isset t, trieValue t)"
  by (simp add: slot_at_def)

lemma slot_Cons:
  "slot_at zero t (s # ps) =
     (if s = ''+'' then (case matchAny t of None \<Rightarrow> (False, zero) | Some n \<Rightarrow> slot_at zero n ps)
      else if s = ''#'' then (case matchAll t of None \<Rightarrow> (False, zero) | Some n \<Rightarrow> if ps = [] then (isset n, trieValue n) else (False, zero))
      else (case map_of (children t) s of None \<Rightarrow> (False, zero) | Some ch \<Rightarrow> slot_at zero ch ps))"
  by (simp add: slot_at_def split: option.split)

lemma slot_New [simp]: "slot_at zero (trie_New zero) ps = (False, zero)"
  by (cases ps) (simp_all add: slot_Cons trie_New_def)

lemma ok_New [simp]: "trie_ok (trie_New zero)"
  by (simp add: trie_New_def)

text \<open>The slots after \<open>fn\<close> ran on one of them.\<close>

definition run_slot :: "('a \<Rightarrow> bool \<Rightarrow> 'e option \<times> 'a) \<Rightarrow> bool \<times> 'a \<Rightarrow> 'e trie_error option \<times> (bool \<times> 'a)" where
  "run_slot fn slot =
     (case fn (snd slot) (fst slot) of (r, v) \<Rightarrow> (map_option SetFailed r, (r = None \<or> fst slot, v)))"

definition set_spec ::
  "'a \<Rightarrow> ('a \<Rightarrow> bool \<Rightarrow> 'e option \<times> 'a) \<Rightarrow> 'a trie \<Rightarrow> string list \<Rightarrow> 'e trie_error option \<times> 'a trie \<Rightarrow> bool"
where
  "set_spec zero fn t ps r \<longleftrightarrow>
     trie_ok (snd r) \<and>
     (if valid_pattern ps
      then fst r = fst (run_slot fn (slot_at zero t ps)) \<and>
        slot_at zero (snd r) = (slot_at zero t)(ps := snd (run_slot fn (slot_at zero t ps)))
      else fst r = Some InvalidPattern \<and> slot_at zero (snd r) = slot_at zero t)"

lemma setFunc_run:
  "trie_setFunc fn t = (fst (run_slot fn (isset t, trieValue t)),
     Trie (children t) (matchAny t) (matchAll t) (fst (snd (run_slot fn (isset t, trieValue t))))
       (snd (snd (run_slot fn (isset t, trieValue t)))))"
  by (cases "fn (trieValue t) (isset t)"; cases "fst (fn (trieValue t) (isset t))")
    (simp_all add: trie_setFunc_def run_slot_def)

text \<open>A change below one of the branches of a node is a change of the node.\<close>

lemma set_spec_child:
  assumes ok: "trie_ok t" and s: "\<not> wildcard s" and n: "trie_ok n"
    and ch: "\<And>ps. slot_at zero t (s # ps) = slot_at zero n ps" and r: "set_spec zero fn n ps (e, n')"
  shows "set_spec zero fn t (s # ps) (e, Trie (AList.update s n' (children t)) (matchAny t) (matchAll t) (isset t) (trieValue t))"
proof -
  let ?t = "Trie (AList.update s n' (children t)) (matchAny t) (matchAll t) (isset t) (trieValue t)"
  have m: "map_of (AList.update s n' (children t)) k = (if k = s then Some n' else map_of (children t) k)" for k
    by (simp add: update_conv')
  have "trie_ok ?t"
    using ok r s unfolding trie_ok_map [of t] trie_ok_map [of ?t] by (simp add: m set_spec_def distinct_update)
  moreover have "slot_at zero ?t qs = (if \<exists>ps. qs = s # ps then slot_at zero n' (tl qs) else slot_at zero t qs)" for qs
    using s by (cases qs) (simp_all add: slot_Cons m)
  ultimately show ?thesis using r s by (auto simp: set_spec_def ch fun_eq_iff split: if_splits)
qed

lemma set_spec_any:
  assumes ok: "trie_ok t" and n: "trie_ok n"
    and ch: "\<And>ps. slot_at zero t (''+'' # ps) = slot_at zero n ps" and r: "set_spec zero fn n ps (e, n')"
  shows "set_spec zero fn t (''+'' # ps) (e, Trie (children t) (Some n') (matchAll t) (isset t) (trieValue t))"
proof -
  let ?t = "Trie (children t) (Some n') (matchAll t) (isset t) (trieValue t)"
  have "trie_ok ?t" using ok r unfolding trie_ok_map [of t] trie_ok_map [of ?t] by (simp add: set_spec_def)
  moreover have "slot_at zero ?t qs = (if \<exists>ps. qs = ''+'' # ps then slot_at zero n' (tl qs) else slot_at zero t qs)" for qs
    by (cases qs) (simp_all add: slot_Cons)
  ultimately show ?thesis using r by (auto simp: set_spec_def ch fun_eq_iff split: if_splits)
qed

lemma set_spec_all:
  assumes ok: "trie_ok t" and n: "children n = [] \<and> matchAny n = None \<and> matchAll n = None"
    and ch: "slot_at zero t [''#''] = (isset n, trieValue n)" and r: "trie_setFunc fn n = (e, n')"
  shows "set_spec zero fn t [''#''] (e, Trie (children t) (matchAny t) (Some n') (isset t) (trieValue t))"
proof -
  let ?t = "Trie (children t) (matchAny t) (Some n') (isset t) (trieValue t)"
  have n': "children n' = [] \<and> matchAny n' = None \<and> matchAll n' = None"
    "e = fst (run_slot fn (slot_at zero t [''#'']))" "(isset n', trieValue n') = snd (run_slot fn (slot_at zero t [''#'']))"
    using r n unfolding ch setFunc_run by auto
  have "trie_ok ?t" using ok n'(1) unfolding trie_ok_map [of t] trie_ok_map [of ?t] by simp
  moreover have "slot_at zero ?t qs = (if qs = [''#''] then (isset n', trieValue n') else slot_at zero t qs)" for qs
  proof (cases qs)
    case (Cons s ps)
    then show ?thesis by (cases "s = ''#''"; cases ps) (simp_all add: slot_Cons split: option.split)
  qed simp
  ultimately show ?thesis using n'(2,3) by (auto simp: set_spec_def fun_eq_iff)
qed

lemma set_spec_here:
  assumes "trie_ok t"
  shows "set_spec zero fn t [] (trie_setFunc fn t)"
proof -
  have "slot_at zero (snd (trie_setFunc fn t)) qs = (if qs = [] then snd (run_slot fn (isset t, trieValue t)) else slot_at zero t qs)" for qs
    by (cases qs) (simp_all add: setFunc_run slot_Cons)
  moreover have "trie_ok (snd (trie_setFunc fn t))" 
    using assms unfolding trie_ok_map [of t] trie_ok_map [of "snd (trie_setFunc fn t)"] by (simp add: setFunc_run)
  ultimately show ?thesis by (auto simp: set_spec_def setFunc_run fun_eq_iff)
qed

lemma trie_Set_spec: "trie_ok t \<Longrightarrow> set_spec zero fn t (path_segments path) (trie_Set zero fn t path)"
proof (induction zero fn t path rule: trie_Set.induct)
  case (1 zero fn t path)
  note ok = 1(4)
  let ?s = "fst (cut_segment path)" and ?r = "snd (cut_segment path)"
  show ?case
  proof (cases "path = []")
    case True
    then show ?thesis using set_spec_here [OF ok] by (subst trie_Set.simps) simp
  next
    case ne: False
    have p: "path_segments path = ?s # path_segments ?r" by (rule path_segments_cut [OF ne])
    show ?thesis
    proof (cases "map_of (children t) ?s")
      case (Some ch)
      obtain e ch' where r: "trie_Set zero fn ch ?r = (e, ch')" by (metis surj_pair)
      have "set_spec zero fn ch (path_segments ?r) (e, ch')"
        using 1(3) [OF ne refl refl Some] trie_ok_child [OF ok Some] r by simp
      then have "set_spec zero fn t (?s # path_segments ?r)
          (e, Trie (AList.update ?s ch' (children t)) (matchAny t) (matchAll t) (isset t) (trieValue t))"
        by (intro set_spec_child [OF ok, of _ ch]) (use trie_ok_child [OF ok Some] Some in \<open>simp_all add: slot_Cons\<close>)
      then show ?thesis using ne Some r by (subst trie_Set.simps) (simp add: p)
    next
      case None
      consider (plus) "?s = ''+''" | (hash) "?s = ''#''" | (lit) "\<not> wildcard ?s" by blast
      then show ?thesis
      proof cases
        case plus
        let ?n = "case matchAny t of None \<Rightarrow> trie_New zero | Some n \<Rightarrow> n"
        obtain e n' where r: "trie_Set zero fn ?n ?r = (e, n')" by (metis surj_pair)
        have n: "trie_ok ?n" using trie_ok_any [OF ok] by (simp split: option.split)
        have "set_spec zero fn ?n (path_segments ?r) (e, n')" using 1(1) [OF ne refl refl None plus n] r by simp
        then have "set_spec zero fn t (''+'' # path_segments ?r) (e, Trie (children t) (Some n') (matchAll t) (isset t) (trieValue t))"
          by (intro set_spec_any [OF ok n]) (simp_all add: slot_Cons split: option.split)
        then show ?thesis using ne None r plus by (subst trie_Set.simps) (simp add: p)
      next
        case hash
        let ?n = "case matchAll t of None \<Rightarrow> trie_New zero | Some n \<Rightarrow> n"
        show ?thesis
        proof (cases "?r = []")
          case True
          obtain e n' where r: "trie_setFunc fn ?n = (e, n')" by (metis surj_pair)
          have "set_spec zero fn t [''#''] (e, Trie (children t) (matchAny t) (Some n') (isset t) (trieValue t))"
            by (rule set_spec_all [OF ok _ _ r])
              (use ok in \<open>auto simp: trie_New_def slot_Cons trie_ok_map [of t] split: option.splits\<close>)
          then show ?thesis using ne None r hash True by (subst trie_Set.simps) (simp add: p)
        next
          case False
          then show ?thesis using ne None hash ok by (subst trie_Set.simps) (simp add: p set_spec_def)
        qed
      next
        case lit
        obtain e n' where r: "trie_Set zero fn (trie_New zero) ?r = (e, n')" by (metis surj_pair)
        have "set_spec zero fn (trie_New zero) (path_segments ?r) (e, n')"
          using 1(2) [OF ne refl refl None] lit r by simp
        then have "set_spec zero fn t (?s # path_segments ?r)
            (e, Trie (AList.update ?s n' (children t)) (matchAny t) (matchAll t) (isset t) (trieValue t))"
          by (intro set_spec_child [OF ok lit ok_New]) (use lit None in \<open>simp_all add: slot_Cons\<close>)
        then show ?thesis using ne None r lit by (subst trie_Set.simps) (simp add: p)
      qed
    qed
  qed
qed

section \<open>Histories and the walk\<close>

text \<open>The values a list of \<open>SetValue\<close> calls leaves, an invalid pattern being refused.\<close>

definition set_all :: "'a \<Rightarrow> (string \<times> 'a) list \<Rightarrow> 'a trie" where
  "set_all zero calls = fold (\<lambda>(path, v) t. snd (SetValue zero t path v)) calls (trie_New zero)"

definition stored_values :: "(string \<times> 'a) list \<Rightarrow> string list \<Rightarrow> 'a option" where
  "stored_values calls = map_of (rev (filter (\<lambda>(ps, _). valid_pattern ps) (map (apfst path_segments) calls)))"

lemma SetValue_spec:
  assumes "trie_ok t"
  shows "trie_ok (snd (SetValue zero t path v)) \<and>
    fst (SetValue zero t path v) = (if valid_pattern (path_segments path) then None else Some InvalidPattern) \<and>
    entry_at (snd (SetValue zero t path v)) =
      (if valid_pattern (path_segments path) then (entry_at t)(path_segments path \<mapsto> v) else entry_at t)"
proof -
  have "set_spec zero (\<lambda>_ _. (None :: unit option, v)) t (path_segments path) (SetValue zero t path v)"
    using trie_Set_spec [OF assms] by (simp add: SetValue_def)
  then show ?thesis
    by (auto simp: set_spec_def run_slot_def fun_eq_iff entry_slot [of _ _ zero] split: if_splits)
qed

lemma set_all_spec: "trie_ok (set_all zero calls) \<and> entry_at (set_all zero calls) = stored_values calls"
proof (induction calls rule: rev_induct)
  case Nil
  have "entry_at (trie_New zero) ps = None" for ps by (simp add: entry_slot [of _ _ zero])
  then show ?case by (simp add: set_all_def stored_values_def fun_eq_iff)
next
  case (snoc call calls)
  obtain path v where c: "call = (path, v)" by (cases call)
  have "set_all zero (calls @ [call]) = snd (SetValue zero (set_all zero calls) path v)" by (simp add: set_all_def c)
  then show ?case using SetValue_spec [of "set_all zero calls" zero path v] snoc.IH by (simp add: stored_values_def c)
qed

lemma node_Cons:
  "trie_node t (s # ps) = Some n \<longleftrightarrow>
     \<not> wildcard s \<and> (\<exists>ch. map_of (children t) s = Some ch \<and> trie_node ch ps = Some n) \<or>
     s = ''+'' \<and> (\<exists>m. matchAny t = Some m \<and> trie_node m ps = Some n) \<or> s = ''#'' \<and> ps = [] \<and> matchAll t = Some n"
  by (auto split: option.splits)

lemma walk_below: "x \<in> set (walkWithPath path t) \<Longrightarrow> \<exists>ps. fst x = path @ ps"
proof (induction path t rule: walkWithPath.induct)
  case (1 path chs any all s v)
  then show ?case by (fastforce split: option.splits)
qed

lemma walk_distinct:
  assumes "distinct (map fst chs)"
    and "\<And>k ch. (k, ch) \<in> set chs \<Longrightarrow> distinct (map fst (walkWithPath (path @ [k]) ch))"
  shows "distinct (map fst (concat (map (\<lambda>(k, ch). walkWithPath (path @ [k]) ch) chs)))"
  using assms
proof (induction chs)
  case (Cons c chs)
  obtain k ch where c: "c = (k, ch)" by (cases c)
  have "fst x \<noteq> fst y" if "x \<in> set (walkWithPath (path @ [k]) ch)" "(k', ch') \<in> set chs" "y \<in> set (walkWithPath (path @ [k']) ch')"
    for x y k' ch'
    using walk_below [OF that(1)] walk_below [OF that(3)] that(2) Cons.prems(1) by (auto simp: c image_iff)
  then show ?case using Cons by (fastforce simp: c)
qed simp

lemma walk_leaf: "children n = [] \<and> matchAny n = None \<and> matchAll n = None \<Longrightarrow> walkWithPath path n = [(path, isset n, trieValue n)]"
  by (cases n) simp

lemma distinct_parts:
  assumes "distinct (map fst xs)" "distinct (map fst ys)" "distinct (map fst zs)"
    and "fst ` set xs \<inter> fst ` set ys = {}" "fst ` set xs \<inter> fst ` set zs = {}" "fst ` set ys \<inter> fst ` set zs = {}"
    and "k \<notin> fst ` set xs" "k \<notin> fst ` set ys" "k \<notin> fst ` set zs"
  shows "distinct (map fst (xs @ ys @ zs @ [(k, v)]))"
  using assms by (simp add: Int_Un_distrib)

lemma walk_nodes:
  "trie_ok t \<Longrightarrow> distinct (map fst (walkWithPath path t)) \<and>
     (\<forall>qs b w. (qs, b, w) \<in> set (walkWithPath path t) \<longleftrightarrow>
       (\<exists>ps n. qs = path @ ps \<and> trie_node t ps = Some n \<and> b = isset n \<and> w = trieValue n))"
proof (induction path t rule: walkWithPath.induct)
  case (1 path chs any all s v)
  let ?t = "Trie chs any all s v"
  let ?L = "concat (map (\<lambda>(k, ch). walkWithPath (path @ [k]) ch) chs)"
  let ?P = "case any of None \<Rightarrow> [] | Some n \<Rightarrow> walkWithPath (path @ [''+'']) n"
  let ?H = "case all of None \<Rightarrow> [] | Some n \<Rightarrow> walkWithPath (path @ [''#'']) n"
  have ok: "distinct (map fst chs)" "\<And>k ch. (k, ch) \<in> set chs \<Longrightarrow> \<not> wildcard k \<and> trie_ok ch"
      "\<And>n. any = Some n \<Longrightarrow> trie_ok n" "\<And>n. all = Some n \<Longrightarrow> children n = [] \<and> matchAny n = None \<and> matchAll n = None"
    using 1(4) by (auto split: option.splits)
  have L: "(qs, b, w) \<in> set ?L \<longleftrightarrow> (\<exists>k ch ps n. map_of chs k = Some ch \<and> qs = path @ k # ps \<and> trie_node ch ps = Some n \<and>
      b = isset n \<and> w = trieValue n)" for qs b w
  proof -
    have child: "(qs, b, w) \<in> set (walkWithPath (path @ [k]) ch) \<longleftrightarrow>
        (\<exists>ps n. qs = path @ k # ps \<and> trie_node ch ps = Some n \<and> b = isset n \<and> w = trieValue n)" if "(k, ch) \<in> set chs" for k ch
      using 1(1) [OF that refl] ok(2) [OF that] by simp
    have "(qs, b, w) \<in> set ?L \<longleftrightarrow> (\<exists>k ch. (k, ch) \<in> set chs \<and> (qs, b, w) \<in> set (walkWithPath (path @ [k]) ch))"
      by (auto simp: Bex_def)
    also have "\<dots> \<longleftrightarrow> (\<exists>k ch. map_of chs k = Some ch \<and>
        (\<exists>ps n. qs = path @ k # ps \<and> trie_node ch ps = Some n \<and> b = isset n \<and> w = trieValue n))"
      unfolding map_of_eq_Some_iff [OF ok(1)] by (intro ex_cong1 conj_cong refl child)
    finally show ?thesis by blast
  qed
  have P: "(qs, b, w) \<in> set ?P \<longleftrightarrow> (\<exists>m ps n. any = Some m \<and> qs = path @ ''+'' # ps \<and> trie_node m ps = Some n \<and>
      b = isset n \<and> w = trieValue n)" for qs b w
    using 1(2) ok(3) by (cases any) auto
  have H: "(qs, b, w) \<in> set ?H \<longleftrightarrow> (\<exists>n. all = Some n \<and> qs = path @ [''#''] \<and> b = isset n \<and> w = trieValue n)" for qs b w
    using ok(4) by (cases all) (auto simp: walk_leaf)
  have "distinct (map fst ?L)" using walk_distinct [OF ok(1)] 1(1) ok(2) by blast
  moreover have "distinct (map fst ?P)" "distinct (map fst ?H)"
    using 1(2) ok(3,4) by (auto simp: walk_leaf split: option.split)
  moreover have LA: "\<exists>k ps. fst x = path @ k # ps \<and> \<not> wildcard k" if "x \<in> set ?L" for x
    using that ok(2) by (fastforce dest: walk_below)
  moreover have PA: "\<exists>ps. fst x = path @ ''+'' # ps" if "x \<in> set ?P" for x
    using that by (cases any) (auto dest: walk_below)
  moreover have HA: "\<exists>ps. fst x = path @ ''#'' # ps" if "x \<in> set ?H" for x
    using that by (cases all) (auto dest: walk_below)
  moreover have "fst ` set ?L \<inter> fst ` set ?P = {}" "fst ` set ?L \<inter> fst ` set ?H = {}" "fst ` set ?P \<inter> fst ` set ?H = {}"
    by (fastforce dest: LA PA HA)+
  moreover have "path \<notin> fst ` set ?L" by (rule notI, erule imageE, drule LA) simp
  moreover have "path \<notin> fst ` set ?P" by (rule notI, erule imageE, drule PA) simp
  moreover have "path \<notin> fst ` set ?H" by (rule notI, erule imageE, drule HA) simp
  ultimately have "distinct (map fst (?L @ ?P @ ?H @ [(path, s, v)]))" by (intro distinct_parts)
  then have "distinct (map fst (walkWithPath path ?t))" by simp
  moreover have "(qs, b, w) \<in> set (walkWithPath path ?t) \<longleftrightarrow>
      (\<exists>ps n. qs = path @ ps \<and> trie_node ?t ps = Some n \<and> b = isset n \<and> w = trieValue n)" for qs b w
  proof -
    have "(qs, b, w) \<in> set (walkWithPath path ?t) \<longleftrightarrow>
        (qs, b, w) \<in> set ?L \<or> (qs, b, w) \<in> set ?P \<or> (qs, b, w) \<in> set ?H \<or> qs = path \<and> b = s \<and> w = v" by auto
    also have "\<dots> \<longleftrightarrow> (\<exists>ps n. qs = path @ ps \<and> trie_node ?t ps = Some n \<and> b = isset n \<and> w = trieValue n)"
    proof (cases "\<exists>k ps. qs = path @ k # ps")
      case True
      then obtain k ps where q: "qs = path @ k # ps" by blast
      have "map_of chs k = Some ch \<Longrightarrow> \<not> wildcard k" for ch using ok(2) by (blast dest: map_of_SomeD)
      then show ?thesis unfolding L P H q by (auto simp: node_Cons simp del: trie_node.simps(2))
    next
      case False
      then have "qs = path @ ps \<longleftrightarrow> ps = [] \<and> qs = path" for ps by (cases ps) auto
      then show ?thesis unfolding L P H using False by auto
    qed
    finally show ?thesis .
  qed
  ultimately show ?case by blast
qed

lemma trie_Len_entries:
  assumes "trie_ok t"
  shows "trie_Len t = card {ps. entry_at t ps \<noteq> None}"
proof -
  let ?xs = "filter (\<lambda>(_, s, _). s) (walkWithPath [] t)"
  have "trie_Len t = length ?xs" by (simp add: trie_Len_def trie_Walk_def filter_map comp_def case_prod_unfold)
  also have "\<dots> = card (fst ` set ?xs)"
    using walk_nodes [OF assms, of "[]"] distinct_card [of "map fst ?xs"] distinct_map_filter [of fst "walkWithPath [] t"] by simp
  also have "fst ` set ?xs = {ps. entry_at t ps \<noteq> None}"
  proof -
    have l: "ps \<in> fst ` set ?xs \<longleftrightarrow> (\<exists>n. trie_node t ps = Some n \<and> isset n)" for ps
    proof -
      have "ps \<in> fst ` set ?xs \<longleftrightarrow> (\<exists>w. (ps, True, w) \<in> set (walkWithPath [] t))"
        by (auto simp: image_iff Bex_def)
      also have "\<dots> \<longleftrightarrow> (\<exists>w n. trie_node t ps = Some n \<and> True = isset n \<and> w = trieValue n)"
        by (simp only: conjunct2 [OF walk_nodes [OF assms, of "[]"], rule_format] append_Nil) blast
      finally show ?thesis by blast
    qed
    have r: "entry_at t ps \<noteq> None \<longleftrightarrow> (\<exists>n. trie_node t ps = Some n \<and> isset n)" for ps
      by (simp add: entry_at_def split: option.split)
    show ?thesis by (rule set_eqI) (simp only: l r mem_Collect_eq)
  qed
  finally show ?thesis .
qed

section \<open>Properties\<close>

text \<open>
  C30: A trie is the map from patterns to values that the calls of \<open>SetValue\<close> describe, the last call for
  a pattern winning and a pattern with \<open>#\<close> before its end being refused, and \<open>Match\<close> is the best match in
  it: of all stored patterns that match the path it takes the first in the order that prefers, from the
  first segment on, the literal segment over \<open>+\<close> and \<open>+\<close> over \<open>#\<close>; it fails when none is stored.  \<open>Len\<close>
  counts the stored patterns.
\<close>

theorem trie_finds_best_match:
  "trie_Match (set_all zero calls) path =
     (case find (\<lambda>ps. stored_values calls ps \<noteq> None) (matching_patterns (path_segments path)) of
        None \<Rightarrow> None
      | Some ps \<Rightarrow> Some (route_of ps, the (stored_values calls ps))) \<and>
   set (matching_patterns (path_segments path)) = {ps. topic_matches ps (path_segments path)} \<and>
   trie_Get (set_all zero calls) path = map_option snd (trie_Match (set_all zero calls) path) \<and>
   fst (SetValue zero (set_all zero calls) path v) =
     (if valid_pattern (path_segments path) then None else Some InvalidPattern) \<and>
   trie_Len (set_all zero calls) = card {ps. stored_values calls ps \<noteq> None}"
proof -
  have ok: "trie_ok (set_all zero calls)" and e: "entry_at (set_all zero calls) = stored_values calls"
    using set_all_spec [of zero calls] by simp_all
  have "trie_Match (set_all zero calls) path =
      first_stored (set_all zero calls) (matching_patterns (path_segments path)) []"
    by (simp add: trie_Match_def trie_match_first [OF ok])
  then show ?thesis
    using SetValue_spec [OF ok] trie_Len_entries [OF ok]
    by (auto simp: first_stored_def e matching_patterns_iff trie_Get_def trie_Match_def split: option.splits)
qed

end
