(* ===== verification/Semver.thy ===== *)
theory Semver
  imports Prelude "HOL-Library.List_Lexorder" "HOL-Library.Char_ord"
begin

text \<open>
  \<open>pkg/gizclaw/firmware/semver.go\<close>: the versions of firmware releases.  The reference is a linear order on
  parsed versions, whose identifiers are numbers or texts, and a printer whose texts are exactly what the
  parser accepts.  A string is a list of bytes; its order is Go's.
\<close>

section \<open>The code\<close>

definition char_between :: "char \<Rightarrow> char \<Rightarrow> char \<Rightarrow> bool" where
  "char_between lo hi c \<longleftrightarrow> lo \<le> c \<and> c \<le> hi"

definition is_digit :: "char \<Rightarrow> bool" where
  "is_digit = char_between CHR ''0'' CHR ''9''"

definition digit_value :: "char \<Rightarrow> nat" where
  "digit_value c = of_char c - of_char CHR ''0''"

definition digits_value :: "string \<Rightarrow> nat" where
  "digits_value s = foldl (\<lambda>n c. 10 * n + digit_value c) 0 s"

text \<open>\<open>strconv.Atoi\<close>, with an \<open>int\<close> of 64 bits.\<close>

definition Atoi :: "string \<Rightarrow> int option" where
  "Atoi s =
     (let neg = (s \<noteq> [] \<and> hd s = CHR ''-'');
          ds = (if s \<noteq> [] \<and> (hd s = CHR ''-'' \<or> hd s = CHR ''+'') then tl s else s);
          n = int (digits_value ds)
      in if ds = [] \<or> \<not> list_all is_digit ds then None
         else if neg then (if n \<le> 2 ^ 63 then Some (- n) else None)
         else (if n < 2 ^ 63 then Some n else None))"

definition parseSemVerNumber :: "string \<Rightarrow> int option" where
  "parseSemVerNumber v =
     (if v = [] then None
      else if 1 < length v \<and> hd v = CHR ''0'' then None
      else case Atoi v of
          None \<Rightarrow> None
        | Some n \<Rightarrow> if n < 0 then None else Some n)"

definition isValidSemVerIdentifier :: "string \<Rightarrow> bool" where
  "isValidSemVerIdentifier v \<longleftrightarrow>
     v \<noteq> [] \<and>
     list_all (\<lambda>c. is_digit c \<or> char_between CHR ''a'' CHR ''z'' c \<or> char_between CHR ''A'' CHR ''Z'' c \<or> c = CHR ''-'') v"

definition validateSemVerIdentifiers :: "string \<Rightarrow> bool" where
  "validateSemVerIdentifiers v \<longleftrightarrow> v \<noteq> [] \<and> list_all isValidSemVerIdentifier (split_on CHR ''.'' v)"

text \<open>\<open>strings.Cut\<close> at a byte: what is before the first one, and what follows it if there is one.\<close>

fun cut_at :: "char \<Rightarrow> string \<Rightarrow> string \<times> string option" where
  "cut_at s [] = ([], None)"
| "cut_at s (c # cs) = (if c = s then ([], Some cs) else (case cut_at s cs of (a, b) \<Rightarrow> (c # a, b)))"

datatype version =
  Version (major: int) (minor: int) (patch: int) (prerelease: "string list")

definition parseSemVer :: "string \<Rightarrow> version option" where
  "parseSemVer value =
     (case cut_at CHR ''+'' value of (core, build) \<Rightarrow>
        if (case build of None \<Rightarrow> False | Some b \<Rightarrow> \<not> validateSemVerIdentifiers b) then None
        else case cut_at CHR ''-'' core of (corePart, prePart) \<Rightarrow>
          (case split_on CHR ''.'' corePart of
             [p0, p1, p2] \<Rightarrow>
               (case parseSemVerNumber p0 of
                  None \<Rightarrow> None
                | Some maj \<Rightarrow>
                    (case parseSemVerNumber p1 of
                       None \<Rightarrow> None
                     | Some mnr \<Rightarrow>
                         (case parseSemVerNumber p2 of
                            None \<Rightarrow> None
                          | Some pat \<Rightarrow>
                              (case prePart of
                                 None \<Rightarrow> Some (Version maj mnr pat [])
                               | Some p \<Rightarrow>
                                   if validateSemVerIdentifiers p
                                   then Some (Version maj mnr pat (split_on CHR ''.'' p)) else None))))
           | _ \<Rightarrow> None))"

definition parseNumericIdentifier :: "string \<Rightarrow> string \<times> int \<times> bool" where
  "parseNumericIdentifier v =
     (if \<not> list_all is_digit v then (v, 0, False)
      else if 1 < length v \<and> hd v = CHR ''0'' then (v, 0, False)
      else case Atoi v of
          None \<Rightarrow> (v, 0, False)
        | Some n \<Rightarrow> (v, n, True))"

text \<open>The loop of \<open>comparePrerelease\<close> over the common indices, and the lengths after it.\<close>

fun compare_identifiers :: "string list \<Rightarrow> string list \<Rightarrow> int" where
  "compare_identifiers (x # a) (y # b) =
     (case (parseNumericIdentifier x, parseNumericIdentifier y) of
        ((aNum, aInt, aNumeric), (bNum, bInt, bNumeric)) \<Rightarrow>
          if aNumeric \<and> bNumeric then
            (if aInt < bInt then - 1 else if bInt < aInt then 1 else compare_identifiers a b)
          else if aNumeric then - 1
          else if bNumeric then 1
          else (if aNum < bNum then - 1 else if bNum < aNum then 1 else compare_identifiers a b))"
| "compare_identifiers a b = (if length a < length b then - 1 else if length b < length a then 1 else 0)"

definition comparePrerelease :: "string list \<Rightarrow> string list \<Rightarrow> int" where
  "comparePrerelease a b =
     (if a = [] \<and> b = [] then 0 else if a = [] then 1 else if b = [] then - 1 else compare_identifiers a b)"

definition strings_Compare :: "string \<Rightarrow> string \<Rightarrow> int" where
  "strings_Compare a b = (if a < b then - 1 else if a = b then 0 else 1)"

definition compareSemVer :: "string \<Rightarrow> string \<Rightarrow> int" where
  "compareSemVer a b =
     (case parseSemVer a of
        None \<Rightarrow> strings_Compare a b
      | Some v \<Rightarrow>
          (case parseSemVer b of
             None \<Rightarrow> strings_Compare a b
           | Some w \<Rightarrow>
               if major v \<noteq> major w then (if major v < major w then - 1 else 1)
               else if minor v \<noteq> minor w then (if minor v < minor w then - 1 else 1)
               else if patch v \<noteq> patch w then (if patch v < patch w then - 1 else 1)
               else comparePrerelease (prerelease v) (prerelease w)))"

section \<open>Decimal numbers\<close>

definition digit_char :: "nat \<Rightarrow> char" where
  "digit_char d = char_of (48 + d)"

fun show_nat :: "nat \<Rightarrow> string" where
  "show_nat n = (if n < 10 then [digit_char n] else show_nat (n div 10) @ [digit_char (n mod 10)])"

declare show_nat.simps [simp del]

definition canonical :: "string \<Rightarrow> bool" where
  "canonical s \<longleftrightarrow> s \<noteq> [] \<and> list_all is_digit s \<and> (1 < length s \<longrightarrow> hd s \<noteq> CHR ''0'')"

lemma is_digit_iff: "is_digit c \<longleftrightarrow> 48 \<le> (of_char c :: nat) \<and> (of_char c :: nat) \<le> 57"
  by (simp add: is_digit_def char_between_def less_eq_char_def)

lemma digit_char_props: "d < 10 \<Longrightarrow> is_digit (digit_char d) \<and> digit_value (digit_char d) = d"
  by (simp add: is_digit_iff digit_char_def digit_value_def)

lemma digit_char_value:
  assumes "is_digit c"
  shows "digit_char (digit_value c) = c \<and> digit_value c < 10"
proof
  have c: "48 \<le> (of_char c :: nat)" "(of_char c :: nat) \<le> 57" using assms by (simp_all add: is_digit_iff)
  then have "48 + (of_char c - 48) = (of_char c :: nat)" by arith
  then show "digit_char (digit_value c) = c" by (simp add: digit_char_def digit_value_def)
  show "digit_value c < 10" using c unfolding digit_value_def by simp
qed

lemma digit_value_0: "is_digit c \<Longrightarrow> digit_value c = 0 \<longleftrightarrow> c = CHR ''0''"
proof -
  assume c: "is_digit c"
  have "digit_char 0 = CHR ''0''" "digit_value CHR ''0'' = 0" by code_simp+
  then show ?thesis using digit_char_value [OF c] by metis
qed

lemma digits_value_simps [simp]:
  "digits_value [] = 0" "digits_value [c] = digit_value c"
  "digits_value (s @ [c]) = 10 * digits_value s + digit_value c"
  by (simp_all add: digits_value_def)

lemma canonical_snoc: "canonical (s @ [c]) \<longleftrightarrow> is_digit c \<and> (s = [] \<or> canonical s \<and> hd s \<noteq> CHR ''0'')"
  by (cases s) (auto simp: canonical_def)

lemma canonical_pos: "canonical s \<Longrightarrow> hd s \<noteq> CHR ''0'' \<Longrightarrow> 0 < digits_value s"
proof (induction s rule: rev_induct)
  case (snoc c s)
  then have c: "is_digit c" by (simp add: canonical_snoc)
  show ?case
  proof (cases "s = []")
    case True
    then show ?thesis using digit_value_0 [OF c] snoc.prems(2) by simp
  next
    case False
    then show ?thesis using snoc by (simp add: canonical_snoc)
  qed
qed (simp add: canonical_def)

lemma show_digits: "canonical s \<Longrightarrow> show_nat (digits_value s) = s"
proof (induction s rule: rev_induct)
  case (snoc c s)
  then have c: "is_digit c" by (simp add: canonical_snoc)
  note d = digit_char_value [OF c]
  show ?case
  proof (cases "s = []")
    case True
    then show ?thesis using d by (simp add: show_nat.simps)
  next
    case False
    then have s: "canonical s" "hd s \<noteq> CHR ''0''" using snoc.prems by (auto simp: canonical_snoc)
    let ?n = "10 * digits_value s + digit_value c"
    have "\<not> ?n < 10" "?n div 10 = digits_value s" "?n mod 10 = digit_value c"
      using canonical_pos [OF s] d by auto
    then show ?thesis using d snoc.IH [OF s(1)] by (simp add: show_nat.simps [of ?n])
  qed
qed (simp add: canonical_def)

lemma digits_show: "canonical (show_nat n) \<and> digits_value (show_nat n) = n \<and> (0 < n \<longrightarrow> hd (show_nat n) \<noteq> CHR ''0'')"
proof (induction n rule: show_nat.induct)
  case (1 n)
  show ?case
  proof (cases "n < 10")
    case True
    then have "show_nat n = [digit_char n]" by (simp add: show_nat.simps)
    then show ?thesis using digit_char_props [OF True] digit_value_0 [of "digit_char n"]
      by (auto simp: canonical_def)
  next
    case False
    then have s: "show_nat n = show_nat (n div 10) @ [digit_char (n mod 10)]" by (simp add: show_nat.simps [of n])
    have "show_nat (n div 10) \<noteq> []" using 1 [OF False] by (auto simp: canonical_def)
    then show ?thesis
      using 1 [OF False] digit_char_props [of "n mod 10"] False unfolding s by (simp add: canonical_snoc)
  qed
qed

section \<open>The order\<close>

datatype ident = Number int | Text string

instantiation ident :: linorder
begin

definition less_eq_ident :: "ident \<Rightarrow> ident \<Rightarrow> bool" where
  "i \<le> j \<longleftrightarrow>
     (case (i, j) of
        (Number m, Number n) \<Rightarrow> m \<le> n
      | (Number _, Text _) \<Rightarrow> True
      | (Text _, Number _) \<Rightarrow> False
      | (Text s, Text t) \<Rightarrow> s \<le> t)"

definition less_ident :: "ident \<Rightarrow> ident \<Rightarrow> bool" where
  "(i :: ident) < j \<longleftrightarrow> i \<le> j \<and> \<not> j \<le> i"

instance
  by intro_classes (auto simp: less_eq_ident_def less_ident_def split: ident.splits)

end

lemma less_ident_simps [simp]:
  "Number m < Number n \<longleftrightarrow> m < n" "Number m < Text t" "\<not> Text s < Number n" "Text s < Text t \<longleftrightarrow> s < t"
  by (auto simp: less_ident_def less_eq_ident_def)

text \<open>A number has one text, so an identifier is known from its meaning.\<close>

definition ident_of :: "string \<Rightarrow> ident" where
  "ident_of v = (case parseNumericIdentifier v of (_, n, b) \<Rightarrow> if b then Number n else Text v)"

lemma Atoi_digits: "list_all is_digit v \<Longrightarrow> v \<noteq> [] \<Longrightarrow>
    Atoi v = (if digits_value v < 2 ^ 63 then Some (int (digits_value v)) else None)"
proof -
  assume v: "list_all is_digit v" "v \<noteq> []"
  have "is_digit (hd v)" using v by (cases v) auto
  then have "hd v \<noteq> CHR ''-''" "hd v \<noteq> CHR ''+''" by (auto simp: is_digit_iff)
  moreover have "int n < 2 ^ 63 \<longleftrightarrow> n < 2 ^ 63" for n by simp
  ultimately show ?thesis using v by (simp add: Atoi_def Let_def)
qed

lemma ident_of_cases:
  "ident_of v = (if canonical v \<and> digits_value v < 2 ^ 63 then Number (int (digits_value v)) else Text v)"
proof (cases "v = []")
  case True
  then show ?thesis by (simp add: ident_of_def parseNumericIdentifier_def canonical_def Atoi_def)
next
  case False
  then show ?thesis using Atoi_digits [of v] by (simp add: ident_of_def parseNumericIdentifier_def canonical_def)
qed

lemma ident_of_inj [simp]: "ident_of v = ident_of w \<longleftrightarrow> v = w"
  by (auto simp: ident_of_cases split: if_splits dest: show_digits) (metis show_digits)

lemma map_ident_of [simp]: "map ident_of a = map ident_of b \<longleftrightarrow> a = b"
  by (intro inj_map_eq_map injI) simp

instantiation version :: linorder
begin

definition less_eq_version :: "version \<Rightarrow> version \<Rightarrow> bool" where
  "v \<le> w \<longleftrightarrow>
     major v < major w \<or> major v = major w \<and>
      (minor v < minor w \<or> minor v = minor w \<and>
        (patch v < patch w \<or> patch v = patch w \<and>
          (prerelease w = [] \<or> prerelease v \<noteq> [] \<and> map ident_of (prerelease v) \<le> map ident_of (prerelease w))))"

definition less_version :: "version \<Rightarrow> version \<Rightarrow> bool" where
  "(v :: version) < w \<longleftrightarrow> v \<le> w \<and> \<not> w \<le> v"

instance
proof
  fix u v w :: version
  show "v < w \<longleftrightarrow> v \<le> w \<and> \<not> w \<le> v" by (rule less_version_def)
  show "v \<le> v" by (simp add: less_eq_version_def)
  show "u \<le> v \<Longrightarrow> v \<le> w \<Longrightarrow> u \<le> w" unfolding less_eq_version_def by (auto intro: order_trans)
  show "v \<le> w \<Longrightarrow> w \<le> v \<Longrightarrow> v = w" unfolding less_eq_version_def by (intro version.expand) auto
  show "v \<le> w \<or> w \<le> v" unfolding less_eq_version_def by auto
qed

end

lemma compare_identifiers_order:
  "compare_identifiers a b = (if map ident_of a < map ident_of b then - 1 else if a = b then 0 else 1)"
proof (induction a arbitrary: b)
  case Nil
  then show ?case by (cases b) auto
next
  case (Cons x a)
  note IH = Cons.IH
  show ?case
  proof (cases b)
    case Nil
    then show ?thesis by simp
  next
    case (Cons y c)
    obtain u m p where x: "parseNumericIdentifier x = (u, m, p)" by (cases "parseNumericIdentifier x")
    obtain v n q where y: "parseNumericIdentifier y = (v, n, q)" by (cases "parseNumericIdentifier y")
    have u: "u = x" "v = y" using x y by (auto simp: parseNumericIdentifier_def split: if_splits option.splits)
    have i: "ident_of x = (if p then Number m else Text x)" "ident_of y = (if q then Number n else Text y)"
      by (simp_all add: ident_of_def x y)
    show ?thesis
      using IH [of c] ident_of_inj [of x y] unfolding i u Cons by (auto simp: x y u i split: if_splits)
  qed
qed

section \<open>The texts of a version\<close>

definition wf_version :: "version \<Rightarrow> bool" where
  "wf_version v \<longleftrightarrow>
     0 \<le> major v \<and> major v < 2 ^ 63 \<and> 0 \<le> minor v \<and> minor v < 2 ^ 63 \<and> 0 \<le> patch v \<and> patch v < 2 ^ 63 \<and>
     list_all isValidSemVerIdentifier (prerelease v)"

definition print_version :: "version \<Rightarrow> string" where
  "print_version v =
     join_on CHR ''.'' [show_nat (nat (major v)), show_nat (nat (minor v)), show_nat (nat (patch v))] @
     (if prerelease v = [] then [] else CHR ''-'' # join_on CHR ''.'' (prerelease v))"

lemma cut_at_free: "c \<notin> set a \<Longrightarrow> cut_at c a = (a, None)" "c \<notin> set a \<Longrightarrow> cut_at c (a @ c # b) = (a, Some b)"
  by (induction a) auto

lemma cut_at_iff:
  "cut_at c s = (a, None) \<longleftrightarrow> c \<notin> set s \<and> a = s"
  "cut_at c s = (a, Some b) \<longleftrightarrow> c \<notin> set a \<and> s = a @ c # b"
proof -
  have "cut_at c s = (a, None) \<Longrightarrow> c \<notin> set s \<and> a = s" "cut_at c s = (a, Some b) \<Longrightarrow> c \<notin> set a \<and> s = a @ c # b"
    by (induction s arbitrary: a) (auto split: if_splits prod.splits)
  then show "cut_at c s = (a, None) \<longleftrightarrow> c \<notin> set s \<and> a = s" "cut_at c s = (a, Some b) \<longleftrightarrow> c \<notin> set a \<and> s = a @ c # b"
    using cut_at_free by metis+
qed

lemma cut_unique: "(c :: char) \<notin> set a \<Longrightarrow> c \<notin> set a' \<Longrightarrow> a @ c # b = a' @ c # b' \<longleftrightarrow> a = a' \<and> b = b'"
  by (metis cut_at_free(2) Pair_inject option.inject)

lemma is_digit_not: "is_digit c \<Longrightarrow> c \<noteq> CHR ''+'' \<and> c \<noteq> CHR ''-'' \<and> c \<noteq> CHR ''.''"
  by (auto simp: is_digit_iff)

lemma show_nat_chars: "c \<in> {CHR ''+'', CHR ''-'', CHR ''.''} \<Longrightarrow> c \<notin> set (show_nat n)"
  using digits_show [of n] is_digit_not [of c] by (auto simp: canonical_def list_all_iff)

lemma parse_number:
  assumes "CHR ''+'' \<notin> set p" "CHR ''-'' \<notin> set p"
  shows "parseSemVerNumber p = Some n \<longleftrightarrow> 0 \<le> n \<and> n < 2 ^ 63 \<and> p = show_nat (nat n)"
proof (cases "canonical p")
  case True
  then show ?thesis
    using Atoi_digits [of p] show_digits [OF True] digits_show [of "nat n"]
    by (auto simp: parseSemVerNumber_def canonical_def)
next
  case False
  have "hd p \<noteq> CHR ''-'' \<and> hd p \<noteq> CHR ''+''" if "p \<noteq> []" using assms that by (cases p) auto
  then have "parseSemVerNumber p = None" using False by (auto simp: parseSemVerNumber_def Atoi_def canonical_def)
  then show ?thesis using False digits_show [of "nat n"] by auto
qed

lemma identifier_chars: "isValidSemVerIdentifier v \<Longrightarrow> CHR ''.'' \<notin> set v \<and> CHR ''+'' \<notin> set v"
  by (auto simp: isValidSemVerIdentifier_def is_digit_def char_between_def list_all_iff less_eq_char_def)

lemma join_chars: "c \<in> set (join_on s ps) \<longleftrightarrow> (\<exists>p \<in> set ps. c \<in> set p) \<or> c = s \<and> 1 < length ps"
  by (induction s ps rule: join_on.induct) auto

lemma identifiers_join:
  assumes "list_all isValidSemVerIdentifier ps" "ps \<noteq> []"
  shows "split_on CHR ''.'' (join_on CHR ''.'' ps) = ps" and "join_on CHR ''.'' ps \<noteq> []"
proof -
  show "split_on CHR ''.'' (join_on CHR ''.'' ps) = ps"
    using assms identifier_chars by (intro split_join) (auto simp: list_all_iff)
  show "join_on CHR ''.'' ps \<noteq> []"
    using assms by (cases ps; cases "tl ps") (auto simp: isValidSemVerIdentifier_def)
qed

lemma validate_iff: "validateSemVerIdentifiers b \<longleftrightarrow> (\<exists>ps. ps \<noteq> [] \<and> list_all isValidSemVerIdentifier ps \<and> b = join_on CHR ''.'' ps)"
proof
  assume "validateSemVerIdentifiers b"
  then show "\<exists>ps. ps \<noteq> [] \<and> list_all isValidSemVerIdentifier ps \<and> b = join_on CHR ''.'' ps"
    by (intro exI [of _ "split_on CHR ''.'' b"]) (simp add: validateSemVerIdentifiers_def join_split)
qed (auto simp: validateSemVerIdentifiers_def identifiers_join)

lemma split_three:
  "split_on s xs = [a, b, c] \<longleftrightarrow> s \<notin> set a \<and> s \<notin> set b \<and> s \<notin> set c \<and> xs = a @ s # b @ s # c"
proof
  assume "split_on s xs = [a, b, c]"
  then show "s \<notin> set a \<and> s \<notin> set b \<and> s \<notin> set c \<and> xs = a @ s # b @ s # c"
    using split_on_sep_free [of _ s xs] join_split [of s xs] by simp
qed (auto simp: split_on_append_sep split_on_free)

definition core_text :: "version \<Rightarrow> string" where
  "core_text v = show_nat (nat (major v)) @ CHR ''.'' # show_nat (nat (minor v)) @ CHR ''.'' # show_nat (nat (patch v))"

lemma core_text_chars: "CHR ''+'' \<notin> set (core_text v)" "CHR ''-'' \<notin> set (core_text v)"
  by (simp_all add: core_text_def show_nat_chars)

lemma print_core: "print_version v = core_text v @ (if prerelease v = [] then [] else CHR ''-'' # join_on CHR ''.'' (prerelease v))"
  by (simp add: print_version_def core_text_def)

lemma parse_core:
  assumes "CHR ''+'' \<notin> set core" "CHR ''-'' \<notin> set core"
  shows "split_on CHR ''.'' core = [p0, p1, p2] \<and> parseSemVerNumber p0 = Some a \<and> parseSemVerNumber p1 = Some b \<and> parseSemVerNumber p2 = Some c
    \<longleftrightarrow> wf_version (Version a b c []) \<and> core = core_text (Version a b c []) \<and>
        p0 = show_nat (nat a) \<and> p1 = show_nat (nat b) \<and> p2 = show_nat (nat c)"
proof
  assume l: "split_on CHR ''.'' core = [p0, p1, p2] \<and> parseSemVerNumber p0 = Some a \<and> parseSemVerNumber p1 = Some b \<and> parseSemVerNumber p2 = Some c"
  then have c: "core = p0 @ CHR ''.'' # p1 @ CHR ''.'' # p2" by (simp add: split_three)
  then have "CHR ''+'' \<notin> set p0 \<and> CHR ''-'' \<notin> set p0 \<and> CHR ''+'' \<notin> set p1 \<and> CHR ''-'' \<notin> set p1 \<and> CHR ''+'' \<notin> set p2 \<and> CHR ''-'' \<notin> set p2"
    using assms by auto
  then show "wf_version (Version a b c []) \<and> core = core_text (Version a b c []) \<and>
      p0 = show_nat (nat a) \<and> p1 = show_nat (nat b) \<and> p2 = show_nat (nat c)"
    using l c by (simp add: parse_number wf_version_def core_text_def)
next
  assume "wf_version (Version a b c []) \<and> core = core_text (Version a b c []) \<and>
      p0 = show_nat (nat a) \<and> p1 = show_nat (nat b) \<and> p2 = show_nat (nat c)"
  then show "split_on CHR ''.'' core = [p0, p1, p2] \<and> parseSemVerNumber p0 = Some a \<and> parseSemVerNumber p1 = Some b \<and> parseSemVerNumber p2 = Some c"
    by (simp add: split_three show_nat_chars parse_number wf_version_def core_text_def)
qed

lemma parse_cut:
  assumes "CHR ''+'' \<notin> set core" "cut_at CHR ''-'' core = (cp, pre)"
  shows "parseSemVer core = Some v \<longleftrightarrow>
    (\<exists>p0 p1 p2. split_on CHR ''.'' cp = [p0, p1, p2] \<and> parseSemVerNumber p0 = Some (major v) \<and>
       parseSemVerNumber p1 = Some (minor v) \<and> parseSemVerNumber p2 = Some (patch v)) \<and>
    (case pre of None \<Rightarrow> prerelease v = []
     | Some p \<Rightarrow> validateSemVerIdentifiers p \<and> prerelease v = split_on CHR ''.'' p)"
  using assms(2) unfolding parseSemVer_def cut_at_free(1) [OF assms(1)]
  by (cases v) (auto split: list.split option.split)

lemma parse_build: "CHR ''+'' \<notin> set core \<Longrightarrow>
    parseSemVer (core @ CHR ''+'' # b) = (if validateSemVerIdentifiers b then parseSemVer core else None)"
  by (simp add: parseSemVer_def cut_at_free)

lemma parse_plain:
  assumes "CHR ''+'' \<notin> set core"
  shows "parseSemVer core = Some v \<longleftrightarrow> wf_version v \<and> core = print_version v"
proof -
  obtain cp pre where c: "cut_at CHR ''-'' core = (cp, pre)" by (cases "cut_at CHR ''-'' core")
  have cp: "CHR ''+'' \<notin> set cp" "CHR ''-'' \<notin> set cp" using c assms by (cases pre; auto simp: cut_at_iff)+
  let ?w = "Version (major v) (minor v) (patch v) []"
  have "parseSemVer core = Some v \<longleftrightarrow> wf_version ?w \<and> cp = core_text ?w \<and>
      (case pre of None \<Rightarrow> prerelease v = [] | Some p \<Rightarrow> validateSemVerIdentifiers p \<and> prerelease v = split_on CHR ''.'' p)"
    unfolding parse_cut [OF assms c] using parse_core [OF cp] by blast
  also have "\<dots> \<longleftrightarrow> wf_version v \<and> core = print_version v"
  proof (cases pre)
    case None
    then have "core = cp" "CHR ''-'' \<notin> set core" using c by (auto simp: cut_at_iff)
    then show ?thesis by (auto simp: None print_core core_text_def wf_version_def split: if_splits)
  next
    case (Some p)
    then have core: "core = cp @ CHR ''-'' # p" using c by (simp add: cut_at_iff)
    have ids: "validateSemVerIdentifiers p \<and> prerelease v = split_on CHR ''.'' p \<longleftrightarrow>
        prerelease v \<noteq> [] \<and> list_all isValidSemVerIdentifier (prerelease v) \<and> p = join_on CHR ''.'' (prerelease v)"
      by (auto simp: validate_iff identifiers_join)
    have cut: "cp @ CHR ''-'' # p = core_text v @ CHR ''-'' # q \<longleftrightarrow> cp = core_text v \<and> p = q" for q
      using cp(2) core_text_chars(2) [of v] by (rule cut_unique)
    have w: "core_text ?w = core_text v" "wf_version v \<longleftrightarrow> wf_version ?w \<and> list_all isValidSemVerIdentifier (prerelease v)"
      by (simp_all add: core_text_def wf_version_def)
    show ?thesis
    proof (cases "prerelease v = []")
      case True
      have "CHR ''-'' \<in> set core" by (simp add: core)
      then have "core \<noteq> core_text v" using core_text_chars(2) [of v] by blast
      then show ?thesis using True by (simp add: Some print_core split_on_not_Nil [symmetric])
    next
      case False
      then have "core = print_version v \<longleftrightarrow> cp = core_text v \<and> p = join_on CHR ''.'' (prerelease v)"
        by (simp add: core print_core cut)
      then show ?thesis using False by (simp only: Some option.case ids w) blast
    qed
  qed
  finally show ?thesis .
qed

lemma print_plain: "wf_version v \<Longrightarrow> CHR ''+'' \<notin> set (print_version v)"
  using core_text_chars(1) [of v] identifier_chars by (auto simp: print_core join_chars wf_version_def list_all_iff)

section \<open>Properties\<close>

text \<open>
  C21: The texts that the parser takes for a version are exactly those of the printer, with or without
  build identifiers after a \<open>+\<close>, of the versions whose numbers are below \<open>2 ^ 63\<close> and whose identifiers
  are valid; so a version keeps its numbers within a Go \<open>int\<close>, and two texts are read as the same version
  only when they differ in the build.
\<close>

theorem semver_texts_exact:
  "parseSemVer s = Some v \<longleftrightarrow>
     wf_version v \<and> (s = print_version v \<or> (\<exists>b. validateSemVerIdentifiers b \<and> s = print_version v @ CHR ''+'' # b))"
proof (cases "CHR ''+'' \<in> set s")
  case True
  then obtain core b where s: "s = core @ CHR ''+'' # b" "CHR ''+'' \<notin> set core" by (blast dest: split_list_first)
  have l: "parseSemVer s = Some v \<longleftrightarrow> validateSemVerIdentifiers b \<and> wf_version v \<and> core = print_version v"
    by (simp add: s parse_build parse_plain)
  show ?thesis
  proof (cases "wf_version v")
    case True
    have "core @ CHR ''+'' # b = print_version v @ CHR ''+'' # b' \<longleftrightarrow> core = print_version v \<and> b = b'" for b'
      using s(2) print_plain [OF True] by (rule cut_unique)
    moreover have "s \<noteq> print_version v" using \<open>CHR ''+'' \<in> set s\<close> print_plain [OF True] by blast
    ultimately show ?thesis unfolding l by (auto simp: True s(1))
  qed (simp add: l)
next
  case False
  then show ?thesis by (auto simp: parse_plain)
qed

text \<open>
  C18: Comparing the texts of two versions is comparing the versions in a linear order: by the three numbers,
  then a release after its prereleases, then the identifiers one by one, a number before a text; the result
  is zero only for equal versions.  A text that is no version is compared byte by byte.
\<close>

theorem semver_order_exact:
  "compareSemVer a b =
     (case (parseSemVer a, parseSemVer b) of
        (Some v, Some w) \<Rightarrow> if v < w then - 1 else if v = w then 0 else 1
      | _ \<Rightarrow> if a < b then - 1 else if a = b then 0 else 1)"
proof (cases "parseSemVer a = None \<or> parseSemVer b = None")
  case True
  then show ?thesis by (auto simp: compareSemVer_def strings_Compare_def split: option.splits)
next
  case False
  then obtain v w where p: "parseSemVer a = Some v" "parseSemVer b = Some w" by auto
  show ?thesis
    by (cases v; cases w) (auto simp: p compareSemVer_def comparePrerelease_def compare_identifiers_order less_version_def less_eq_version_def)
qed

end
