(* ===== verification/FileStore.thy ===== *)
theory FileStore
  imports Prelude "HOL-Library.AList"
begin

text \<open>
  \<open>pkg/store/depotstore\<close>: the file operations the firmware service uses, on the directory tree of the
  operating system, which is a tree here.  A path is its segments after cleaning.  A call of the operating
  system may also fail by itself, when the next entry of \<open>faults\<close> is true; it then changes nothing.
  \<open>file_at\<close> sees such a tree as its files; each operation is also described by what it does to them.
\<close>

section \<open>Paths\<close>

text \<open>\<open>path.Clean\<close>: one step over a segment, the segments so far being clean.\<close>

definition clean_step :: "bool \<Rightarrow> string list \<Rightarrow> string \<Rightarrow> string list" where
  "clean_step rooted out seg =
     (if seg = [] \<or> seg = ''.'' then out
      else if seg = ''..'' then
        (if out \<noteq> [] \<and> last out \<noteq> ''..'' then butlast out else if rooted then out else out @ [seg])
      else out @ [seg])"

definition path_Clean :: "string \<Rightarrow> string" where
  "path_Clean p =
     (let rooted = (p \<noteq> [] \<and> hd p = CHR ''/'');
          out = foldl (clean_step rooted) [] (split_on CHR ''/'' p)
      in if rooted then CHR ''/'' # join_on CHR ''/'' out
         else if out = [] then ''.'' else join_on CHR ''/'' out)"

definition path_Join :: "string list \<Rightarrow> string" where
  "path_Join ps =
     (let qs = filter (\<lambda>p. p \<noteq> []) ps in if qs = [] then [] else path_Clean (join_on CHR ''/'' qs))"

section \<open>The tree of files\<close>

datatype node = FileNode "byte list" | DirNode "(string \<times> node) list"

datatype fs_error = NotExist | OtherError

fun node_at :: "node \<Rightarrow> string list \<Rightarrow> fs_error + node" where
  "node_at n [] = Inr n"
| "node_at (FileNode _) (x # p) = Inl OtherError"
| "node_at (DirNode ns) (x # p) = (case map_of ns x of None \<Rightarrow> Inl NotExist | Some n \<Rightarrow> node_at n p)"

text \<open>The tree with another node at a path, or none; the path up to its last segment exists.\<close>

fun put_at :: "node option \<Rightarrow> node \<Rightarrow> string list \<Rightarrow> node" where
  "put_at v n [] = (case v of None \<Rightarrow> n | Some m \<Rightarrow> m)"
| "put_at v (FileNode d) (x # p) = FileNode d"
| "put_at v (DirNode ns) (x # p) =
     (if p = [] then DirNode (case v of None \<Rightarrow> AList.delete x ns | Some m \<Rightarrow> AList.update x m ns)
      else case map_of ns x of
          None \<Rightarrow> DirNode ns
        | Some n \<Rightarrow> DirNode (AList.update x (put_at v n p) ns))"

fun make_dirs :: "node \<Rightarrow> string list \<Rightarrow> node option" where
  "make_dirs (FileNode _) p = None"
| "make_dirs (DirNode ns) [] = Some (DirNode ns)"
| "make_dirs (DirNode ns) (x # p) =
     (case make_dirs (case map_of ns x of None \<Rightarrow> DirNode [] | Some n \<Rightarrow> n) p of
        None \<Rightarrow> None
      | Some n \<Rightarrow> Some (DirNode (AList.update x n ns)))"

text \<open>The directory \<open>Dir\<close>, the file system it is in, and whether the next calls fail by themselves.\<close>

record filesys =
  fsroot :: "string list"
  fsnode :: node
  faults :: "bool list"

definition trim_dot :: "string \<Rightarrow> string" where
  "trim_dot name = (if take 2 name = ''./'' then drop 2 name else name)"

definition fs_abs :: "filesys \<Rightarrow> string \<Rightarrow> string list" where
  "fs_abs s name =
     (if name = ''.'' \<or> name = [] then fsroot s
      else foldl (clean_step True) (fsroot s) (split_on CHR ''/'' (trim_dot name)))"

definition faulty :: "filesys \<Rightarrow> bool \<times> filesys" where
  "faulty s = (case faults s of [] \<Rightarrow> (False, s) | f # fs \<Rightarrow> (f, s\<lparr>faults := fs\<rparr>))"

section \<open>The operating system\<close>

definition os_stat :: "filesys \<Rightarrow> string list \<Rightarrow> (fs_error + node) \<times> filesys" where
  "os_stat s0 p = (case faulty s0 of (f, s) \<Rightarrow> (if f then Inl OtherError else node_at (fsnode s) p, s))"

definition os_MkdirAll :: "filesys \<Rightarrow> string list \<Rightarrow> fs_error option \<times> filesys" where
  "os_MkdirAll s0 p =
     (case faulty s0 of (f, s) \<Rightarrow>
        if f then (Some OtherError, s)
        else case make_dirs (fsnode s) p of
            None \<Rightarrow> (Some OtherError, s)
          | Some n \<Rightarrow> (None, s\<lparr>fsnode := n\<rparr>))"

text \<open>Whether an entry may be made at a path: the directory it is in exists.\<close>

definition parent_error :: "node \<Rightarrow> string list \<Rightarrow> fs_error option" where
  "parent_error n p =
     (case node_at n (butlast p) of
        Inl e \<Rightarrow> Some e
      | Inr (FileNode _) \<Rightarrow> Some OtherError
      | Inr (DirNode _) \<Rightarrow> None)"

definition os_WriteFile :: "filesys \<Rightarrow> string list \<Rightarrow> byte list \<Rightarrow> fs_error option \<times> filesys" where
  "os_WriteFile s0 p data =
     (case faulty s0 of (f, s) \<Rightarrow>
        if f \<or> p = [] then (Some OtherError, s)
        else case parent_error (fsnode s) p of
            Some e \<Rightarrow> (Some e, s)
          | None \<Rightarrow>
              (case node_at (fsnode s) p of
                 Inr (DirNode _) \<Rightarrow> (Some OtherError, s)
               | _ \<Rightarrow> (None, s\<lparr>fsnode := put_at (Some (FileNode data)) (fsnode s) p\<rparr>)))"

definition os_RemoveAll :: "filesys \<Rightarrow> string list \<Rightarrow> fs_error option \<times> filesys" where
  "os_RemoveAll s0 p =
     (case faulty s0 of (f, s) \<Rightarrow>
        if f \<or> p = [] then (Some OtherError, s)
        else case node_at (fsnode s) p of
            Inl NotExist \<Rightarrow> (None, s)
          | Inl OtherError \<Rightarrow> (Some OtherError, s)
          | Inr _ \<Rightarrow> (None, s\<lparr>fsnode := put_at None (fsnode s) p\<rparr>))"

text \<open>
  \<open>os.Rename\<close> refuses a target that is a directory, even an empty one, before it calls \<open>rename(2)\<close>; a file
  may replace a file.
\<close>

definition replaceable :: "node \<Rightarrow> fs_error + node \<Rightarrow> fs_error option" where
  "replaceable n target =
     (case target of
        Inl NotExist \<Rightarrow> None
      | Inl OtherError \<Rightarrow> Some OtherError
      | Inr (FileNode _) \<Rightarrow> (case n of FileNode _ \<Rightarrow> None | DirNode _ \<Rightarrow> Some OtherError)
      | Inr (DirNode _) \<Rightarrow> Some OtherError)"

definition os_Rename :: "filesys \<Rightarrow> string list \<Rightarrow> string list \<Rightarrow> fs_error option \<times> filesys" where
  "os_Rename s0 p q =
     (case faulty s0 of (f, s) \<Rightarrow>
        if f then (Some OtherError, s)
        else case node_at (fsnode s) p of
            Inl e \<Rightarrow> (Some e, s)
          | Inr n \<Rightarrow>
              if p = q then (replaceable n (Inr n), s)
              else if take (length p) q = p then (Some OtherError, s)
              else (case parent_error (fsnode s) q of
                  Some e \<Rightarrow> (Some e, s)
                | None \<Rightarrow>
                    (case replaceable n (node_at (fsnode s) q) of
                       Some e \<Rightarrow> (Some e, s)
                     | None \<Rightarrow> (None, s\<lparr>fsnode := put_at (Some n) (put_at None (fsnode s) p) q\<rparr>))))"

section \<open>The store of depots\<close>

definition fs_ReadFile :: "filesys \<Rightarrow> string \<Rightarrow> (fs_error + byte list) \<times> filesys" where
  "fs_ReadFile s name =
     (case os_stat s (fs_abs s name) of
        (Inl e, s1) \<Rightarrow> (Inl e, s1)
      | (Inr (DirNode _), s1) \<Rightarrow> (Inl OtherError, s1)
      | (Inr (FileNode d), s1) \<Rightarrow> (Inr d, s1))"

definition fs_Open :: "filesys \<Rightarrow> string \<Rightarrow> (fs_error + node) \<times> filesys" where
  "fs_Open s name = os_stat s (fs_abs s name)"

definition fs_Stat :: "filesys \<Rightarrow> string \<Rightarrow> (fs_error + node) \<times> filesys" where
  "fs_Stat s name = os_stat s (fs_abs s name)"

definition fs_MkdirAll :: "filesys \<Rightarrow> string \<Rightarrow> fs_error option \<times> filesys" where
  "fs_MkdirAll s name = os_MkdirAll s (fs_abs s name)"

definition fs_WriteFile :: "filesys \<Rightarrow> string \<Rightarrow> byte list \<Rightarrow> fs_error option \<times> filesys" where
  "fs_WriteFile s name data =
     (let full = fs_abs s name in
      case os_MkdirAll s (butlast full) of
        (Some e, s1) \<Rightarrow> (Some e, s1)
      | (None, s1) \<Rightarrow> os_WriteFile s1 full data)"

definition fs_Rename :: "filesys \<Rightarrow> string \<Rightarrow> string \<Rightarrow> fs_error option \<times> filesys" where
  "fs_Rename s oldName newName =
     (let oldPath = fs_abs s oldName; newPath = fs_abs s newName in
      case os_MkdirAll s (butlast newPath) of
        (Some e, s1) \<Rightarrow> (Some e, s1)
      | (None, s1) \<Rightarrow> os_Rename s1 oldPath newPath)"

definition fs_RemoveAll :: "filesys \<Rightarrow> string \<Rightarrow> fs_error option \<times> filesys" where
  "fs_RemoveAll s name = os_RemoveAll s (fs_abs s name)"

section \<open>Paths of proper segments\<close>

definition proper :: "string list \<Rightarrow> bool" where
  "proper ps \<longleftrightarrow> (\<forall>p \<in> set ps. p \<noteq> [] \<and> p \<noteq> ''.'' \<and> p \<noteq> ''..'' \<and> CHR ''/'' \<notin> set p)"

lemma proper_simps [simp]:
  "proper []" "proper (p # ps) \<longleftrightarrow> p \<noteq> [] \<and> p \<noteq> ''.'' \<and> p \<noteq> ''..'' \<and> CHR ''/'' \<notin> set p \<and> proper ps"
  "proper (ps @ qs) \<longleftrightarrow> proper ps \<and> proper qs"
  by (auto simp: proper_def)

lemma clean_proper: "proper ps \<Longrightarrow> foldl (clean_step rooted) out ps = out @ ps"
  by (induction ps arbitrary: out) (auto simp: clean_step_def)

lemma split_proper: "proper ps \<Longrightarrow> ps \<noteq> [] \<Longrightarrow> split_on CHR ''/'' (join_on CHR ''/'' ps) = ps"
  by (rule split_join) (auto simp: proper_def)

lemma join_proper: "proper ps \<Longrightarrow> ps \<noteq> [] \<Longrightarrow> join_on CHR ''/'' ps \<noteq> [] \<and> hd (join_on CHR ''/'' ps) \<noteq> CHR ''/''"
  by (cases ps; cases "tl ps"; cases "hd ps") auto

lemma Clean_proper: "proper ps \<Longrightarrow> ps \<noteq> [] \<Longrightarrow> path_Clean (join_on CHR ''/'' ps) = join_on CHR ''/'' ps"
  using join_proper [of ps] by (simp add: path_Clean_def Let_def split_proper clean_proper)

lemma Join_proper:
  assumes "proper ps" "ps \<noteq> []" "proper qs" "qs \<noteq> []"
  shows "path_Join [join_on CHR ''/'' ps, join_on CHR ''/'' qs] = join_on CHR ''/'' (ps @ qs)"
  using assms join_proper [of ps] join_proper [of qs] Clean_proper [of "ps @ qs"]
  by (simp add: path_Join_def join_on_append)

lemma join_no_dot:
  assumes "proper ps" "ps \<noteq> []"
  shows "take 2 (join_on CHR ''/'' ps) \<noteq> ''./''" and "join_on CHR ''/'' ps \<noteq> ''.''"
proof -
  obtain p qs where p: "ps = p # qs" using assms(2) by (cases ps) auto
  define r where "r = (if qs = [] then [] else CHR ''/'' # join_on CHR ''/'' qs)"
  have j: "join_on CHR ''/'' ps = p @ r" by (cases qs) (auto simp: p r_def)
  have "p \<noteq> []" "p \<noteq> ''.''" "CHR ''/'' \<notin> set p" using assms(1) by (auto simp: p)
  then show "take 2 (join_on CHR ''/'' ps) \<noteq> ''./''" "join_on CHR ''/'' ps \<noteq> ''.''"
    unfolding j by (cases p; cases "tl p"; auto)+
qed

lemma abs_proper: "proper ps \<Longrightarrow> ps \<noteq> [] \<Longrightarrow> fs_abs f (join_on CHR ''/'' ps) = fsroot f @ ps"
  using join_no_dot [of ps] join_proper [of ps] by (simp add: fs_abs_def trim_dot_def split_proper clean_proper)

section \<open>Trees\<close>

lemma node_at_append: "node_at n (p @ q) = (case node_at n p of Inl e \<Rightarrow> Inl e | Inr m \<Rightarrow> node_at m q)"
  by (induction n p rule: node_at.induct) (auto split: option.split)

lemma node_at_put: "node_at n p = Inr m' \<Longrightarrow> node_at (put_at (Some m) n p) p = Inr m"
  by (induction "Some m" n p rule: put_at.induct) (auto simp: AList.update_conv' split: option.splits if_splits)

lemma put_at_put: "node_at n p = Inr m' \<Longrightarrow> put_at (Some m) (put_at (Some k) n p) p = put_at (Some m) n p"
  by (induction "Some k" n p rule: put_at.induct) (auto simp: AList.update_conv' split: option.splits if_splits)

lemma put_at_same: "node_at n p = Inr m \<Longrightarrow> put_at (Some m) n p = n"
  by (induction "Some m" n p rule: put_at.induct) (auto simp: AList.update_triv split: option.splits if_splits)

lemma put_at_snoc:
  "node_at n p = Inr (DirNode ns) \<Longrightarrow>
    put_at v n (p @ [x]) = put_at (Some (DirNode (case v of None \<Rightarrow> AList.delete x ns | Some m \<Rightarrow> AList.update x m ns))) n p"
  by (induction v n p rule: put_at.induct) (auto split: option.splits if_splits)

lemma make_dirs_dir: "node_at n p = Inr (DirNode ns) \<Longrightarrow> make_dirs n p = Some n"
  by (induction n p rule: make_dirs.induct) (auto simp: AList.update_triv split: option.splits elim: node_at.elims)

section \<open>Operations on the entries of a directory\<close>

text \<open>
  The tree is \<open>r\<close> but for the directory at \<open>D\<close>, whose entries are \<open>M\<close>.  Operations on entries then only
  change \<open>M\<close>, or fail and change nothing.
\<close>

definition at_dir :: "filesys \<Rightarrow> string list \<Rightarrow> node \<Rightarrow> (string \<Rightarrow> node option) \<Rightarrow> bool" where
  "at_dir f D r M \<longleftrightarrow> (\<exists>ns m. node_at r D = Inr m \<and> fsnode f = put_at (Some (DirNode ns)) r D \<and> map_of ns = M)"

definition keeps :: "filesys \<Rightarrow> filesys \<Rightarrow> bool" where
  "keeps f f' \<longleftrightarrow> fsroot f' = fsroot f \<and> (faults f = [] \<longrightarrow> faults f' = [])"

lemma keeps_refl [simp]: "keeps f f"
  by (simp add: keeps_def)

lemma keeps_trans: "keeps f g \<Longrightarrow> keeps g h \<Longrightarrow> keeps f h"
  by (simp add: keeps_def)

lemma keeps_root: "keeps f f' \<Longrightarrow> fsroot f' = fsroot f"
  by (simp add: keeps_def)

lemma at_dir_start: "node_at (fsnode f) D = Inr (DirNode ns) \<Longrightarrow> at_dir f D (fsnode f) (map_of ns)"
  unfolding at_dir_def by (intro exI [of _ ns] exI conjI) (auto simp: put_at_same)

lemma at_dir_node: "at_dir f D r M \<Longrightarrow> fsnode f' = fsnode f \<Longrightarrow> at_dir f' D r M"
  by (simp add: at_dir_def)

lemma at_dirE:
  assumes "at_dir f D r M"
  obtains ns where "node_at (fsnode f) D = Inr (DirNode ns)" "map_of ns = M"
    "\<And>f' ns'. fsnode f' = put_at (Some (DirNode ns')) (fsnode f) D \<Longrightarrow> at_dir f' D r (map_of ns')"
  using assms unfolding at_dir_def by (metis node_at_put put_at_put)

lemma at_dir_entry: "at_dir f D r M \<Longrightarrow> node_at (fsnode f) (D @ x # p) = (case M x of None \<Rightarrow> Inl NotExist | Some n \<Rightarrow> node_at n p)"
  by (erule at_dirE) (simp add: node_at_append)

lemma faulty_dir:
  assumes "at_dir f D r M"
  obtains b g where "faulty f = (b, g)" "at_dir g D r M" "keeps f g" "b \<longrightarrow> faults f \<noteq> []"
proof -
  obtain b g where b: "faulty f = (b, g)" by (cases "faulty f")
  then have "keeps f g" "fsnode g = fsnode f" "b \<longrightarrow> faults f \<noteq> []"
    by (auto simp: faulty_def keeps_def split: list.splits)
  then show thesis using that b at_dir_node [OF assms, of g] by blast
qed

lemma stat_entry:
  assumes "at_dir f D r M" "os_stat f (D @ x # p) = (res, f')"
  shows "keeps f f' \<and> at_dir f' D r M \<and>
    (res = Inl OtherError \<and> faults f \<noteq> [] \<or> res = (case M x of None \<Rightarrow> Inl NotExist | Some n \<Rightarrow> node_at n p))"
proof -
  obtain b g where g: "faulty f = (b, g)" "at_dir g D r M" "keeps f g" "b \<longrightarrow> faults f \<noteq> []"
    by (rule faulty_dir [OF assms(1)])
  show ?thesis using assms(2) g at_dir_entry [OF g(2)] by (auto simp: os_stat_def split: if_splits)
qed

lemma remove_entry:
  assumes "at_dir f D r M" "os_RemoveAll f (D @ [x]) = (res, f')"
  shows "keeps f f' \<and> (res = None \<and> at_dir f' D r (M(x := None)) \<or> res \<noteq> None \<and> faults f \<noteq> [] \<and> at_dir f' D r M)"
proof -
  obtain b g where g: "faulty f = (b, g)" "at_dir g D r M" "keeps f g" "b \<longrightarrow> faults f \<noteq> []"
    by (rule faulty_dir [OF assms(1)])
  obtain ns where ns: "node_at (fsnode g) D = Inr (DirNode ns)" "map_of ns = M"
      "\<And>f' ns'. fsnode f' = put_at (Some (DirNode ns')) (fsnode g) D \<Longrightarrow> at_dir f' D r (map_of ns')"
    using g(2) by (rule at_dirE) blast
  have e: "node_at (fsnode g) (D @ [x]) = (case M x of None \<Rightarrow> Inl NotExist | Some n \<Rightarrow> Inr n)"
    using at_dir_entry [OF g(2), of x "[]"] by (simp split: option.split)
  show ?thesis
  proof (cases "b \<or> M x = None")
    case True
    moreover have "M(x := None) = M" if "M x = None" using that by auto
    ultimately show ?thesis using assms(2) g e by (auto simp: os_RemoveAll_def split: if_splits)
  next
    case False
    then have r: "res = None" "f' = g\<lparr>fsnode := put_at None (fsnode g) (D @ [x])\<rparr>"
      using assms(2) e g(1) by (auto simp: os_RemoveAll_def)
    have "at_dir f' D r (map_of (AList.delete x ns))"
      by (rule ns(3)) (simp add: r put_at_snoc [OF ns(1)])
    then show ?thesis using g r by (simp add: AList.delete_conv' ns(2) keeps_def)
  qed
qed

lemma mkdir_existing:
  assumes "node_at (fsnode f) p = Inr (DirNode ns)" "at_dir f D r M" "os_MkdirAll f p = (res, f')"
  shows "keeps f f' \<and> at_dir f' D r M \<and> fsnode f' = fsnode f \<and> (res \<noteq> None \<longrightarrow> faults f \<noteq> [])"
  using assms make_dirs_dir [OF assms(1)]
  by (auto simp: os_MkdirAll_def faulty_def keeps_def at_dir_def split: list.splits if_splits)

lemma rename_entry:
  assumes "at_dir f D r M" "os_Rename f (D @ [x]) (D @ [y]) = (res, f')" "x \<noteq> y"
  shows "keeps f f' \<and>
    ((\<exists>n. res = None \<and> M x = Some n \<and> at_dir f' D r (M(x := None, y := Some n))) \<or>
     res \<noteq> None \<and> at_dir f' D r M \<and> (faults f \<noteq> [] \<or> M x = None \<or> M y \<noteq> None) \<and> (res = Some NotExist \<longrightarrow> M x = None))"
proof -
  obtain b g where g: "faulty f = (b, g)" "at_dir g D r M" "keeps f g" "b \<longrightarrow> faults f \<noteq> []"
    by (rule faulty_dir [OF assms(1)])
  obtain ns where ns: "node_at (fsnode g) D = Inr (DirNode ns)" "map_of ns = M"
      "\<And>f' ns'. fsnode f' = put_at (Some (DirNode ns')) (fsnode g) D \<Longrightarrow> at_dir f' D r (map_of ns')"
    using g(2) by (rule at_dirE) blast
  have e: "node_at (fsnode g) (D @ [z]) = (case M z of None \<Rightarrow> Inl NotExist | Some n \<Rightarrow> Inr n)" for z
    using at_dir_entry [OF g(2), of z "[]"] by (simp split: option.split)
  have p: "parent_error (fsnode g) (D @ [y]) = None" by (simp add: parent_error_def ns(1))
  have take: "take (length (D @ [x])) (D @ [y]) \<noteq> D @ [x]" using assms(3) by simp
  show ?thesis
  proof (cases "b \<or> M x = None \<or> replaceable (the (M x)) (node_at (fsnode g) (D @ [y])) \<noteq> None")
    case True
    then show ?thesis
      using assms(2,3) g e p take
      by (auto simp: os_Rename_def replaceable_def split: if_splits option.splits sum.splits node.splits)
  next
    case False
    then obtain n where n: "M x = Some n" "replaceable n (node_at (fsnode g) (D @ [y])) = None" by auto
    let ?t = "put_at (Some (DirNode (AList.delete x ns))) (fsnode g) D"
    have r: "res = None" "f' = g\<lparr>fsnode := put_at (Some n) (put_at None (fsnode g) (D @ [x])) (D @ [y])\<rparr>"
      using assms(2,3) False n e g(1) p take by (auto simp: os_Rename_def)
    have "fsnode f' = put_at (Some (DirNode (AList.update y n (AList.delete x ns)))) (fsnode g) D"
      using put_at_snoc [OF node_at_put [OF ns(1)], of "Some n" "AList.delete x ns" y]
      by (simp add: r put_at_snoc [OF ns(1)] put_at_put [OF ns(1)])
    then have "at_dir f' D r (map_of (AList.update y n (AList.delete x ns)))" by (rule ns(3))
    then show ?thesis using g r n by (simp add: AList.delete_conv' AList.update_conv' ns(2) keeps_def)
  qed
qed

lemma write_entry:
  assumes "at_dir f D r M" "M c = Some (DirNode cs)"
    and "(case os_MkdirAll f (D @ [c]) of (Some e, f1) \<Rightarrow> (Some e, f1) | (None, f1) \<Rightarrow> os_WriteFile f1 (D @ [c, m]) data) = (res, f')"
  shows "keeps f f' \<and>
    (res = None \<and> at_dir f' D r (M(c \<mapsto> DirNode (AList.update m (FileNode data) cs))) \<or> res \<noteq> None \<and> at_dir f' D r M)"
proof -
  obtain e f1 where 1: "os_MkdirAll f (D @ [c]) = (e, f1)" by (cases "os_MkdirAll f (D @ [c])")
  have c: "node_at (fsnode f) (D @ [c]) = Inr (DirNode cs)" using at_dir_entry [OF assms(1), of c "[]"] assms(2) by simp
  note k = mkdir_existing [OF c assms(1) 1]
  show ?thesis
  proof (cases e)
    case (Some x)
    then show ?thesis using assms(3) k by (auto simp: 1)
  next
    case None
    then have w: "os_WriteFile f1 (D @ [c, m]) data = (res, f')" using assms(3) by (simp add: 1)
    have d1: "at_dir f1 D r M" using k by blast
    obtain b g where g: "faulty f1 = (b, g)" "at_dir g D r M" "keeps f1 g" "b \<longrightarrow> faults f1 \<noteq> []"
      by (rule faulty_dir [OF d1])
    have kg: "keeps f g" using k g(3) by (blast intro: keeps_trans)
    obtain ns where ns: "node_at (fsnode g) D = Inr (DirNode ns)" "map_of ns = M"
        "\<And>f' ns'. fsnode f' = put_at (Some (DirNode ns')) (fsnode g) D \<Longrightarrow> at_dir f' D r (map_of ns')"
      using g(2) by (rule at_dirE) blast
    have cg: "node_at (fsnode g) (D @ [c]) = Inr (DirNode cs)" using at_dir_entry [OF g(2), of c "[]"] assms(2) by simp
    have p: "parent_error (fsnode g) (D @ [c, m]) = None" by (simp add: parent_error_def butlast_append cg)
    show ?thesis
    proof (cases "b \<or> (\<exists>ds. node_at (fsnode g) (D @ [c, m]) = Inr (DirNode ds))")
      case True
      then show ?thesis using w g kg p by (auto simp: os_WriteFile_def split: if_splits)
    next
      case False
      then have r: "res = None" "f' = g\<lparr>fsnode := put_at (Some (FileNode data)) (fsnode g) (D @ [c, m])\<rparr>"
        using w g(1) p by (auto simp: os_WriteFile_def split: sum.splits node.splits)
      have "fsnode f' = put_at (Some (DirNode (AList.update c (DirNode (AList.update m (FileNode data) cs)) ns))) (fsnode g) D"
        using put_at_snoc [OF cg, of "Some (FileNode data)" m] put_at_snoc [OF ns(1), of "Some (DirNode (AList.update m (FileNode data) cs))" c]
        by (simp add: r)
      then have "at_dir f' D r (map_of (AList.update c (DirNode (AList.update m (FileNode data) cs)) ns))" by (rule ns(3))
      then show ?thesis using kg r by (simp add: AList.update_conv' ns(2) keeps_def)
    qed
  qed
qed

text \<open>Reading changes no file.\<close>

lemma read_keeps: "fs_ReadFile f p = (res, f') \<Longrightarrow> keeps f f' \<and> fsnode f' = fsnode f"
  by (auto simp: fs_ReadFile_def os_stat_def faulty_def keeps_def split: list.splits sum.splits node.splits if_splits prod.splits)

lemma stat_keeps: "fs_Stat f p = (res, f') \<Longrightarrow> keeps f f' \<and> fsnode f' = fsnode f"
  by (auto simp: fs_Stat_def os_stat_def faulty_def keeps_def split: list.splits if_splits)

lemma fs_rename_entry:
  assumes "at_dir f D r M" "fs_Rename f p q = (res, f')" "fs_abs f p = D @ [x]" "fs_abs f q = D @ [y]" "x \<noteq> y"
  shows "keeps f f' \<and>
    ((\<exists>n. res = None \<and> M x = Some n \<and> at_dir f' D r (M(x := None, y := Some n))) \<or>
     res \<noteq> None \<and> at_dir f' D r M \<and> (faults f \<noteq> [] \<or> M x = None \<or> M y \<noteq> None))"
proof -
  obtain e f1 where 1: "os_MkdirAll f D = (e, f1)" by (cases "os_MkdirAll f D")
  obtain ns where ns: "node_at (fsnode f) D = Inr (DirNode ns)" using assms(1) by (rule at_dirE)
  note k = mkdir_existing [OF ns assms(1) 1]
  show ?thesis
  proof (cases e)
    case (Some z)
    then show ?thesis using assms(2) k by (auto simp: fs_Rename_def assms(3,4) 1)
  next
    case None
    then have "os_Rename f1 (D @ [x]) (D @ [y]) = (res, f')" using assms(2) by (simp add: fs_Rename_def assms(3,4) 1)
    then show ?thesis using rename_entry [of f1 D r M x y res f'] k assms(5) by (auto intro: keeps_trans simp: keeps_def)
  qed
qed

section \<open>Changes below one entry\<close>

lemma make_dirs_append:
  "node_at n p = Inr m \<Longrightarrow> make_dirs n (p @ q) = map_option (\<lambda>k. put_at (Some k) n p) (make_dirs m q)"
proof (induction n p rule: node_at.induct)
  case (3 ns x p)
  then obtain k where k: "map_of ns x = Some k" "node_at k p = Inr m" by (auto split: option.splits)
  then show ?case using 3 by (cases "make_dirs m q") auto
qed (auto simp: option.map_ident)

lemma put_at_append:
  "node_at n p = Inr m \<Longrightarrow> q \<noteq> [] \<Longrightarrow> put_at v n (p @ q) = put_at (Some (put_at v m q)) n p"
  by (induction n p rule: node_at.induct) (auto split: option.splits)

definition only_below :: "string \<Rightarrow> (string \<Rightarrow> node option) \<Rightarrow> (string \<Rightarrow> node option) \<Rightarrow> bool" where
  "only_below x M M' \<longleftrightarrow> (\<forall>z. z \<noteq> x \<longrightarrow> M' z = M z)"

lemma only_below_refl [simp]: "only_below x M M"
  by (simp add: only_below_def)

lemma only_below_trans: "only_below x M M' \<Longrightarrow> only_below x M' M'' \<Longrightarrow> only_below x M M''"
  by (simp add: only_below_def)

lemma mkdir_below:
  assumes "at_dir f D r M" "os_MkdirAll f (D @ x # q) = (res, f')"
  shows "keeps f f' \<and> (\<exists>M'. at_dir f' D r M' \<and> only_below x M M')"
proof -
  obtain b g where g: "faulty f = (b, g)" "at_dir g D r M" "keeps f g" "b \<longrightarrow> faults f \<noteq> []"
    by (rule faulty_dir [OF assms(1)])
  obtain ns where ns: "node_at (fsnode g) D = Inr (DirNode ns)" "map_of ns = M"
      "\<And>f' ns'. fsnode f' = put_at (Some (DirNode ns')) (fsnode g) D \<Longrightarrow> at_dir f' D r (map_of ns')"
    using g(2) by (rule at_dirE) blast
  show ?thesis
  proof (cases "b \<or> make_dirs (DirNode ns) (x # q) = None")
    case True
    then have "f' = g" using assms(2) g(1) make_dirs_append [OF ns(1), of "x # q"] by (auto simp: os_MkdirAll_def split: if_splits)
    then show ?thesis using g by (auto intro!: exI [of _ M])
  next
    case False
    then obtain k where k: "make_dirs (DirNode ns) (x # q) = Some (DirNode (AList.update x k ns))" by (auto split: option.splits)
    have f': "f' = g\<lparr>fsnode := put_at (Some (DirNode (AList.update x k ns))) (fsnode g) D\<rparr>"
      using assms(2) g(1) make_dirs_append [OF ns(1), of "x # q"] False unfolding k by (auto simp: os_MkdirAll_def)
    have "at_dir f' D r (map_of (AList.update x k ns))" by (rule ns(3)) (simp add: f')
    moreover have "only_below x M (map_of (AList.update x k ns))" by (simp add: only_below_def AList.update_conv' ns(2))
    moreover have "keeps f f'" using g(3) by (simp add: f' keeps_def)
    ultimately show ?thesis by blast
  qed
qed

lemma write_below:
  assumes "at_dir f D r M" "os_WriteFile f (D @ x # q) data = (res, f')"
  shows "keeps f f' \<and> (\<exists>M'. at_dir f' D r M' \<and> only_below x M M')"
proof -
  obtain b g where g: "faulty f = (b, g)" "at_dir g D r M" "keeps f g" "b \<longrightarrow> faults f \<noteq> []"
    by (rule faulty_dir [OF assms(1)])
  obtain ns where ns: "node_at (fsnode g) D = Inr (DirNode ns)" "map_of ns = M"
      "\<And>f' ns'. fsnode f' = put_at (Some (DirNode ns')) (fsnode g) D \<Longrightarrow> at_dir f' D r (map_of ns')"
    using g(2) by (rule at_dirE) blast
  have f': "f' = g \<or> f' = g\<lparr>fsnode := put_at (Some (FileNode data)) (fsnode g) (D @ x # q)\<rparr>"
    using assms(2) g(1) by (auto simp: os_WriteFile_def split: if_splits option.splits sum.splits node.splits)
  have "\<exists>ns'. put_at (Some (FileNode data)) (DirNode ns) (x # q) = DirNode ns' \<and> only_below x M (map_of ns')"
    by (cases "map_of ns x"; cases "q = []") (auto simp: only_below_def AList.update_conv' ns(2))
  then obtain ns' where ns': "put_at (Some (FileNode data)) (DirNode ns) (x # q) = DirNode ns'" "only_below x M (map_of ns')" by blast
  show ?thesis
  proof (cases "f' = g")
    case False
    then have f2: "f' = g\<lparr>fsnode := put_at (Some (DirNode ns')) (fsnode g) D\<rparr>"
      using f' put_at_append [OF ns(1), of "x # q" "Some (FileNode data)"] unfolding ns'(1) by auto
    have "at_dir f' D r (map_of ns')" by (rule ns(3)) (simp add: f2)
    then show ?thesis using ns'(2) g(3) f2 by (auto simp: keeps_def)
  qed (use g in \<open>auto intro!: exI [of _ M]\<close>)
qed

lemma fs_write_below:
  assumes "at_dir f D r M" "fs_WriteFile f name data = (res, f')" "fs_abs f name = D @ x # q"
  shows "keeps f f' \<and> (\<exists>M'. at_dir f' D r M' \<and> only_below x M M')"
proof -
  obtain e f1 where 1: "os_MkdirAll f (butlast (fs_abs f name)) = (e, f1)" by (cases "os_MkdirAll f (butlast (fs_abs f name))")
  obtain M1 where M1: "keeps f f1" "at_dir f1 D r M1" "only_below x M M1"
  proof (cases q)
    case Nil
    obtain ns where ns: "node_at (fsnode f) D = Inr (DirNode ns)" using assms(1) by (rule at_dirE)
    then show thesis using mkdir_existing [OF ns assms(1)] 1 that [of M] by (simp add: assms(3) Nil)
  next
    case (Cons y p)
    then have "butlast (fs_abs f name) = D @ x # butlast q" by (simp add: assms(3) butlast_append)
    then show thesis using mkdir_below [OF assms(1)] 1 that by metis
  qed
  show ?thesis
  proof (cases e)
    case (Some z)
    then show ?thesis using assms(2) 1 M1 by (auto simp: fs_WriteFile_def Let_def)
  next
    case None
    then have "os_WriteFile f1 (D @ x # q) data = (res, f')" using assms(2) 1 by (simp add: fs_WriteFile_def Let_def assms(3))
    from write_below [OF M1(2) this] show ?thesis using M1 by (blast intro: keeps_trans only_below_trans)
  qed
qed

section \<open>The files of a tree\<close>

text \<open>A tree as its files: directories are not seen.\<close>

definition file_in :: "node \<Rightarrow> string list \<Rightarrow> byte list option" where
  "file_in n p = (case node_at n p of Inr (FileNode d) \<Rightarrow> Some d | _ \<Rightarrow> None)"

definition file_at :: "filesys \<Rightarrow> string list \<Rightarrow> byte list option" where
  "file_at f p = file_in (fsnode f) p"

definition starts :: "string list \<Rightarrow> string list \<Rightarrow> bool" where
  "starts p q \<longleftrightarrow> take (length p) q = p"

lemma starts_simps [simp]:
  "starts [] q" "\<not> starts (x # p) []" "starts (x # p) (y # q) \<longleftrightarrow> x = y \<and> starts p q" "starts p (p @ q)" "starts p p"
  by (auto simp: starts_def)

lemma startsE: "starts p q \<Longrightarrow> \<exists>r. q = p @ r"
  by (metis append_take_drop_id starts_def)

lemma starts_append: "starts (p @ r) q \<Longrightarrow> starts p q"
  using startsE by fastforce

lemma file_in_simps [simp]:
  "file_in (DirNode ns) [] = None" "file_in (FileNode d) (x # p) = None" "file_in (FileNode d) [] = Some d"
  "file_in (DirNode ns) (x # p) = (case map_of ns x of None \<Rightarrow> None | Some n \<Rightarrow> file_in n p)"
  by (auto simp: file_in_def split: option.split)

lemma file_in_append: "node_at n p = Inr m \<Longrightarrow> file_in n (p @ q) = file_in m q"
  by (simp add: file_in_def node_at_append)

lemma file_in_empty [simp]: "file_in (DirNode []) p = None"
  by (cases p) simp_all

lemma file_in_make_dirs: "make_dirs n p = Some n' \<Longrightarrow> file_in n' q = file_in n q"
proof (induction n p arbitrary: n' q rule: make_dirs.induct)
  case (3 ns x p)
  then obtain m where m: "make_dirs (case map_of ns x of None \<Rightarrow> DirNode [] | Some n \<Rightarrow> n) p = Some m" "n' = DirNode (AList.update x m ns)"
    by (auto split: option.splits)
  show ?case using 3(1) [OF m(1)] by (cases q) (auto simp: m(2) AList.update_conv' split: option.splits)
qed auto

lemma file_in_put:
  assumes "node_at n (butlast p) = Inr (DirNode ms)" "p \<noteq> []"
  shows "file_in (put_at v n p) q =
    (if starts p q then case v of None \<Rightarrow> None | Some m \<Rightarrow> file_in m (drop (length p) q) else file_in n q)"
  using assms
proof (induction v n p arbitrary: q rule: put_at.induct)
  case (3 v ns x p)
  show ?case
  proof (cases q)
    case Nil
    then show ?thesis by (auto split: option.split)
  next
    case (Cons y r)
    show ?thesis
    proof (cases "p = []")
      case True
      then show ?thesis by (cases v) (auto simp: Cons AList.update_conv' AList.delete_conv')
    next
      case False
      then obtain n where n: "map_of ns x = Some n" "node_at n (butlast p) = Inr (DirNode ms)"
        using 3(2) by (auto split: option.splits)
      show ?thesis using 3(1) [OF False n] False by (cases v) (auto simp: Cons n(1) AList.update_conv')
    qed
  qed
qed (auto split: if_splits)

lemma dir_stays:
  assumes "node_at n r = Inr (DirNode ks)" "\<not> starts p r"
  shows "\<exists>ks. node_at (put_at v n p) r = Inr (DirNode ks)"
  using assms
proof (induction v n p arbitrary: r ks rule: put_at.induct)
  case (3 v ns x p)
  show ?case
  proof (cases r)
    case Nil
    then show ?thesis by (auto split: option.split)
  next
    case (Cons y q)
    show ?thesis
    proof (cases "p = []")
      case True
      then show ?thesis using 3(2,3) by (cases v) (auto simp: Cons AList.update_conv' AList.delete_conv' split: option.splits)
    next
      case False
      then show ?thesis using 3 by (auto simp: Cons AList.update_conv' split: option.splits)
    qed
  qed
qed auto

lemma parent_dir: "node_at n p = Inr m \<Longrightarrow> p \<noteq> [] \<Longrightarrow> \<exists>ns. node_at n (butlast p) = Inr (DirNode ns)"
proof (induction n p rule: node_at.induct)
  case (3 ns x p)
  then show ?case by (cases "p = []") (auto split: option.splits)
qed auto

text \<open>The operations, as changes of the files.\<close>

lemma faulty_files: "faulty f = (b, g) \<Longrightarrow> fsnode g = fsnode f \<and> keeps f g"
  by (auto simp: faulty_def keeps_def split: list.splits)

lemma mkdir_files: "os_MkdirAll f p = (res, f') \<Longrightarrow> file_at f' q = file_at f q \<and> fsroot f' = fsroot f"
  by (cases "faulty f")
    (auto simp: os_MkdirAll_def file_at_def keeps_def dest!: faulty_files file_in_make_dirs [of _ _ _ q] split: if_splits option.splits)

lemma write_file:
  assumes "os_WriteFile f p data = (res, f')"
  shows "(if res = None then file_at f' = (file_at f)(p \<mapsto> data) else file_at f' = file_at f) \<and> fsroot f' = fsroot f"
proof -
  obtain b g where g: "faulty f = (b, g)" by (cases "faulty f")
  note k = faulty_files [OF g]
  show ?thesis
  proof (cases "res = None")
    case True
    then have p: "p \<noteq> []" "parent_error (fsnode f) p = None" "\<And>ns. node_at (fsnode f) p \<noteq> Inr (DirNode ns)"
      and f': "f' = g\<lparr>fsnode := put_at (Some (FileNode data)) (fsnode g) p\<rparr>"
      using assms k by (auto simp: os_WriteFile_def g split: if_splits option.splits sum.splits node.splits)
    obtain ns where d: "node_at (fsnode f) (butlast p) = Inr (DirNode ns)"
      using p(2) by (auto simp: parent_error_def split: sum.splits node.splits)
    have "file_at f' q = ((file_at f)(p \<mapsto> data)) q" for q
    proof (cases "starts p q")
      case True
      then obtain r where r: "q = p @ r" using startsE by blast
      have "file_in (fsnode f) (p @ y # ys) = None" for y ys
        using p(3) by (auto simp: file_in_def node_at_append split: sum.split node.split) (metis node.exhaust node_at.simps(2) sum.simps(4))
      then show ?thesis using k d p(1) by (cases r) (auto simp: r f' file_at_def file_in_put)
    qed (use k d p(1) in \<open>auto simp: f' file_at_def file_in_put\<close>)
    then show ?thesis using True k f' by (auto simp: keeps_def)
  next
    case False
    then have "f' = g" using assms by (auto simp: os_WriteFile_def g split: if_splits option.splits sum.splits node.splits)
    then show ?thesis using False k by (auto simp: file_at_def keeps_def fun_eq_iff)
  qed
qed

lemma remove_files:
  assumes "os_RemoveAll f p = (res, f')"
  shows "(\<not> starts p q \<longrightarrow> file_at f' q = file_at f q) \<and> fsroot f' = fsroot f"
proof -
  obtain b g where g: "faulty f = (b, g)" by (cases "faulty f")
  note k = faulty_files [OF g]
  show ?thesis
  proof (cases "f' = g")
    case False
    then obtain m where "p \<noteq> []" "node_at (fsnode f) p = Inr m" "f' = g\<lparr>fsnode := put_at None (fsnode g) p\<rparr>"
      using assms k by (auto simp: os_RemoveAll_def g split: if_splits sum.splits fs_error.splits)
    then show ?thesis using k parent_dir [of "fsnode f" p] by (auto simp: file_at_def file_in_put keeps_def)
  qed (use k in \<open>auto simp: file_at_def keeps_def\<close>)
qed

lemma rename_files:
  assumes "os_Rename f p q = (res, f')" "p \<noteq> []" "q \<noteq> []"
  shows "(\<not> starts p r \<longrightarrow> \<not> starts q r \<longrightarrow> file_at f' r = file_at f r) \<and> fsroot f' = fsroot f"
proof -
  obtain b g where g: "faulty f = (b, g)" by (cases "faulty f")
  note k = faulty_files [OF g]
  show ?thesis
  proof (cases "f' = g")
    case False
    then obtain n where n: "node_at (fsnode f) p = Inr n" "take (length p) q \<noteq> p" "parent_error (fsnode f) q = None"
      "f' = g\<lparr>fsnode := put_at (Some n) (put_at None (fsnode g) p) q\<rparr>"
      using assms(1) k by (auto simp: os_Rename_def g split: if_splits option.splits sum.splits)
    obtain ns where d: "node_at (fsnode f) (butlast q) = Inr (DirNode ns)"
      using n(3) by (auto simp: parent_error_def split: sum.splits node.splits)
    have "\<not> starts p (butlast q)"
      using n(2) assms(3) by (metis append_butlast_last_id append_assoc starts_def starts_simps(4) startsE)
    from dir_stays [OF d this] obtain ks where ks: "node_at (put_at None (fsnode g) p) (butlast q) = Inr (DirNode ks)"
      using k by metis
    obtain ms where "node_at (fsnode f) (butlast p) = Inr (DirNode ms)" using parent_dir [OF n(1) assms(2)] by blast
    then show ?thesis using k file_in_put [OF ks assms(3)] assms(2) by (auto simp: n(4) file_at_def file_in_put keeps_def)
  qed (use k in \<open>auto simp: file_at_def keeps_def\<close>)
qed

end
