(* ===== verification/Depot.thy ===== *)
theory Depot
  imports Semver FileStore KVStore
begin

text \<open>
  \<open>pkg/gizclaw/firmware/channel.go\<close>, \<open>manifest.go\<close>, \<open>metadata.go\<close>, \<open>store_helpers.go\<close> and \<open>scan.go\<close>: what a
  depot of firmware is, when it is valid, how it is kept in a key-value store, and how the files of a release
  are checked against it.  The JSON encoding and the digests of the standard library are parameters.
\<close>

section \<open>Depots\<close>

type_synonym channel = string

definition Beta :: channel where "Beta = ''beta''"

definition Rollback :: channel where "Rollback = ''rollback''"

definition Stable :: channel where "Stable = ''stable''"

definition Testing :: channel where "Testing = ''testing''"

lemmas channel_defs = Beta_def Rollback_def Stable_def Testing_def

definition channel_Valid :: "channel \<Rightarrow> bool" where
  "channel_Valid c \<longleftrightarrow> c = Beta \<or> c = Rollback \<or> c = Stable \<or> c = Testing"

definition allChannels :: "channel list" where
  "allChannels = [Rollback, Stable, Beta, Testing]"

text \<open>A pointer to a slice is an option of a list; a nil slice and an empty one are not told apart.\<close>

record depot_file =
  fmd5 :: string
  fpath :: string
  fsha256 :: string

record depot_info =
  dfiles :: "string list option"

record depot_release =
  rchannel :: "string option"
  rfiles :: "depot_file list option"
  rsemver :: string

record depot =
  dbeta :: depot_release
  dinfo :: depot_info
  dname :: string
  drollback :: depot_release
  dstable :: depot_release
  dtesting :: depot_release

definition no_release :: depot_release where
  "no_release = \<lparr>rchannel = None, rfiles = None, rsemver = []\<rparr>"

definition no_info :: depot_info where
  "no_info = \<lparr>dfiles = None\<rparr>"

definition empty_depot :: "string \<Rightarrow> depot" where
  "empty_depot name = \<lparr>dbeta = no_release, dinfo = no_info, dname = name, drollback = no_release,
     dstable = no_release, dtesting = no_release\<rparr>"

definition depotRelease :: "depot \<Rightarrow> channel \<Rightarrow> depot_release \<times> bool" where
  "depotRelease d c =
     (if c = Rollback then (drollback d, rsemver (drollback d) \<noteq> [])
      else if c = Stable then (dstable d, rsemver (dstable d) \<noteq> [])
      else if c = Beta then (dbeta d, rsemver (dbeta d) \<noteq> [])
      else if c = Testing then (dtesting d, rsemver (dtesting d) \<noteq> [])
      else (no_release, False))"

definition setDepotRelease :: "depot \<Rightarrow> channel \<Rightarrow> depot_release \<Rightarrow> depot" where
  "setDepotRelease d c r =
     (if c = Rollback then d\<lparr>drollback := r\<rparr>
      else if c = Stable then d\<lparr>dstable := r\<rparr>
      else if c = Beta then d\<lparr>dbeta := r\<rparr>
      else if c = Testing then d\<lparr>dtesting := r\<rparr>
      else d)"

definition infoFiles :: "depot_info \<Rightarrow> string list" where
  "infoFiles i = (case dfiles i of None \<Rightarrow> [] | Some fs \<Rightarrow> fs)"

definition releaseFiles :: "depot_release \<Rightarrow> depot_file list" where
  "releaseFiles r = (case rfiles r of None \<Rightarrow> [] | Some fs \<Rightarrow> fs)"

definition releaseChannel :: "depot_release \<Rightarrow> channel" where
  "releaseChannel r = (case rchannel r of None \<Rightarrow> [] | Some c \<Rightarrow> c)"

definition stringPtr :: "string \<Rightarrow> string option" where
  "stringPtr v = (if v = [] then None else Some v)"

definition normalizeDepotInfo :: "depot_info \<Rightarrow> depot_info" where
  "normalizeDepotInfo i =
     (if infoFiles i = [] then no_info else \<lparr>dfiles = Some (sort (infoFiles i))\<rparr>)"

text \<open>\<open>sort.Slice\<close> leaves the order of files with the same path open; they are refused below.\<close>

definition normalizeDepotRelease :: "depot_release \<Rightarrow> depot_release" where
  "normalizeDepotRelease r =
     (if releaseFiles r \<noteq> [] then r\<lparr>rfiles := Some (sort_key fpath (releaseFiles r))\<rparr> else r\<lparr>rfiles := None\<rparr>)"

definition normalizeDepotMetadata :: "depot \<Rightarrow> depot" where
  "normalizeDepotMetadata d =
     d\<lparr>dinfo := normalizeDepotInfo (dinfo d), drollback := normalizeDepotRelease (drollback d),
       dstable := normalizeDepotRelease (dstable d), dbeta := normalizeDepotRelease (dbeta d),
       dtesting := normalizeDepotRelease (dtesting d)\<rparr>"

definition releaseWithChannel :: "depot_release \<Rightarrow> channel \<Rightarrow> depot_release" where
  "releaseWithChannel r c =
     (if rsemver r = [] then no_release else normalizeDepotRelease (r\<lparr>rchannel := stringPtr c\<rparr>))"

definition sameInfoFiles :: "depot_info \<Rightarrow> depot_release \<Rightarrow> bool" where
  "sameInfoFiles i r \<longleftrightarrow>
     list_all2 (\<lambda>p f. p = fpath f) (infoFiles (normalizeDepotInfo i)) (releaseFiles (normalizeDepotRelease r))"

section \<open>Validation\<close>

datatype fw_error =
    DepotNotFound | ChannelNotFound | FirmwareNotFound | InvalidPath | VersionOrderViolation
  | InvalidDepotName string | InvalidInfo | InvalidSemver | InvalidChannel | InvalidFiles
  | ChannelMismatch | NameMismatch | FilesMismatch | FileUnreadable fs_error | DigestMismatch
  | EncodeError | DecodeError | InvalidMetadataKey | NotConfigured
  | KVFailed kv_error | KVPanics | FSFailed fs_error | DepotFilesMissing | NotADirectory
  | IllegalEntry | DuplicateEntry | TarFailed | ManifestMissing | MissingManifestFile

fun contains :: "string \<Rightarrow> string \<Rightarrow> bool" where
  "contains [] pat \<longleftrightarrow> pat = []"
| "contains (c # cs) pat \<longleftrightarrow> has_prefix (c # cs) pat \<or> contains cs pat"

definition validateDepotName :: "string \<Rightarrow> fw_error option" where
  "validateDepotName depot =
     (if depot = [] then Some (InvalidDepotName depot)
      else if CHR 0x5C \<in> set depot then Some (InvalidDepotName depot)
      else if CHR '':'' \<in> set depot then Some (InvalidDepotName depot)
      else if has_prefix depot ''/'' then Some (InvalidDepotName depot)
      else if path_Clean depot \<noteq> depot then Some (InvalidDepotName depot)
      else if list_ex (\<lambda>part. part = [] \<or> part = ''.'' \<or> part = ''..'') (split_on CHR ''/'' depot)
        then Some (InvalidDepotName depot)
      else None)"

definition validateRelativePath :: "string \<Rightarrow> fw_error option" where
  "validateRelativePath p =
     (if p = [] then Some InvalidPath
      else if has_prefix p ''/'' then Some InvalidPath
      else let clean = path_Clean p in
        if clean = ''.'' \<or> clean = ''..'' \<or> has_prefix clean ''../'' \<or> CHR 0x5C \<in> set clean then Some InvalidPath
        else if contains clean ''/../'' then Some InvalidPath
        else None)"

text \<open>The loop both validations share: every path is relative and new.\<close>

fun validate_paths :: "fw_error \<Rightarrow> string list \<Rightarrow> string list \<Rightarrow> fw_error option" where
  "validate_paths duplicate seen [] = None"
| "validate_paths duplicate seen (p # ps) =
     (case validateRelativePath p of
        Some e \<Rightarrow> Some e
      | None \<Rightarrow> if p \<in> set seen then Some duplicate else validate_paths duplicate (p # seen) ps)"

definition validateDepotInfo :: "depot_info \<Rightarrow> fw_error option" where
  "validateDepotInfo i = validate_paths InvalidInfo [] (infoFiles i)"

definition validateRelease :: "depot_release \<Rightarrow> fw_error option" where
  "validateRelease r =
     (case parseSemVer (rsemver r) of
        None \<Rightarrow> Some InvalidSemver
      | Some _ \<Rightarrow>
          if \<not> channel_Valid (releaseChannel r) then Some InvalidChannel
          else validate_paths InvalidFiles [] (map fpath (releaseFiles r)))"

definition validateVersionOrder :: "depot \<Rightarrow> fw_error option" where
  "validateVersionOrder d =
     (case (depotRelease d Stable, depotRelease d Beta, depotRelease d Testing) of
        ((st, stableOK), (bt, betaOK), (te, testingOK)) \<Rightarrow>
          if stableOK \<and> betaOK \<and> compareSemVer (rsemver bt) (rsemver st) < 0 then Some VersionOrderViolation
          else if betaOK \<and> testingOK \<and> compareSemVer (rsemver te) (rsemver bt) < 0 then Some VersionOrderViolation
          else None)"

fun validate_channels :: "(channel \<times> depot_release) list \<Rightarrow> fw_error option" where
  "validate_channels [] = None"
| "validate_channels ((c, r) # items) =
     (if rsemver r = [] then validate_channels items
      else case validateRelease r of
          Some e \<Rightarrow> Some e
        | None \<Rightarrow> if releaseChannel r \<noteq> c then Some ChannelMismatch else validate_channels items)"

definition validateDepotMetadata :: "depot \<Rightarrow> fw_error option" where
  "validateDepotMetadata d =
     (case validateDepotName (dname d) of
        Some e \<Rightarrow> Some e
      | None \<Rightarrow>
          (case validateDepotInfo (dinfo d) of
             Some e \<Rightarrow> Some e
           | None \<Rightarrow>
               (case validate_channels
                   [(Rollback, drollback d), (Stable, dstable d), (Beta, dbeta d), (Testing, dtesting d)] of
                  Some e \<Rightarrow> Some e
                | None \<Rightarrow> validateVersionOrder d)))"

section \<open>Metadata in the key-value store\<close>

text \<open>
  What the server is given: the JSON of depots and manifests, the digests in hexadecimal, the metadata store
  with the context of the call, and the orders in which loops visit Go maps.
\<close>

record 's fw_env =
  jsonDepot :: "depot \<Rightarrow> byte list option"
  unjsonDepot :: "byte list \<Rightarrow> depot option"
  jsonRelease :: "depot_release \<Rightarrow> byte list option"
  unjsonRelease :: "byte list \<Rightarrow> depot_release option"
  hexSha256 :: "byte list \<Rightarrow> string"
  hexMd5 :: "byte list \<Rightarrow> string"
  metaStore :: "'s store option"
  callEnv :: call_env
  mapOrder :: "nat \<Rightarrow> (string \<times> string) list \<Rightarrow> (string \<times> string) list"

record 's fw_state =
  fwFiles :: filesys
  fwMeta :: 's

fun lift_kv :: "'a res \<Rightarrow> fw_error + 'a" where
  "lift_kv (Val x) = Inr x"
| "lift_kv (Err e) = Inl (KVFailed e)"
| "lift_kv Panics = Inl KVPanics"

definition depotMetadataRoot :: kv_key where
  "depotMetadataRoot = [''by-name'']"

definition depotMetadataKey :: "string \<Rightarrow> kv_key" where
  "depotMetadataKey name = depotMetadataRoot @ split_on CHR ''/'' name"

definition depotNameFromMetadataKey :: "kv_key \<Rightarrow> string option" where
  "depotNameFromMetadataKey key =
     (if length key \<le> length depotMetadataRoot then None
      else if take (length depotMetadataRoot) key \<noteq> depotMetadataRoot then None
      else Some (join_on CHR ''/'' (drop (length depotMetadataRoot) key)))"

definition decodeDepotMetadata :: "'s fw_env \<Rightarrow> byte list \<Rightarrow> fw_error + depot" where
  "decodeDepotMetadata E data =
     (case unjsonDepot E data of None \<Rightarrow> Inl DecodeError | Some d \<Rightarrow> Inr (normalizeDepotMetadata d))"

fun list_depots :: "'s fw_env \<Rightarrow> (kv_error + kv_entry) list \<Rightarrow> fw_error + depot list" where
  "list_depots E [] = Inr []"
| "list_depots E (Inl e # items) = Inl (KVFailed e)"
| "list_depots E (Inr entry # items) =
     (case decodeDepotMetadata E (evalue entry) of
        Inl e \<Rightarrow> Inl e
      | Inr d \<Rightarrow>
          (case (if dname d = [] then depotNameFromMetadataKey (ekey entry) else Some (dname d)) of
             None \<Rightarrow> Inl InvalidMetadataKey
           | Some name \<Rightarrow>
               (case list_depots E items of Inl e \<Rightarrow> Inl e | Inr ds \<Rightarrow> Inr (d\<lparr>dname := name\<rparr> # ds))))"

definition listDepotMetadata :: "'s fw_env \<Rightarrow> 's fw_state \<Rightarrow> fw_error + depot list" where
  "listDepotMetadata E s =
     (case metaStore E of
        None \<Rightarrow> Inl NotConfigured
      | Some st \<Rightarrow>
          (case lift_kv (sList st (callEnv E) (fwMeta s) depotMetadataRoot) of
             Inl e \<Rightarrow> Inl e
           | Inr items \<Rightarrow> list_depots E items))"

definition getDepotMetadata :: "'s fw_env \<Rightarrow> 's fw_state \<Rightarrow> string \<Rightarrow> (fw_error + depot) \<times> 's fw_state" where
  "getDepotMetadata E s name =
     (case validateDepotName name of
        Some e \<Rightarrow> (Inl e, s)
      | None \<Rightarrow>
          (case metaStore E of
             None \<Rightarrow> (Inl NotConfigured, s)
           | Some st \<Rightarrow>
               (case sGet st (callEnv E) (fwMeta s) (depotMetadataKey name) of
                  (r, m) \<Rightarrow>
                    (case lift_kv r of
                       Inl e \<Rightarrow> Inl (if e = KVFailed KeyNotFound then DepotNotFound else e)
                     | Inr data \<Rightarrow>
                         (case decodeDepotMetadata E data of
                            Inl e \<Rightarrow> Inl e
                          | Inr d0 \<Rightarrow>
                              let d = (if dname d0 = [] then d0\<lparr>dname := name\<rparr> else d0) in
                              if dname d \<noteq> name then Inl NameMismatch
                              else (case validateDepotMetadata d of Some e \<Rightarrow> Inl e | None \<Rightarrow> Inr d)),
                     s\<lparr>fwMeta := m\<rparr>))))"

definition writeDepotMetadata :: "'s fw_env \<Rightarrow> 's fw_state \<Rightarrow> depot \<Rightarrow> fw_error option \<times> 's fw_state" where
  "writeDepotMetadata E s d0 =
     (case validateDepotName (dname d0) of
        Some e \<Rightarrow> (Some e, s)
      | None \<Rightarrow>
          let d = normalizeDepotMetadata d0 in
          (case validateDepotMetadata d of
             Some e \<Rightarrow> (Some e, s)
           | None \<Rightarrow>
               (case metaStore E of
                  None \<Rightarrow> (Some NotConfigured, s)
                | Some st \<Rightarrow>
                    (case jsonDepot E d of
                       None \<Rightarrow> (Some EncodeError, s)
                     | Some data \<Rightarrow>
                         (case sSet st (callEnv E) (fwMeta s) (depotMetadataKey (dname d)) data of
                            (r, m) \<Rightarrow>
                              (case lift_kv r of Inl e \<Rightarrow> Some e | Inr _ \<Rightarrow> None, s\<lparr>fwMeta := m\<rparr>))))))"

section \<open>Manifests and files\<close>

definition depotPath :: "string \<Rightarrow> string" where
  "depotPath depot = depot"

definition channelPath :: "string \<Rightarrow> string \<Rightarrow> string" where
  "channelPath depot c = path_Join [depotPath depot, c]"

definition manifestPath :: "string \<Rightarrow> string \<Rightarrow> string" where
  "manifestPath depot c = path_Join [channelPath depot c, ''manifest.json'']"

definition tempPath :: "string \<Rightarrow> string \<Rightarrow> string" where
  "tempPath depot suffix = path_Join [depotPath depot, ''.tmp-'' @ suffix]"

definition parseManifest :: "'s fw_env \<Rightarrow> byte list \<Rightarrow> fw_error + depot_release" where
  "parseManifest E data =
     (case unjsonRelease E data of
        None \<Rightarrow> Inl DecodeError
      | Some r \<Rightarrow> (case validateRelease r of Some e \<Rightarrow> Inl e | None \<Rightarrow> Inr (normalizeDepotRelease r)))"

text \<open>The line feed at the end of the file is part of \<open>jsonRelease\<close>.\<close>

definition writeManifest :: "'s fw_env \<Rightarrow> filesys \<Rightarrow> string \<Rightarrow> depot_release \<Rightarrow> fw_error option \<times> filesys" where
  "writeManifest E f p r0 =
     (let r = normalizeDepotRelease r0 in
      case validateRelease r of
        Some e \<Rightarrow> (Some e, f)
      | None \<Rightarrow>
          (case jsonRelease E r of
             None \<Rightarrow> (Some EncodeError, f)
           | Some data \<Rightarrow> (case fs_WriteFile f p data of (e, f1) \<Rightarrow> (map_option FSFailed e, f1))))"

fun validate_files :: "'s fw_env \<Rightarrow> filesys \<Rightarrow> string \<Rightarrow> depot_file list \<Rightarrow> fw_error option \<times> filesys" where
  "validate_files E f base [] = (None, f)"
| "validate_files E f base (x # xs) =
     (case fs_ReadFile f (path_Join [base, fpath x]) of
        (Inl e, f1) \<Rightarrow> (Some (FileUnreadable e), f1)
      | (Inr data, f1) \<Rightarrow>
          if hexSha256 E data \<noteq> fsha256 x then (Some DigestMismatch, f1)
          else if hexMd5 E data \<noteq> fmd5 x then (Some DigestMismatch, f1)
          else validate_files E f1 base xs)"

definition validateReleaseAgainstFiles ::
  "'s fw_env \<Rightarrow> filesys \<Rightarrow> string \<Rightarrow> depot_release \<Rightarrow> fw_error option \<times> filesys" where
  "validateReleaseAgainstFiles E f base r =
     (case validateRelease r of Some e \<Rightarrow> (Some e, f) | None \<Rightarrow> validate_files E f base (releaseFiles r))"

definition ensureDepot :: "'s fw_state \<Rightarrow> string \<Rightarrow> fw_error option \<times> 's fw_state" where
  "ensureDepot s depot =
     (case validateDepotName depot of
        Some e \<Rightarrow> (Some e, s)
      | None \<Rightarrow> (case fs_MkdirAll (fwFiles s) (depotPath depot) of (e, f) \<Rightarrow> (map_option FSFailed e, s\<lparr>fwFiles := f\<rparr>)))"

definition validateDepot :: "'s fw_env \<Rightarrow> 's fw_state \<Rightarrow> string \<Rightarrow> fw_error option \<times> 's fw_state" where
  "validateDepot E s depot =
     (case validateDepotName depot of
        Some e \<Rightarrow> (Some e, s)
      | None \<Rightarrow>
          (case getDepotMetadata E s depot of
             (Inl e, s1) \<Rightarrow> (Some e, s1)
           | (Inr _, s1) \<Rightarrow>
               (case fs_Stat (fwFiles s1) (depotPath depot) of
                  (r, f) \<Rightarrow>
                    (case r of
                       Inl NotExist \<Rightarrow> Some DepotFilesMissing
                     | Inl e \<Rightarrow> Some (FSFailed e)
                     | Inr (FileNode _) \<Rightarrow> Some NotADirectory
                     | Inr (DirNode _) \<Rightarrow> None,
                     s1\<lparr>fwFiles := f\<rparr>))))"

section \<open>Scans\<close>

definition scanDepotNames :: "'s fw_env \<Rightarrow> 's fw_state \<Rightarrow> fw_error + string list" where
  "scanDepotNames E s =
     (case listDepotMetadata E s of
        Inl e \<Rightarrow> Inl e
      | Inr ds \<Rightarrow>
          (case List.find (\<lambda>d. validateDepotName (dname d) \<noteq> None) ds of
             Some d \<Rightarrow> Inl (the (validateDepotName (dname d)))
           | None \<Rightarrow> Inr (sort (map dname ds))))"

definition scanDepot :: "'s fw_env \<Rightarrow> 's fw_state \<Rightarrow> string \<Rightarrow> (fw_error + depot) \<times> 's fw_state" where
  "scanDepot E s name =
     (case getDepotMetadata E s name of
        (Inl e, s1) \<Rightarrow> (Inl e, s1)
      | (Inr d, s1) \<Rightarrow> (case validateVersionOrder d of Some e \<Rightarrow> Inl e | None \<Rightarrow> Inr d, s1))"

definition scanRelease ::
  "'s fw_env \<Rightarrow> 's fw_state \<Rightarrow> string \<Rightarrow> channel \<Rightarrow> (fw_error + depot_release) \<times> 's fw_state" where
  "scanRelease E s depot c =
     (case scanDepot E s depot of
        (Inl e, s1) \<Rightarrow> (Inl e, s1)
      | (Inr snapshot, s1) \<Rightarrow>
          (case depotRelease snapshot c of
             (release, ok) \<Rightarrow>
               if \<not> ok then (Inl ChannelNotFound, s1)
               else (case validateReleaseAgainstFiles E (fwFiles s1) (channelPath depot c) release of
                   (e, f) \<Rightarrow>
                     (case e of Some x \<Rightarrow> Inl x | None \<Rightarrow> Inr (normalizeDepotRelease release), s1\<lparr>fwFiles := f\<rparr>))))"

record ota_summary =
  otaChannel :: channel
  otaDepot :: string
  otaFiles :: "depot_file list"
  otaSemver :: string

text \<open>Errors of the file check are wrapped as \<open>FirmwareNotFound\<close>.\<close>

definition resolveOTA ::
  "'s fw_env \<Rightarrow> 's fw_state \<Rightarrow> string \<Rightarrow> channel \<Rightarrow> (fw_error + ota_summary) \<times> 's fw_state" where
  "resolveOTA E s depotName c =
     (case scanDepot E s depotName of
        (Inl e, s1) \<Rightarrow> (Inl e, s1)
      | (Inr d, s1) \<Rightarrow>
          (case depotRelease d c of
             (release, ok) \<Rightarrow>
               if \<not> ok then (Inl FirmwareNotFound, s1)
               else (case validateReleaseAgainstFiles E (fwFiles s1) (channelPath depotName c) release of
                   (Some _, f) \<Rightarrow> (Inl FirmwareNotFound, s1\<lparr>fwFiles := f\<rparr>)
                 | (None, f) \<Rightarrow>
                     (Inr \<lparr>otaChannel = c, otaDepot = depotName, otaFiles = releaseFiles release,
                        otaSemver = rsemver release\<rparr>, s1\<lparr>fwFiles := f\<rparr>))))"

text \<open>The file a gear downloads, with the digests of the release; \<open>Stat\<close> on the open file may fail.\<close>

definition resolveOTAFile ::
  "'s fw_env \<Rightarrow> 's fw_state \<Rightarrow> string \<Rightarrow> channel \<Rightarrow> string \<Rightarrow> (fw_error + node \<times> string \<times> string) \<times> 's fw_state" where
  "resolveOTAFile E s depotName c relativePath =
     (case validateRelativePath relativePath of
        Some e \<Rightarrow> (Inl e, s)
      | None \<Rightarrow>
          (case scanDepot E s depotName of
             (Inl _, s1) \<Rightarrow> (Inl FirmwareNotFound, s1)
           | (Inr d, s1) \<Rightarrow>
               (case depotRelease d c of
                  (release, ok) \<Rightarrow>
                    if \<not> ok then (Inl FirmwareNotFound, s1)
                    else (case List.find (\<lambda>x. fpath x = relativePath) (releaseFiles release) of
                        None \<Rightarrow> (Inl FirmwareNotFound, s1)
                      | Some x \<Rightarrow>
                          (case fs_Open (fwFiles s1) (path_Join [channelPath depotName c, relativePath]) of
                             (Inl NotExist, f) \<Rightarrow> (Inl FirmwareNotFound, s1\<lparr>fwFiles := f\<rparr>)
                           | (Inl e, f) \<Rightarrow> (Inl (FSFailed e), s1\<lparr>fwFiles := f\<rparr>)
                           | (Inr n, f) \<Rightarrow>
                               (case faulty f of
                                  (stat_fails, f1) \<Rightarrow>
                                    (if stat_fails then Inl (FSFailed OtherError) else Inr (n, fmd5 x, fsha256 x),
                                     s1\<lparr>fwFiles := f1\<rparr>)))))))"

end
