(* ===== verification/DepotSwitch.thy ===== *)
theory DepotSwitch
  imports Depot
begin

text \<open>
  \<open>pkg/gizclaw/firmware/switch.go\<close> and \<open>upload.go\<close>: releasing a depot, rolling it back and uploading a channel.
  The lock of a depot makes each of them one step.
\<close>

section \<open>Moving channels\<close>

definition backupPath :: "string \<Rightarrow> string \<Rightarrow> string" where
  "backupPath depot c = path_Join [depotPath depot, ''.bak-'' @ c]"

text \<open>The first loop of \<open>prepareSwitch\<close>: what exists is renamed to its backup.\<close>

fun backup_loop ::
  "string \<Rightarrow> (string \<times> string) list \<Rightarrow> (string \<times> string) list \<Rightarrow> filesys \<Rightarrow> (fs_error + (string \<times> string) list) \<times> filesys" where
  "backup_loop depot [] backups f = (Inr backups, f)"
| "backup_loop depot ((c, currentPath) # paths) backups f =
     (let f1 = snd (fs_RemoveAll f (backupPath depot c)) in
      case fs_Stat f1 currentPath of
        (Inr _, f2) \<Rightarrow>
          (case fs_Rename f2 currentPath (backupPath depot c) of
             (Some e, f3) \<Rightarrow> (Inl e, f3)
           | (None, f3) \<Rightarrow> backup_loop depot paths (backups @ [(c, backupPath depot c)]) f3)
      | (Inl NotExist, f2) \<Rightarrow> backup_loop depot paths backups f2
      | (Inl e, f2) \<Rightarrow> (Inl e, f2))"

definition path_of :: "(string \<times> string) list \<Rightarrow> string \<Rightarrow> string" where
  "path_of paths c = (case map_of paths c of None \<Rightarrow> [] | Some p \<Rightarrow> p)"

text \<open>Renames in turn; the first error that is not \<open>ErrNotExist\<close> is kept.\<close>

fun rename_all :: "(string \<times> string) list \<Rightarrow> fs_error option \<Rightarrow> filesys \<Rightarrow> fs_error option \<times> filesys" where
  "rename_all [] firstErr f = (firstErr, f)"
| "rename_all ((p, q) # moves) firstErr f =
     (case fs_Rename f p q of
        (e, f1) \<Rightarrow> rename_all moves (if e \<noteq> None \<and> e \<noteq> Some NotExist \<and> firstErr = None then e else firstErr) f1)"

definition restore_switch ::
  "'s fw_env \<Rightarrow> (string \<times> string) list \<Rightarrow> (string \<times> string) list \<Rightarrow> (string \<times> string) list \<Rightarrow> filesys \<Rightarrow> fs_error option \<times> filesys" where
  "restore_switch E paths backups applied f =
     (case rename_all (map (\<lambda>(target, source). (path_of paths target, path_of backups source)) (mapOrder E 2 applied)) None f of
        (e, f1) \<Rightarrow> rename_all (map (\<lambda>(c, b). (b, path_of paths c)) (mapOrder E 3 backups)) e f1)"

text \<open>The second loop: the backup of the source becomes the target.  The flag says that it went to the end.\<close>

fun layout_loop ::
  "(string \<times> string) list \<Rightarrow> (string \<times> string) list \<Rightarrow> (string \<times> string) list \<Rightarrow> (string \<times> string) list \<Rightarrow> filesys \<Rightarrow>
    fs_error option \<times> (string \<times> string) list \<times> filesys" where
  "layout_loop paths backups [] applied f = (None, applied, f)"
| "layout_loop paths backups ((target, source) # layout) applied f =
     (case map_of backups source of
        None \<Rightarrow> layout_loop paths backups layout applied f
      | Some sourcePath \<Rightarrow>
          (case fs_Rename f sourcePath (path_of paths target) of
             (Some e, f1) \<Rightarrow> (Some e, applied, f1)
           | (None, f1) \<Rightarrow> layout_loop paths backups layout (applied @ [(target, source)]) f1))"

definition prepareSwitch ::
  "'s fw_env \<Rightarrow> filesys \<Rightarrow> string \<Rightarrow> (string \<times> string) list \<Rightarrow> (string \<times> string) list \<Rightarrow>
    (fs_error + (string \<times> string) list \<times> (string \<times> string) list) \<times> filesys" where
  "prepareSwitch E f depot paths layout =
     (case backup_loop depot (mapOrder E 0 paths) [] f of
        (Inl e, f1) \<Rightarrow> (Inl e, f1)
      | (Inr backups, f1) \<Rightarrow>
          (case layout_loop paths backups (mapOrder E 1 layout) [] f1 of
             (Some e, applied, f2) \<Rightarrow> (Inl e, snd (restore_switch E paths backups applied f2))
           | (None, applied, f2) \<Rightarrow> (Inr (backups, applied), f2)))"

definition rewriteManifestChannel ::
  "'s fw_env \<Rightarrow> filesys \<Rightarrow> string \<Rightarrow> channel \<Rightarrow> fw_error option \<times> filesys" where
  "rewriteManifestChannel E f depot c =
     (case fs_ReadFile f (manifestPath depot c) of
        (Inl NotExist, f1) \<Rightarrow> (Some ChannelNotFound, f1)
      | (Inl e, f1) \<Rightarrow> (Some (FSFailed e), f1)
      | (Inr data, f1) \<Rightarrow>
          (case parseManifest E data of
             Inl e \<Rightarrow> (Some e, f1)
           | Inr r \<Rightarrow> writeManifest E f1 (manifestPath depot c) (r\<lparr>rchannel := stringPtr c\<rparr>)))"

fun cleanupBackups :: "(string \<times> string) list \<Rightarrow> filesys \<Rightarrow> filesys" where
  "cleanupBackups [] f = f"
| "cleanupBackups ((c, b) # backups) f = cleanupBackups backups (snd (fs_RemoveAll f b))"

section \<open>Release and rollback\<close>

text \<open>The channels that must be there are scanned, the others only if they are.\<close>

fun scan_channels ::
  "'s fw_env \<Rightarrow> string \<Rightarrow> depot \<Rightarrow> (channel \<times> bool) list \<Rightarrow> 's fw_state \<Rightarrow> fw_error option \<times> 's fw_state" where
  "scan_channels E depot d [] s = (None, s)"
| "scan_channels E depot d ((c, required) # cs) s =
     (if \<not> required \<and> \<not> snd (depotRelease d c) then scan_channels E depot d cs s
      else case scanRelease E s depot c of
          (Inl e, s1) \<Rightarrow> (Some e, s1)
        | (Inr _, s1) \<Rightarrow> scan_channels E depot d cs s1)"

fun rewrite_channels ::
  "'s fw_env \<Rightarrow> string \<Rightarrow> (channel \<times> bool) list \<Rightarrow> filesys \<Rightarrow> fw_error option \<times> filesys" where
  "rewrite_channels E depot [] f = (None, f)"
| "rewrite_channels E depot ((c, required) # cs) f =
     (case rewriteManifestChannel E f depot c of
        (Some e, f1) \<Rightarrow>
          if e = ChannelNotFound \<and> \<not> required then rewrite_channels E depot cs f1 else (Some e, f1)
      | (None, f1) \<Rightarrow> rewrite_channels E depot cs f1)"

text \<open>
  What \<open>releaseDepot\<close> and \<open>rollbackDepot\<close> do from \<open>prepareSwitch\<close> on: the manifests and the metadata are
  written, and unless all that went well the channels are put back.
\<close>

definition commit_switch ::
  "'s fw_env \<Rightarrow> 's fw_state \<Rightarrow> string \<Rightarrow> (string \<times> string) list \<Rightarrow> (string \<times> string) list \<Rightarrow> (channel \<times> bool) list \<Rightarrow>
    depot \<Rightarrow> (fw_error + depot) \<times> 's fw_state" where
  "commit_switch E s depot paths layout rewrites next' =
     (case prepareSwitch E (fwFiles s) depot paths layout of
        (Inl e, f) \<Rightarrow> (Inl (FSFailed e), s\<lparr>fwFiles := f\<rparr>)
      | (Inr (backups, applied), f) \<Rightarrow>
          (case rewrite_channels E depot rewrites f of
             (Some e, f1) \<Rightarrow> (Inl e, s\<lparr>fwFiles := snd (restore_switch E paths backups applied f1)\<rparr>)
           | (None, f1) \<Rightarrow>
               (case writeDepotMetadata E (s\<lparr>fwFiles := f1\<rparr>) next' of
                  (Some e, s2) \<Rightarrow> (Inl e, s2\<lparr>fwFiles := snd (restore_switch E paths backups applied (fwFiles s2))\<rparr>)
                | (None, s2) \<Rightarrow> (Inr next', s2\<lparr>fwFiles := cleanupBackups (mapOrder E 4 backups) (fwFiles s2)\<rparr>))))"

definition channel_paths :: "string \<Rightarrow> channel list \<Rightarrow> (string \<times> string) list" where
  "channel_paths depot cs = map (\<lambda>c. (c, channelPath depot c)) cs"

definition releaseDepot :: "'s fw_env \<Rightarrow> 's fw_state \<Rightarrow> string \<Rightarrow> (fw_error + depot) \<times> 's fw_state" where
  "releaseDepot E s depot =
     (case validateDepot E s depot of
        (Some e, s1) \<Rightarrow> (Inl e, s1)
      | (None, s1) \<Rightarrow>
          (case scanDepot E s1 depot of
             (Inl e, s2) \<Rightarrow> (Inl e, s2)
           | (Inr current, s2) \<Rightarrow>
               (case scan_channels E depot current [(Beta, True), (Testing, True), (Stable, False)] s2 of
                  (Some e, s3) \<Rightarrow> (Inl e, s3)
                | (None, s3) \<Rightarrow>
                    commit_switch E s3 depot (channel_paths depot [Rollback, Stable, Beta, Testing])
                      [(Stable, Beta), (Beta, Testing), (Rollback, Stable)]
                      [(Rollback, False), (Stable, False), (Beta, False)]
                      (current\<lparr>drollback := releaseWithChannel (dstable current) Rollback,
                         dstable := releaseWithChannel (dbeta current) Stable,
                         dbeta := releaseWithChannel (dtesting current) Beta,
                         dtesting := no_release\<rparr>))))"

definition rollbackDepot :: "'s fw_env \<Rightarrow> 's fw_state \<Rightarrow> string \<Rightarrow> (fw_error + depot) \<times> 's fw_state" where
  "rollbackDepot E s depot =
     (case validateDepot E s depot of
        (Some e, s1) \<Rightarrow> (Inl e, s1)
      | (None, s1) \<Rightarrow>
          (case scanDepot E s1 depot of
             (Inl e, s2) \<Rightarrow> (Inl e, s2)
           | (Inr current, s2) \<Rightarrow>
               (case scan_channels E depot current [(Rollback, True), (Stable, False)] s2 of
                  (Some e, s3) \<Rightarrow> (Inl e, s3)
                | (None, s3) \<Rightarrow>
                    commit_switch E s3 depot (channel_paths depot [Stable, Rollback])
                      [(Stable, Rollback), (Rollback, Stable)]
                      [(Stable, True), (Rollback, False)]
                      (current\<lparr>dstable := releaseWithChannel (drollback current) Stable,
                         drollback := releaseWithChannel (dstable current) Rollback\<rparr>))))"

section \<open>Upload\<close>

text \<open>What \<open>archive/tar\<close> reads: entries, with their data unless reading it fails, and errors.\<close>

datatype tar_item = TarEntry bool string "byte list option" | TarError

fun extract_loop ::
  "'s fw_env \<Rightarrow> channel \<Rightarrow> tar_item list \<Rightarrow> string list \<Rightarrow> depot_release option \<Rightarrow> (string \<times> byte list) list \<Rightarrow>
    fw_error + depot_release option \<times> (string \<times> byte list) list" where
  "extract_loop E want [] seen manifest files = Inr (manifest, files)"
| "extract_loop E want (TarError # items) seen manifest files = Inl TarFailed"
| "extract_loop E want (TarEntry regular name data # items) seen manifest files =
     (if \<not> regular then Inl IllegalEntry
      else case validateRelativePath name of
          Some e \<Rightarrow> Inl e
        | None \<Rightarrow>
            if name \<in> set seen then Inl DuplicateEntry
            else case data of
                None \<Rightarrow> Inl TarFailed
              | Some d \<Rightarrow>
                  if name = ''manifest.json'' then
                    (case parseManifest E d of
                       Inl e \<Rightarrow> Inl e
                     | Inr r \<Rightarrow>
                         if releaseChannel r \<noteq> want then Inl ChannelMismatch
                         else extract_loop E want items (name # seen) (Some r) files)
                  else extract_loop E want items (name # seen) manifest (files @ [(name, d)]))"

fun write_files ::
  "filesys \<Rightarrow> string \<Rightarrow> depot_file list \<Rightarrow> (string \<times> byte list) list \<Rightarrow> (fw_error + (string \<times> byte list) list) \<times> filesys" where
  "write_files f dst [] files = (Inr files, f)"
| "write_files f dst (x # xs) files =
     (case map_of files (fpath x) of
        None \<Rightarrow> (Inl MissingManifestFile, f)
      | Some data \<Rightarrow>
          (case fs_WriteFile f (path_Join [dst, fpath x]) data of
             (Some e, f1) \<Rightarrow> (Inl (FSFailed e), f1)
           | (None, f1) \<Rightarrow> write_files f1 dst xs (AList.delete (fpath x) files)))"

definition extractTar ::
  "'s fw_env \<Rightarrow> filesys \<Rightarrow> string \<Rightarrow> channel \<Rightarrow> tar_item list \<Rightarrow> (fw_error + depot_release) \<times> filesys" where
  "extractTar E f dst want items =
     (case extract_loop E want items [] None [] of
        Inl e \<Rightarrow> (Inl e, f)
      | Inr (None, _) \<Rightarrow> (Inl ManifestMissing, f)
      | Inr (Some manifest, files) \<Rightarrow>
          (case write_files f dst (releaseFiles manifest) files of
             (Inl e, f1) \<Rightarrow> (Inl e, f1)
           | (Inr rest, f1) \<Rightarrow>
               if rest \<noteq> [] then (Inl FilesMismatch, f1)
               else (case writeManifest E f1 (path_Join [dst, ''manifest.json'']) manifest of
                   (Some e, f2) \<Rightarrow> (Inl e, f2)
                 | (None, f2) \<Rightarrow>
                     (case validateReleaseAgainstFiles E f2 dst manifest of
                        (Some e, f3) \<Rightarrow> (Inl e, f3)
                      | (None, f3) \<Rightarrow> (Inr manifest, f3)))))"

text \<open>From the swap of the directories on; the flag says that there was a previous channel.\<close>

definition put_back :: "bool \<Rightarrow> string \<Rightarrow> string \<Rightarrow> filesys \<Rightarrow> filesys" where
  "put_back hadPrevious swapPath targetPath f = (if hadPrevious then snd (fs_Rename f swapPath targetPath) else f)"

definition install_upload ::
  "'s fw_env \<Rightarrow> 's fw_state \<Rightarrow> depot \<Rightarrow> channel \<Rightarrow> string \<Rightarrow> string \<Rightarrow> depot_release \<Rightarrow> (fw_error + depot_release) \<times> 's fw_state" where
  "install_upload E s snapshot c tmpPath targetPath release =
     (let swapPath = targetPath @ ''.old'';
          f0 = snd (fs_RemoveAll (fwFiles s) swapPath)
      in case fs_Stat f0 targetPath of (st, f1) \<Rightarrow>
        let hadPrevious = (case st of Inl _ \<Rightarrow> False | Inr _ \<Rightarrow> True) in
        case (if hadPrevious then fs_Rename f1 targetPath swapPath else (None, f1)) of
          (Some e, f2) \<Rightarrow> (Inl (FSFailed e), s\<lparr>fwFiles := f2\<rparr>)
        | (None, f2) \<Rightarrow>
            (case fs_Rename f2 tmpPath targetPath of
               (Some e, f3) \<Rightarrow> (Inl (FSFailed e), s\<lparr>fwFiles := put_back hadPrevious swapPath targetPath f3\<rparr>)
             | (None, f3) \<Rightarrow>
                 (case writeDepotMetadata E (s\<lparr>fwFiles := f3\<rparr>) (setDepotRelease snapshot c (normalizeDepotRelease release)) of
                    (Some e, s4) \<Rightarrow>
                      (Inl e, s4\<lparr>fwFiles := put_back hadPrevious swapPath targetPath (snd (fs_RemoveAll (fwFiles s4) targetPath))\<rparr>)
                  | (None, s4) \<Rightarrow>
                      (Inr (normalizeDepotRelease release), s4\<lparr>fwFiles := snd (fs_RemoveAll (fwFiles s4) swapPath)\<rparr>))))"

text \<open>Once the temporary directory is there it is removed at the end, whatever happens.\<close>

definition upload_into ::
  "'s fw_env \<Rightarrow> 's fw_state \<Rightarrow> string \<Rightarrow> channel \<Rightarrow> string \<Rightarrow> tar_item list \<Rightarrow> (fw_error + depot_release) \<times> 's fw_state" where
  "upload_into E s depot c tmpPath items =
     (case extractTar E (fwFiles s) tmpPath c items of
        (Inl e, f) \<Rightarrow> (Inl e, s\<lparr>fwFiles := f\<rparr>)
      | (Inr release, f) \<Rightarrow>
          (case scanDepot E (s\<lparr>fwFiles := f\<rparr>) depot of
             (Inl e, s1) \<Rightarrow>
               if e \<noteq> DepotNotFound then (Inl e, s1)
               else install_upload E s1 (empty_depot depot) c tmpPath (channelPath depot c) release
           | (Inr snapshot, s1) \<Rightarrow>
               if infoFiles (dinfo snapshot) \<noteq> [] \<and> \<not> sameInfoFiles (dinfo snapshot) release then (Inl FilesMismatch, s1)
               else install_upload E s1 snapshot c tmpPath (channelPath depot c) release))"

definition uploadTar ::
  "'s fw_env \<Rightarrow> 's fw_state \<Rightarrow> string \<Rightarrow> channel \<Rightarrow> tar_item list \<Rightarrow> (fw_error + depot_release) \<times> 's fw_state" where
  "uploadTar E s depot c items =
     (if \<not> channel_Valid c then (Inl InvalidChannel, s)
      else case ensureDepot s depot of
          (Some e, s1) \<Rightarrow> (Inl e, s1)
        | (None, s1) \<Rightarrow>
            (let tmpPath = tempPath depot c;
                 f0 = snd (fs_RemoveAll (fwFiles s1) tmpPath)
             in case fs_MkdirAll f0 tmpPath of
                  (Some e, f1) \<Rightarrow> (Inl (FSFailed e), s1\<lparr>fwFiles := f1\<rparr>)
                | (None, f1) \<Rightarrow>
                    (case upload_into E (s1\<lparr>fwFiles := f1\<rparr>) depot c tmpPath items of
                       (r, s2) \<Rightarrow> (r, s2\<lparr>fwFiles := snd (fs_RemoveAll (fwFiles s2) tmpPath)\<rparr>))))"

end
