(* ===== verification/DepotRelease.thy ===== *)
theory DepotRelease
  imports DepotSwitch "HOL-Library.Multiset"
begin

text \<open>
  What releasing and rolling back a depot do to its channels: every channel directory is one entry of the
  directory of the depot, and the switch is a permutation of these entries, however the loops over Go maps
  run; a switch that does not commit puts them back.
\<close>

section \<open>Paths of a depot\<close>

lemma depot_parts:
  assumes "validateDepotName depot = None"
  shows "proper (split_on CHR ''/'' depot)"
  using assms split_on_sep_free [of _ "CHR ''/''" depot]
  by (auto simp: validateDepotName_def proper_def list_ex_iff split: if_splits)

definition depot_dir :: "filesys \<Rightarrow> string \<Rightarrow> string list" where
  "depot_dir f depot = fsroot f @ split_on CHR ''/'' depot"

lemma depot_dir_keeps: "keeps f f' \<Longrightarrow> depot_dir f' depot = depot_dir f depot"
  by (simp add: depot_dir_def keeps_root)

lemma depot_abs: "validateDepotName depot = None \<Longrightarrow> fs_abs f (depotPath depot) = depot_dir f depot"
  using abs_proper [of "split_on CHR ''/'' depot" f] depot_parts [of depot] by (simp add: depotPath_def depot_dir_def join_split)

lemma join_entry:
  assumes "validateDepotName depot = None" "proper qs" "qs \<noteq> []"
  shows "path_Join [depot, join_on CHR ''/'' qs] = join_on CHR ''/'' (split_on CHR ''/'' depot @ qs)"
  using Join_proper [of "split_on CHR ''/'' depot" qs] depot_parts [OF assms(1)] assms by (simp add: join_split)

lemma entry_abs:
  assumes "validateDepotName depot = None" "proper qs" "qs \<noteq> []"
  shows "fs_abs f (path_Join [depot, join_on CHR ''/'' qs]) = depot_dir f depot @ qs"
  using abs_proper [of "split_on CHR ''/'' depot @ qs" f] depot_parts [OF assms(1)] assms
  by (simp add: join_entry depot_dir_def)

definition bak :: "string \<Rightarrow> string" where
  "bak c = ''.bak-'' @ c"

lemma bak_eq [simp]: "bak c = bak d \<longleftrightarrow> c = d"
  by (simp add: bak_def)

lemma channel_abs:
  assumes "validateDepotName depot = None" "proper [c]"
  shows "fs_abs f (channelPath depot c) = depot_dir f depot @ [c]"
  using entry_abs [OF assms(1), of "[c]" f] assms(2) by (simp add: channelPath_def depotPath_def)

lemma backup_abs:
  assumes "validateDepotName depot = None" "proper [c]"
  shows "fs_abs f (backupPath depot c) = depot_dir f depot @ [bak c]"
  using entry_abs [OF assms(1), of "[bak c]" f] assms(2) by (simp add: backupPath_def depotPath_def bak_def)

lemma manifest_abs:
  assumes "validateDepotName depot = None" "proper [c]"
  shows "fs_abs f (manifestPath depot c) = depot_dir f depot @ [c, ''manifest.json'']"
proof -
  have "path_Join [channelPath depot c, ''manifest.json''] = path_Join [depot, join_on CHR ''/'' [c, ''manifest.json'']]"
    using Join_proper [of "split_on CHR ''/'' depot @ [c]" "[''manifest.json'']"] join_entry [OF assms(1), of "[c]"]
      join_entry [OF assms(1), of "[c, ''manifest.json'']"] depot_parts [OF assms(1)] assms(2)
    by (simp add: channelPath_def depotPath_def)
  then show ?thesis using entry_abs [OF assms(1), of "[c, ''manifest.json'']" f] assms(2) by (simp add: manifestPath_def)
qed

lemma channel_proper: "channel_Valid c \<Longrightarrow> proper [c]"
  by (auto simp: channel_Valid_def channel_defs)

lemma not_valid_bak [simp]: "\<not> channel_Valid (bak c)"
  by (auto simp: channel_Valid_def channel_defs bak_def)

lemma bak_neq [simp]: "channel_Valid c \<Longrightarrow> c \<noteq> bak d" "channel_Valid c \<Longrightarrow> bak d \<noteq> c"
  by (auto simp: channel_Valid_def channel_defs bak_def)

lemma rename_channel:
  assumes "at_dir f (depot_dir f depot) r M" "validateDepotName depot = None" "channel_Valid c" "channel_Valid d"
  shows "fs_Rename f (channelPath depot c) (backupPath depot d) = (res, f') \<Longrightarrow> keeps f f' \<and>
      ((\<exists>n. res = None \<and> M c = Some n \<and> at_dir f' (depot_dir f depot) r (M(c := None, bak d := Some n))) \<or>
       res \<noteq> None \<and> at_dir f' (depot_dir f depot) r M \<and> (faults f \<noteq> [] \<or> M c = None \<or> M (bak d) \<noteq> None))"
    and "fs_Rename f (backupPath depot d) (channelPath depot c) = (res, f') \<Longrightarrow> keeps f f' \<and>
      ((\<exists>n. res = None \<and> M (bak d) = Some n \<and> at_dir f' (depot_dir f depot) r (M(bak d := None, c := Some n))) \<or>
       res \<noteq> None \<and> at_dir f' (depot_dir f depot) r M \<and> (faults f \<noteq> [] \<or> M (bak d) = None \<or> M c \<noteq> None))"
  using assms(3,4) fs_rename_entry [OF assms(1)] channel_abs [OF assms(2) channel_proper [OF assms(3)]]
    backup_abs [OF assms(2) channel_proper [OF assms(4)]] by (blast dest: bak_neq)+

section \<open>The loops\<close>

text \<open>What the first loop leaves: the channels are gone and their backups are what they were.\<close>

definition backed_up :: "string list \<Rightarrow> (string \<Rightarrow> node option) \<Rightarrow> (string \<Rightarrow> node option) \<Rightarrow> bool" where
  "backed_up cs M M' \<longleftrightarrow>
     (\<forall>c \<in> set cs. M' c = None \<and> (M c \<noteq> None \<longrightarrow> M' (bak c) = M c)) \<and>
     (\<forall>z. z \<notin> set cs \<and> z \<notin> bak ` set cs \<longrightarrow> M' z = M z)"

lemma backed_up_step:
  assumes "backed_up cs M2 M'" "c \<notin> set cs" "\<forall>d \<in> set (c # cs). channel_Valid d"
    and "M2 c = None" "M c \<noteq> None \<longrightarrow> M2 (bak c) = M c" "\<forall>z. z \<noteq> c \<and> z \<noteq> bak c \<longrightarrow> M2 z = M z"
  shows "backed_up (c # cs) M M'"
proof -
  have "c \<notin> bak ` set cs" "bak c \<notin> set cs" "bak c \<notin> bak ` set cs" using assms(2,3) by auto
  then have "M' c = M2 c" "M' (bak c) = M2 (bak c)" using assms(1,2) by (simp_all add: backed_up_def)
  moreover have "M2 d = M d" if "d \<in> set cs" for d
  proof -
    have "d \<noteq> c" "channel_Valid d" using assms(2,3) that by auto
    then show ?thesis using assms(6) by auto
  qed
  ultimately show ?thesis using assms by (auto simp: backed_up_def)
qed

lemma backup_loop_result:
  assumes "at_dir f D r M" "D = depot_dir f depot" "validateDepotName depot = None"
    and "distinct (map fst paths)" "\<forall>(c, p) \<in> set paths. channel_Valid c \<and> p = channelPath depot c"
    and "backup_loop depot paths bs f = (res, f')"
  shows "keeps f f' \<and> (faults f = [] \<longrightarrow> (\<exists>bs'. res = Inr bs')) \<and>
    (\<forall>bs'. res = Inr bs' \<longrightarrow>
       bs' = bs @ map (\<lambda>(c, p). (c, backupPath depot c)) (filter (\<lambda>(c, p). M c \<noteq> None) paths) \<and>
       (\<exists>M'. at_dir f' D r M' \<and> backed_up (map fst paths) M M'))"
  using assms
proof (induction paths arbitrary: M bs f)
  case Nil
  then show ?case by (auto simp: backed_up_def)
next
  case (Cons x paths)
  obtain c p where x: "x = (c, p)" by (cases x)
  have c: "channel_Valid c" and p: "p = channelPath depot c" using Cons.prems(5) by (auto simp: x)
  have ps: "distinct (map fst paths)" "c \<notin> set (map fst paths)" "\<forall>(c, p) \<in> set paths. channel_Valid c \<and> p = channelPath depot c"
    "\<forall>d \<in> set (c # map fst paths). channel_Valid d"
    using Cons.prems(4,5) by (auto simp: x)
  obtain e1 f1 where 1: "fs_RemoveAll f (backupPath depot c) = (e1, f1)" by (cases "fs_RemoveAll f (backupPath depot c)")
  have "os_RemoveAll f (D @ [bak c]) = (e1, f1)"
    using 1 Cons.prems(2) by (simp add: fs_RemoveAll_def backup_abs [OF Cons.prems(3) channel_proper [OF c]])
  then obtain M1 where M1: "keeps f f1" "at_dir f1 D r M1" "M1 = M \<or> M1 = M(bak c := None)" "faults f = [] \<longrightarrow> M1 (bak c) = None"
    using remove_entry [OF Cons.prems(1)] by fastforce
  then have M1c: "M1 z = M z" if "z \<noteq> bak c" for z using that by auto
  obtain st f2 where 2: "fs_Stat f1 p = (st, f2)" by (cases "fs_Stat f1 p")
  have D1: "depot_dir f1 depot = D" using Cons.prems(2) M1(1) by (simp add: depot_dir_keeps)
  have "os_stat f1 (D @ c # []) = (st, f2)"
    using 2 by (simp add: fs_Stat_def p channel_abs [OF Cons.prems(3) channel_proper [OF c]] D1)
  then have s2: "keeps f1 f2 \<and> at_dir f2 D r M1 \<and>
      (st = Inl OtherError \<and> faults f1 \<noteq> [] \<or> st = (case M1 c of None \<Rightarrow> Inl NotExist | Some n \<Rightarrow> Inr n))"
    using stat_entry [OF M1(2), of c "[]" st f2] by (auto split: option.splits)
  have k2: "keeps f f2" using M1(1) s2 by (blast intro: keeps_trans)
  have D2: "D = depot_dir f2 depot" using Cons.prems(2) k2 by (simp add: depot_dir_keeps)
  have c1: "M1 c = M c" using M1c [of c] c by simp
  show ?case
  proof (cases st)
    case (Inl e)
    show ?thesis
    proof (cases "e = NotExist")
      case True
      then have Mc: "M c = None" using s2 Inl c1 by (auto split: option.splits)
      have "backup_loop depot paths bs f2 = (res, f')"
        using Cons.prems(6) by (simp add: x 1 2 Inl True)
      from Cons.IH [OF _ D2 Cons.prems(3) ps(1,3) this] s2
      have I: "keeps f2 f'" "faults f2 = [] \<longrightarrow> (\<exists>bs'. res = Inr bs')"
        "\<forall>bs'. res = Inr bs' \<longrightarrow> bs' = bs @ map (\<lambda>(c, p). (c, backupPath depot c)) (filter (\<lambda>(c, p). M1 c \<noteq> None) paths) \<and>
          (\<exists>M'. at_dir f' D r M' \<and> backed_up (map fst paths) M1 M')" by blast+
      have "filter (\<lambda>(c, p). M1 c \<noteq> None) paths = filter (\<lambda>(c, p). M c \<noteq> None) (x # paths)"
        using ps(4) M1c by (auto simp: x Mc intro!: filter_cong)
      moreover have "backed_up (map fst paths) M1 M' \<Longrightarrow> backed_up (map fst (x # paths)) M M'" for M'
        using backed_up_step [OF _ ps(2,4), of M1 M' M] Mc c1 M1c by (simp add: x)
      ultimately show ?thesis using I k2 by (fastforce intro: keeps_trans simp: keeps_def)
    next
      case False
      then have "res = Inl e" "f' = f2" using Cons.prems(6) by (cases e; auto simp: x 1 2 Inl)+
      then show ?thesis using k2 s2 M1 Inl False by (auto simp: keeps_def split: option.splits)
    qed
  next
    case (Inr n)
    then have Mc: "M c = Some n" using s2 c1 by (auto split: option.splits)
    obtain e3 f3 where 3: "fs_Rename f2 p (backupPath depot c) = (e3, f3)" by (cases "fs_Rename f2 p (backupPath depot c)")
    note R = rename_channel(1) [OF _ Cons.prems(3) c c, of f2 r M1, folded D2, OF _ 3 [unfolded p]]
    have k3: "keeps f f3" using R s2 k2 by (blast intro: keeps_trans)
    show ?thesis
    proof (cases e3)
      case (Some e)
      then have "res = Inl e" "f' = f3" using Cons.prems(6) by (auto simp: x 1 2 Inr 3)
      moreover have "faults f \<noteq> []"
        using R s2 Some M1(4) Mc c1 k2 by (auto simp: keeps_def)
      ultimately show ?thesis using k3 by simp
    next
      case None
      let ?M3 = "M1(c := None, bak c := Some n)"
      have 4: "at_dir f3 D r ?M3" using R s2 None Mc c1 by auto
      have D3: "D = depot_dir f3 depot" using Cons.prems(2) k3 by (simp add: depot_dir_keeps)
      have "backup_loop depot paths (bs @ [(c, backupPath depot c)]) f3 = (res, f')"
        using Cons.prems(6) by (simp add: x 1 2 Inr 3 None)
      from Cons.IH [OF 4 D3 Cons.prems(3) ps(1,3) this]
      have I: "keeps f3 f'" "faults f3 = [] \<longrightarrow> (\<exists>bs'. res = Inr bs')"
        "\<forall>bs'. res = Inr bs' \<longrightarrow> bs' = (bs @ [(c, backupPath depot c)]) @ map (\<lambda>(c, p). (c, backupPath depot c)) (filter (\<lambda>(c, p). ?M3 c \<noteq> None) paths) \<and>
          (\<exists>M'. at_dir f' D r M' \<and> backed_up (map fst paths) ?M3 M')" by blast+
      have Md: "?M3 d = M d" if "d \<in> set (map fst paths)" for d
      proof -
        have "d \<noteq> c" "channel_Valid d" using that ps(2,4) by auto
        then show ?thesis using M1c [of d] by auto
      qed
      have "filter (\<lambda>(c, p). ?M3 c \<noteq> None) paths = filter (\<lambda>(c, p). M c \<noteq> None) paths"
        by (rule filter_cong [OF refl], clarify, drule imageI [of _ _ fst]) (simp only: Md fst_conv set_map)
      then have "x # filter (\<lambda>(c, p). ?M3 c \<noteq> None) paths = filter (\<lambda>(c, p). M c \<noteq> None) (x # paths)"
        by (simp add: x Mc)
      then have l: "bs @ [(c, backupPath depot c)] @ map (\<lambda>(c, p). (c, backupPath depot c)) (filter (\<lambda>(c, p). ?M3 c \<noteq> None) paths)
          = bs @ map (\<lambda>(c, p). (c, backupPath depot c)) (filter (\<lambda>(c, p). M c \<noteq> None) (x # paths))"
        by (simp add: x Mc)
      have b: "backed_up (map fst paths) ?M3 M' \<Longrightarrow> backed_up (map fst (x # paths)) M M'" for M'
        using backed_up_step [OF _ ps(2,4), of ?M3 M' M] Mc c M1c by (simp add: x)
      show ?thesis
      proof (intro conjI allI impI)
        show "keeps f f'" using k3 I(1) by (rule keeps_trans)
        show "\<exists>bs'. res = Inr bs'" if "faults f = []" using that k3 I(2) by (simp add: keeps_def)
        fix bs' assume "res = Inr bs'"
        then show "bs' = bs @ map (\<lambda>(c, p). (c, backupPath depot c)) (filter (\<lambda>(c, p). M c \<noteq> None) (x # paths))"
          and "\<exists>M'. at_dir f' D r M' \<and> backed_up (map fst (x # paths)) M M'"
          using I(3) l b by auto
      qed
    qed
  qed
qed

text \<open>Moves of entries, from first to second, that do not meet.\<close>

definition entries_moved :: "(string \<times> string) list \<Rightarrow> (string \<Rightarrow> node option) \<Rightarrow> (string \<Rightarrow> node option) \<Rightarrow> bool" where
  "entries_moved moves M M' \<longleftrightarrow>
     (\<forall>(x, y) \<in> set moves. M x \<noteq> None \<and> M' y = M x \<and> M' x = None) \<and>
     (\<forall>z. z \<notin> fst ` set moves \<and> z \<notin> snd ` set moves \<longrightarrow> M' z = M z)"

definition apart :: "(string \<times> string) list \<Rightarrow> bool" where
  "apart moves \<longleftrightarrow> distinct (map fst moves) \<and> distinct (map snd moves) \<and> fst ` set moves \<inter> snd ` set moves = {}"

lemma apart_Cons:
  "apart ((x, y) # moves) \<longleftrightarrow>
     apart moves \<and> x \<noteq> y \<and> x \<notin> fst ` set moves \<and> x \<notin> snd ` set moves \<and> y \<notin> fst ` set moves \<and> y \<notin> snd ` set moves"
  by (auto simp: apart_def)

lemma entries_moved_step:
  assumes "entries_moved moves (M(x := None, y := Some n)) M'" "apart ((x, y) # moves)" "M x = Some n"
  shows "entries_moved ((x, y) # moves) M M'"
proof -
  let ?M = "M(x := None, y := Some n)"
  have a: "x \<noteq> y" "x \<notin> fst ` set moves" "x \<notin> snd ` set moves" "y \<notin> fst ` set moves" "y \<notin> snd ` set moves"
    using assms(2) by (auto simp: apart_Cons)
  then have "M' x = None" "M' y = Some n" using assms(1) by (auto simp: entries_moved_def)
  moreover have "M u \<noteq> None \<and> M' v = M u \<and> M' u = None" if "(u, v) \<in> set moves" for u v
  proof -
    have "u \<noteq> x" "u \<noteq> y" using that a by (auto simp: image_iff)
    then have "?M u = M u" by simp
    moreover have "?M u \<noteq> None \<and> M' v = ?M u \<and> M' u = None"
      using assms(1) that unfolding entries_moved_def by blast
    ultimately show ?thesis by simp
  qed
  moreover have "M' z = M z" if "z \<noteq> x" "z \<noteq> y" "z \<notin> fst ` set moves" "z \<notin> snd ` set moves" for z
    using assms(1) that by (simp add: entries_moved_def)
  ultimately show ?thesis using assms(3) by (auto simp: entries_moved_def)
qed

lemma layout_apart:
  assumes "distinct (map fst L)" "distinct (map snd L)" "\<forall>(t, s) \<in> set L. channel_Valid t \<and> channel_Valid s"
  shows "apart (map (\<lambda>(t, s). (bak s, t)) (filter (\<lambda>(t, s). P s) L))"
  using assms
proof (induction L)
  case (Cons x L)
  obtain t s where x: "x = (t, s)" by (cases x)
  show ?case using Cons by (force simp: x apart_Cons)
qed (simp add: apart_def)

lemma layout_loop_result:
  assumes "at_dir f D r M" "D = depot_dir f depot" "validateDepotName depot = None"
    and "distinct (map fst L)" "distinct (map snd L)"
    and "\<forall>(t, s) \<in> set L. channel_Valid t \<and> channel_Valid s \<and> path_of paths t = channelPath depot t"
    and "\<forall>s p. map_of bs s = Some p \<longrightarrow> p = backupPath depot s"
    and "layout_loop paths bs L ap f = (res, ap', f')"
  shows "keeps f f' \<and>
    (faults f = [] \<and> (\<forall>(t, s) \<in> set L. M t = None \<and> (map_of bs s \<noteq> None \<longrightarrow> M (bak s) \<noteq> None)) \<longrightarrow> res = None) \<and>
    (res = None \<longrightarrow> ap' = ap @ filter (\<lambda>(t, s). map_of bs s \<noteq> None) L \<and>
       (\<exists>M'. at_dir f' D r M' \<and> entries_moved (map (\<lambda>(t, s). (bak s, t)) (filter (\<lambda>(t, s). map_of bs s \<noteq> None) L)) M M'))"
  using assms
proof (induction L arbitrary: M ap f)
  case Nil
  then show ?case by (auto simp: entries_moved_def)
next
  case (Cons x L)
  obtain t s where x: "x = (t, s)" by (cases x)
  have t: "channel_Valid t" and s: "channel_Valid s" and p: "path_of paths t = channelPath depot t" using Cons.prems(6) by (auto simp: x)
  have L: "distinct (map fst L)" "distinct (map snd L)" "\<forall>(t, s) \<in> set L. channel_Valid t \<and> channel_Valid s \<and> path_of paths t = channelPath depot t"
    using Cons.prems(4-6) by auto
  show ?case
  proof (cases "map_of bs s")
    case None
    then have "layout_loop paths bs L ap f = (res, ap', f')" using Cons.prems(8) by (simp add: x)
    from Cons.IH [OF Cons.prems(1-3) L Cons.prems(7) this] show ?thesis using None by (simp add: x)
  next
    case (Some sp)
    then have sp: "sp = backupPath depot s" using Cons.prems(7) by blast
    obtain e f1 where 1: "fs_Rename f sp (path_of paths t) = (e, f1)" by (cases "fs_Rename f sp (path_of paths t)")
    note R = rename_channel(2) [OF _ Cons.prems(3) t s, of f r M, folded Cons.prems(2), OF Cons.prems(1) 1 [unfolded sp p]]
    show ?thesis
    proof (cases e)
      case (Some y)
      then show ?thesis using R Cons.prems(8) by (auto simp: x \<open>map_of bs s = Some sp\<close> 1)
    next
      case None
      then obtain n where n: "M (bak s) = Some n" and d1: "at_dir f1 D r (M(bak s := None, t := Some n))" using R by auto
      let ?M = "M(bak s := None, t := Some n)"
      have k1: "keeps f f1" using R by blast
      have D1: "D = depot_dir f1 depot" using Cons.prems(2) k1 by (simp add: depot_dir_keeps)
      have "layout_loop paths bs L (ap @ [(t, s)]) f1 = (res, ap', f')"
        using Cons.prems(8) by (simp add: x \<open>map_of bs s = Some sp\<close> 1 None)
      note I = Cons.IH [OF d1 D1 Cons.prems(3) L Cons.prems(7) this]
      let ?mv = "map (\<lambda>(t, s). (bak s, t)) (filter (\<lambda>(t, s). map_of bs s \<noteq> None) L)"
      have ap: "apart ((bak s, t) # ?mv)"
        using layout_apart [OF Cons.prems(4-5), of "\<lambda>s. map_of bs s \<noteq> None"] Cons.prems(6) \<open>map_of bs s = Some sp\<close> by (auto simp: x)
      have un: "?M u = None" "?M (bak v) = M (bak v)" if "(u, v) \<in> set L" "M u = None" for u v
      proof -
        have "u \<noteq> bak s" "v \<noteq> s" "u \<noteq> t" "t \<noteq> bak v" using that imageI [OF that(1), of fst] imageI [OF that(1), of snd] Cons.prems(4-6)
          by (auto simp: x)
        then show "?M u = None" "?M (bak v) = M (bak v)" using that by auto
      qed
      show ?thesis
      proof (intro conjI impI)
        show "keeps f f'" using k1 I by (blast intro: keeps_trans)
        show "res = None" if "faults f = [] \<and> (\<forall>(t, s) \<in> set (x # L). M t = None \<and> (map_of bs s \<noteq> None \<longrightarrow> M (bak s) \<noteq> None))"
        proof -
          have "?M u = None \<and> (map_of bs v \<noteq> None \<longrightarrow> ?M (bak v) \<noteq> None)" if uv: "(u, v) \<in> set L" for u v
          proof -
            have "M u = None" "map_of bs v \<noteq> None \<longrightarrow> M (bak v) \<noteq> None"
              using \<open>faults f = [] \<and> _\<close> uv by (auto simp: x)
            then show ?thesis using un [OF uv] by simp
          qed
          moreover have "faults f1 = []" using that k1 by (simp add: keeps_def)
          ultimately show ?thesis using I by blast
        qed
        assume res: "res = None"
        then show "ap' = ap @ filter (\<lambda>(t, s). map_of bs s \<noteq> None) (x # L)" using I by (simp add: x \<open>map_of bs s = Some sp\<close>)
        show "\<exists>M'. at_dir f' D r M' \<and> entries_moved (map (\<lambda>(t, s). (bak s, t)) (filter (\<lambda>(t, s). map_of bs s \<noteq> None) (x # L))) M M'"
        proof -
          obtain M' where "at_dir f' D r M'" "entries_moved ?mv ?M M'" using I res by blast
          then show ?thesis using entries_moved_step [of ?mv M "bak s" t n M'] ap n
            by (auto simp: x \<open>map_of bs s = Some sp\<close>)
        qed
      qed
    qed
  qed
qed

lemma entry_name:
  assumes "validateDepotName depot = None" "proper [x]"
  shows "fs_abs f (path_Join [depotPath depot, x]) = depot_dir f depot @ [x]"
  using entry_abs [OF assms(1), of "[x]" f] assms(2) by (simp add: depotPath_def)

lemma rename_all_result:
  assumes "at_dir f D r M" "D = depot_dir f depot" "validateDepotName depot = None" "faults f = []"
    and "apart es" "\<forall>(x, y) \<in> set es. proper [x] \<and> proper [y] \<and> M x \<noteq> None \<and> M y = None"
    and "rename_all (map (\<lambda>(x, y). (path_Join [depotPath depot, x], path_Join [depotPath depot, y])) es) fe f = (e, f')"
  shows "keeps f f' \<and> (\<exists>M'. at_dir f' D r M' \<and> entries_moved es M M')"
  using assms
proof (induction es arbitrary: M fe f)
  case Nil
  then show ?case by (auto simp: entries_moved_def)
next
  case (Cons p es)
  obtain x y where p: "p = (x, y)" by (cases p)
  let ?n = "\<lambda>x. path_Join [depotPath depot, x]"
  have xy: "proper [x]" "proper [y]" "x \<noteq> y" "M x \<noteq> None" "M y = None" "apart es"
    using Cons.prems(5,6) by (auto simp: p apart_Cons)
  obtain e1 f1 where 1: "fs_Rename f (?n x) (?n y) = (e1, f1)" by (cases "fs_Rename f (?n x) (?n y)")
  have "fs_abs f (?n x) = D @ [x]" "fs_abs f (?n y) = D @ [y]"
    using entry_name [OF Cons.prems(3)] xy(1,2) Cons.prems(2) by blast+
  note R = fs_rename_entry [OF Cons.prems(1) 1 this xy(3)]
  have "\<not> (faults f \<noteq> [] \<or> M x = None \<or> M y \<noteq> None)" using xy(4,5) Cons.prems(4) by simp
  then obtain n where n: "M x = Some n" "at_dir f1 D r (M(x := None, y := Some n))" "keeps f f1"
    using R by metis
  let ?M = "M(x := None, y := Some n)"
  have D1: "D = depot_dir f1 depot" "faults f1 = []"
    using Cons.prems(2,4) n(3) depot_dir_keeps [OF n(3)] by (simp_all add: keeps_def)
  have es: "\<forall>(u, v) \<in> set es. proper [u] \<and> proper [v] \<and> ?M u \<noteq> None \<and> ?M v = None"
  proof clarify
    fix u v assume uv: "(u, v) \<in> set es"
    have "u \<noteq> x" "u \<noteq> y" "v \<noteq> x" "v \<noteq> y"
      using imageI [OF uv, of fst] imageI [OF uv, of snd] Cons.prems(5) by (auto simp: p apart_Cons)
    then show "proper [u] \<and> proper [v] \<and> ?M u \<noteq> None \<and> ?M v = None" using Cons.prems(6) uv by auto
  qed
  obtain fe' where "rename_all (map (\<lambda>(x, y). (?n x, ?n y)) es) fe' f1 = (e, f')"
    using Cons.prems(7) by (simp add: p 1)
  from Cons.IH [OF n(2) D1(1) Cons.prems(3) D1(2) xy(6) es this]
  obtain M' where "at_dir f' D r M'" "entries_moved es ?M M'" "keeps f1 f'" by blast
  then show ?case
    using n(3) entries_moved_step [of es M x y n M'] Cons.prems(5) n(1) by (auto simp: p intro: keeps_trans)
qed

lemma cleanup_result:
  assumes "at_dir f D r M" "D = depot_dir f depot" "validateDepotName depot = None"
    and "\<forall>(c, b) \<in> set bs. channel_Valid c \<and> b = backupPath depot c"
  shows "keeps f (cleanupBackups bs f) \<and> (\<exists>M'. at_dir (cleanupBackups bs f) D r M' \<and> (\<forall>z. z \<notin> range bak \<longrightarrow> M' z = M z))"
  using assms
proof (induction bs arbitrary: M f)
  case (Cons x bs)
  obtain c b where x: "x = (c, b)" by (cases x)
  have c: "channel_Valid c" "b = backupPath depot c" using Cons.prems(4) by (auto simp: x)
  obtain e1 f1 where 1: "fs_RemoveAll f b = (e1, f1)" by (cases "fs_RemoveAll f b")
  have "os_RemoveAll f (D @ [bak c]) = (e1, f1)"
    using 1 Cons.prems(2) by (simp add: fs_RemoveAll_def c(2) backup_abs [OF Cons.prems(3) channel_proper [OF c(1)]])
  then obtain M1 where M1: "keeps f f1" "at_dir f1 D r M1" "M1 = M \<or> M1 = M(bak c := None)"
    using remove_entry [OF Cons.prems(1)] by blast
  have "D = depot_dir f1 depot" using Cons.prems(2) M1(1) by (simp add: depot_dir_keeps)
  from Cons.IH [OF M1(2) this Cons.prems(3)] Cons.prems(4)
  obtain M' where M': "keeps f1 (cleanupBackups bs f1)" "at_dir (cleanupBackups bs f1) D r M'" "\<forall>z. z \<notin> range bak \<longrightarrow> M' z = M1 z"
    by auto
  have "M' z = M z" if "z \<notin> range bak" for z using M'(3) M1(3) that by auto
  then show ?case using M'(1,2) M1(1) by (auto simp: x 1 intro: keeps_trans)
qed auto

section \<open>Manifests\<close>

text \<open>Directories that agree but for the manifest.\<close>

fun same_files :: "node \<Rightarrow> node \<Rightarrow> bool" where
  "same_files (DirNode a) (DirNode b) \<longleftrightarrow> (\<forall>x. x \<noteq> ''manifest.json'' \<longrightarrow> map_of a x = map_of b x)"
| "same_files a b \<longleftrightarrow> a = b"

lemma same_files_refl [simp]: "same_files n n"
  by (cases n) auto

lemma same_files_trans: "same_files a b \<Longrightarrow> same_files b c \<Longrightarrow> same_files a c"
  by (cases a; cases b; cases c) auto

lemma same_files_sym: "same_files a b \<Longrightarrow> same_files b a"
  by (cases a; cases b) auto

abbreviation like :: "node option \<Rightarrow> node option \<Rightarrow> bool" where
  "like \<equiv> rel_option same_files"

lemma like_refl [simp]: "like n n"
  by (cases n) auto

lemma like_trans: "like a b \<Longrightarrow> like b c \<Longrightarrow> like a c"
  by (cases a; cases b; cases c) (auto intro: same_files_trans)

lemma rewrite_result:
  assumes "at_dir f D r M" "D = depot_dir f depot" "validateDepotName depot = None" "channel_Valid c"
    and "rewriteManifestChannel E f depot c = (res, f')"
  shows "keeps f f' \<and> (\<exists>M'. at_dir f' D r M' \<and> (\<forall>z. like (M z) (M' z)))"
proof -
  obtain rd f1 where 1: "fs_ReadFile f (manifestPath depot c) = (rd, f1)" by (cases "fs_ReadFile f (manifestPath depot c)")
  have k: "keeps f f1" "fsnode f1 = fsnode f" using read_keeps [OF 1] by auto
  have d1: "at_dir f1 D r M" using at_dir_node [OF assms(1) k(2)] .
  have same: ?thesis if "f' = f1" using that k d1 by (auto intro!: exI [of _ M])
  have a: "fs_abs g (manifestPath depot c) = D @ [c, ''manifest.json'']" if "keeps f g" for g
    using that assms(2) by (simp add: manifest_abs [OF assms(3) channel_proper [OF assms(4)]] depot_dir_keeps)
  show ?thesis
  proof (cases rd)
    case (Inl e)
    then show ?thesis using assms(5) same by (cases e) (auto simp: rewriteManifestChannel_def 1)
  next
    case (Inr data)
    obtain st g where st: "os_stat f (D @ [c, ''manifest.json'']) = (st, g)" by (cases "os_stat f (D @ [c, ''manifest.json''])")
    have "st = Inr (FileNode data)"
      using 1 Inr by (auto simp: fs_ReadFile_def a st split: sum.splits node.splits)
    then obtain n where n: "M c = Some n" "node_at n [''manifest.json''] = Inr (FileNode data)"
      using stat_entry [OF assms(1), of c "[''manifest.json'']" st g] st by (auto split: option.splits)
    then obtain cs where cs: "M c = Some (DirNode cs)" by (cases n) auto
    show ?thesis
    proof (cases "parseManifest E data")
      case (Inl e)
      then show ?thesis using assms(5) same Inr by (auto simp: rewriteManifestChannel_def 1)
    next
      case (Inr rel)
      then have w: "writeManifest E f1 (manifestPath depot c) (rel\<lparr>rchannel := stringPtr c\<rparr>) = (res, f')"
        using assms(5) \<open>rd = Inr data\<close> by (simp add: rewriteManifestChannel_def 1)
      show ?thesis
      proof (cases "f' = f1")
        case False
        then obtain bytes e where w1: "fs_WriteFile f1 (manifestPath depot c) bytes = (e, f')"
          using w by (auto simp: writeManifest_def Let_def split: option.splits prod.splits)
        then have "(case os_MkdirAll f1 (D @ [c]) of (Some e, f1) \<Rightarrow> (Some e, f1) | (None, f1) \<Rightarrow> os_WriteFile f1 (D @ [c, ''manifest.json'']) bytes) = (e, f')"
          by (simp add: fs_WriteFile_def a [OF k(1)] butlast_append)
        note W = write_entry [OF d1 cs this]
        let ?M = "M(c \<mapsto> DirNode (AList.update ''manifest.json'' (FileNode bytes) cs))"
        have "like (M z) (?M z)" for z by (auto simp: cs AList.update_conv')
        then show ?thesis using W k(1) by (blast intro: keeps_trans like_refl)
      qed (rule same)
    qed
  qed
qed

lemma rewrite_channels_result:
  assumes "at_dir f D r M" "D = depot_dir f depot" "validateDepotName depot = None" "\<forall>(c, b) \<in> set cs. channel_Valid c"
    and "rewrite_channels E depot cs f = (res, f')"
  shows "keeps f f' \<and> (\<exists>M'. at_dir f' D r M' \<and> (\<forall>z. like (M z) (M' z)))"
  using assms
proof (induction cs arbitrary: M f)
  case Nil
  then show ?case by (auto intro!: exI [of _ M])
next
  case (Cons x cs)
  obtain c b where x: "x = (c, b)" by (cases x)
  obtain e f1 where 1: "rewriteManifestChannel E f depot c = (e, f1)" by (cases "rewriteManifestChannel E f depot c")
  have c: "channel_Valid c" using Cons.prems(4) by (simp add: x)
  obtain M1 where M1: "keeps f f1" "at_dir f1 D r M1" "\<forall>z. like (M z) (M1 z)"
    using rewrite_result [OF Cons.prems(1-3) c 1] by blast
  have D1: "D = depot_dir f1 depot" using Cons.prems(2) M1(1) by (simp add: depot_dir_keeps)
  show ?case
  proof (cases "f' = f1")
    case True
    then show ?thesis using M1 by blast
  next
    case False
    then have "rewrite_channels E depot cs f1 = (res, f')"
      using Cons.prems(5) by (auto simp: x 1 split: option.splits if_splits)
    from Cons.IH [OF M1(2) D1 Cons.prems(3) _ this] Cons.prems(4)
    obtain M' where "keeps f1 f'" "at_dir f' D r M'" "\<forall>z. like (M1 z) (M' z)" by auto
    then show ?thesis using M1 by (blast intro: keeps_trans like_trans)
  qed
qed

section \<open>The switch\<close>

definition any_order :: "'s fw_env \<Rightarrow> bool" where
  "any_order E \<longleftrightarrow> (\<forall>n xs. mset (mapOrder E n xs) = mset xs)"

lemma any_order:
  assumes "any_order E"
  shows "set (mapOrder E n xs) = set xs" "distinct (map g (mapOrder E n xs)) \<longleftrightarrow> distinct (map g xs)"
    "mset (mapOrder E n xs) = mset xs"
proof -
  show m: "mset (mapOrder E n xs) = mset xs" using assms by (simp add: any_order_def)
  then show "set (mapOrder E n xs) = set xs" by (rule mset_eq_setD)
  have "mset (map g (mapOrder E n xs)) = mset (map g xs)" using m by simp
  then show "distinct (map g (mapOrder E n xs)) \<longleftrightarrow> distinct (map g xs)" by (rule mset_eq_imp_distinct_iff)
qed

text \<open>The channels a switch is about, and where each goes: distinct targets from distinct sources.\<close>

definition switch_plan :: "channel list \<Rightarrow> (string \<times> string) list \<Rightarrow> bool" where
  "switch_plan cs L \<longleftrightarrow> distinct cs \<and> (\<forall>c \<in> set cs. channel_Valid c) \<and>
     distinct (map fst L) \<and> distinct (map snd L) \<and> fst ` set L \<subseteq> set cs \<and> snd ` set L \<subseteq> set cs"

text \<open>What a channel holds after the switch.\<close>

definition switched :: "(string \<times> string) list \<Rightarrow> (string \<Rightarrow> node option) \<Rightarrow> channel \<Rightarrow> node option" where
  "switched L M c = (case map_of L c of None \<Rightarrow> None | Some s \<Rightarrow> M s)"

definition after_switch ::
  "string \<Rightarrow> channel list \<Rightarrow> (string \<times> string) list \<Rightarrow> (string \<Rightarrow> node option) \<Rightarrow> (string \<Rightarrow> node option) \<Rightarrow>
    (string \<times> string) list \<Rightarrow> (string \<times> string) list \<Rightarrow> bool" where
  "after_switch depot cs L M M' backups applied \<longleftrightarrow>
     set backups = {(c, backupPath depot c) |c. c \<in> set cs \<and> M c \<noteq> None} \<and> distinct (map fst backups) \<and>
     set applied = {(t, s) \<in> set L. M s \<noteq> None} \<and> distinct (map fst applied) \<and> distinct (map snd applied) \<and>
     (\<forall>c \<in> set cs. M' c = switched L M c) \<and>
     (\<forall>c \<in> set cs. M c \<noteq> None \<longrightarrow> M' (bak c) = (if c \<in> snd ` set L then None else M c))"

lemma map_of_mem: "distinct (map fst xs) \<Longrightarrow> map_of xs k = Some v \<longleftrightarrow> (k, v) \<in> set xs"
  by simp

lemma path_of_channel: "c \<in> set cs \<Longrightarrow> path_of (channel_paths depot cs) c = channelPath depot c"
  unfolding path_of_def channel_paths_def map_of_map_restrict by simp

lemma after_both_loops:
  assumes P: "switch_plan cs L" and b: "backed_up cs' M M1" and cs': "set cs' = set cs"
    and bs: "set backups = {(c, backupPath depot c) |c. c \<in> set cs \<and> M c \<noteq> None}" "distinct (map fst backups)"
    and L': "set L' = set L" "distinct (map fst L')" "distinct (map snd L')"
    and moved: "entries_moved (map (\<lambda>(t, s). (bak s, t)) (filter (\<lambda>(t, s). map_of backups s \<noteq> None) L')) M1 M'"
  shows "after_switch depot cs L M M' backups (filter (\<lambda>(t, s). map_of backups s \<noteq> None) L')"
proof -
  have mem: "map_of backups s \<noteq> None \<longleftrightarrow> s \<in> set cs \<and> M s \<noteq> None" for s
    unfolding map_of_eq_None_iff bs(1) by (auto simp: image_iff)
  let ?A = "filter (\<lambda>(t, s). map_of backups s \<noteq> None) L'"
  have A: "set ?A = {(t, s) \<in> set L. M s \<noteq> None}" 
  proof -
    have "s \<in> set cs" if "(t, s) \<in> set L" for t s using P that by (force simp: switch_plan_def)
    then show ?thesis unfolding set_filter L'(1) mem by blast
  qed
  have val: "channel_Valid c" if "c \<in> set cs" for c using P that by (simp add: switch_plan_def)
  have inL: "t \<in> set cs" "s \<in> set cs" if "(t, s) \<in> set L" for t s using P that by (force simp: switch_plan_def)+
  have bk: "M1 c = None" "M c \<noteq> None \<Longrightarrow> M1 (bak c) = M c" if "c \<in> set cs" for c
    using b that cs' by (auto simp: backed_up_def)
  have mv: "M1 (bak s) \<noteq> None \<and> M' t = M1 (bak s) \<and> M' (bak s) = None" if "(t, s) \<in> set L" "M s \<noteq> None" for t s
  proof -
    have "(t, s) \<in> set ?A" using that A by blast
    then have "(bak s, t) \<in> set (map (\<lambda>(t, s). (bak s, t)) ?A)" by force
    then show ?thesis using moved unfolding entries_moved_def by blast
  qed
  have rest: "M' z = M1 z" if "\<forall>(t, s) \<in> set L. M s \<noteq> None \<longrightarrow> z \<noteq> t \<and> z \<noteq> bak s" for z
  proof -
    have "z \<notin> fst ` set (map (\<lambda>(t, s). (bak s, t)) ?A)" "z \<notin> snd ` set (map (\<lambda>(t, s). (bak s, t)) ?A)"
      using that unfolding list.set_map A by auto
    then show ?thesis using moved unfolding entries_moved_def by blast
  qed
  have 1: "M' c = switched L M c" if c: "c \<in> set cs" for c
  proof (cases "\<exists>s. (c, s) \<in> set L \<and> M s \<noteq> None")
    case True
    then obtain s where s: "(c, s) \<in> set L" "M s \<noteq> None" by blast
    then have "map_of L c = Some s" using P by (simp add: switch_plan_def)
    then show ?thesis using mv [OF s] bk(2) [OF inL(2) [OF s(1)] s(2)] by (simp add: switched_def)
  next
    case False
    then have "M' c = M1 c" using val [OF c] by (intro rest) auto
    moreover have "switched L M c = None" using False by (auto simp: switched_def split: option.split dest: map_of_SomeD)
    ultimately show ?thesis using bk(1) [OF c] by simp
  qed
  have 2: "M' (bak c) = (if c \<in> snd ` set L then None else M c)" if c: "c \<in> set cs" "M c \<noteq> None" for c
  proof (cases "c \<in> snd ` set L")
    case True
    then show ?thesis using mv c(2) by force
  next
    case False
    then have "M' (bak c) = M1 (bak c)" using inL val by (intro rest) (force simp: image_iff)
    then show ?thesis using bk(2) c False by simp
  qed
  have 3: "distinct (map fst ?A)" "distinct (map snd ?A)" using L'(2,3) by (auto intro: distinct_map_filter)
  show ?thesis unfolding after_switch_def using bs A 1 2 3 by blast
qed

lemma prepare_result:
  assumes at: "at_dir f D r M" "D = depot_dir f depot" "validateDepotName depot = None"
    and P: "switch_plan cs L" "any_order E"
    and run: "prepareSwitch E f depot (channel_paths depot cs) L = (res, f')"
  shows "(faults f = [] \<longrightarrow> (\<exists>bs ap. res = Inr (bs, ap))) \<and>
    (\<forall>bs ap. res = Inr (bs, ap) \<longrightarrow> keeps f f' \<and> (\<exists>M'. at_dir f' D r M' \<and> after_switch depot cs L M M' bs ap))"
proof -
  let ?ps = "mapOrder E 0 (channel_paths depot cs)" and ?L = "mapOrder E 1 L"
  have ps: "distinct (map fst ?ps)" "\<forall>(c, p) \<in> set ?ps. channel_Valid c \<and> p = channelPath depot c" "set (map fst ?ps) = set cs"
    using P unfolding any_order(2) [OF P(2)] by (auto simp: switch_plan_def channel_paths_def any_order(1) [OF P(2)] comp_def image_image)
  have L: "distinct (map fst ?L)" "distinct (map snd ?L)" "set ?L = set L"
    using P unfolding any_order(2) [OF P(2)] by (auto simp: switch_plan_def any_order(1) [OF P(2)])
  obtain b f1 where 1: "backup_loop depot ?ps [] f = (b, f1)" by (cases "backup_loop depot ?ps [] f")
  note B = backup_loop_result [OF at ps(1,2) 1]
  show ?thesis
  proof (cases b)
    case (Inl e)
    then show ?thesis using run B by (auto simp: prepareSwitch_def 1)
  next
    case (Inr bs)
    then obtain M1 where bs: "bs = map (\<lambda>(c, p). (c, backupPath depot c)) (filter (\<lambda>(c, p). M c \<noteq> None) ?ps)"
      and M1: "at_dir f1 D r M1" "backed_up (map fst ?ps) M M1" and k1: "keeps f f1"
      using B by auto
    have D1: "D = depot_dir f1 depot" using at(2) depot_dir_keeps [OF k1] by simp
    have sb: "set bs = {(c, backupPath depot c) |c. c \<in> set cs \<and> M c \<noteq> None}" "distinct (map fst bs)"
    proof -
      have "set ?ps = {(c, channelPath depot c) |c. c \<in> set cs}"
        by (auto simp: any_order(1) [OF P(2)] channel_paths_def)
      then show "set bs = {(c, backupPath depot c) |c. c \<in> set cs \<and> M c \<noteq> None}" unfolding bs by force
      have "map fst bs = map fst (filter (\<lambda>(c, p). M c \<noteq> None) ?ps)" by (simp add: bs comp_def case_prod_unfold)
      then show "distinct (map fst bs)" using distinct_map_filter [OF ps(1)] by simp
    qed
    obtain e ap f2 where 2: "layout_loop (channel_paths depot cs) bs ?L [] f1 = (e, ap, f2)" by (metis prod_cases3)
    have "\<forall>(t, s) \<in> set ?L. channel_Valid t \<and> channel_Valid s \<and> path_of (channel_paths depot cs) t = channelPath depot t"
      using P(1) unfolding L(3) by (force simp: switch_plan_def path_of_channel)
    moreover have "\<forall>s p. map_of bs s = Some p \<longrightarrow> p = backupPath depot s" using sb by (auto dest: map_of_SomeD)
    ultimately have R: "keeps f1 f2"
      "faults f1 = [] \<and> (\<forall>(t, s) \<in> set ?L. M1 t = None \<and> (map_of bs s \<noteq> None \<longrightarrow> M1 (bak s) \<noteq> None)) \<longrightarrow> e = None"
      "e = None \<longrightarrow> ap = filter (\<lambda>(t, s). map_of bs s \<noteq> None) ?L \<and>
        (\<exists>M'. at_dir f2 D r M' \<and> entries_moved (map (\<lambda>(t, s). (bak s, t)) (filter (\<lambda>(t, s). map_of bs s \<noteq> None) ?L)) M1 M')"
      using layout_loop_result [OF M1(1) D1 at(3) L(1,2) _ _ 2] by auto
    show ?thesis
    proof (cases e)
      case None
      then obtain M' where M': "at_dir f2 D r M'" "ap = filter (\<lambda>(t, s). map_of bs s \<noteq> None) ?L"
        "entries_moved (map (\<lambda>(t, s). (bak s, t)) (filter (\<lambda>(t, s). map_of bs s \<noteq> None) ?L)) M1 M'"
        using R(3) by blast
      have "res = Inr (bs, ap)" "f' = f2" using run Inr None by (auto simp: prepareSwitch_def 1 2 simp del: One_nat_def)
      then show ?thesis
        using M' after_both_loops [OF P(1) M1(2) ps(3) sb L(3,1,2) M'(3)] k1 R(1) by (auto intro: keeps_trans)
    next
      case (Some y)
      have "M1 t = None \<and> (map_of bs s \<noteq> None \<longrightarrow> M1 (bak s) \<noteq> None)" if "(t, s) \<in> set L" for t s
      proof -
        have "t \<in> set cs" using P(1) that by (force simp: switch_plan_def)
        moreover have "s \<in> set cs \<and> M s \<noteq> None" if "map_of bs s \<noteq> None"
          using that unfolding map_of_eq_None_iff sb(1) by auto
        ultimately show ?thesis using M1(2) unfolding backed_up_def ps(3) by metis
      qed
      then have "faults f1 \<noteq> []" using R(2) Some L(3) by auto
      then have "faults f \<noteq> []" using k1 by (auto simp: keeps_def)
      moreover have "res = Inl y" using run Inr Some by (simp add: prepareSwitch_def 1 2 del: One_nat_def)
      ultimately show ?thesis by simp
    qed
  qed
qed

lemma like_None: "like a b \<Longrightarrow> a = None \<longleftrightarrow> b = None"
  by (cases a; cases b) auto

lemma like_sym: "like a b \<Longrightarrow> like b a"
  by (cases a; cases b) (auto intro: same_files_sym)

lemma proper_bak: "proper [c] \<Longrightarrow> proper [bak c]"
  by (simp add: bak_def)

lemma restore_result:
  assumes at: "at_dir f D r M2" "D = depot_dir f depot" "validateDepotName depot = None" "faults f = []"
    and P: "switch_plan cs L" "any_order E"
    and sw: "after_switch depot cs L M M' bs ap" "\<forall>z. like (M' z) (M2 z)"
    and run: "restore_switch E (channel_paths depot cs) bs ap f = (res, f')"
  shows "keeps f f' \<and> (\<exists>M3. at_dir f' D r M3 \<and> (\<forall>c \<in> set cs. like (M c) (M3 c)))"
proof -
  let ?n = "\<lambda>x. path_Join [depotPath depot, x]"
  have bs: "set bs = {(c, backupPath depot c) |c. c \<in> set cs \<and> M c \<noteq> None}" "distinct (map fst bs)"
    and ap: "set ap = {(t, s) \<in> set L. M s \<noteq> None}" "distinct (map fst ap)" "distinct (map snd ap)"
    and M': "\<And>c. c \<in> set cs \<Longrightarrow> M' c = switched L M c"
      "\<And>c. c \<in> set cs \<Longrightarrow> M c \<noteq> None \<Longrightarrow> M' (bak c) = (if c \<in> snd ` set L then None else M c)"
    using sw(1) unfolding after_switch_def by blast+
  have inL: "t \<in> set cs" "s \<in> set cs" if "(t, s) \<in> set L" for t s using P(1) that by (force simp: switch_plan_def)+
  have val: "channel_Valid c" if "c \<in> set cs" for c using P(1) that by (simp add: switch_plan_def)
  have target: "map_of L t = Some s" if "(t, s) \<in> set L" for t s using P(1) that by (simp add: switch_plan_def)
  let ?ap = "mapOrder E 2 ap" and ?bs = "mapOrder E 3 bs"
  define es1 where "es1 = map (\<lambda>(t, s). (t, bak s)) ?ap"
  define es2 where "es2 = map (\<lambda>(c, b). (bak c, c)) ?bs"
  have s1: "(x, y) \<in> set es1 \<longleftrightarrow> (\<exists>s. (x, s) \<in> set L \<and> M s \<noteq> None \<and> y = bak s)" for x y
    by (auto simp: es1_def any_order(1) [OF P(2)] ap(1))
  have s2: "(x, y) \<in> set es2 \<longleftrightarrow> y \<in> set cs \<and> M y \<noteq> None \<and> x = bak y" for x y
    by (force simp: es2_def any_order(1) [OF P(2)] bs(1))
  have n1: "map fst es1 = map fst ?ap" "map snd es1 = map bak (map snd ?ap)"
    and n2: "map fst es2 = map bak (map fst ?bs)" "map snd es2 = map fst ?bs"
    by (simp_all add: es1_def es2_def comp_def case_prod_unfold)
  have bak_map: "distinct (map bak xs) \<longleftrightarrow> distinct xs" for xs by (simp add: distinct_map inj_on_def)
  have "distinct (map fst ?ap)" "distinct (map snd ?ap)" "distinct (map fst ?bs)"
    unfolding any_order(2) [OF P(2)] using ap(2,3) bs(2) by blast+
  moreover have "x \<noteq> y" if "(x, y') \<in> set es1" "(x', y) \<in> set es1" for x x' y y'
    using that inL(1) val not_valid_bak unfolding s1 by metis
  moreover have "x \<noteq> y" if "(x, y') \<in> set es2" "(x', y) \<in> set es2" for x x' y y'
    using that val not_valid_bak unfolding s2 by metis
  ultimately have a1: "apart es1" and a2: "apart es2"
    unfolding apart_def n1 n2 bak_map by force+
  have m1: "M2 t \<noteq> None" "M2 (bak s) = None" if "(t, s) \<in> set L" "M s \<noteq> None" for t s
  proof -
    have "M' t = M s" using M'(1) inL(1) [OF that(1)] target [OF that(1)] by (simp add: switched_def)
    moreover have "M' (bak s) = None" using M'(2) [OF inL(2) [OF that(1)] that(2)] imageI [OF that(1), of snd] by simp
    ultimately show "M2 t \<noteq> None" "M2 (bak s) = None" using sw(2) that(2) by (metis like_None)+
  qed
  obtain e1 f1 where 1: "rename_all (map (\<lambda>(x, y). (?n x, ?n y)) es1) None f = (e1, f1)"
    by (cases "rename_all (map (\<lambda>(x, y). (?n x, ?n y)) es1) None f")
  have c1: "\<forall>(x, y) \<in> set es1. proper [x] \<and> proper [y] \<and> M2 x \<noteq> None \<and> M2 y = None"
  proof clarify
    fix x y assume "(x, y) \<in> set es1"
    then obtain s where s: "(x, s) \<in> set L" "M s \<noteq> None" "y = bak s" unfolding s1 by blast
    show "proper [x] \<and> proper [y] \<and> M2 x \<noteq> None \<and> M2 y = None"
      using m1 [OF s(1,2)] s(3) channel_proper [OF val [OF inL(1) [OF s(1)]]] proper_bak [OF channel_proper [OF val [OF inL(2) [OF s(1)]]]]
      by blast
  qed
  obtain Ma where Ma: "keeps f f1" "at_dir f1 D r Ma" "entries_moved es1 M2 Ma"
    using rename_all_result [OF at a1 c1 1] by blast
  have D1: "D = depot_dir f1 depot" "faults f1 = []" using at(2,4) Ma(1) depot_dir_keeps [OF Ma(1)] by (simp_all add: keeps_def)
  obtain e2 f2 where 2: "rename_all (map (\<lambda>(x, y). (?n x, ?n y)) es2) e1 f1 = (e2, f2)"
    by (cases "rename_all (map (\<lambda>(x, y). (?n x, ?n y)) es2) e1 f1")
  have Mac: "Ma c = None" if c: "c \<in> set cs" for c
  proof (cases "\<exists>s. (c, s) \<in> set L \<and> M s \<noteq> None")
    case True
    then obtain y where "(c, y) \<in> set es1" unfolding s1 by blast
    then show ?thesis using Ma(3) unfolding entries_moved_def by blast
  next
    case False
    then have "c \<notin> fst ` set es1" "c \<notin> snd ` set es1" using val [OF c] by (auto simp: s1)
    then have "Ma c = M2 c" using Ma(3) unfolding entries_moved_def by blast
    moreover have "M' c = None" using M'(1) [OF c] False by (auto simp: switched_def split: option.split dest: map_of_SomeD)
    ultimately show ?thesis using like_None [OF sw(2) [rule_format, of c]] by simp
  qed
  have Mab: "like (M c) (Ma (bak c))" if c: "c \<in> set cs" "M c \<noteq> None" for c
  proof (cases "c \<in> snd ` set L")
    case True
    then obtain t where t: "(t, c) \<in> set L" by auto
    then have "(t, bak c) \<in> set es1" using c(2) unfolding s1 by blast
    then have "Ma (bak c) = M2 t" using Ma(3) unfolding entries_moved_def by blast
    moreover have "M' t = M c" using M'(1) [OF inL(1) [OF t]] target [OF t] by (simp add: switched_def)
    ultimately show ?thesis using sw(2) [rule_format, of t] by simp
  next
    case False
    then have "bak c \<notin> fst ` set es1" "bak c \<notin> snd ` set es1" using inL(1) val by (force simp: s1)+
    then have "Ma (bak c) = M2 (bak c)" using Ma(3) unfolding entries_moved_def by blast
    then show ?thesis using M'(2) [OF c] False sw(2) [rule_format, of "bak c"] by simp
  qed
  have c2: "\<forall>(x, y) \<in> set es2. proper [x] \<and> proper [y] \<and> Ma x \<noteq> None \<and> Ma y = None"
  proof clarify
    fix x y assume "(x, y) \<in> set es2"
    then have y: "y \<in> set cs" "M y \<noteq> None" "x = bak y" unfolding s2 by auto
    show "proper [x] \<and> proper [y] \<and> Ma x \<noteq> None \<and> Ma y = None"
      using Mac [OF y(1)] like_None [OF Mab [OF y(1,2)]] y channel_proper [OF val [OF y(1)]] proper_bak by metis
  qed
  obtain M3 where M3: "keeps f1 f2" "at_dir f2 D r M3" "entries_moved es2 Ma M3"
    using rename_all_result [OF Ma(2) D1(1) at(3) D1(2) a2 c2 2] by blast
  have "like (M c) (M3 c)" if c: "c \<in> set cs" for c
  proof (cases "M c = None")
    case True
    then have "c \<notin> fst ` set es2" "c \<notin> snd ` set es2" using val [OF c] by (auto simp: s2)
    then have "M3 c = Ma c" using M3(3) unfolding entries_moved_def by blast
    then show ?thesis using Mac [OF c] True by simp
  next
    case False
    then have "(bak c, c) \<in> set es2" using c unfolding s2 by blast
    then have "M3 c = Ma (bak c)" using M3(3) unfolding entries_moved_def by blast
    then show ?thesis using Mab [OF c False] by simp
  qed
  moreover have "f' = f2"
  proof -
    have b: "path_of bs s = ?n (bak s)" if "s \<in> set cs" "M s \<noteq> None" for s
    proof -
      have "(s, backupPath depot s) \<in> set bs" using that bs(1) by blast
      then show ?thesis using bs(2) by (simp add: path_of_def backupPath_def bak_def)
    qed
    have p: "path_of (channel_paths depot cs) t = ?n t" if "t \<in> set cs" for t
      using path_of_channel [OF that] by (simp add: channelPath_def)
    have "map (\<lambda>(t, s). (path_of (channel_paths depot cs) t, path_of bs s)) ?ap = map (\<lambda>(x, y). (?n x, ?n y)) es1"
      unfolding es1_def map_map by (rule map_cong [OF refl]) (use any_order(1) [OF P(2)] ap(1) inL b p in auto)
    moreover have "map (\<lambda>(c, b). (b, path_of (channel_paths depot cs) c)) ?bs = map (\<lambda>(x, y). (?n x, ?n y)) es2"
      unfolding es2_def map_map by (rule map_cong [OF refl])
        (use any_order(1) [OF P(2)] bs(1) p in \<open>auto simp: backupPath_def bak_def\<close>)
    ultimately show ?thesis using run by (simp add: restore_switch_def 1 2)
  qed
  ultimately show ?thesis using M3 Ma(1) by (blast intro: keeps_trans)
qed

lemma write_files_same: "writeDepotMetadata E s d = (e, s') \<Longrightarrow> fwFiles s' = fwFiles s"
  by (auto simp: writeDepotMetadata_def Let_def split: option.splits prod.splits)

lemma commit_done:
  assumes at: "at_dir (fwFiles s) D r M" "D = depot_dir (fwFiles s) depot" "validateDepotName depot = None"
    and P: "switch_plan cs L" "any_order E" "\<forall>(c, b) \<in> set rw. channel_Valid c"
    and run: "commit_switch E s depot (channel_paths depot cs) L rw d = (Inr d', s')"
  shows "d' = d \<and> (\<exists>f e. writeDepotMetadata E (s\<lparr>fwFiles := f\<rparr>) d = (None, e) \<and> fwMeta s' = fwMeta e) \<and>
    keeps (fwFiles s) (fwFiles s') \<and>
    (\<exists>M'. at_dir (fwFiles s') D r M' \<and> (\<forall>c \<in> set cs. like (switched L M c) (M' c)))"
proof -
  obtain bs ap f where 1: "prepareSwitch E (fwFiles s) depot (channel_paths depot cs) L = (Inr (bs, ap), f)"
    using run by (auto simp: commit_switch_def split: prod.splits sum.splits)
  obtain M1 where M1: "keeps (fwFiles s) f" "at_dir f D r M1" "after_switch depot cs L M M1 bs ap"
    using prepare_result [OF at P(1,2) 1] by blast
  have D1: "D = depot_dir f depot" using at(2) depot_dir_keeps [OF M1(1)] by simp
  obtain f1 where 2: "rewrite_channels E depot rw f = (None, f1)"
    using run by (auto simp: commit_switch_def 1 split: prod.splits option.splits)
  obtain M2 where M2: "keeps f f1" "at_dir f1 D r M2" "\<forall>z. like (M1 z) (M2 z)"
    using rewrite_channels_result [OF M1(2) D1 at(3) P(3) 2] by blast
  obtain s2 where 3: "writeDepotMetadata E (s\<lparr>fwFiles := f1\<rparr>) d = (None, s2)"
    and r: "d' = d" "s' = s2\<lparr>fwFiles := cleanupBackups (mapOrder E 4 bs) (fwFiles s2)\<rparr>"
    using run by (auto simp: commit_switch_def 1 2 split: prod.splits option.splits)
  have f2: "fwFiles s2 = f1" using write_files_same [OF 3] by simp
  have D2: "D = depot_dir f1 depot" using D1 depot_dir_keeps [OF M2(1)] by simp
  have b: "\<forall>(c, b) \<in> set (mapOrder E 4 bs). channel_Valid c \<and> b = backupPath depot c"
    using M1(3) P(1) by (auto simp: any_order(1) [OF P(2)] after_switch_def switch_plan_def)
  have "fwFiles s' = cleanupBackups (mapOrder E 4 bs) f1" by (simp add: r f2)
  then obtain M3 where M3: "keeps f1 (fwFiles s')" "at_dir (fwFiles s') D r M3" "\<forall>z. z \<notin> range bak \<longrightarrow> M3 z = M2 z"
    using cleanup_result [OF M2(2) D2 at(3) b] by auto
  have "like (switched L M c) (M3 c)" if c: "c \<in> set cs" for c
  proof -
    have "channel_Valid c" using P(1) c by (simp add: switch_plan_def)
    then have "c \<notin> range bak" by auto
    then show ?thesis using M3(3) M2(3) [rule_format, of c] M1(3) c by (simp add: after_switch_def)
  qed
  moreover have "fwMeta s' = fwMeta s2" by (simp add: r)
  ultimately show ?thesis using r(1) 3 M3 M1(1) M2(1) by (blast intro: keeps_trans)
qed

lemma commit_undone:
  assumes at: "at_dir (fwFiles s) D r M" "D = depot_dir (fwFiles s) depot" "validateDepotName depot = None" "faults (fwFiles s) = []"
    and P: "switch_plan cs L" "any_order E" "\<forall>(c, b) \<in> set rw. channel_Valid c"
    and run: "commit_switch E s depot (channel_paths depot cs) L rw d = (Inl e, s')"
  shows "(fwMeta s' = fwMeta s \<or> (\<exists>f x s2. writeDepotMetadata E (s\<lparr>fwFiles := f\<rparr>) d = (Some x, s2) \<and> fwMeta s' = fwMeta s2)) \<and>
    keeps (fwFiles s) (fwFiles s') \<and>
    (\<exists>M'. at_dir (fwFiles s') D r M' \<and> (\<forall>c \<in> set cs. like (M c) (M' c)))"
proof -
  obtain pr f where 1: "prepareSwitch E (fwFiles s) depot (channel_paths depot cs) L = (pr, f)"
    by (cases "prepareSwitch E (fwFiles s) depot (channel_paths depot cs) L")
  obtain bs ap M1 where pr: "pr = Inr (bs, ap)" and M1: "keeps (fwFiles s) f" "at_dir f D r M1" "after_switch depot cs L M M1 bs ap"
    using prepare_result [OF at(1-3) P(1,2) 1] at(4) by blast
  have D1: "D = depot_dir f depot" using at(2) depot_dir_keeps [OF M1(1)] by simp
  obtain e2 f1 where 2: "rewrite_channels E depot rw f = (e2, f1)" by (cases "rewrite_channels E depot rw f")
  obtain M2 where M2: "keeps f f1" "at_dir f1 D r M2" "\<forall>z. like (M1 z) (M2 z)"
    using rewrite_channels_result [OF M1(2) D1 at(3) P(3) 2] by blast
  have D2: "D = depot_dir f1 depot" using D1 depot_dir_keeps [OF M2(1)] by simp
  have fl: "faults f1 = []" using M1(1) M2(1) at(4) by (simp add: keeps_def)
  obtain x f' where 3: "restore_switch E (channel_paths depot cs) bs ap f1 = (x, f')"
    by (cases "restore_switch E (channel_paths depot cs) bs ap f1")
  note R = restore_result [OF M2(2) D2 at(3) fl P(1,2) M1(3) M2(3) 3]
  have s': "fwFiles s' = f' \<and> (fwMeta s' = fwMeta s \<or> (\<exists>f x s2. writeDepotMetadata E (s\<lparr>fwFiles := f\<rparr>) d = (Some x, s2) \<and> fwMeta s' = fwMeta s2))"
  proof (cases e2)
    case (Some y)
    then show ?thesis using run by (auto simp: commit_switch_def 1 pr 2 3)
  next
    case None
    obtain y s2 where 4: "writeDepotMetadata E (s\<lparr>fwFiles := f1\<rparr>) d = (y, s2)"
      by (cases "writeDepotMetadata E (s\<lparr>fwFiles := f1\<rparr>) d")
    have f2: "fwFiles s2 = f1" using write_files_same [OF 4] by simp
    obtain z where y: "y = Some z" using run None by (cases y) (auto simp: commit_switch_def 1 pr 2 4)
    have "s' = s2\<lparr>fwFiles := f'\<rparr>" using run None by (simp add: commit_switch_def 1 pr 2 4 y f2 3)
    then show ?thesis using 4 y by auto
  qed
  then show ?thesis using R M1(1) M2(1) by (blast intro: keeps_trans)
qed

end
