(* ===== verification/DepotService.thy ===== *)
theory DepotService
  imports DepotRelease
begin

text \<open>
  The firmware service over a metadata store that keeps the contract of a key-value store: what reading and
  writing a depot amount to, and the operations on a depot seen as changes of its record and its channels.
\<close>

section \<open>Normal forms\<close>

lemma sort_key_idem: "sort_key f (sort_key f xs) = sort_key f xs"
  by (rule sort_key_id_if_sorted) (rule sorted_sort_key)

lemma sort_key_Nil: "sort_key f xs = [] \<longleftrightarrow> xs = []"
  using length_sort [of f xs] by (metis length_0_conv)

lemma normalize_release_idem [simp]: "normalizeDepotRelease (normalizeDepotRelease r) = normalizeDepotRelease r"
  by (auto simp: normalizeDepotRelease_def releaseFiles_def sort_key_idem sort_key_Nil split: option.split)

lemma normalize_info_idem [simp]: "normalizeDepotInfo (normalizeDepotInfo i) = normalizeDepotInfo i"
  by (auto simp: normalizeDepotInfo_def infoFiles_def no_info_def sort_key_idem sort_key_Nil split: option.split)

lemma normalize_depot_idem [simp]: "normalizeDepotMetadata (normalizeDepotMetadata d) = normalizeDepotMetadata d"
  by (simp add: normalizeDepotMetadata_def)

lemma no_release_normal [simp]: "normalizeDepotRelease no_release = no_release"
  by (simp add: normalizeDepotRelease_def no_release_def releaseFiles_def)

lemma with_channel_normal [simp]: "normalizeDepotRelease (releaseWithChannel r c) = releaseWithChannel r c"
  by (simp add: releaseWithChannel_def)

definition normal :: "depot \<Rightarrow> bool" where
  "normal d \<longleftrightarrow> normalizeDepotMetadata d = d"

lemma normal_iff:
  "normal d \<longleftrightarrow> normalizeDepotInfo (dinfo d) = dinfo d \<and> normalizeDepotRelease (drollback d) = drollback d \<and>
     normalizeDepotRelease (dstable d) = dstable d \<and> normalizeDepotRelease (dbeta d) = dbeta d \<and>
     normalizeDepotRelease (dtesting d) = dtesting d"
  by (cases d) (auto simp: normal_def normalizeDepotMetadata_def)

section \<open>Reading and writing\<close>

text \<open>What \<open>getDepotMetadata\<close> makes of the bytes under the key of a depot.\<close>

definition read_meta :: "'s fw_env \<Rightarrow> string \<Rightarrow> byte list option \<Rightarrow> fw_error + depot" where
  "read_meta E name v =
     (case v of
        None \<Rightarrow> Inl DepotNotFound
      | Some data \<Rightarrow>
          (case decodeDepotMetadata E data of
             Inl e \<Rightarrow> Inl e
           | Inr d0 \<Rightarrow>
               let d = (if dname d0 = [] then d0\<lparr>dname := name\<rparr> else d0) in
               if dname d \<noteq> name then Inl NameMismatch
               else (case validateDepotMetadata d of Some e \<Rightarrow> Inl e | None \<Rightarrow> Inr d)))"

lemma read_meta_ok:
  assumes "read_meta E name v = Inr d"
  shows "dname d = name" "normal d" "validateDepotMetadata d = None"
proof -
  have n: "normal (normalizeDepotMetadata x)" "normal (normalizeDepotMetadata x\<lparr>dname := y\<rparr>)" for x y
    by (simp_all add: normal_iff normalizeDepotMetadata_def)
  show "dname d = name" "normal d" "validateDepotMetadata d = None"
    using assms n by (auto simp: read_meta_def decodeDepotMetadata_def Let_def split: option.splits sum.splits if_splits)
qed

lemma valid_order: "validateDepotMetadata d = None \<Longrightarrow> validateVersionOrder d = None"
  by (auto simp: validateDepotMetadata_def split: option.splits)

lemma valid_name: "validateDepotMetadata d = None \<Longrightarrow> validateDepotName (dname d) = None"
  by (auto simp: validateDepotMetadata_def split: option.splits)

section \<open>The channels of a depot\<close>

definition channel_node :: "filesys \<Rightarrow> string \<Rightarrow> channel \<Rightarrow> node option" where
  "channel_node f depot c =
     (case node_at (fsnode f) (depot_dir f depot @ [c]) of Inr n \<Rightarrow> Some n | Inl _ \<Rightarrow> None)"

lemma channel_node_at: "at_dir f D r M \<Longrightarrow> D = depot_dir f depot \<Longrightarrow> channel_node f depot c = M c"
  using at_dir_entry [of f D r M c "[]"] by (auto simp: channel_node_def split: option.splits)

lemma channel_node_same: "keeps f f' \<Longrightarrow> fsnode f' = fsnode f \<Longrightarrow> channel_node f' depot c = channel_node f depot c"
  using depot_dir_keeps [of f f' depot] by (simp add: channel_node_def)

text \<open>\<open>releaseDepot\<close> and \<open>rollbackDepot\<close> differ in their plan.\<close>

definition switch_op ::
  "'s fw_env \<Rightarrow> 's fw_state \<Rightarrow> string \<Rightarrow> (channel \<times> bool) list \<Rightarrow> channel list \<Rightarrow> (string \<times> string) list \<Rightarrow>
    (channel \<times> bool) list \<Rightarrow> (depot \<Rightarrow> depot) \<Rightarrow> (fw_error + depot) \<times> 's fw_state" where
  "switch_op E s depot scans cs L rw nx =
     (case validateDepot E s depot of
        (Some e, s1) \<Rightarrow> (Inl e, s1)
      | (None, s1) \<Rightarrow>
          (case scanDepot E s1 depot of
             (Inl e, s2) \<Rightarrow> (Inl e, s2)
           | (Inr current, s2) \<Rightarrow>
               (case scan_channels E depot current scans s2 of
                  (Some e, s3) \<Rightarrow> (Inl e, s3)
                | (None, s3) \<Rightarrow> commit_switch E s3 depot (channel_paths depot cs) L rw (nx current))))"

definition released :: "depot \<Rightarrow> depot" where
  "released d = d\<lparr>drollback := releaseWithChannel (dstable d) Rollback, dstable := releaseWithChannel (dbeta d) Stable,
     dbeta := releaseWithChannel (dtesting d) Beta, dtesting := no_release\<rparr>"

definition rolled_back :: "depot \<Rightarrow> depot" where
  "rolled_back d = d\<lparr>dstable := releaseWithChannel (drollback d) Stable, drollback := releaseWithChannel (dstable d) Rollback\<rparr>"

lemma releaseDepot_op: "releaseDepot E s depot = switch_op E s depot [(Beta, True), (Testing, True), (Stable, False)]
    [Rollback, Stable, Beta, Testing] [(Stable, Beta), (Beta, Testing), (Rollback, Stable)]
    [(Rollback, False), (Stable, False), (Beta, False)] released"
  unfolding releaseDepot_def switch_op_def released_def ..

lemma rollbackDepot_op: "rollbackDepot E s depot = switch_op E s depot [(Rollback, True), (Stable, False)]
    [Stable, Rollback] [(Stable, Rollback), (Rollback, Stable)] [(Stable, True), (Rollback, False)] rolled_back"
  unfolding rollbackDepot_def switch_op_def rolled_back_def ..

lemma normal_next: "normal d \<Longrightarrow> normal (released d) \<and> dname (released d) = dname d"
  "normal d \<Longrightarrow> normal (rolled_back d) \<and> dname (rolled_back d) = dname d"
  by (simp_all add: normal_iff released_def rolled_back_def)

section \<open>The files of a release\<close>

text \<open>The segments of a relative path, and where they lead under a channel.\<close>

definition rel_segs :: "string \<Rightarrow> string list" where
  "rel_segs p = foldl (clean_step False) [] (split_on CHR ''/'' p)"

lemma clean_keeps_dots: "''..'' \<in> set out \<Longrightarrow> ''..'' \<in> set (clean_step False out seg)"
  by (cases out rule: rev_cases) (auto simp: clean_step_def)

lemma foldl_keeps_dots: "''..'' \<in> set out \<Longrightarrow> ''..'' \<in> set (foldl (clean_step False) out segs)"
  by (induction segs arbitrary: out) (auto intro: clean_keeps_dots)

lemma clean_step_on_base:
  "''..'' \<notin> set (clean_step False out seg) \<Longrightarrow> clean_step r (base @ out) seg = base @ clean_step False out seg"
  by (cases out rule: rev_cases) (auto simp: clean_step_def butlast_append)

lemma clean_on_base:
  "''..'' \<notin> set (foldl (clean_step False) [] segs) \<Longrightarrow>
    foldl (clean_step r) base segs = base @ foldl (clean_step False) [] segs"
proof (induction segs rule: rev_induct)
  case (snoc seg segs)
  define out where "out = foldl (clean_step False) [] segs"
  have "''..'' \<notin> set out" using snoc.prems clean_keeps_dots [of out seg] by (auto simp: out_def)
  then show ?case using snoc clean_step_on_base [of out seg r base] by (simp add: out_def)
qed simp

lemma clean_step_proper:
  "proper out \<Longrightarrow> CHR ''/'' \<notin> set seg \<Longrightarrow> ''..'' \<notin> set (clean_step False out seg) \<Longrightarrow> proper (clean_step False out seg)"
  by (cases out rule: rev_cases) (auto simp: clean_step_def)

lemma clean_proper_result:
  "(\<forall>s \<in> set segs. CHR ''/'' \<notin> set s) \<Longrightarrow> ''..'' \<notin> set (foldl (clean_step False) [] segs) \<Longrightarrow>
    proper (foldl (clean_step False) [] segs)"
proof (induction segs rule: rev_induct)
  case (snoc seg segs)
  define out where "out = foldl (clean_step False) [] segs"
  have "''..'' \<notin> set out" using snoc.prems clean_keeps_dots [of out seg] by (auto simp: out_def)
  then show ?case using snoc clean_step_proper [of out seg] by (simp add: out_def)
qed simp

text \<open>Steps up come first.\<close>

lemma dots_lead: "''..'' \<in> set (foldl (clean_step False) [] segs) \<Longrightarrow> hd (foldl (clean_step False) [] segs) = ''..''"
proof (induction segs rule: rev_induct)
  case (snoc seg segs)
  define out where "out = foldl (clean_step False) [] segs"
  have "''..'' \<in> set (clean_step False out seg)" "''..'' \<in> set out \<Longrightarrow> hd out = ''..''" using snoc by (auto simp: out_def)
  then have "hd (clean_step False out seg) = ''..''"
    by (cases out) (auto simp: clean_step_def split: if_splits dest: in_set_butlastD, metis last_in_set)
  then show ?case by (simp add: out_def)
qed simp

lemma relative_segs:
  assumes "validateRelativePath p = None"
  shows "proper (rel_segs p) \<and> rel_segs p \<noteq> []"
proof -
  have p: "p \<noteq> []" "hd p \<noteq> CHR ''/''" and c: "path_Clean p \<noteq> ''.''" "path_Clean p \<noteq> ''..''" "\<not> has_prefix (path_Clean p) ''../''"
    using assms by (cases p; auto simp: validateRelativePath_def Let_def has_prefix_def split: if_splits)+
  have clean: "path_Clean p = (if rel_segs p = [] then ''.'' else join_on CHR ''/'' (rel_segs p))"
    using p by (simp add: path_Clean_def rel_segs_def)
  then have ne: "rel_segs p \<noteq> []" using c(1) by auto
  have "hd (rel_segs p) \<noteq> ''..''"
  proof
    assume h: "hd (rel_segs p) = ''..''"
    obtain xs where "rel_segs p = ''..'' # xs" using h ne by (cases "rel_segs p") auto
    then show False using c(2,3) clean by (cases xs) (auto simp: has_prefix_def)
  qed
  then have "''..'' \<notin> set (rel_segs p)" using dots_lead [of "split_on CHR ''/'' p"] by (auto simp: rel_segs_def)
  then have "proper (rel_segs p)" unfolding rel_segs_def
    by (intro clean_proper_result) (auto dest: split_on_sep_free)
  then show ?thesis using ne by simp
qed

lemma file_abs:
  assumes "validateDepotName depot = None" "proper [c]" "validateRelativePath p = None"
  shows "fs_abs f (path_Join [channelPath depot c, p]) = depot_dir f depot @ c # rel_segs p"
proof -
  note r = relative_segs [OF assms(3)]
  let ?b = "split_on CHR ''/'' depot @ [c]"
  have b: "proper ?b" using depot_parts [OF assms(1)] assms(2) by simp
  have ch: "channelPath depot c = join_on CHR ''/'' ?b"
    using join_entry [OF assms(1), of "[c]"] assms(2) by (simp add: channelPath_def depotPath_def)
  have j: "channelPath depot c \<noteq> []" "hd (channelPath depot c) \<noteq> CHR ''/''" using join_proper [OF b] by (simp_all add: ch)
  have p: "p \<noteq> []" using assms(3) by (auto simp: validateRelativePath_def)
  have "''..'' \<notin> set (rel_segs p)" using r by (auto simp: proper_def)
  then have "foldl (clean_step False) [] (split_on CHR ''/'' (channelPath depot c @ CHR ''/'' # p)) = ?b @ rel_segs p"
    using clean_on_base [of "split_on CHR ''/'' p" False ?b] b split_proper [OF b] clean_proper [OF b, of False "[]"]
    by (simp add: split_on_append rel_segs_def ch)
  then have "path_Join [channelPath depot c, p] = join_on CHR ''/'' (?b @ rel_segs p)"
    using j p r by (simp add: path_Join_def path_Clean_def Let_def)
  then show ?thesis using abs_proper [of "?b @ rel_segs p" f] b r by (simp add: depot_dir_def)
qed

text \<open>
  The files of a release are there with their digests.  A file listed under a path that leads to
  \<open>manifest.json\<close> is left out: moving a channel rewrites its manifest, so nothing is promised of it.
\<close>

definition files_ok :: "'s fw_env \<Rightarrow> filesys \<Rightarrow> string \<Rightarrow> channel \<Rightarrow> depot_release \<Rightarrow> bool" where
  "files_ok E f depot c r \<longleftrightarrow>
     (\<forall>x \<in> set (releaseFiles r). hd (rel_segs (fpath x)) \<noteq> ''manifest.json'' \<longrightarrow>
        (\<exists>data. node_at (fsnode f) (fs_abs f (path_Join [channelPath depot c, fpath x])) = Inr (FileNode data) \<and>
           hexSha256 E data = fsha256 x \<and> hexMd5 E data = fmd5 x))"

lemma read_file: "fs_ReadFile f p = (Inr data, f') \<Longrightarrow> node_at (fsnode f) (fs_abs f p) = Inr (FileNode data)"
  by (auto simp: fs_ReadFile_def os_stat_def faulty_def split: list.splits sum.splits node.splits if_splits)

lemma validate_files_reads:
  "validate_files E f base xs = (e, f') \<Longrightarrow> keeps f f' \<and> fsnode f' = fsnode f"
proof (induction xs arbitrary: f)
  case (Cons x xs)
  obtain r f1 where 1: "fs_ReadFile f (path_Join [base, fpath x]) = (r, f1)" by (cases "fs_ReadFile f (path_Join [base, fpath x])")
  show ?case using Cons read_keeps [OF 1]
    by (cases r) (auto simp: 1 split: if_splits intro: keeps_trans)
qed simp

lemma abs_keeps: "keeps f f' \<Longrightarrow> fs_abs f' p = fs_abs f p"
  by (simp add: fs_abs_def keeps_def)

lemma validate_files_match:
  "validate_files E f base xs = (None, f') \<Longrightarrow> x \<in> set xs \<Longrightarrow>
    \<exists>data. node_at (fsnode f) (fs_abs f (path_Join [base, fpath x])) = Inr (FileNode data) \<and>
      hexSha256 E data = fsha256 x \<and> hexMd5 E data = fmd5 x"
proof (induction xs arbitrary: f)
  case (Cons y xs)
  obtain r f1 where 1: "fs_ReadFile f (path_Join [base, fpath y]) = (r, f1)" by (cases "fs_ReadFile f (path_Join [base, fpath y])")
  obtain data where r: "r = Inr data" "hexSha256 E data = fsha256 y" "hexMd5 E data = fmd5 y" "validate_files E f1 base xs = (None, f')"
    using Cons.prems(1) by (cases r) (auto simp: 1 split: if_splits)
  have "fs_abs f1 p = fs_abs f p" for p using read_keeps [OF 1] abs_keeps by blast
  then show ?case using Cons.IH [OF r(4)] Cons.prems(2) r read_file [OF 1 [unfolded r(1)]] read_keeps [OF 1] by auto
qed simp

lemma like_file:
  assumes "like (Some n) b" "node_at n (x # p) = Inr (FileNode d)" "x \<noteq> ''manifest.json''"
  shows "\<exists>m. b = Some m \<and> node_at m (x # p) = Inr (FileNode d)"
  using assms by (cases n; cases b; cases "the b") (auto split: option.splits)

lemma paths_valid: "validate_paths e seen ps = None \<Longrightarrow> p \<in> set ps \<Longrightarrow> validateRelativePath p = None"
  by (induction ps arbitrary: seen) (auto split: option.splits if_splits)

lemma release_paths: "validateRelease r = None \<Longrightarrow> x \<in> set (releaseFiles r) \<Longrightarrow> validateRelativePath (fpath x) = None"
  by (auto simp: validateRelease_def split: option.splits if_splits intro: paths_valid [of _ _ "map fpath (releaseFiles r)"])

text \<open>A file goes where its channel goes.\<close>

lemma file_moved:
  assumes name: "validateDepotName depot = None" and c: "proper [c]" "proper [c']" and v: "validateRelativePath p = None"
    and l: "like (channel_node f depot c) (channel_node f' depot c')" and m: "hd (rel_segs p) \<noteq> ''manifest.json''"
    and d: "node_at (fsnode f) (fs_abs f (path_Join [channelPath depot c, p])) = Inr (FileNode data)"
  shows "node_at (fsnode f') (fs_abs f' (path_Join [channelPath depot c', p])) = Inr (FileNode data)"
proof -
  obtain y q where yq: "rel_segs p = y # q" using relative_segs [OF v] by (cases "rel_segs p") auto
  have app: "node_at n (D @ e # r) = (case node_at n (D @ [e]) of Inl x \<Rightarrow> Inl x | Inr k \<Rightarrow> node_at k r)" for n D e r
    using node_at_append [of n "D @ [e]" r] by simp
  obtain n where n: "node_at (fsnode f) (depot_dir f depot @ [c]) = Inr n" "node_at n (y # q) = Inr (FileNode data)"
    using d app [of "fsnode f" "depot_dir f depot" c "y # q"] by (auto simp: file_abs [OF name c(1) v] yq split: sum.splits)
  then have "like (Some n) (channel_node f' depot c')" using l by (simp add: channel_node_def)
  from like_file [OF this n(2)] m yq
  obtain k where "channel_node f' depot c' = Some k" "node_at k (y # q) = Inr (FileNode data)" by auto
  then show ?thesis
    using app [of "fsnode f'" "depot_dir f' depot" c' "y # q"]
    by (auto simp: channel_node_def file_abs [OF name c(2) v] yq split: sum.splits)
qed

text \<open>What was checked in one channel holds where the channel goes.\<close>

lemma files_ok_moved:
  assumes ok: "files_ok E f depot c r" and name: "validateDepotName depot = None" and c: "proper [c]" "proper [c']"
    and l: "like (channel_node f depot c) (channel_node f' depot c')" and valid: "validateRelease r = None"
    and same: "set (releaseFiles r') \<subseteq> set (releaseFiles r)"
  shows "files_ok E f' depot c' r'"
  unfolding files_ok_def
proof (intro ballI impI)
  fix x assume x: "x \<in> set (releaseFiles r')" and m: "hd (rel_segs (fpath x)) \<noteq> ''manifest.json''"
  have v: "validateRelativePath (fpath x) = None" using release_paths [OF valid] x same by blast
  obtain data where d: "node_at (fsnode f) (fs_abs f (path_Join [channelPath depot c, fpath x])) = Inr (FileNode data)"
      "hexSha256 E data = fsha256 x" "hexMd5 E data = fmd5 x"
    using ok [unfolded files_ok_def, rule_format, of x] x m same by auto
  show "\<exists>data. node_at (fsnode f') (fs_abs f' (path_Join [channelPath depot c', fpath x])) = Inr (FileNode data) \<and>
      hexSha256 E data = fsha256 x \<and> hexMd5 E data = fmd5 x"
    using file_moved [OF name c v l m d(1)] d(2,3) by blast
qed

section \<open>The service over a store that keeps its contract\<close>

text \<open>The JSON of a depot is read back as what was written.\<close>

definition reads_back :: "'s fw_env \<Rightarrow> depot \<Rightarrow> bool" where
  "reads_back E d \<longleftrightarrow> (\<forall>b. jsonDepot E d = Some b \<longrightarrow> unjsonDepot E b = Some d)"

text \<open>
  A server as it is set up: the metadata store keeps its contract, and the context of the call is not done.
\<close>

locale depot_meta = kv_store St "CHR '':''" inv view
  for St :: "'s store" and inv :: "'s \<Rightarrow> bool" and view :: "int \<Rightarrow> 's \<Rightarrow> kv_key \<Rightarrow> byte list option" +
  fixes E :: "'s fw_env"
  assumes store: "metaStore E = Some St"
    and ctx: "ce_ctx (callEnv E) = None"
begin

definition now :: int where
  "now = ce_now (callEnv E)"

definition meta_of :: "'s fw_state \<Rightarrow> string \<Rightarrow> byte list option" where
  "meta_of s name = view now (fwMeta s) (depotMetadataKey name)"

text \<open>Only reads happened.\<close>

definition reads :: "'s fw_state \<Rightarrow> 's fw_state \<Rightarrow> bool" where
  "reads s s' \<longleftrightarrow> inv (fwMeta s') \<and> view now (fwMeta s') = view now (fwMeta s) \<and>
     keeps (fwFiles s) (fwFiles s') \<and> fsnode (fwFiles s') = fsnode (fwFiles s)"

lemma reads_trans: "reads s t \<Longrightarrow> reads t u \<Longrightarrow> reads s u"
  by (auto simp: reads_def intro: keeps_trans)

lemma reads_meta: "reads s s' \<Longrightarrow> meta_of s' name = meta_of s name"
  by (simp add: reads_def meta_of_def)

lemma key_clean: "validateDepotName name = None \<Longrightarrow> clean CHR '':'' (depotMetadataKey name) \<and> depotMetadataKey name \<noteq> []"
proof -
  assume "validateDepotName name = None"
  then have "CHR '':'' \<notin> set name" by (auto simp: validateDepotName_def split: if_splits)
  moreover have "p \<in> set ps \<Longrightarrow> set p \<subseteq> set (join_on CHR ''/'' ps)" for p ps
    by (induction "CHR ''/''" ps rule: join_on.induct) auto
  then have "set p \<subseteq> set name" if "p \<in> set (split_on CHR ''/'' name)" for p
    using that join_split [of "CHR ''/''" name] by metis
  ultimately show ?thesis by (auto simp: clean_def depotMetadataKey_def depotMetadataRoot_def)
qed

lemma get_reads:
  assumes "inv (fwMeta s)" "getDepotMetadata E s name = (r, s')"
  shows "reads s s' \<and> fwFiles s' = fwFiles s \<and>
    r = (case validateDepotName name of Some e \<Rightarrow> Inl e | None \<Rightarrow> read_meta E name (meta_of s name))"
proof (cases "validateDepotName name")
  case None
  obtain x m where g: "sGet St (callEnv E) (fwMeta s) (depotMetadataKey name) = (x, m)"
    by (cases "sGet St (callEnv E) (fwMeta s) (depotMetadataKey name)")
  have k: "clean CHR '':'' (depotMetadataKey name)" "depotMetadataKey name \<noteq> []" using key_clean [OF None] by auto
  have law: "x = (case meta_of s name of None \<Rightarrow> Err KeyNotFound | Some v \<Rightarrow> Val v)" "inv m" "view now m = view now (fwMeta s)"
    using get_law [OF assms(1) k ctx] g by (auto simp: meta_of_def now_def)
  show ?thesis using assms(2) law
    by (cases "meta_of s name")
      (auto simp: getDepotMetadata_def None store g read_meta_def reads_def Let_def split: sum.splits)
qed (use assms in \<open>auto simp: getDepotMetadata_def reads_def\<close>)

lemma scan_reads:
  assumes "inv (fwMeta s)" "scanDepot E s name = (r, s')"
  shows "reads s s' \<and> fwFiles s' = fwFiles s \<and>
    r = (case validateDepotName name of Some e \<Rightarrow> Inl e | None \<Rightarrow> read_meta E name (meta_of s name))"
proof -
  obtain g s1 where g: "getDepotMetadata E s name = (g, s1)" by (cases "getDepotMetadata E s name")
  note G = get_reads [OF assms(1) g]
  have o: "validateVersionOrder d = None" if "g = Inr d" for d
  proof -
    have "read_meta E name (meta_of s name) = Inr d" using G that by (auto split: option.splits)
    then show ?thesis by (intro valid_order read_meta_ok(3))
  qed
  have "r = g \<and> s' = s1" using assms(2) by (cases g) (auto simp: scanDepot_def g o)
  then show ?thesis using G by simp
qed

lemma release_reads:
  assumes "inv (fwMeta s)" "scanRelease E s name c = (r, s')"
  shows "reads s s'"
proof -
  obtain g s1 where g: "scanDepot E s name = (g, s1)" by (cases "scanDepot E s name")
  have "reads s s1" using scan_reads [OF assms(1) g] by blast
  moreover have "validateReleaseAgainstFiles E f b rel = (e, f') \<Longrightarrow> keeps f f' \<and> fsnode f' = fsnode f" for f b rel e f'
    by (auto simp: validateReleaseAgainstFiles_def split: option.splits dest: validate_files_reads)
  ultimately show ?thesis using assms(2)
    by (auto simp: scanRelease_def g reads_def split: sum.splits prod.splits if_splits intro: keeps_trans)
qed

lemma scan_channels_reads:
  "inv (fwMeta s) \<Longrightarrow> scan_channels E name d cs s = (e, s') \<Longrightarrow> reads s s'"
proof (induction cs arbitrary: s)
  case (Cons x cs)
  obtain c b where x: "x = (c, b)" by (cases x)
  obtain r s1 where 1: "scanRelease E s name c = (r, s1)" by (cases "scanRelease E s name c")
  have r1: "reads s s1" using release_reads [OF Cons.prems(1) 1] .
  then have "inv (fwMeta s1)" by (simp add: reads_def)
  then show ?case using Cons r1 by (cases r) (auto simp: x 1 split: if_splits intro: reads_trans)
qed (simp add: reads_def)

lemma validate_reads:
  assumes "inv (fwMeta s)" "validateDepot E s name = (e, s')"
  shows "reads s s' \<and> (e = None \<longrightarrow> validateDepotName name = None \<and>
    (\<exists>ns. node_at (fsnode (fwFiles s)) (depot_dir (fwFiles s) name) = Inr (DirNode ns)))"
proof (cases "validateDepotName name")
  case (Some x)
  then show ?thesis using assms by (auto simp: validateDepot_def reads_def)
next
  case None
  obtain g s1 where g: "getDepotMetadata E s name = (g, s1)" by (cases "getDepotMetadata E s name")
  note G = get_reads [OF assms(1) g]
  show ?thesis
  proof (cases g)
    case (Inl x)
    then show ?thesis using assms(2) G by (auto simp: validateDepot_def None g)
  next
    case (Inr d)
    obtain st f where st: "fs_Stat (fwFiles s) (depotPath name) = (st, f)" by (cases "fs_Stat (fwFiles s) (depotPath name)")
    have "node_at (fsnode (fwFiles s)) (depot_dir (fwFiles s) name) = st \<or> st = Inl OtherError"
      using st by (auto simp: fs_Stat_def os_stat_def depot_abs [OF None] faulty_def split: if_splits list.splits)
    then show ?thesis using assms(2) G stat_keeps [OF st]
      by (auto simp: validateDepot_def None g Inr st reads_def split: sum.splits node.splits fs_error.splits)
  qed
qed

lemma write_law:
  assumes "inv (fwMeta s)" "writeDepotMetadata E s d = (e, s')"
  shows "(e \<noteq> None \<longrightarrow> s' = s) \<and>
    (e = None \<longrightarrow> inv (fwMeta s') \<and> validateDepotMetadata (normalizeDepotMetadata d) = None \<and>
      (\<exists>data. jsonDepot E (normalizeDepotMetadata d) = Some data \<and>
        view now (fwMeta s') = (view now (fwMeta s))(depotMetadataKey (dname d) \<mapsto> data)))"
proof (cases "validateDepotName (dname d)")
  case None
  have n: "dname (normalizeDepotMetadata d) = dname d" by (simp add: normalizeDepotMetadata_def)
  have k: "clean CHR '':'' (depotMetadataKey (dname d))" "depotMetadataKey (dname d) \<noteq> []" using key_clean [OF None] by auto
  show ?thesis
  proof (cases "validateDepotMetadata (normalizeDepotMetadata d) = None \<and> jsonDepot E (normalizeDepotMetadata d) \<noteq> None")
    case True
    then obtain data where data: "jsonDepot E (normalizeDepotMetadata d) = Some data" by blast
    obtain x m where w: "sSet St (callEnv E) (fwMeta s) (depotMetadataKey (dname d)) data = (x, m)"
      by (cases "sSet St (callEnv E) (fwMeta s) (depotMetadataKey (dname d)) data")
    then have "x = Val ()" "inv m" "view now m = (view now (fwMeta s))(depotMetadataKey (dname d) \<mapsto> data)"
      using set_law [OF assms(1) k ctx, of data now] by auto
    then show ?thesis using assms(2) True data by (auto simp: writeDepotMetadata_def None n store w Let_def)
  next
    case False
    then show ?thesis using assms(2) by (auto simp: writeDepotMetadata_def None n store Let_def split: option.splits)
  qed
qed (use assms in \<open>auto simp: writeDepotMetadata_def\<close>)

text \<open>A depot that was written is read back, provided its JSON is.\<close>

lemma read_written:
  assumes "validateDepotMetadata d = None" "normal d" "unjsonDepot E data = Some d" "dname d = name"
  shows "read_meta E name (Some data) = Inr d"
proof -
  have "dname d \<noteq> []" using valid_name [OF assms(1)] by (auto simp: validateDepotName_def)
  then show ?thesis using assms by (simp add: read_meta_def decodeDepotMetadata_def normal_def)
qed

lemma key_inj: "depotMetadataKey a = depotMetadataKey b \<longleftrightarrow> a = b"
  by (metis append_same_eq same_append_eq depotMetadataKey_def join_split)

text \<open>What the service answers for the metadata of a depot.\<close>

definition known :: "'s fw_state \<Rightarrow> string \<Rightarrow> fw_error + depot" where
  "known s name = fst (getDepotMetadata E s name)"

lemma known_eq:
  assumes "inv (fwMeta s)"
  shows "known s name = (case validateDepotName name of Some e \<Rightarrow> Inl e | None \<Rightarrow> read_meta E name (meta_of s name))"
  using get_reads [OF assms, of name] by (cases "getDepotMetadata E s name") (simp add: known_def)

lemma known_reads: "inv (fwMeta s) \<Longrightarrow> reads s s' \<Longrightarrow> known s' name = known s name"
  using reads_meta [of s s' name] by (simp add: known_eq reads_def split: option.split)

lemma known_written:
  assumes "inv (fwMeta s)" "writeDepotMetadata E s d = (None, s')" "normal d"
  shows "inv (fwMeta s') \<and> (reads_back E d \<longrightarrow> known s' (dname d) = Inr d) \<and>
    (\<forall>name. name \<noteq> dname d \<longrightarrow> known s' name = known s name)"
proof -
  have d: "normalizeDepotMetadata d = d" using assms(3) by (simp add: normal_def)
  obtain data where w: "inv (fwMeta s')" "validateDepotMetadata d = None" "jsonDepot E d = Some data"
      "view now (fwMeta s') = (view now (fwMeta s))(depotMetadataKey (dname d) \<mapsto> data)"
    using write_law [OF assms(1,2)] by (auto simp: d)
  have "meta_of s' name = (if name = dname d then Some data else meta_of s name)" for name
    by (simp add: meta_of_def w(4) key_inj)
  then show ?thesis
    using w(1,3) read_written [OF w(2) assms(3) _ refl] valid_name [OF w(2)]
    by (simp add: known_eq [OF w(1)] known_eq [OF assms(1)] reads_back_def split: option.split)
qed

lemma write_same_files: "writeDepotMetadata E (s\<lparr>fwFiles := f\<rparr>) d = (None, e) \<Longrightarrow>
    writeDepotMetadata E s d = (None, e\<lparr>fwFiles := fwFiles s\<rparr>)"
  by (auto simp: writeDepotMetadata_def Let_def split: option.splits prod.splits)

lemma known_meta: "fwMeta s' = fwMeta s \<Longrightarrow> known s' name = known s name"
  by (auto simp: known_def getDepotMetadata_def Let_def split: option.splits prod.splits)

end

text \<open>
  In addition, JSON that was written is read back, as it is for the text that JSON was decoded to before, and
  loops over Go maps visit every entry once.
\<close>

locale depot_store = depot_meta St inv view E
  for St :: "'s store" and inv :: "'s \<Rightarrow> bool" and view :: "int \<Rightarrow> 's \<Rightarrow> kv_key \<Rightarrow> byte list option" and E :: "'s fw_env" +
  assumes json: "jsonDepot E d = Some b \<Longrightarrow> unjsonDepot E b = Some d"
    and order: "any_order E"
begin

lemma all_read_back [simp]: "reads_back E d"
  using json by (simp add: reads_back_def)

lemma commit_failed:
  assumes "inv (fwMeta s)" "commit_switch E s depot paths L rw d = (Inl e, s')"
  shows "fwMeta s' = fwMeta s"
proof -
  have w: "fwMeta s2 = fwMeta s" if "writeDepotMetadata E (s\<lparr>fwFiles := f\<rparr>) d = (Some x, s2)" for f x s2
    using write_law [OF _ that] assms(1) by simp
  show ?thesis using assms(2)
    by (auto simp: commit_switch_def split: prod.splits sum.splits option.splits dest: w)
qed

text \<open>What the scans before a switch establish.\<close>

definition scanned :: "filesys \<Rightarrow> string \<Rightarrow> depot \<Rightarrow> channel \<Rightarrow> bool" where
  "scanned f depot d c \<longleftrightarrow>
     snd (depotRelease d c) \<and> validateRelease (fst (depotRelease d c)) = None \<and> files_ok E f depot c (fst (depotRelease d c))"

lemma scan_release_ok:
  assumes "inv (fwMeta s)" "scanRelease E s depot c = (Inr r, s')" "known s depot = Inr d"
  shows "scanned (fwFiles s) depot d c"
proof -
  obtain g s1 where g: "scanDepot E s depot = (g, s1)" by (cases "scanDepot E s depot")
  have S: "g = known s depot" "fwFiles s1 = fwFiles s" using scan_reads [OF assms(1) g] by (simp_all add: known_eq [OF assms(1)])
  then obtain rel where rel: "depotRelease d c = (rel, True)"
    "fst (validateReleaseAgainstFiles E (fwFiles s) (channelPath depot c) rel) = None"
    using assms(2,3) by (auto simp: scanRelease_def g split: prod.splits if_splits option.splits)
  then show ?thesis
    by (cases "validateReleaseAgainstFiles E (fwFiles s) (channelPath depot c) rel")
      (auto simp: scanned_def files_ok_def validateReleaseAgainstFiles_def split: option.splits dest: validate_files_match)
qed

lemma scanned_reads: "reads s s' \<Longrightarrow> scanned (fwFiles s') depot d c = scanned (fwFiles s) depot d c"
  using abs_keeps [of "fwFiles s" "fwFiles s'"] by (simp add: scanned_def files_ok_def reads_def)

lemma scan_channels_ok:
  "inv (fwMeta s) \<Longrightarrow> scan_channels E depot d cs s = (None, s') \<Longrightarrow> known s depot = Inr d \<Longrightarrow> (c, b) \<in> set cs \<Longrightarrow>
    (b \<or> snd (depotRelease d c)) \<Longrightarrow> scanned (fwFiles s) depot d c"
proof (induction cs arbitrary: s)
  case (Cons x cs)
  obtain c1 b1 where x: "x = (c1, b1)" by (cases x)
  show ?case
  proof (cases "\<not> b1 \<and> \<not> snd (depotRelease d c1)")
    case True
    then show ?thesis using Cons by (auto simp: x)
  next
    case False
    obtain r s1 where 1: "scanRelease E s depot c1 = (r, s1)" by (cases "scanRelease E s depot c1")
    then obtain rel where r: "r = Inr rel" "scan_channels E depot d cs s1 = (None, s')"
      using Cons.prems(2) False by (cases r) (auto simp: x)
    have R: "reads s s1" using release_reads [OF Cons.prems(1) 1] .
    show ?thesis
      using scan_release_ok [OF Cons.prems(1) 1 [unfolded r(1)] Cons.prems(3)] Cons.IH [of s1] r(2) R Cons.prems
        scanned_reads [OF R] known_reads [OF Cons.prems(1) R]
      by (auto simp: x reads_def)
  qed
qed simp

lemma switch_result:
  assumes inv: "inv (fwMeta s)" and run: "switch_op E s depot scans cs L rw nx = (res, s')"
    and P: "switch_plan cs L" "\<forall>(c, b) \<in> set rw. channel_Valid c"
    and nx: "\<And>d. normal d \<Longrightarrow> normal (nx d) \<and> dname (nx d) = dname d"
  shows "inv (fwMeta s') \<and>
    (\<forall>d'. res = Inr d' \<longrightarrow>
      (\<exists>d. known s depot = Inr d \<and> known s' depot = Inr d' \<and> d' = nx d \<and>
        (\<forall>(c, b) \<in> set scans. b \<or> snd (depotRelease d c) \<longrightarrow> scanned (fwFiles s) depot d c) \<and>
        (\<forall>name. name \<noteq> depot \<longrightarrow> known s' name = known s name) \<and>
        (\<forall>c \<in> set cs. like (switched L (channel_node (fwFiles s) depot) c) (channel_node (fwFiles s') depot c)))) \<and>
    (\<forall>e. res = Inl e \<and> faults (fwFiles s) = [] \<longrightarrow>
      (\<forall>name. known s' name = known s name) \<and>
      (\<forall>c \<in> set cs. like (channel_node (fwFiles s) depot c) (channel_node (fwFiles s') depot c)))"
proof -
  have only_reads: ?thesis if "reads s s'" "\<And>d. res \<noteq> Inr d"
    using that channel_node_same [of "fwFiles s" "fwFiles s'"] known_reads [OF inv that(1)] by (auto simp: reads_def)
  obtain e1 s1 where 1: "validateDepot E s depot = (e1, s1)" by (cases "validateDepot E s depot")
  note V = validate_reads [OF inv 1]
  then have i1: "inv (fwMeta s1)" by (simp add: reads_def)
  obtain r2 s2 where 2: "scanDepot E s1 depot = (r2, s2)" by (cases "scanDepot E s1 depot")
  note S = scan_reads [OF i1 2]
  then have i2: "inv (fwMeta s2)" "reads s s2" using V by (auto simp: reads_def intro: reads_trans)
  show ?thesis
  proof (cases "e1 = None \<and> (\<exists>d. r2 = Inr d)")
    case False
    have "(reads s s' \<and> (\<forall>d. res \<noteq> Inr d))"
      using False run V i2(2) by (cases e1; cases r2) (auto simp: switch_op_def 1 2)
    then show ?thesis using only_reads by blast
  next
    case True
    then obtain d where d: "e1 = None" "r2 = Inr d" by blast
    obtain e3 s3 where 3: "scan_channels E depot d scans s2 = (e3, s3)" by (cases "scan_channels E depot d scans s2")
    have r3: "reads s s3" using i2(2) scan_channels_reads [OF i2(1) 3] by (rule reads_trans)
    then have i3: "inv (fwMeta s3)" and k3: "keeps (fwFiles s) (fwFiles s3)" "fsnode (fwFiles s3) = fsnode (fwFiles s)"
      by (simp_all add: reads_def)
    show ?thesis
    proof (cases e3)
      case (Some x)
      then have "res = Inl x" "s' = s3" using run by (auto simp: switch_op_def 1 2 3 d)
      then show ?thesis using only_reads r3 by blast
    next
      case None
      have c: "commit_switch E s3 depot (channel_paths depot cs) L rw (nx d) = (res, s')"
        using run by (simp add: switch_op_def 1 2 3 d None)
      obtain ns where ns: "node_at (fsnode (fwFiles s)) (depot_dir (fwFiles s) depot) = Inr (DirNode ns)"
        and name: "validateDepotName depot = None" using V d(1) by blast
      let ?D = "depot_dir (fwFiles s) depot"
      have D3: "?D = depot_dir (fwFiles s3) depot" using depot_dir_keeps [OF k3(1)] by simp
      have at: "at_dir (fwFiles s3) ?D (fsnode (fwFiles s)) (map_of ns)"
        using at_dir_start [OF ns] at_dir_node [of "fwFiles s" _ _ _ "fwFiles s3"] k3(2) by blast
      have M: "channel_node (fwFiles s) depot = map_of ns"
        using channel_node_at [OF at_dir_start [OF ns] refl] by (simp add: fun_eq_iff)
      have "read_meta E depot (meta_of s1 depot) = Inr d" using S d(2) name by simp
      then have dn: "normal d" "dname d = depot" "known s depot = Inr d"
        using read_meta_ok reads_meta [of s s1] V by (auto simp: known_eq [OF inv] name)
      have M': "channel_node (fwFiles s') depot c = M' c"
        if "keeps (fwFiles s3) (fwFiles s')" "at_dir (fwFiles s') ?D (fsnode (fwFiles s)) M'" for M' c
        using channel_node_at [OF that(2)] depot_dir_keeps [OF that(1)] D3 by simp
      show ?thesis
      proof (cases res)
        case (Inr d')
        from commit_done [OF at D3 name P(1) order P(2) c [unfolded Inr]]
        obtain f e Mx where C: "d' = nx d" "writeDepotMetadata E (s3\<lparr>fwFiles := f\<rparr>) (nx d) = (None, e)" "fwMeta s' = fwMeta e"
          "keeps (fwFiles s3) (fwFiles s')" "at_dir (fwFiles s') ?D (fsnode (fwFiles s)) Mx"
          "\<forall>c \<in> set cs. like (switched L (map_of ns) c) (Mx c)" by blast
        have "fwMeta (s3\<lparr>fwFiles := f\<rparr>) = fwMeta s3" by simp
        then have K: "inv (fwMeta e)" "known e (dname (nx d)) = Inr (nx d)" "\<forall>name. name \<noteq> dname (nx d) \<longrightarrow> known e name = known s3 name"
          using known_written [OF _ C(2)] all_read_back nx [OF dn(1)] i3 known_meta [of "s3\<lparr>fwFiles := f\<rparr>" s3] by auto
        have "known s' name = known e name" for name using known_meta C(3) by blast
        moreover have "scanned (fwFiles s) depot d c" if "(c, b) \<in> set scans" "b \<or> snd (depotRelease d c)" for c b
          using scan_channels_ok [OF i2(1) _ _ that] 3 None scanned_reads [OF i2(2)] known_reads [OF inv i2(2)] dn(3) by simp
        ultimately show ?thesis
          using K C nx [OF dn(1)] dn M M' known_reads [OF inv r3] Inr by auto
      next
        case (Inl e)
        note m = commit_failed [OF i3 c [unfolded Inl]]
        have "like (map_of ns c) (channel_node (fwFiles s') depot c)" if "faults (fwFiles s) = []" "c \<in> set cs" for c
        proof -
          have "faults (fwFiles s3) = []" using that(1) k3(1) by (simp add: keeps_def)
          from commit_undone [OF at D3 name this P(1) order P(2) c [unfolded Inl]]
          show ?thesis using M' that(2) by metis
        qed
        then show ?thesis using Inl M m i3 known_meta [OF m] known_reads [OF inv r3] by simp
      qed
    qed
  qed
qed

end

section \<open>Properties\<close>

lemma with_channel_files: "set (releaseFiles (releaseWithChannel r c)) \<subseteq> set (releaseFiles r)"
  by (auto simp: releaseWithChannel_def no_release_def normalizeDepotRelease_def releaseFiles_def split: option.splits if_splits)

lemma no_files: "rsemver r = [] \<Longrightarrow> files_ok E f depot c (releaseWithChannel r c')"
  by (simp add: files_ok_def releaseWithChannel_def no_release_def releaseFiles_def)

lemma channels_valid [simp]: "channel_Valid Rollback" "channel_Valid Stable" "channel_Valid Beta" "channel_Valid Testing"
  by (simp_all add: channel_Valid_def)

lemma channels_differ [simp]:
  "Rollback \<noteq> Stable" "Rollback \<noteq> Beta" "Rollback \<noteq> Testing" "Stable \<noteq> Rollback" "Stable \<noteq> Beta" "Stable \<noteq> Testing"
  "Beta \<noteq> Rollback" "Beta \<noteq> Stable" "Beta \<noteq> Testing" "Testing \<noteq> Rollback" "Testing \<noteq> Stable" "Testing \<noteq> Beta"
  by (simp_all add: channel_defs)

lemma release_of:
  "depotRelease d Rollback = (drollback d, rsemver (drollback d) \<noteq> [])" "depotRelease d Stable = (dstable d, rsemver (dstable d) \<noteq> [])"
  "depotRelease d Beta = (dbeta d, rsemver (dbeta d) \<noteq> [])" "depotRelease d Testing = (dtesting d, rsemver (dtesting d) \<noteq> [])"
  by (simp_all add: depotRelease_def)

context depot_store
begin

lemma known_name: "known s depot = Inr d \<Longrightarrow> inv (fwMeta s) \<Longrightarrow> validateDepotName depot = None"
  by (simp add: known_eq split: option.splits)

text \<open>A channel that was scanned, or that has no release, is in order where it goes.\<close>

lemma moved_ok:
  assumes "validateDepotName depot = None" "channel_Valid c" "channel_Valid c'"
    and "rsemver (fst (depotRelease d c)) \<noteq> [] \<longrightarrow> scanned f depot d c"
    and "like (channel_node f depot c) (channel_node f' depot c')"
  shows "files_ok E f' depot c' (releaseWithChannel (fst (depotRelease d c)) c')"
proof (cases "rsemver (fst (depotRelease d c)) = []")
  case False
  then show ?thesis
    using files_ok_moved [OF _ assms(1) channel_proper [OF assms(2)] channel_proper [OF assms(3)] assms(5) _ with_channel_files] assms(4)
    by (auto simp: scanned_def)
qed (rule no_files)

end

lemma release_plan: "switch_plan [Rollback, Stable, Beta, Testing] [(Stable, Beta), (Beta, Testing), (Rollback, Stable)]"
  by (simp add: switch_plan_def)

lemma rollback_plan: "switch_plan [Stable, Rollback] [(Stable, Rollback), (Rollback, Stable)]"
  by (simp add: switch_plan_def)

text \<open>
  C9: A release that succeeds promotes the depot by one step, in the record and on disk, whichever calls of
  the file system failed on the way and in whatever order maps were visited: stable becomes rollback, beta
  becomes stable, testing becomes beta and is then empty; the directories are the former ones but for the
  manifest.  Beta and testing had releases, and in each new channel the files of its release are there with
  the digests the release names, but for one listed under \<open>manifest.json\<close> (see \<open>files_ok\<close>).
\<close>

theorem release_promotes:
  assumes "depot_store St ok view E" and "ok (fwMeta s)" and "releaseDepot E s depot = (Inr d', s')"
  shows "\<exists>d. fst (getDepotMetadata E s depot) = Inr d \<and> fst (getDepotMetadata E s' depot) = Inr d' \<and>
    rsemver (dbeta d) \<noteq> [] \<and> rsemver (dtesting d) \<noteq> [] \<and>
    drollback d' = releaseWithChannel (dstable d) Rollback \<and> dstable d' = releaseWithChannel (dbeta d) Stable \<and>
    dbeta d' = releaseWithChannel (dtesting d) Beta \<and> dtesting d' = no_release \<and>
    rel_option same_files (channel_node (fwFiles s) depot Stable) (channel_node (fwFiles s') depot Rollback) \<and>
    rel_option same_files (channel_node (fwFiles s) depot Beta) (channel_node (fwFiles s') depot Stable) \<and>
    rel_option same_files (channel_node (fwFiles s) depot Testing) (channel_node (fwFiles s') depot Beta) \<and>
    channel_node (fwFiles s') depot Testing = None \<and>
    files_ok E (fwFiles s') depot Rollback (drollback d') \<and> files_ok E (fwFiles s') depot Stable (dstable d') \<and>
    files_ok E (fwFiles s') depot Beta (dbeta d')"
proof -
  note [simp] = depot_meta.known_def [OF depot_store.axioms(1) [OF assms(1)]]
  obtain d where d: "depot_meta.known E s depot = Inr d" "depot_meta.known E s' depot = Inr d'" "d' = released d"
    and sc: "\<forall>(c, b) \<in> set [(Beta, True), (Testing, True), (Stable, False)]. b \<or> snd (depotRelease d c) \<longrightarrow>
      depot_store.scanned E (fwFiles s) depot d c"
    and ch: "\<forall>c \<in> set [Rollback, Stable, Beta, Testing]. like (switched [(Stable, Beta), (Beta, Testing), (Rollback, Stable)] (channel_node (fwFiles s) depot) c)
      (channel_node (fwFiles s') depot c)"
    using depot_store.switch_result [OF assms(1,2) assms(3) [unfolded releaseDepot_op] release_plan _ normal_next(1)] by auto
  have name: "validateDepotName depot = None" by (rule depot_store.known_name [OF assms(1) d(1) assms(2)])
  have moves: "like (channel_node (fwFiles s) depot Beta) (channel_node (fwFiles s') depot Stable)"
    "like (channel_node (fwFiles s) depot Testing) (channel_node (fwFiles s') depot Beta)"
    "like (channel_node (fwFiles s) depot Stable) (channel_node (fwFiles s') depot Rollback)"
    "channel_node (fwFiles s') depot Testing = None"
    using ch by (simp_all add: switched_def)
  note ok = depot_store.moved_ok [OF assms(1) name]
  have "files_ok E (fwFiles s') depot Rollback (drollback d')" "files_ok E (fwFiles s') depot Stable (dstable d')"
    "files_ok E (fwFiles s') depot Beta (dbeta d')"
    using ok [of Stable Rollback d "fwFiles s"] ok [of Beta Stable d "fwFiles s"] ok [of Testing Beta d "fwFiles s"] sc moves
    by (simp_all add: d(3) released_def release_of)
  moreover have "rsemver (dbeta d) \<noteq> []" "rsemver (dtesting d) \<noteq> []"
    using sc by (simp_all add: depot_store.scanned_def [OF assms(1)] release_of)
  ultimately show ?thesis using d moves by (auto simp: released_def)
qed

text \<open>
  C19: A rollback that succeeds exchanges the stable and the rollback channel, in the record and on disk, and
  leaves the record of the other channels alone; the files of both releases are there with their digests,
  but for one listed under \<open>manifest.json\<close>.
\<close>

theorem rollback_exchanges:
  assumes "depot_store St ok view E" and "ok (fwMeta s)" and "rollbackDepot E s depot = (Inr d', s')"
  shows "\<exists>d. fst (getDepotMetadata E s depot) = Inr d \<and> fst (getDepotMetadata E s' depot) = Inr d' \<and>
    rsemver (drollback d) \<noteq> [] \<and>
    dstable d' = releaseWithChannel (drollback d) Stable \<and> drollback d' = releaseWithChannel (dstable d) Rollback \<and>
    dbeta d' = dbeta d \<and> dtesting d' = dtesting d \<and> dinfo d' = dinfo d \<and>
    rel_option same_files (channel_node (fwFiles s) depot Rollback) (channel_node (fwFiles s') depot Stable) \<and>
    rel_option same_files (channel_node (fwFiles s) depot Stable) (channel_node (fwFiles s') depot Rollback) \<and>
    files_ok E (fwFiles s') depot Stable (dstable d') \<and> files_ok E (fwFiles s') depot Rollback (drollback d')"
proof -
  note [simp] = depot_meta.known_def [OF depot_store.axioms(1) [OF assms(1)]]
  obtain d where d: "depot_meta.known E s depot = Inr d" "depot_meta.known E s' depot = Inr d'" "d' = rolled_back d"
    and sc: "\<forall>(c, b) \<in> set [(Rollback, True), (Stable, False)]. b \<or> snd (depotRelease d c) \<longrightarrow>
      depot_store.scanned E (fwFiles s) depot d c"
    and ch: "\<forall>c \<in> set [Stable, Rollback]. like (switched [(Stable, Rollback), (Rollback, Stable)] (channel_node (fwFiles s) depot) c)
      (channel_node (fwFiles s') depot c)"
    using depot_store.switch_result [OF assms(1,2) assms(3) [unfolded rollbackDepot_op] rollback_plan _ normal_next(2)] by auto
  have name: "validateDepotName depot = None" by (rule depot_store.known_name [OF assms(1) d(1) assms(2)])
  have moves: "like (channel_node (fwFiles s) depot Rollback) (channel_node (fwFiles s') depot Stable)"
    "like (channel_node (fwFiles s) depot Stable) (channel_node (fwFiles s') depot Rollback)"
    using ch by (simp_all add: switched_def)
  note ok = depot_store.moved_ok [OF assms(1) name]
  have "files_ok E (fwFiles s') depot Rollback (drollback d')" "files_ok E (fwFiles s') depot Stable (dstable d')"
    using ok [of Stable Rollback d "fwFiles s"] ok [of Rollback Stable d "fwFiles s"] sc moves
    by (simp_all add: d(3) rolled_back_def release_of)
  moreover have "rsemver (drollback d) \<noteq> []"
    using sc by (simp add: depot_store.scanned_def [OF assms(1)] release_of)
  ultimately show ?thesis using d moves by (auto simp: rolled_back_def)
qed

text \<open>
  C11: A release or a rollback that fails, when no call of the file system failed by itself, leaves the
  record of every depot as it was and has put back every channel it moved, but for manifests.
\<close>

theorem failed_switch_restores:
  assumes "depot_store St ok view E" and "ok (fwMeta s)" and "faults (fwFiles s) = []"
    and "releaseDepot E s depot = (Inl e, s')" and "rollbackDepot E t name = (Inl e', t')"
    and "ok (fwMeta t)" and "faults (fwFiles t) = []"
  shows "fst (getDepotMetadata E s' other) = fst (getDepotMetadata E s other) \<and>
    list_all (\<lambda>c. rel_option same_files (channel_node (fwFiles s) depot c) (channel_node (fwFiles s') depot c))
      [Rollback, Stable, Beta, Testing] \<and>
    fst (getDepotMetadata E t' other) = fst (getDepotMetadata E t other) \<and>
    list_all (\<lambda>c. rel_option same_files (channel_node (fwFiles t) name c) (channel_node (fwFiles t') name c))
      [Rollback, Stable]"
proof -
  note [simp] = depot_meta.known_def [OF depot_store.axioms(1) [OF assms(1)]]
  show ?thesis
    using depot_store.switch_result [OF assms(1,2) assms(4) [unfolded releaseDepot_op] release_plan _ normal_next(1)]
      depot_store.switch_result [OF assms(1,6) assms(5) [unfolded rollbackDepot_op] rollback_plan _ normal_next(2)] assms(3,7)
    by simp
qed

section \<open>An example\<close>

definition demo_release :: "channel \<Rightarrow> string \<Rightarrow> depot_release" where
  "demo_release c v = \<lparr>rchannel = Some c, rfiles = Some [\<lparr>fmd5 = ''m'', fpath = ''fw.bin'', fsha256 = ''s''\<rparr>], rsemver = v\<rparr>"

definition demo_depot :: depot where
  "demo_depot = \<lparr>dbeta = demo_release Beta ''1.1.0'', dinfo = no_info, dname = ''dev'', drollback = no_release,
     dstable = demo_release Stable ''1.0.0'', dtesting = demo_release Testing ''1.2.0-rc.1''\<rparr>"

text \<open>A codec for the records of the example: a number per record.\<close>

fun code_of :: "'a list \<Rightarrow> 'a \<Rightarrow> byte list option" where
  "code_of [] x = None"
| "code_of (y # ys) x = (if x = y then Some (replicate (length ys) 0) else code_of ys x)"

fun of_code :: "'a list \<Rightarrow> byte list \<Rightarrow> 'a option" where
  "of_code [] b = None"
| "of_code (y # ys) b = (if length b = length ys then Some y else of_code ys b)"

lemma of_code_of: "code_of xs x = Some b \<Longrightarrow> of_code xs b = Some x"
proof (induction xs)
  case (Cons y ys)
  have "code_of ys x = Some b \<Longrightarrow> length b < length ys" by (induction ys) (auto split: if_splits)
  then show ?case using Cons by (auto split: if_splits)
qed simp

definition demo_depots :: "depot list" where
  "demo_depots = [demo_depot, released demo_depot, rolled_back (released demo_depot),
     demo_depot\<lparr>dinfo := \<lparr>dfiles = Some [''fw.bin'']\<rparr>\<rparr>]"

definition demo_releases :: "depot_release list" where
  "demo_releases = [demo_release c v. c \<leftarrow> allChannels, v \<leftarrow> [''1.0.0'', ''1.1.0'', ''1.2.0-rc.1'']]"

definition demo_server :: "kv_memory fw_env" where
  "demo_server = \<lparr>jsonDepot = code_of demo_depots, unjsonDepot = of_code demo_depots,
     jsonRelease = code_of demo_releases, unjsonRelease = of_code demo_releases,
     hexSha256 = (\<lambda>_. ''s''), hexMd5 = (\<lambda>_. ''m''), metaStore = Some Memory,
     callEnv = \<lparr>ce_ctx = None, ce_now = 0\<rparr>, mapOrder = (\<lambda>_ xs. xs)\<rparr>"

definition demo_channel :: "channel \<Rightarrow> string \<Rightarrow> string \<times> node" where
  "demo_channel c v = (c, DirNode [(''fw.bin'', FileNode [1]),
     (''manifest.json'', FileNode (case code_of demo_releases (demo_release c v) of None \<Rightarrow> [] | Some b \<Rightarrow> b))])"

definition demo_state :: "bool list \<Rightarrow> kv_memory fw_state" where
  "demo_state fl =
     \<lparr>fwFiles = \<lparr>fsroot = [''srv''], fsnode = DirNode [(''srv'', DirNode [(''dev'', DirNode
         [demo_channel Stable ''1.0.0'', demo_channel Beta ''1.1.0'', demo_channel Testing ''1.2.0-rc.1''])])],
         faults = fl\<rparr>,
      fwMeta = snd (mem_Set \<lparr>ce_ctx = None, ce_now = 0\<rparr> (NewMemory None) (depotMetadataKey ''dev'')
         (the (code_of demo_depots demo_depot)))\<rparr>"

interpretation demo: depot_store Memory "mem_inv CHR '':''" "mem_view CHR '':''" demo_server
  by unfold_locales (auto simp: demo_server_def any_order_def of_code_of)

lemma demo_state_ok: "mem_inv CHR '':'' (fwMeta (demo_state fl))"
proof -
  have "mem_inv CHR '':'' (NewMemory None)" by (simp add: mem_inv_def NewMemory_def opt_sep_def DefaultSeparator_def)
  moreover have "clean CHR '':'' (depotMetadataKey ''dev'') \<and> depotMetadataKey ''dev'' \<noteq> []" by code_simp
  ultimately show ?thesis
    using memory.set_law [of "CHR '':''" "NewMemory None" "depotMetadataKey ''dev''" "\<lparr>ce_ctx = None, ce_now = 0\<rparr>"]
    by (simp add: demo_state_def Memory_def)
qed

lemma demo_release_runs: "fst (releaseDepot demo_server (demo_state []) ''dev'') = Inr (released demo_depot)"
  by code_simp

lemma demo_split: "fst x = r \<Longrightarrow> x = (r, snd x)"
  by (cases x) simp

theorem release_promotes_witness:
  "channel_node (fwFiles (snd (releaseDepot demo_server (demo_state []) ''dev''))) ''dev'' Testing = None \<and>
   files_ok demo_server (fwFiles (snd (releaseDepot demo_server (demo_state []) ''dev''))) ''dev'' Stable
     (dstable (released demo_depot))"
  using release_promotes [OF demo.depot_store_axioms demo_state_ok demo_split [OF demo_release_runs]] by blast

definition demo_released :: "kv_memory fw_state" where
  "demo_released = snd (releaseDepot demo_server (demo_state []) ''dev'')"

lemma demo_released_ok: "mem_inv CHR '':'' (fwMeta demo_released)"
proof -
  have "releaseDepot demo_server (demo_state []) ''dev'' = (fst (releaseDepot demo_server (demo_state []) ''dev''), demo_released)"
    by (simp add: demo_released_def)
  from demo.switch_result [OF demo_state_ok this [unfolded releaseDepot_op] release_plan _ normal_next(1)] show ?thesis by simp
qed

theorem rollback_exchanges_witness:
  "files_ok demo_server (fwFiles (snd (rollbackDepot demo_server demo_released ''dev''))) ''dev'' Stable
     (dstable (rolled_back (released demo_depot)))"
proof -
  have "fst (rollbackDepot demo_server demo_released ''dev'') = Inr (rolled_back (released demo_depot))"
    unfolding demo_released_def by code_simp
  from rollback_exchanges [OF demo.depot_store_axioms demo_released_ok demo_split [OF this]] show ?thesis by blast
qed

theorem failed_switch_restores_witness:
  "fst (getDepotMetadata demo_server (snd (rollbackDepot demo_server (demo_state []) ''dev'')) ''dev'')
     = fst (getDepotMetadata demo_server (demo_state []) ''dev'')"
proof -
  have r: "fst (rollbackDepot demo_server (demo_state []) ''dev'') = Inl ChannelNotFound"
    and s: "fst (releaseDepot demo_server (demo_state []) ''none'') = Inl DepotNotFound"
    and f: "faults (fwFiles (demo_state [])) = []" by code_simp+
  from failed_switch_restores [OF demo.depot_store_axioms demo_state_ok f demo_split [OF s] demo_split [OF r] demo_state_ok f]
  show ?thesis by blast
qed

definition stranded :: "kv_memory fw_state" where
  "stranded = (demo_state [])\<lparr>fwFiles := \<lparr>fsroot = [''srv''], fsnode = DirNode [(''srv'', DirNode [(''dev'', DirNode
     [demo_channel Beta ''1.1.0'', demo_channel Testing ''1.2.0-rc.1'', (bak Stable, snd (demo_channel Stable ''1.0.0''))])])],
     faults = []\<rparr>\<rparr>"

lemma stranded_run: "releaseDepot demo_server (demo_state (replicate 13 False @ [True])) ''dev'' = (Inl (FSFailed OtherError), stranded)"
  by code_simp

lemma stranded_facts:
  "faults (fwFiles stranded) = []" "fst (getDepotMetadata demo_server stranded ''dev'') = Inr demo_depot"
  "channel_node (fwFiles (demo_state [])) ''dev'' Stable \<noteq> None" "channel_node (fwFiles stranded) ''dev'' Stable = None"
  "otaSemver (projr (fst (resolveOTA demo_server (demo_state []) ''dev'' Stable))) = ''1.0.0''"
  "fst (resolveOTA demo_server stranded ''dev'' Stable) = Inl FirmwareNotFound"
  "fst (releaseDepot demo_server stranded ''dev'') = Inl (FileUnreadable NotExist)"
  by code_simp+

text \<open>
  When a call of the file system fails in the first loop of \<open>prepareSwitch\<close>, the channels renamed so
  far are not put back: here the directory of stable is gone although its record stays, the update that was
  offered before is not found any more, and releasing again fails as well although nothing else does.
\<close>

theorem switch_fault_strands_channel:
  "let s = demo_state (replicate 13 False @ [True]); s' = snd (releaseDepot demo_server s ''dev'') in
     fst (releaseDepot demo_server s ''dev'') = Inl (FSFailed OtherError) \<and> faults (fwFiles s') = [] \<and>
     fst (getDepotMetadata demo_server s' ''dev'') = Inr demo_depot \<and>
     channel_node (fwFiles (demo_state [])) ''dev'' Stable \<noteq> None \<and> channel_node (fwFiles s') ''dev'' Stable = None \<and>
     otaSemver (projr (fst (resolveOTA demo_server (demo_state []) ''dev'' Stable))) = ''1.0.0'' \<and>
     fst (resolveOTA demo_server s' ''dev'' Stable) = Inl FirmwareNotFound \<and>
     fst (releaseDepot demo_server s' ''dev'') = Inl (FileUnreadable NotExist)"
  by (simp only: Let_def stranded_run fst_conv snd_conv stranded_facts simp_thms)

end
