(* ===== verification/DepotUpload.thy ===== *)
theory DepotUpload
  imports DepotService
begin

text \<open>
  Uploading a channel: all that is unpacked stays below the temporary directory, which becomes the channel
  once its files have been checked; an upload that fails changes neither a channel nor a record.  \<open>outside\<close>
  says which files of the whole store an operation leaves alone, \<open>json_text\<close> what is relied on of JSON.
\<close>

section \<open>Text\<close>

text \<open>
  \<open>encoding/json\<close> replaces what is not UTF-8, so only text that is survives being written and read; what it
  reads is UTF-8.
\<close>

definition trail :: "nat \<Rightarrow> bool" where
  "trail b \<longleftrightarrow> 128 \<le> b \<and> b < 192"

fun utf8 :: "nat list \<Rightarrow> bool" where
  "utf8 [] \<longleftrightarrow> True"
| "utf8 (a # s) \<longleftrightarrow>
     (if a < 128 then utf8 s
      else case s of
          [] \<Rightarrow> False
        | b # t \<Rightarrow>
            if 194 \<le> a \<and> a < 224 then trail b \<and> utf8 t
            else (case t of
                [] \<Rightarrow> False
              | c # u \<Rightarrow>
                  if 224 \<le> a \<and> a < 240
                  then trail b \<and> trail c \<and> (a = 224 \<longrightarrow> 160 \<le> b) \<and> (a = 237 \<longrightarrow> b < 160) \<and> utf8 u
                  else (case u of
                      [] \<Rightarrow> False
                    | d # v \<Rightarrow>
                        240 \<le> a \<and> a < 245 \<and> trail b \<and> trail c \<and> trail d \<and>
                        (a = 240 \<longrightarrow> 144 \<le> b) \<and> (a = 244 \<longrightarrow> b < 144) \<and> utf8 v)))"

definition utf8_string :: "string \<Rightarrow> bool" where
  "utf8_string s \<longleftrightarrow> utf8 (map of_char s)"

definition text_release :: "depot_release \<Rightarrow> bool" where
  "text_release r \<longleftrightarrow>
     utf8_string (rsemver r) \<and> (\<forall>c \<in> set_option (rchannel r). utf8_string c) \<and>
     (\<forall>x \<in> set (releaseFiles r). utf8_string (fmd5 x) \<and> utf8_string (fpath x) \<and> utf8_string (fsha256 x))"

definition text_depot :: "depot \<Rightarrow> bool" where
  "text_depot d \<longleftrightarrow>
     utf8_string (dname d) \<and> (\<forall>p \<in> set (infoFiles (dinfo d)). utf8_string p) \<and> text_release (drollback d) \<and>
     text_release (dstable d) \<and> text_release (dbeta d) \<and> text_release (dtesting d)"

definition json_text :: "'s fw_env \<Rightarrow> bool" where
  "json_text E \<longleftrightarrow>
     (\<forall>d b. text_depot d \<longrightarrow> jsonDepot E d = Some b \<longrightarrow> unjsonDepot E b = Some d) \<and>
     (\<forall>d b. unjsonDepot E b = Some d \<longrightarrow> text_depot d) \<and> (\<forall>r b. unjsonRelease E b = Some r \<longrightarrow> text_release r)"

lemma text_normal_release [simp]: "text_release (normalizeDepotRelease r) = text_release r"
proof -
  have "releaseFiles (normalizeDepotRelease r) = sort_key fpath (releaseFiles r)"
    by (auto simp: normalizeDepotRelease_def releaseFiles_def split: option.split)
  then have "set (releaseFiles (normalizeDepotRelease r)) = set (releaseFiles r)" by simp
  moreover have "rsemver (normalizeDepotRelease r) = rsemver r" "rchannel (normalizeDepotRelease r) = rchannel r"
    by (simp_all add: normalizeDepotRelease_def)
  ultimately show ?thesis by (simp add: text_release_def)
qed

lemma text_normal_info [simp]: "set (infoFiles (normalizeDepotInfo i)) = set (infoFiles i)"
  by (simp add: normalizeDepotInfo_def infoFiles_def no_info_def split: option.split)

lemma text_normal_depot [simp]: "text_depot (normalizeDepotMetadata d) = text_depot d"
  by (simp add: text_depot_def normalizeDepotMetadata_def)

lemma text_set_release: "text_depot d \<Longrightarrow> text_release r \<Longrightarrow> text_depot (setDepotRelease d c r)"
  by (simp add: setDepotRelease_def text_depot_def)

lemma text_empty: "utf8_string name \<Longrightarrow> text_depot (empty_depot name)"
  by (simp add: text_depot_def text_release_def empty_depot_def no_release_def no_info_def infoFiles_def releaseFiles_def utf8_string_def)

lemma text_read: "json_text E \<Longrightarrow> utf8_string name \<Longrightarrow> read_meta E name v = Inr d \<Longrightarrow> text_depot d"
proof -
  assume J: "json_text E" and n: "utf8_string name" and r: "read_meta E name v = Inr d"
  obtain b x where x: "unjsonDepot E b = Some x" "d = normalizeDepotMetadata x \<or> d = normalizeDepotMetadata x\<lparr>dname := name\<rparr>"
    using r by (auto simp: read_meta_def decodeDepotMetadata_def Let_def split: option.splits sum.splits if_splits)
  have "text_depot x" using J x(1) unfolding json_text_def by blast
  then have "text_depot (normalizeDepotMetadata x)" by simp
  moreover from this have "text_depot (normalizeDepotMetadata x\<lparr>dname := name\<rparr>)" using n by (simp add: text_depot_def)
  ultimately show "text_depot d" using x(2) by blast
qed

section \<open>The temporary directory and the swap\<close>

definition tmp_name :: "string \<Rightarrow> string" where
  "tmp_name c = ''.tmp-'' @ c"

definition old_name :: "string \<Rightarrow> string" where
  "old_name c = c @ ''.old''"

lemma upload_names:
  assumes "channel_Valid c"
  shows "proper [tmp_name c]" "proper [old_name c]" "tmp_name c \<noteq> c" "old_name c \<noteq> c" "tmp_name c \<noteq> old_name c"
    "channel_Valid d \<Longrightarrow> d \<noteq> tmp_name c" "channel_Valid d \<Longrightarrow> d \<noteq> old_name c"
  using assms by (auto simp: channel_Valid_def channel_defs tmp_name_def old_name_def)

lemma temp_channel: "tempPath depot c = channelPath depot (tmp_name c)"
  by (simp add: tempPath_def channelPath_def tmp_name_def)

lemma swap_abs:
  assumes "validateDepotName depot = None" "channel_Valid c"
  shows "fs_abs f (channelPath depot c @ ''.old'') = depot_dir f depot @ [old_name c]"
proof -
  have "join_on CHR ''/'' (ps @ [c]) @ x = join_on CHR ''/'' (ps @ [c @ x])" for ps x
    by (induction ps) (auto simp: join_on_Cons)
  then have "channelPath depot c @ ''.old'' = channelPath depot (old_name c)"
    using join_entry [OF assms(1), of "[c]"] join_entry [OF assms(1), of "[old_name c]"] channel_proper [OF assms(2)] upload_names(2) [OF assms(2)]
    by (simp add: channelPath_def depotPath_def old_name_def)
  then show ?thesis using channel_abs [OF assms(1) upload_names(2) [OF assms(2)]] by simp
qed

lemma make_dirs_entries:
  "make_dirs n p = Some n' \<Longrightarrow> (\<exists>ns. node_at n' p = Inr (DirNode ns)) \<and> (node_at n' (p @ [z]) = Inr k \<longleftrightarrow> node_at n (p @ [z]) = Inr k)"
proof (induction n p arbitrary: n' rule: make_dirs.induct)
  case (3 ns x p)
  then obtain m where m: "make_dirs (case map_of ns x of None \<Rightarrow> DirNode [] | Some n \<Rightarrow> n) p = Some m" "n' = DirNode (AList.update x m ns)"
    by (auto split: option.splits)
  have "node_at (DirNode []) (p @ [z]) \<noteq> Inr k" by (cases p) auto
  then show ?case using 3(1) [OF m(1)] by (auto simp: m(2) AList.update_conv' split: option.splits)
qed auto

lemma mkdir_entries:
  assumes "os_MkdirAll f p = (None, f')"
  shows "keeps f f' \<and> (\<exists>ns. node_at (fsnode f') p = Inr (DirNode ns)) \<and>
    (node_at (fsnode f') (p @ [z]) = Inr k \<longleftrightarrow> node_at (fsnode f) (p @ [z]) = Inr k)"
  using assms make_dirs_entries [of "fsnode f" p _ z k]
  by (auto simp: os_MkdirAll_def faulty_def keeps_def split: list.splits if_splits option.splits)

lemma mkdir_failed: "os_MkdirAll f p = (Some e, f') \<Longrightarrow> keeps f f' \<and> fsnode f' = fsnode f"
  by (auto simp: os_MkdirAll_def faulty_def keeps_def split: list.splits if_splits option.splits)

section \<open>Unpacking\<close>

lemma validate_paths_iff:
  "validate_paths e seen ps = None \<longleftrightarrow> (\<forall>p \<in> set ps. validateRelativePath p = None \<and> p \<notin> set seen) \<and> distinct ps"
  by (induction ps arbitrary: seen) (auto split: option.splits)

lemma validate_normalized: "validateRelease r = None \<Longrightarrow> validateRelease (normalizeDepotRelease r) = None"
proof -
  assume v: "validateRelease r = None"
  let ?n = "normalizeDepotRelease r"
  have f: "releaseFiles ?n = sort_key fpath (releaseFiles r)"
    by (auto simp: normalizeDepotRelease_def releaseFiles_def split: option.split)
  have "mset (map fpath (releaseFiles ?n)) = mset (map fpath (releaseFiles r))" by (simp add: f)
  then have "set (map fpath (releaseFiles ?n)) = set (map fpath (releaseFiles r))"
    "distinct (map fpath (releaseFiles ?n)) = distinct (map fpath (releaseFiles r))"
    by (rule mset_eq_setD, rule mset_eq_imp_distinct_iff)
  moreover have "rsemver ?n = rsemver r" "releaseChannel ?n = releaseChannel r"
    by (simp_all add: normalizeDepotRelease_def releaseChannel_def)
  moreover have "validate_paths InvalidFiles [] (map fpath (releaseFiles ?n)) = None \<longleftrightarrow>
      validate_paths InvalidFiles [] (map fpath (releaseFiles r)) = None"
    unfolding validate_paths_iff using calculation(1,2) by simp
  ultimately show ?thesis using v by (simp add: validateRelease_def split: option.splits if_splits)
qed

lemma parse_manifest_ok:
  "parseManifest E d = Inr r \<Longrightarrow> validateRelease r = None \<and> normalizeDepotRelease r = r"
  by (auto simp: parseManifest_def split: option.splits dest: validate_normalized)

lemma parse_text: "json_text E \<Longrightarrow> parseManifest E b = Inr r \<Longrightarrow> text_release r"
  by (auto simp: json_text_def parseManifest_def split: option.splits)

lemma extract_text:
  assumes "json_text E" "extract_loop E c items seen m files = Inr (Some r, files')" "\<forall>r. m = Some r \<longrightarrow> text_release r"
  shows "text_release r"
  using assms
proof (induction E c items seen m files rule: extract_loop.induct)
  case (3 E c regular name data items seen m files)
  then show ?case by (auto split: if_splits option.splits sum.splits dest: parse_text)
qed auto

lemma extract_manifest:
  assumes "extract_loop E c items seen m files = Inr (Some r, files')"
    and "\<forall>r. m = Some r \<longrightarrow> validateRelease r = None \<and> normalizeDepotRelease r = r \<and> releaseChannel r = c"
  shows "validateRelease r = None \<and> normalizeDepotRelease r = r \<and> releaseChannel r = c"
  using assms
proof (induction E c items seen m files rule: extract_loop.induct)
  case (3 E c regular name data items seen m files)
  then show ?case by (auto split: if_splits option.splits sum.splits dest: parse_manifest_ok)
qed auto

lemma write_files_below:
  assumes "at_dir f D r M" "D = depot_dir f depot" "validateDepotName depot = None" "proper [t]"
    and "\<forall>x \<in> set xs. validateRelativePath (fpath x) = None"
    and "write_files f (channelPath depot t) xs files = (res, f')"
  shows "keeps f f' \<and> (\<exists>M'. at_dir f' D r M' \<and> only_below t M M')"
  using assms
proof (induction xs arbitrary: f M files)
  case Nil
  then show ?case by (auto intro: only_below_refl)
next
  case (Cons x xs)
  show ?case
  proof (cases "map_of files (fpath x)")
    case None
    then show ?thesis using Cons.prems(1,6) by (auto intro: only_below_refl)
  next
    case (Some data)
    obtain e f1 where 1: "fs_WriteFile f (path_Join [channelPath depot t, fpath x]) data = (e, f1)"
      by (cases "fs_WriteFile f (path_Join [channelPath depot t, fpath x]) data")
    have "validateRelativePath (fpath x) = None" using Cons.prems(5) by simp
    from fs_write_below [OF Cons.prems(1) 1, of t "rel_segs (fpath x)"] file_abs [OF Cons.prems(3,4) this] Cons.prems(2)
    obtain M1 where M1: "keeps f f1" "at_dir f1 D r M1" "only_below t M M1" by auto
    show ?thesis
    proof (cases e)
      case (Some z)
      then show ?thesis using Cons.prems(6) M1 \<open>map_of files (fpath x) = Some data\<close> by (auto simp: 1)
    next
      case None
      have D1: "D = depot_dir f1 depot" using Cons.prems(2) depot_dir_keeps [OF M1(1)] by simp
      have "write_files f1 (channelPath depot t) xs (AList.delete (fpath x) files) = (res, f')"
        using Cons.prems(6) None \<open>map_of files (fpath x) = Some data\<close> by (simp add: 1)
      from Cons.IH [OF M1(2) D1 Cons.prems(3,4) _ this] Cons.prems(5)
      show ?thesis using M1 by (auto intro: keeps_trans only_below_trans)
    qed
  qed
qed

text \<open>The files of a release, without exception, under a name.\<close>

definition files_match :: "'s fw_env \<Rightarrow> filesys \<Rightarrow> string \<Rightarrow> string \<Rightarrow> depot_release \<Rightarrow> bool" where
  "files_match E f depot t r \<longleftrightarrow>
     (\<forall>x \<in> set (releaseFiles r). validateRelativePath (fpath x) = None \<and>
        (\<exists>data. node_at (fsnode f) (fs_abs f (path_Join [channelPath depot t, fpath x])) = Inr (FileNode data) \<and>
           hexSha256 E data = fsha256 x \<and> hexMd5 E data = fmd5 x))"

lemma extract_result:
  assumes at: "at_dir f D r M" "D = depot_dir f depot" "validateDepotName depot = None" "proper [t]"
    and run: "extractTar E f (channelPath depot t) c items = (res, f')"
  shows "keeps f f' \<and> (\<exists>M'. at_dir f' D r M' \<and> only_below t M M') \<and>
    (\<forall>rel. res = Inr rel \<longrightarrow> validateRelease rel = None \<and> normalizeDepotRelease rel = rel \<and> releaseChannel rel = c \<and>
       files_match E f' depot t rel)"
proof -
  have none: ?thesis if "f' = f" "\<And>rel. res \<noteq> Inr rel" using that at(1) by (auto intro: only_below_refl)
  consider (stop) "(case extract_loop E c items [] None [] of Inl e \<Rightarrow> True | Inr (m, _) \<Rightarrow> m = None)" |
    (go) rel files where "extract_loop E c items [] None [] = Inr (Some rel, files)"
    by (cases "extract_loop E c items [] None []") (auto split: prod.splits)
  then show ?thesis
  proof cases
    case stop
    then have "f' = f \<and> (\<forall>rel. res \<noteq> Inr rel)" using run by (auto simp: extractTar_def split: sum.splits prod.splits)
    then show ?thesis using none by blast
  next
    case go
    have rel: "validateRelease rel = None" "normalizeDepotRelease rel = rel" "releaseChannel rel = c"
      using extract_manifest [OF go] by auto
    have paths: "\<forall>x \<in> set (releaseFiles rel). validateRelativePath (fpath x) = None" using release_paths [OF rel(1)] by blast
    obtain w f1 where 1: "write_files f (channelPath depot t) (releaseFiles rel) files = (w, f1)"
      by (cases "write_files f (channelPath depot t) (releaseFiles rel) files")
    obtain M1 where M1: "keeps f f1" "at_dir f1 D r M1" "only_below t M M1"
      using write_files_below [OF at paths 1] by blast
    show ?thesis
    proof (cases "w = Inr []")
      case False
      then have "f' = f1 \<and> (\<forall>rel. res \<noteq> Inr rel)" using run by (cases w) (auto simp: extractTar_def go 1 split: if_splits)
      then show ?thesis using M1 by blast
    next
      case True
      obtain e f2 where 2: "writeManifest E f1 (path_Join [channelPath depot t, ''manifest.json'']) rel = (e, f2)"
        by (cases "writeManifest E f1 (path_Join [channelPath depot t, ''manifest.json'']) rel")
      have m: "validateRelativePath ''manifest.json'' = None" by code_simp
      have D1: "D = depot_dir f1 depot" using at(2) depot_dir_keeps [OF M1(1)] by simp
      have "f2 = f1 \<or> (\<exists>data e. fs_WriteFile f1 (path_Join [channelPath depot t, ''manifest.json'']) data = (e, f2))"
        using 2 by (auto simp: writeManifest_def Let_def split: option.splits prod.splits)
      then obtain M2 where M2: "keeps f1 f2" "at_dir f2 D r M2" "only_below t M1 M2"
        using fs_write_below [OF M1(2), of _ _ _ f2 t "rel_segs ''manifest.json''"] file_abs [OF at(3,4) m, of f1] D1 M1(2)
        by (metis keeps_refl only_below_refl)
      have k2: "keeps f f2" "only_below t M M2" using M1 M2 by (auto intro: keeps_trans only_below_trans)
      obtain e3 f3 where 3: "validateReleaseAgainstFiles E f2 (channelPath depot t) rel = (e3, f3)"
        by (cases "validateReleaseAgainstFiles E f2 (channelPath depot t) rel")
      have v: "validate_files E f2 (channelPath depot t) (releaseFiles rel) = (e3, f3)" using 3 rel(1) by (simp add: validateReleaseAgainstFiles_def)
      note k3 = validate_files_reads [OF v]
      have at3: "at_dir f3 D r M2" using at_dir_node [OF M2(2)] k3 by blast
      have ab: "fs_abs f3 p = fs_abs f2 p" for p using k3 abs_keeps by blast
      have "e3 = None \<Longrightarrow> files_match E f3 depot t rel"
        using validate_files_match [of E f2 "channelPath depot t" "releaseFiles rel" f3] v paths k3 by (auto simp: files_match_def ab)
      moreover have "e \<noteq> None \<Longrightarrow> f' = f2 \<and> (\<forall>rel. res \<noteq> Inr rel)" "e = None \<Longrightarrow> f' = f3 \<and> (e3 \<noteq> None \<longrightarrow> (\<forall>rel. res \<noteq> Inr rel)) \<and> (e3 = None \<longrightarrow> res = Inr rel)"
        using run by (auto simp: extractTar_def go 1 True 2 3 split: option.splits)
      ultimately show ?thesis using k2 k3 at3 M2(2) rel by (cases e; cases e3) (auto intro: keeps_trans)
    qed
  qed
qed

section \<open>What happens to the files\<close>

text \<open>No file changes but below one of the directories.\<close>

definition outside :: "string list list \<Rightarrow> filesys \<Rightarrow> filesys \<Rightarrow> bool" where
  "outside Ps f f' \<longleftrightarrow> fsroot f' = fsroot f \<and> (\<forall>q. (\<forall>P \<in> set Ps. \<not> starts P q) \<longrightarrow> file_at f' q = file_at f q)"

lemma outside_refl [simp]: "outside Ps f f"
  by (simp add: outside_def)

lemma outside_trans: "outside Ps f g \<Longrightarrow> outside Ps g h \<Longrightarrow> outside Ps f h"
  by (simp add: outside_def)

lemma outside_mono: "outside Ps f g \<Longrightarrow> set Ps \<subseteq> set Qs \<Longrightarrow> outside Qs f g"
  by (auto simp: outside_def)

lemma outside_same: "keeps f g \<Longrightarrow> fsnode g = fsnode f \<Longrightarrow> outside Ps f g"
  by (simp add: outside_def keeps_def file_at_def)

lemma fs_write_file:
  assumes "fs_WriteFile f name data = (res, f')"
  shows "(if res = None then file_at f' = (file_at f)(fs_abs f name \<mapsto> data) else file_at f' = file_at f) \<and> fsroot f' = fsroot f"
proof -
  obtain e f1 where 1: "os_MkdirAll f (butlast (fs_abs f name)) = (e, f1)" by (cases "os_MkdirAll f (butlast (fs_abs f name))")
  have "file_at f1 = file_at f" "fsroot f1 = fsroot f" using mkdir_files [OF 1] by (auto simp: fun_eq_iff)
  then show ?thesis using assms write_file [of f1 "fs_abs f name" data res f']
    by (cases e) (auto simp: fs_WriteFile_def Let_def 1)
qed

lemma fs_mkdir_outside: "fs_MkdirAll f name = (res, f') \<Longrightarrow> outside Ps f f'"
  unfolding fs_MkdirAll_def outside_def using mkdir_files by blast

lemma fs_remove_outside: "fs_RemoveAll f name = (res, f') \<Longrightarrow> fs_abs f name \<in> set Ps \<Longrightarrow> outside Ps f f'"
  unfolding fs_RemoveAll_def outside_def using remove_files by blast

lemma fs_rename_outside:
  assumes "fs_Rename f a b = (res, f')" "fs_abs f a \<in> set Ps" "fs_abs f b \<in> set Ps" "[] \<notin> set Ps"
  shows "outside Ps f f'"
proof -
  obtain e f1 where 1: "os_MkdirAll f (butlast (fs_abs f b)) = (e, f1)" by (cases "os_MkdirAll f (butlast (fs_abs f b))")
  note k = mkdir_files [OF 1]
  have ne: "fs_abs f a \<noteq> []" "fs_abs f b \<noteq> []" using assms(2-4) by auto
  show ?thesis
  proof (cases e)
    case (Some x)
    then show ?thesis using assms(1) k by (simp add: fs_Rename_def Let_def 1 outside_def)
  next
    case None
    then have "os_Rename f1 (fs_abs f a) (fs_abs f b) = (res, f')" using assms(1) by (simp add: fs_Rename_def Let_def 1)
    from rename_files [OF this ne] show ?thesis using k assms(2,3) unfolding outside_def by metis
  qed
qed

lemma file_at_entry: "at_dir f D r M \<Longrightarrow> file_at f (D @ x # q) = (case M x of None \<Rightarrow> None | Some n \<Rightarrow> file_in n q)"
  by (simp add: file_at_def file_in_def at_dir_entry split: option.split)

text \<open>The paths of the files of a release, and the manifest.\<close>

definition listed :: "depot_release \<Rightarrow> string list \<Rightarrow> bool" where
  "listed r q \<longleftrightarrow> q = [''manifest.json''] \<or> q \<in> (rel_segs \<circ> fpath) ` set (releaseFiles r)"

lemma write_files_files:
  assumes "write_files f (channelPath depot t) xs files = (res, f')" "validateDepotName depot = None" "proper [t]"
    and "\<forall>x \<in> set xs. validateRelativePath (fpath x) = None" "D = depot_dir f depot"
  shows "outside [D @ [t]] f f' \<and> (\<forall>rest. res = Inr rest \<longrightarrow>
    (\<forall>q. file_at f' (D @ t # q) \<noteq> None \<longleftrightarrow> file_at f (D @ t # q) \<noteq> None \<or> q \<in> (rel_segs \<circ> fpath) ` set xs))"
  using assms
proof (induction xs arbitrary: f files)
  case (Cons x xs)
  show ?case
  proof (cases "map_of files (fpath x)")
    case None
    then show ?thesis using Cons.prems(1) by auto
  next
    case (Some data)
    obtain e f1 where 1: "fs_WriteFile f (path_Join [channelPath depot t, fpath x]) data = (e, f1)"
      by (cases "fs_WriteFile f (path_Join [channelPath depot t, fpath x]) data")
    have a: "fs_abs f (path_Join [channelPath depot t, fpath x]) = D @ t # rel_segs (fpath x)"
      using file_abs [OF Cons.prems(2,3)] Cons.prems(4,5) by simp
    note W = fs_write_file [OF 1, unfolded a]
    have o: "outside [D @ [t]] f f1"
      using W starts_simps(4) [of "D @ [t]"] by (auto simp: outside_def split: if_splits)
    show ?thesis
    proof (cases e)
      case (Some y)
      then show ?thesis using Cons.prems(1) \<open>map_of files (fpath x) = Some data\<close> o by (auto simp: 1)
    next
      case None
      have "D = depot_dir f1 depot" using Cons.prems(5) W by (simp add: depot_dir_def)
      then have IH: "outside [D @ [t]] f1 f' \<and> (\<forall>rest. res = Inr rest \<longrightarrow>
          (\<forall>q. file_at f' (D @ t # q) \<noteq> None \<longleftrightarrow> file_at f1 (D @ t # q) \<noteq> None \<or> q \<in> (rel_segs \<circ> fpath) ` set xs))"
        using Cons.prems \<open>map_of files (fpath x) = Some data\<close> None by (intro Cons.IH) (auto simp: 1)
      then show ?thesis using outside_trans [OF o] W None by auto
    qed
  qed
qed auto

lemma validate_outside: "validateReleaseAgainstFiles E f b r = (e, f') \<Longrightarrow> keeps f f' \<and> fsnode f' = fsnode f"
  by (auto simp: validateReleaseAgainstFiles_def split: option.splits dest: validate_files_reads)

lemma extract_files:
  assumes run: "extractTar E f (channelPath depot t) c items = (res, f')"
    and name: "validateDepotName depot = None" "proper [t]" "D = depot_dir f depot"
  shows "outside [D @ [t]] f f' \<and> (\<forall>rel. res = Inr rel \<longrightarrow>
    (\<forall>q. file_at f' (D @ t # q) \<noteq> None \<longleftrightarrow> file_at f (D @ t # q) \<noteq> None \<or> listed rel q) \<and>
    file_at f' (D @ [t, ''manifest.json'']) = jsonRelease E rel)"
proof (cases "\<exists>rel files. extract_loop E c items [] None [] = Inr (Some rel, files)")
  case False
  then have "f' = f \<and> (\<forall>rel. res \<noteq> Inr rel)" using run
    by (cases "extract_loop E c items [] None []") (auto simp: extractTar_def split: option.splits prod.splits)
  then show ?thesis by simp
next
  case True
  then obtain rel files where go: "extract_loop E c items [] None [] = Inr (Some rel, files)" by blast
  have rel: "validateRelease rel = None" "normalizeDepotRelease rel = rel" using extract_manifest [OF go] by auto
  have paths: "\<forall>x \<in> set (releaseFiles rel). validateRelativePath (fpath x) = None" using release_paths [OF rel(1)] by blast
  obtain w f1 where 1: "write_files f (channelPath depot t) (releaseFiles rel) files = (w, f1)"
    by (cases "write_files f (channelPath depot t) (releaseFiles rel) files")
  note W = write_files_files [OF 1 name(1,2) paths name(3)]
  show ?thesis
  proof (cases "w = Inr []")
    case False
    then have "f' = f1 \<and> (\<forall>rel. res \<noteq> Inr rel)" using run by (cases w) (auto simp: extractTar_def go 1 split: if_splits)
    then show ?thesis using W by simp
  next
    case True
    obtain e f2 where 2: "writeManifest E f1 (path_Join [channelPath depot t, ''manifest.json'']) rel = (e, f2)"
      by (cases "writeManifest E f1 (path_Join [channelPath depot t, ''manifest.json'']) rel")
    have D1: "D = depot_dir f1 depot" using W name(3) by (simp add: outside_def depot_dir_def)
    have "validateRelativePath ''manifest.json'' = None" "rel_segs ''manifest.json'' = [''manifest.json'']" by code_simp+
    then have a: "fs_abs f1 (path_Join [channelPath depot t, ''manifest.json'']) = D @ [t, ''manifest.json'']"
      using file_abs [OF name(1,2), of "''manifest.json''" f1] D1 by simp
    have M: "file_at f2 = file_at f1 \<and> e \<noteq> None \<or>
        (\<exists>data. jsonRelease E rel = Some data \<and> file_at f2 = (file_at f1)(D @ [t, ''manifest.json''] \<mapsto> data))"
      and r2: "fsroot f2 = fsroot f1"
    proof -
      show "file_at f2 = file_at f1 \<and> e \<noteq> None \<or>
          (\<exists>data. jsonRelease E rel = Some data \<and> file_at f2 = (file_at f1)(D @ [t, ''manifest.json''] \<mapsto> data))"
      proof (cases "jsonRelease E rel")
        case None
        then show ?thesis using 2 rel by (auto simp: writeManifest_def)
      next
        case (Some data)
        then show ?thesis using 2 rel fs_write_file [of f1 "path_Join [channelPath depot t, ''manifest.json'']" data] a
          by (auto simp: writeManifest_def split: prod.splits if_splits)
      qed
      show "fsroot f2 = fsroot f1"
        using 2 rel fs_write_file [of f1 "path_Join [channelPath depot t, ''manifest.json'']"]
        by (auto simp: writeManifest_def split: prod.splits option.splits)
    qed
    have o2: "outside [D @ [t]] f1 f2"
      using M r2 starts_simps(4) [of "D @ [t]" "[''manifest.json'']"] by (auto simp: outside_def)
    obtain e3 f3 where 3: "validateReleaseAgainstFiles E f2 (channelPath depot t) rel = (e3, f3)"
      by (cases "validateReleaseAgainstFiles E f2 (channelPath depot t) rel")
    have v: "keeps f2 f3" "fsnode f3 = fsnode f2" using validate_outside [OF 3] by blast+
    have same: "outside [D @ [t]] f2 f3" "file_at f3 = file_at f2"
      by (rule outside_same [OF v]) (rule ext, simp add: file_at_def v(2))
    have cases: "(e \<noteq> None \<longrightarrow> f' = f2 \<and> (\<forall>rel. res \<noteq> Inr rel)) \<and> (e = None \<longrightarrow> f' = f3 \<and> (\<forall>r. res = Inr r \<longrightarrow> r = rel))"
      using run by (auto simp: extractTar_def go 1 True 2 3 split: option.splits)
    have o: "outside [D @ [t]] f f2" using outside_trans [OF conjunct1 [OF W] o2] .
    have o3: "outside [D @ [t]] f f3" using outside_trans [OF o same(1)] .
    show ?thesis
    proof (cases e)
      case (Some x)
      then show ?thesis using cases o by simp
    next
      case None
      then obtain data where d: "jsonRelease E rel = Some data" "file_at f3 = (file_at f1)(D @ [t, ''manifest.json''] \<mapsto> data)"
        using M same(2) by auto
      have "file_at f3 (D @ t # q) \<noteq> None \<longleftrightarrow> file_at f (D @ t # q) \<noteq> None \<or> listed rel q" for q
        using W True by (auto simp: d(2) listed_def)
      then show ?thesis using cases None o3 d by auto
    qed
  qed
qed

section \<open>The swap\<close>

lemma set_release_normal: "normal d \<Longrightarrow> normal (setDepotRelease d c (normalizeDepotRelease r)) \<and> dname (setDepotRelease d c r') = dname d"
  by (simp add: setDepotRelease_def normal_iff)

definition swapped :: "string \<Rightarrow> (string \<Rightarrow> node option) \<Rightarrow> (string \<Rightarrow> node option) \<Rightarrow> bool" where
  "swapped c M M' \<longleftrightarrow> (\<forall>z. z \<noteq> tmp_name c \<and> z \<noteq> old_name c \<longrightarrow> M' z = M z)"

text \<open>
  What happens to the entries up to the rename of the temporary directory: either it took the place of the
  channel, which is in the swap directory if there was one, or the channel is still or again there.
\<close>

lemma rename_names:
  assumes "at_dir f D r M" "D = depot_dir f depot" "validateDepotName depot = None" "channel_Valid c"
  shows "fs_Rename f (channelPath depot c) (channelPath depot c @ ''.old'') = (res, f') \<Longrightarrow> keeps f f' \<and>
      ((\<exists>n. res = None \<and> M c = Some n \<and> at_dir f' D r (M(c := None, old_name c := Some n))) \<or>
       res \<noteq> None \<and> at_dir f' D r M \<and> (faults f \<noteq> [] \<or> M c = None \<or> M (old_name c) \<noteq> None))"
    and "fs_Rename f (channelPath depot c @ ''.old'') (channelPath depot c) = (res, f') \<Longrightarrow> keeps f f' \<and>
      ((\<exists>n. res = None \<and> M (old_name c) = Some n \<and> at_dir f' D r (M(old_name c := None, c := Some n))) \<or>
       res \<noteq> None \<and> at_dir f' D r M \<and> (faults f \<noteq> [] \<or> M (old_name c) = None \<or> M c \<noteq> None))"
    and "fs_Rename f (tempPath depot c) (channelPath depot c) = (res, f') \<Longrightarrow> keeps f f' \<and>
      ((\<exists>n. res = None \<and> M (tmp_name c) = Some n \<and> at_dir f' D r (M(tmp_name c := None, c := Some n))) \<or>
       res \<noteq> None \<and> at_dir f' D r M \<and> (faults f \<noteq> [] \<or> M (tmp_name c) = None \<or> M c \<noteq> None))"
  using fs_rename_entry [OF assms(1)] channel_abs [OF assms(3) channel_proper [OF assms(4)]] swap_abs [OF assms(3,4)]
    channel_abs [OF assms(3) upload_names(1) [OF assms(4)]] upload_names(3,4) [OF assms(4)]
  unfolding temp_channel assms(2) by metis+

lemma remove_names:
  assumes "at_dir f D r M" "D = depot_dir f depot" "validateDepotName depot = None" "channel_Valid c"
  shows "fs_RemoveAll f (channelPath depot c @ ''.old'') = (res, f') \<Longrightarrow> keeps f f' \<and>
      (res = None \<and> at_dir f' D r (M(old_name c := None)) \<or> res \<noteq> None \<and> faults f \<noteq> [] \<and> at_dir f' D r M)"
    and "fs_RemoveAll f (channelPath depot c) = (res, f') \<Longrightarrow> keeps f f' \<and>
      (res = None \<and> at_dir f' D r (M(c := None)) \<or> res \<noteq> None \<and> faults f \<noteq> [] \<and> at_dir f' D r M)"
    and "fs_RemoveAll f (tempPath depot c) = (res, f') \<Longrightarrow> keeps f f' \<and>
      (res = None \<and> at_dir f' D r (M(tmp_name c := None)) \<or> res \<noteq> None \<and> faults f \<noteq> [] \<and> at_dir f' D r M)"
  using remove_entry [OF assms(1)] channel_abs [OF assms(3) channel_proper [OF assms(4)]] swap_abs [OF assms(3,4)]
    channel_abs [OF assms(3) upload_names(1) [OF assms(4)]]
  unfolding temp_channel fs_RemoveAll_def assms(2) by metis+

text \<open>The way to the point where the record is written, and back when the upload does not go on.\<close>

definition before_swap :: "filesys \<Rightarrow> string \<Rightarrow> channel \<Rightarrow> bool \<times> fs_error option \<times> filesys" where
  "before_swap f depot c =
     (case fs_Stat (snd (fs_RemoveAll f (channelPath depot c @ ''.old''))) (channelPath depot c) of (st, f1) \<Rightarrow>
        let had = (case st of Inl _ \<Rightarrow> False | Inr _ \<Rightarrow> True) in
        case (if had then fs_Rename f1 (channelPath depot c) (channelPath depot c @ ''.old'') else (None, f1)) of
          (e, f2) \<Rightarrow> (had, e, f2))"

lemma before_swap_result:
  assumes "at_dir f D r M" "D = depot_dir f depot" "validateDepotName depot = None" "channel_Valid c"
    and "before_swap f depot c = (had, e, f2)"
  shows "keeps f f2 \<and> (\<exists>M2. at_dir f2 D r M2 \<and> (\<forall>z. z \<noteq> c \<and> z \<noteq> old_name c \<longrightarrow> M2 z = M z) \<and>
    (if e = None \<and> had then M c \<noteq> None \<and> M2 c = None \<and> M2 (old_name c) = M c else M2 c = M c) \<and>
    (faults f = [] \<longrightarrow> e = None \<and> (had \<longleftrightarrow> M c \<noteq> None)))"
proof -
  let ?sw = "channelPath depot c @ ''.old''"
  obtain e0 f0 where 0: "fs_RemoveAll f ?sw = (e0, f0)" by (cases "fs_RemoveAll f ?sw")
  obtain M0 where M0: "keeps f f0" "at_dir f0 D r M0" "\<forall>z. z \<noteq> old_name c \<longrightarrow> M0 z = M z" "faults f = [] \<longrightarrow> M0 (old_name c) = None"
    using remove_names(1) [OF assms(1-4) 0] by fastforce
  have D0: "D = depot_dir f0 depot" using assms(2) depot_dir_keeps [OF M0(1)] by simp
  have c0: "M0 c = M c" using M0(3) upload_names(4) [OF assms(4)] by metis
  obtain st f1 where 1: "fs_Stat f0 (channelPath depot c) = (st, f1)" by (cases "fs_Stat f0 (channelPath depot c)")
  have "os_stat f0 (D @ c # []) = (st, f1)"
    using 1 by (simp add: fs_Stat_def channel_abs [OF assms(3) channel_proper [OF assms(4)]] D0)
  then have S: "keeps f0 f1 \<and> at_dir f1 D r M0 \<and> (st = Inl OtherError \<and> faults f0 \<noteq> [] \<or> st = (case M c of None \<Rightarrow> Inl NotExist | Some n \<Rightarrow> Inr n))"
    using stat_entry [OF M0(2), of c "[]" st f1] c0 by (auto split: option.splits)
  have k1: "keeps f f1" using M0(1) S by (blast intro: keeps_trans)
  have D1: "D = depot_dir f1 depot" using assms(2) depot_dir_keeps [OF k1] by simp
  have had: "had = (case st of Inl _ \<Rightarrow> False | Inr _ \<Rightarrow> True)"
    and f2: "(if had then fs_Rename f1 (channelPath depot c) ?sw else (None, f1)) = (e, f2)"
    using assms(5) by (auto simp: before_swap_def 0 1 Let_def split: prod.splits)
  have hadM: "had \<Longrightarrow> M c \<noteq> None" "faults f = [] \<Longrightarrow> had \<longleftrightarrow> M c \<noteq> None"
    using S had M0(1) by (auto simp: keeps_def split: option.splits)
  show ?thesis
  proof (cases had)
    case False
    then show ?thesis using f2 S k1 M0(3) c0 hadM by auto
  next
    case True
    then have "fs_Rename f1 (channelPath depot c) ?sw = (e, f2)" using f2 by simp
    note R = rename_names(1) [OF _ D1 assms(3,4) this, of r M0]
    show ?thesis
    proof (cases e)
      case None
      then obtain n where "M0 c = Some n" "at_dir f2 D r (M0(c := None, old_name c := Some n))" "keeps f1 f2" using R S by auto
      then show ?thesis using True None k1 M0(3) c0 upload_names(4) [OF assms(4)]
        by (auto intro!: exI [of _ "M0(c := None, old_name c := Some n)"] intro: keeps_trans)
    next
      case (Some z)
      then have "at_dir f2 D r M0" "keeps f1 f2" "faults f1 \<noteq> [] \<or> M0 c = None \<or> M0 (old_name c) \<noteq> None" using R S by auto
      moreover have "faults f = [] \<Longrightarrow> False" using calculation(3) k1 M0(4) c0 hadM(1) [OF True] by (auto simp: keeps_def)
      ultimately show ?thesis using Some k1 M0(3) c0 by (auto intro!: exI [of _ M0] intro: keeps_trans)
    qed
  qed
qed

lemma put_back_result:
  assumes "at_dir f D r M" "D = depot_dir f depot" "validateDepotName depot = None" "channel_Valid c"
    and "faults f = []" "M c = None" "had \<longleftrightarrow> N \<noteq> None" "had \<Longrightarrow> M (old_name c) = N"
  shows "keeps f (put_back had (channelPath depot c @ ''.old'') (channelPath depot c) f) \<and>
    (\<exists>M'. at_dir (put_back had (channelPath depot c @ ''.old'') (channelPath depot c) f) D r M' \<and> M' c = N \<and>
      (\<forall>z. z \<noteq> c \<and> z \<noteq> old_name c \<longrightarrow> M' z = M z))"
proof (cases had)
  case False
  then show ?thesis using assms(1,6,7) by (auto simp: put_back_def)
next
  case True
  obtain e f' where 1: "fs_Rename f (channelPath depot c @ ''.old'') (channelPath depot c) = (e, f')"
    by (cases "fs_Rename f (channelPath depot c @ ''.old'') (channelPath depot c)")
  have "M (old_name c) = N" "N \<noteq> None" using assms(7,8) True by auto
  then obtain n where "at_dir f' D r (M(old_name c := None, c := Some n))" "N = Some n" "keeps f f'"
    using rename_names(2) [OF assms(1-4) 1] assms(5,6) by auto
  then show ?thesis by (auto simp: put_back_def True 1 intro!: exI [of _ "M(old_name c := None, c := Some n)"])
qed

text \<open>The three directories an upload works in.\<close>

definition upload_dirs :: "filesys \<Rightarrow> string \<Rightarrow> channel \<Rightarrow> string list list" where
  "upload_dirs f depot c = map (\<lambda>x. depot_dir f depot @ [x]) [c, tmp_name c, old_name c]"

lemma upload_dirs_root: "fsroot f' = fsroot f \<Longrightarrow> upload_dirs f' depot c = upload_dirs f depot c"
  by (simp add: upload_dirs_def depot_dir_def)

lemma dirs_paths:
  assumes "validateDepotName depot = None" "channel_Valid c" "fsroot f' = fsroot f"
  shows "fs_abs f' (channelPath depot c) \<in> set (upload_dirs f depot c)"
    "fs_abs f' (channelPath depot c @ ''.old'') \<in> set (upload_dirs f depot c)"
    "fs_abs f' (tempPath depot c) \<in> set (upload_dirs f depot c)" "[] \<notin> set (upload_dirs f depot c)"
  using assms(3) by (simp_all add: upload_dirs_def swap_abs [OF assms(1,2)] channel_abs [OF assms(1) channel_proper [OF assms(2)]]
      temp_channel channel_abs [OF assms(1) upload_names(1) [OF assms(2)]] depot_dir_def)

lemma outside_removed:
  "validateDepotName depot = None \<Longrightarrow> channel_Valid c \<Longrightarrow> outside (upload_dirs f0 depot c) f0 f \<Longrightarrow>
    p \<in> {channelPath depot c, channelPath depot c @ ''.old'', tempPath depot c} \<Longrightarrow>
    outside (upload_dirs f0 depot c) f0 (snd (fs_RemoveAll f p))"
  using fs_remove_outside [of f p "fst (fs_RemoveAll f p)" "snd (fs_RemoveAll f p)" "upload_dirs f0 depot c"]
    dirs_paths [of depot c f f0]
  by (auto simp: outside_def)

lemma outside_renamed:
  assumes "validateDepotName depot = None" "channel_Valid c" "outside (upload_dirs f0 depot c) f0 f" "fs_Rename f p q = (res, f')"
    and "p \<in> {channelPath depot c, channelPath depot c @ ''.old'', tempPath depot c}"
    and "q \<in> {channelPath depot c, channelPath depot c @ ''.old'', tempPath depot c}"
  shows "outside (upload_dirs f0 depot c) f0 f'"
proof -
  have "fsroot f = fsroot f0" using assms(3) by (simp add: outside_def)
  note d = dirs_paths [OF assms(1,2) this]
  have "outside (upload_dirs f0 depot c) f f'" using assms(5,6) d by (intro fs_rename_outside [OF assms(4)]) auto
  then show ?thesis by (rule outside_trans [OF assms(3)])
qed

lemma outside_put_back:
  assumes "validateDepotName depot = None" "channel_Valid c" "outside (upload_dirs f0 depot c) f0 f"
  shows "outside (upload_dirs f0 depot c) f0 (put_back had (channelPath depot c @ ''.old'') (channelPath depot c) f)"
  using outside_renamed [OF assms, of "channelPath depot c @ ''.old''" "channelPath depot c"] assms(3)
  by (cases "fs_Rename f (channelPath depot c @ ''.old'') (channelPath depot c)") (simp add: put_back_def)

lemma before_swap_outside:
  assumes "validateDepotName depot = None" "channel_Valid c" "before_swap f depot c = (had, e, f2)"
  shows "outside (upload_dirs f depot c) f f2"
proof -
  let ?sw = "channelPath depot c @ ''.old''"
  let ?f0 = "snd (fs_RemoveAll f ?sw)"
  have 0: "outside (upload_dirs f depot c) f ?f0" by (rule outside_removed [OF assms(1,2)]) simp_all
  obtain st f1 where 1: "fs_Stat ?f0 (channelPath depot c) = (st, f1)" by (cases "fs_Stat ?f0 (channelPath depot c)")
  have "outside (upload_dirs f depot c) ?f0 f1" using stat_keeps [OF 1] by (intro outside_same) simp_all
  then have o1: "outside (upload_dirs f depot c) f f1" by (rule outside_trans [OF 0])
  have "(if had then fs_Rename f1 (channelPath depot c) ?sw else (None, f1)) = (e, f2)"
    using assms(3) by (auto simp: before_swap_def 1 Let_def split: prod.splits)
  then show ?thesis using o1 outside_renamed [OF assms(1,2) o1, of "channelPath depot c" ?sw e f2] by (auto split: if_splits)
qed

lemma install_steps:
  "install_upload E s snapshot c tmpPath (channelPath depot c) release =
     (case before_swap (fwFiles s) depot c of (had, e, f2) \<Rightarrow>
        let sw = channelPath depot c @ ''.old''; tg = channelPath depot c in
        case e of
          Some e \<Rightarrow> (Inl (FSFailed e), s\<lparr>fwFiles := f2\<rparr>)
        | None \<Rightarrow>
            (case fs_Rename f2 tmpPath tg of
               (Some e, f3) \<Rightarrow> (Inl (FSFailed e), s\<lparr>fwFiles := put_back had sw tg f3\<rparr>)
             | (None, f3) \<Rightarrow>
                 (case writeDepotMetadata E (s\<lparr>fwFiles := f3\<rparr>) (setDepotRelease snapshot c (normalizeDepotRelease release)) of
                    (Some e, s4) \<Rightarrow> (Inl e, s4\<lparr>fwFiles := put_back had sw tg (snd (fs_RemoveAll (fwFiles s4) tg))\<rparr>)
                  | (None, s4) \<Rightarrow> (Inr (normalizeDepotRelease release), s4\<lparr>fwFiles := snd (fs_RemoveAll (fwFiles s4) sw)\<rparr>))))"
  by (simp add: install_upload_def before_swap_def Let_def split: prod.split option.split)

lemma writes_no_file: "writeDepotMetadata E s d = (e, s') \<Longrightarrow> fwFiles s' = fwFiles s"
  by (auto simp: writeDepotMetadata_def Let_def split: option.splits prod.splits)

lemma install_outside:
  assumes "validateDepotName depot = None" "channel_Valid c"
    and run: "install_upload E s snapshot c (tempPath depot c) (channelPath depot c) release = (res, s')"
  shows "outside (upload_dirs (fwFiles s) depot c) (fwFiles s) (fwFiles s')"
proof -
  let ?Ps = "upload_dirs (fwFiles s) depot c" and ?sw = "channelPath depot c @ ''.old''" and ?tg = "channelPath depot c"
  obtain had e f2 where 1: "before_swap (fwFiles s) depot c = (had, e, f2)" by (metis prod_cases3)
  have o2: "outside ?Ps (fwFiles s) f2" by (rule before_swap_outside [OF assms(1,2) 1])
  obtain e3 f3 where 3: "fs_Rename f2 (tempPath depot c) ?tg = (e3, f3)" by (cases "fs_Rename f2 (tempPath depot c) ?tg")
  have o3: "outside ?Ps (fwFiles s) f3" by (rule outside_renamed [OF assms(1,2) o2 3]) simp_all
  obtain y s4 where 4: "writeDepotMetadata E (s\<lparr>fwFiles := f3\<rparr>) (setDepotRelease snapshot c (normalizeDepotRelease release)) = (y, s4)"
    by (cases "writeDepotMetadata E (s\<lparr>fwFiles := f3\<rparr>) (setDepotRelease snapshot c (normalizeDepotRelease release))")
  have f4: "fwFiles s4 = f3" using writes_no_file [OF 4] by simp
  have "fwFiles s' = f2 \<or> fwFiles s' = put_back had ?sw ?tg f3 \<or> fwFiles s' = put_back had ?sw ?tg (snd (fs_RemoveAll f3 ?tg)) \<or>
      fwFiles s' = snd (fs_RemoveAll f3 ?sw)"
    using run by (cases e; cases e3; cases y) (auto simp: install_steps 1 3 4 f4 Let_def)
  moreover have "outside ?Ps (fwFiles s) (put_back had ?sw ?tg f3)" "outside ?Ps (fwFiles s) (snd (fs_RemoveAll f3 ?sw))"
      "outside ?Ps (fwFiles s) (snd (fs_RemoveAll f3 ?tg))"
    by (rule outside_put_back [OF assms(1,2) o3]) (rule outside_removed [OF assms(1,2) o3], simp)+
  moreover from this(3) have "outside ?Ps (fwFiles s) (put_back had ?sw ?tg (snd (fs_RemoveAll f3 ?tg)))"
    by (rule outside_put_back [OF assms(1,2)])
  ultimately show ?thesis using o2 by auto
qed

lemma scans_no_file: "scanDepot E s name = (r, s') \<Longrightarrow> fwFiles s' = fwFiles s"
  by (auto simp: scanDepot_def getDepotMetadata_def Let_def split: option.splits prod.splits sum.splits)

lemma upload_outside:
  assumes name: "validateDepotName depot = None" and c: "channel_Valid c"
    and run: "uploadTar E s depot c items = (res, s')"
  shows "outside (upload_dirs (fwFiles s) depot c) (fwFiles s) (fwFiles s')"
proof -
  let ?Ps = "upload_dirs (fwFiles s) depot c"
  obtain e f where 1: "fs_MkdirAll (fwFiles s) (depotPath depot) = (e, f)" by (cases "fs_MkdirAll (fwFiles s) (depotPath depot)")
  have o1: "outside ?Ps (fwFiles s) f" by (rule fs_mkdir_outside [OF 1])
  let ?f2 = "snd (fs_RemoveAll f (tempPath depot c))"
  have o2: "outside ?Ps (fwFiles s) ?f2" by (rule outside_removed [OF name c o1]) simp
  obtain e3 f3 where 3: "fs_MkdirAll ?f2 (tempPath depot c) = (e3, f3)" by (cases "fs_MkdirAll ?f2 (tempPath depot c)")
  have o3: "outside ?Ps (fwFiles s) f3" by (rule outside_trans [OF o2 fs_mkdir_outside [OF 3]])
  have root: "upload_dirs f3 depot c = ?Ps" "fsroot f3 = fsroot (fwFiles s)" using o3 by (auto simp: outside_def intro: upload_dirs_root)
  obtain x f4 where 4: "extractTar E f3 (tempPath depot c) c items = (x, f4)" by (cases "extractTar E f3 (tempPath depot c) c items")
  have "outside [depot_dir f3 depot @ [tmp_name c]] f3 f4"
    using extract_files [OF 4 [unfolded temp_channel] name upload_names(1) [OF c] refl] by blast
  then have "outside ?Ps f3 f4" by (rule outside_mono) (simp add: upload_dirs_def root(2) depot_dir_def)
  then have o4: "outside ?Ps (fwFiles s) f4" by (rule outside_trans [OF o3])
  obtain r s5 where 5: "upload_into E (s\<lparr>fwFiles := f3\<rparr>) depot c (tempPath depot c) items = (r, s5)"
    by (cases "upload_into E (s\<lparr>fwFiles := f3\<rparr>) depot c (tempPath depot c) items")
  have "fwFiles s5 = f4 \<or> (\<exists>s6 d rel. fwFiles s6 = f4 \<and> install_upload E s6 d c (tempPath depot c) (channelPath depot c) rel = (r, s5))"
    using 5 scans_no_file [of E "s\<lparr>fwFiles := f4\<rparr>" depot] by (auto simp: upload_into_def 4 split: sum.splits prod.splits if_splits)
  moreover have "upload_dirs f4 depot c = ?Ps" using o4 by (auto simp: outside_def intro: upload_dirs_root)
  ultimately have o5: "outside ?Ps (fwFiles s) (fwFiles s5)"
    using o4 install_outside [OF name c] by (metis outside_trans)
  then have "outside ?Ps (fwFiles s) (snd (fs_RemoveAll (fwFiles s5) (tempPath depot c)))" by (rule outside_removed [OF name c]) simp
  moreover have "fwFiles s' = f \<or> fwFiles s' = f3 \<or> fwFiles s' = snd (fs_RemoveAll (fwFiles s5) (tempPath depot c))"
    using run c by (cases e; cases e3) (auto simp: uploadTar_def ensureDepot_def name 1 3 5 Let_def)
  ultimately show ?thesis using o1 o3 by auto
qed

context depot_meta
begin

lemma install_result:
  assumes at: "at_dir (fwFiles s) D r M" "D = depot_dir (fwFiles s) depot" "validateDepotName depot = None" "channel_Valid c"
    and s: "inv (fwMeta s)" "normal snapshot" "dname snapshot = depot"
    and run: "install_upload E s snapshot c (tempPath depot c) (channelPath depot c) release = (res, s')"
  shows "inv (fwMeta s') \<and>
    (\<forall>r'. res = Inr r' \<longrightarrow> r' = normalizeDepotRelease release \<and> keeps (fwFiles s) (fwFiles s') \<and>
       (reads_back E (setDepotRelease snapshot c r') \<longrightarrow> known s' depot = Inr (setDepotRelease snapshot c r')) \<and> (\<forall>name. name \<noteq> depot \<longrightarrow> known s' name = known s name) \<and>
       (\<exists>M'. at_dir (fwFiles s') D r M' \<and> M' c = M (tmp_name c) \<and> (\<forall>z. z \<noteq> c \<and> z \<noteq> tmp_name c \<and> z \<noteq> old_name c \<longrightarrow> M' z = M z))) \<and>
    (\<forall>e. res = Inl e \<longrightarrow> (\<forall>name. known s' name = known s name) \<and> (faults (fwFiles s) = [] \<longrightarrow>
       keeps (fwFiles s) (fwFiles s') \<and> (\<exists>M'. at_dir (fwFiles s') D r M' \<and> swapped c M M')))"
proof -
  note N = upload_names(3-5) [OF at(4)]
  let ?sw = "channelPath depot c @ ''.old''" and ?tg = "channelPath depot c"
  obtain had e f2 where 1: "before_swap (fwFiles s) depot c = (had, e, f2)" by (metis prod_cases3)
  obtain M2 where M2: "keeps (fwFiles s) f2" "at_dir f2 D r M2" "\<forall>z. z \<noteq> c \<and> z \<noteq> old_name c \<longrightarrow> M2 z = M z"
    "if e = None \<and> had then M c \<noteq> None \<and> M2 c = None \<and> M2 (old_name c) = M c else M2 c = M c"
    "faults (fwFiles s) = [] \<longrightarrow> e = None \<and> (had \<longleftrightarrow> M c \<noteq> None)"
    using before_swap_result [OF at 1] by blast
  have D2: "D = depot_dir f2 depot" using at(2) depot_dir_keeps [OF M2(1)] by simp
  show ?thesis
  proof (cases e)
    case (Some y)
    then have "res = Inl (FSFailed y)" "s' = s\<lparr>fwFiles := f2\<rparr>" using run by (auto simp: install_steps 1 Let_def)
    moreover have "swapped c M M2" using M2(3,4) Some by (auto simp: swapped_def)
    ultimately show ?thesis using M2(1,2) s(1) known_meta [of s' s] by auto
  next
    case None
    obtain e3 f3 where 3: "fs_Rename f2 (tempPath depot c) ?tg = (e3, f3)" by (cases "fs_Rename f2 (tempPath depot c) ?tg")
    note R = rename_names(3) [OF M2(2) D2 at(3,4) 3]
    have k3: "keeps (fwFiles s) f3" using M2(1) R by (blast intro: keeps_trans)
    have D3: "D = depot_dir f3 depot" using at(2) depot_dir_keeps [OF k3] by simp
    show ?thesis
    proof (cases e3)
      case (Some y)
      have s': "res = Inl (FSFailed y)" "s' = s\<lparr>fwFiles := put_back had ?sw ?tg f3\<rparr>"
        using run Some None by (auto simp: install_steps 1 3 Let_def)
      have "keeps (fwFiles s) (fwFiles s') \<and> (\<exists>M'. at_dir (fwFiles s') D r M' \<and> swapped c M M')" if fl: "faults (fwFiles s) = []"
      proof -
        have a: "at_dir f3 D r M2" "faults f3 = []" using R Some fl k3 by (auto simp: keeps_def)
        have h: "had \<longleftrightarrow> M c \<noteq> None" "M2 c = None" "had \<Longrightarrow> M2 (old_name c) = M c"
          using M2(4,5) fl None by (auto split: if_splits)
        show ?thesis using put_back_result [OF a(1) D3 at(3,4) a(2) h(2) h(1) h(3)] k3 M2(3) s'(2)
          by (auto simp: swapped_def intro: keeps_trans)
      qed
      then show ?thesis using s' s(1) known_meta [of s' s] by auto
    next
      case None
      note e3 = None
      obtain k where k: "M2 (tmp_name c) = Some k" "at_dir f3 D r (M2(tmp_name c := None, c := Some k))" using R None by auto
      let ?M3 = "M2(tmp_name c := None, c := Some k)"
      obtain y s4 where 4: "writeDepotMetadata E (s\<lparr>fwFiles := f3\<rparr>) (setDepotRelease snapshot c (normalizeDepotRelease release)) = (y, s4)"
        by (cases "writeDepotMetadata E (s\<lparr>fwFiles := f3\<rparr>) (setDepotRelease snapshot c (normalizeDepotRelease release))")
      have f4: "fwFiles s4 = f3" using write_files_same [OF 4] by simp
      have i: "inv (fwMeta (s\<lparr>fwFiles := f3\<rparr>))" using s(1) by simp
      show ?thesis
      proof (cases y)
        case None
        obtain e5 f5 where 5: "fs_RemoveAll f3 ?sw = (e5, f5)" by (cases "fs_RemoveAll f3 ?sw")
        have s': "res = Inr (normalizeDepotRelease release)" "s' = s4\<lparr>fwFiles := f5\<rparr>"
          using run None e3 \<open>e = None\<close> by (auto simp: install_steps 1 3 4 f4 5 Let_def)
        obtain M5 where M5: "keeps f3 f5" "at_dir f5 D r M5" "M5 = ?M3 \<or> M5 = ?M3(old_name c := None)"
          using remove_names(1) [OF k(2) D3 at(3,4) 5] by blast
        have "M5 c = M (tmp_name c)" using M5(3) N k(1) M2(3) by auto
        moreover have "M5 z = M z" if "z \<noteq> c" "z \<noteq> tmp_name c" "z \<noteq> old_name c" for z using that M5(3) M2(3) by auto
        moreover have K: "inv (fwMeta s4)" "reads_back E (setDepotRelease snapshot c (normalizeDepotRelease release)) \<longrightarrow>
            known s4 depot = Inr (setDepotRelease snapshot c (normalizeDepotRelease release))"
          "\<forall>name. name \<noteq> depot \<longrightarrow> known s4 name = known (s\<lparr>fwFiles := f3\<rparr>) name"
          using known_written [OF i 4 [unfolded None]] set_release_normal [OF s(2)] s(3) by auto
        moreover have "known s' name = known s4 name" "known (s\<lparr>fwFiles := f3\<rparr>) name = known s name" for name
          using known_meta [of s' s4] known_meta [of "s\<lparr>fwFiles := f3\<rparr>" s] s'(2) by auto
        ultimately show ?thesis using s' M5(1,2) k3 by (auto intro: keeps_trans)
      next
        case (Some x)
        have s4: "s4 = s\<lparr>fwFiles := f3\<rparr>" using write_law [OF i 4] Some by simp
        obtain e5 f5 where 5: "fs_RemoveAll f3 ?tg = (e5, f5)" by (cases "fs_RemoveAll f3 ?tg")
        have s': "res = Inl x" "s' = s\<lparr>fwFiles := put_back had ?sw ?tg f5\<rparr>"
          using run Some e3 \<open>e = None\<close> by (auto simp: install_steps 1 3 4 s4 5 Let_def)
        have "keeps (fwFiles s) (fwFiles s') \<and> (\<exists>M'. at_dir (fwFiles s') D r M' \<and> swapped c M M')" if fl: "faults (fwFiles s) = []"
        proof -
          have fl3: "faults f3 = []" using fl k3 by (simp add: keeps_def)
          have a: "at_dir f5 D r (?M3(c := None))" "keeps f3 f5" using remove_names(2) [OF k(2) D3 at(3,4) 5] fl3 by auto
          have D5: "D = depot_dir f5 depot" "faults f5 = []" using D3 depot_dir_keeps [OF a(2)] fl3 a(2) by (simp_all add: keeps_def)
          have h: "had \<longleftrightarrow> M c \<noteq> None" "(?M3(c := None)) c = None" "had \<Longrightarrow> (?M3(c := None)) (old_name c) = M c"
            using M2(4,5) fl \<open>e = None\<close> N by (auto split: if_splits)
          obtain M' where M': "keeps f5 (fwFiles s')" "at_dir (fwFiles s') D r M'" "M' c = M c"
            "\<forall>z. z \<noteq> c \<and> z \<noteq> old_name c \<longrightarrow> M' z = (?M3(c := None)) z"
            using put_back_result [OF a(1) D5(1) at(3,4) D5(2) h(2) h(1) h(3)] s'(2) by auto
          have "swapped c M M'"
            unfolding swapped_def
          proof (intro allI impI)
            fix z assume "z \<noteq> tmp_name c \<and> z \<noteq> old_name c"
            then show "M' z = M z" using M'(3,4) M2(3) by (cases "z = c") auto
          qed
          then show ?thesis using M'(1,2) k3 a(2) by (blast intro: keeps_trans)
        qed
        then show ?thesis using s' s(1) known_meta [of s' s] by auto
      qed
    qed
  qed
qed

end

lemma empty_normal: "normal (empty_depot name)" "dname (empty_depot name) = name"
  by (simp_all add: normal_iff empty_depot_def normalizeDepotInfo_def no_info_def infoFiles_def)

lemma files_match_moved:
  assumes "files_match E f depot t r" "validateDepotName depot = None" "proper [t]" "proper [c]"
    and "at_dir f D q M" "D = depot_dir f depot" "at_dir f' D q M'" "D = depot_dir f' depot" "M' c = M t"
  shows "files_match E f' depot c r"
  unfolding files_match_def
proof
  fix x assume x: "x \<in> set (releaseFiles r)"
  obtain data where v: "validateRelativePath (fpath x) = None"
    and d: "node_at (fsnode f) (fs_abs f (path_Join [channelPath depot t, fpath x])) = Inr (FileNode data)"
      "hexSha256 E data = fsha256 x" "hexMd5 E data = fmd5 x"
    using assms(1) x unfolding files_match_def by blast
  have "node_at (fsnode f') (fs_abs f' (path_Join [channelPath depot c, fpath x])) = Inr (FileNode data)"
    using d(1) at_dir_entry [OF assms(5), of t "rel_segs (fpath x)"] at_dir_entry [OF assms(7), of c "rel_segs (fpath x)"] assms(9)
    by (simp add: file_abs [OF assms(2,3) v] file_abs [OF assms(2,4) v] assms(6) [symmetric] assms(8) [symmetric])
  then show "validateRelativePath (fpath x) = None \<and>
      (\<exists>data. node_at (fsnode f') (fs_abs f' (path_Join [channelPath depot c, fpath x])) = Inr (FileNode data) \<and>
        hexSha256 E data = fsha256 x \<and> hexMd5 E data = fmd5 x)"
    using v d(2,3) by blast
qed

lemma extract_text_result:
  assumes "json_text E" "extractTar E f dst c items = (Inr rel, f')"
  shows "text_release rel"
proof -
  obtain files where "extract_loop E c items [] None [] = Inr (Some rel, files)"
    using assms(2) by (auto simp: extractTar_def split: sum.splits prod.splits option.splits if_splits)
  from extract_text [OF assms(1) this] show ?thesis by simp
qed

text \<open>What a successful upload leaves in the directory of the channel.\<close>

definition uploaded :: "'s fw_env \<Rightarrow> filesys \<Rightarrow> string list \<Rightarrow> depot_release \<Rightarrow> (string list \<Rightarrow> bool) \<Rightarrow> bool" where
  "uploaded E f dir rel left_over \<longleftrightarrow>
     (\<forall>q. file_at f (dir @ q) \<noteq> None \<longleftrightarrow> left_over q \<or> listed rel q) \<and>
     file_at f (dir @ [''manifest.json'']) = jsonRelease E rel \<and> (json_text E \<longrightarrow> text_release rel)"

context depot_meta
begin

lemma upload_into_result:
  assumes at: "at_dir (fwFiles s) D r M" "D = depot_dir (fwFiles s) depot" "validateDepotName depot = None" "channel_Valid c"
    and s: "inv (fwMeta s)"
    and run: "upload_into E s depot c (tempPath depot c) items = (res, s')"
  shows "inv (fwMeta s') \<and>
    (\<forall>rel. res = Inr rel \<longrightarrow> validateRelease rel = None \<and> releaseChannel rel = c \<and> files_match E (fwFiles s') depot c rel \<and>
       uploaded E (fwFiles s') (D @ [c]) rel (\<lambda>q. file_at (fwFiles s) (D @ tmp_name c # q) \<noteq> None) \<and>
       keeps (fwFiles s) (fwFiles s') \<and>
       (\<exists>d. (known s depot = Inr d \<or> known s depot = Inl DepotNotFound \<and> d = empty_depot depot) \<and>
          (reads_back E (setDepotRelease d c rel) \<longrightarrow> known s' depot = Inr (setDepotRelease d c rel))) \<and>
       (\<forall>name. name \<noteq> depot \<longrightarrow> known s' name = known s name) \<and>
       (\<exists>M'. at_dir (fwFiles s') D r M' \<and> (\<forall>z. z \<noteq> c \<and> z \<noteq> tmp_name c \<and> z \<noteq> old_name c \<longrightarrow> M' z = M z))) \<and>
    (\<forall>e. res = Inl e \<longrightarrow> (\<forall>name. known s' name = known s name) \<and> (faults (fwFiles s) = [] \<longrightarrow>
       keeps (fwFiles s) (fwFiles s') \<and> (\<exists>M'. at_dir (fwFiles s') D r M' \<and> swapped c M M')))"
proof -
  note t = upload_names(1) [OF at(4)]
  obtain x f where 1: "extractTar E (fwFiles s) (tempPath depot c) c items = (x, f)"
    by (cases "extractTar E (fwFiles s) (tempPath depot c) c items")
  obtain M1 where M1: "keeps (fwFiles s) f" "at_dir f D r M1" "only_below (tmp_name c) M M1"
    and x: "\<And>rel. x = Inr rel \<Longrightarrow> validateRelease rel = None \<and> normalizeDepotRelease rel = rel \<and> releaseChannel rel = c \<and>
      files_match E f depot (tmp_name c) rel"
    using extract_result [OF at(1-3) t 1 [unfolded temp_channel]] by blast
  have D1: "D = depot_dir f depot" using at(2) depot_dir_keeps [OF M1(1)] by simp
  have sw1: "swapped c M M1" using M1(3) by (auto simp: swapped_def only_below_def)
  have i1: "inv (fwMeta (s\<lparr>fwFiles := f\<rparr>))" using s by simp
  have kn: "known (s\<lparr>fwFiles := f\<rparr>) name = known s name" for name using known_meta [of "s\<lparr>fwFiles := f\<rparr>" s] by simp
  have stop: ?thesis if "inv (fwMeta s')" "\<And>rel. res \<noteq> Inr rel" "\<And>name. known s' name = known s name" "fwFiles s' = f"
    using that M1(1,2) sw1 by auto
  show ?thesis
  proof (cases x)
    case (Inl e)
    then show ?thesis using run stop i1 kn by (auto simp: upload_into_def 1)
  next
    case (Inr rel)
    note rel = x [OF Inr]
    obtain g s1 where 2: "scanDepot E (s\<lparr>fwFiles := f\<rparr>) depot = (g, s1)" by (cases "scanDepot E (s\<lparr>fwFiles := f\<rparr>) depot")
    note S = scan_reads [OF i1 2]
    have s1: "inv (fwMeta s1)" "fwFiles s1 = f" "g = known s depot" "\<And>name. known s1 name = known s name"
      using S kn known_reads [OF i1, of s1] by (auto simp: reads_def known_eq [OF i1, symmetric] kn)
    show ?thesis
    proof (cases "(\<exists>e. g = Inl e \<and> e \<noteq> DepotNotFound) \<or> (\<exists>d. g = Inr d \<and> infoFiles (dinfo d) \<noteq> [] \<and> \<not> sameInfoFiles (dinfo d) rel)")
      case True
      then have "s' = s1 \<and> (\<forall>rel. res \<noteq> Inr rel)" using run by (auto simp: upload_into_def 1 Inr 2)
      then show ?thesis using stop s1 by blast
    next
      case False
      define d where "d = (case g of Inl _ \<Rightarrow> empty_depot depot | Inr d \<Rightarrow> d)"
      have run2: "install_upload E s1 d c (tempPath depot c) (channelPath depot c) rel = (res, s')"
        using run False by (auto simp: upload_into_def 1 Inr 2 d_def split: sum.splits if_splits)
      have d: "known s depot = Inr d \<or> known s depot = Inl DepotNotFound \<and> d = empty_depot depot"
        using False unfolding s1(3) d_def by (cases "known s depot") auto
      have "normal d \<and> dname d = depot"
      proof (cases "known s depot = Inr d")
        case True
        then have "read_meta E depot (meta_of s depot) = Inr d" by (simp add: known_eq [OF s] at(3))
        then show ?thesis using read_meta_ok by blast
      next
        case False
        then show ?thesis using d empty_normal by auto
      qed
      then have I: "normal d" "dname d = depot" by auto
      have at1: "at_dir (fwFiles s1) D r M1" "D = depot_dir (fwFiles s1) depot" using M1(2) D1 s1(2) by simp_all
      note R = install_result [OF at1 at(3,4) s1(1) I run2]
      show ?thesis
      proof (cases res)
        case (Inl e)
        then show ?thesis using R s1(2,4) M1(1) sw1 by (auto simp: swapped_def keeps_def)
      next
        case (Inr r')
        then obtain M' where r': "r' = rel" and k: "keeps f (fwFiles s')" and M': "at_dir (fwFiles s') D r M'" "M' c = M1 (tmp_name c)"
          "\<forall>z. z \<noteq> c \<and> z \<noteq> tmp_name c \<and> z \<noteq> old_name c \<longrightarrow> M' z = M1 z" using R rel s1(2) by auto
        have "D = depot_dir (fwFiles s') depot" using D1 depot_dir_keeps [OF k] by simp
        have X: "(\<forall>q. file_at f (D @ tmp_name c # q) \<noteq> None \<longleftrightarrow> file_at (fwFiles s) (D @ tmp_name c # q) \<noteq> None \<or> listed rel q) \<and>
            file_at f (D @ [tmp_name c, ''manifest.json'']) = jsonRelease E rel"
          using extract_files [OF 1 [unfolded temp_channel] at(3) t at(2)] \<open>x = Inr rel\<close> by blast
        have "file_at (fwFiles s') (D @ c # q) = file_at f (D @ tmp_name c # q)" for q
          by (simp add: file_at_entry [OF M'(1)] file_at_entry [OF M1(2)] M'(2))
        then have up: "uploaded E (fwFiles s') (D @ [c]) rel (\<lambda>q. file_at (fwFiles s) (D @ tmp_name c # q) \<noteq> None)"
          using X extract_text_result [of E] 1 \<open>x = Inr rel\<close> by (auto simp: uploaded_def)
        have "files_match E (fwFiles s') depot c rel"
          using \<open>D = depot_dir (fwFiles s') depot\<close> files_match_moved [OF _ at(3) t channel_proper [OF at(4)] M1(2) D1 M'(1) _ M'(2)] rel by blast
        moreover have "\<forall>z. z \<noteq> c \<and> z \<noteq> tmp_name c \<and> z \<noteq> old_name c \<longrightarrow> M' z = M z"
          using M'(3) M1(3) by (simp add: only_below_def)
        ultimately show ?thesis using R Inr r' rel d s1 M1(1) k M'(1) up by (auto intro: keeps_trans)
      qed
    qed
  qed
qed

lemma upload_result:
  assumes s: "inv (fwMeta s)" and run: "uploadTar E s depot c items = (res, s')"
  shows "inv (fwMeta s') \<and>
    (\<forall>rel. res = Inr rel \<longrightarrow> channel_Valid c \<and> validateDepotName depot = None \<and>
       validateRelease rel = None \<and> releaseChannel rel = c \<and> files_match E (fwFiles s') depot c rel \<and>
       (\<exists>junk. uploaded E (fwFiles s') (depot_dir (fwFiles s) depot @ [c]) rel junk \<and>
          (faults (fwFiles s) = [] \<longrightarrow> (\<forall>q. \<not> junk q))) \<and>
       (\<exists>d. (known s depot = Inr d \<or> known s depot = Inl DepotNotFound \<and> d = empty_depot depot) \<and>
          (reads_back E (setDepotRelease d c rel) \<longrightarrow> known s' depot = Inr (setDepotRelease d c rel))) \<and>
       (\<forall>name. name \<noteq> depot \<longrightarrow> known s' name = known s name) \<and>
       (\<forall>c'. channel_Valid c' \<and> c' \<noteq> c \<longrightarrow> channel_node (fwFiles s') depot c' = channel_node (fwFiles s) depot c')) \<and>
    (\<forall>e. res = Inl e \<longrightarrow> (\<forall>name. known s' name = known s name) \<and> (faults (fwFiles s) = [] \<longrightarrow>
       (\<forall>c'. channel_Valid c' \<longrightarrow> channel_node (fwFiles s') depot c' = channel_node (fwFiles s) depot c')))"
proof (cases "channel_Valid c \<and> validateDepotName depot = None")
  case False
  have "\<exists>e. uploadTar E s depot c items = (Inl e, s)"
  proof (cases "channel_Valid c")
    case True
    then obtain y where "validateDepotName depot = Some y" using False by auto
    then have "ensureDepot s depot = (Some y, s)" by (simp add: ensureDepot_def)
    then show ?thesis using True by (simp add: uploadTar_def)
  qed (simp add: uploadTar_def)
  then have "s' = s \<and> (\<forall>rel. res \<noteq> Inr rel)" using run by auto
  then show ?thesis using s by auto
next
  case True
  then have c: "channel_Valid c" and name: "validateDepotName depot = None" by auto
  obtain e f where 1: "os_MkdirAll (fwFiles s) (depot_dir (fwFiles s) depot) = (e, f)"
    by (cases "os_MkdirAll (fwFiles s) (depot_dir (fwFiles s) depot)")
  have ens: "ensureDepot s depot = (map_option FSFailed e, s\<lparr>fwFiles := f\<rparr>)"
    using 1 by (simp add: ensureDepot_def name fs_MkdirAll_def depot_abs [OF name])
  show ?thesis
  proof (cases e)
    case (Some y)
    then have "s' = s\<lparr>fwFiles := f\<rparr>" "res = Inl (FSFailed y)" using run c by (auto simp: uploadTar_def ens)
    then show ?thesis
      using s known_meta [of s' s] channel_node_same [of "fwFiles s" f] mkdir_failed [OF 1 [unfolded Some]] by auto
  next
    case None
    note E1 = mkdir_entries [OF 1 [unfolded None]]
    let ?D = "depot_dir (fwFiles s) depot"
    have k1: "keeps (fwFiles s) f" using E1 by blast
    have D1: "?D = depot_dir f depot" using depot_dir_keeps [OF k1] by simp
    obtain ns where "node_at (fsnode f) ?D = Inr (DirNode ns)" using E1 by blast
    then have at1: "at_dir f ?D (fsnode f) (map_of ns)" by (rule at_dir_start)
    have nodes: "\<forall>k. node_at (fsnode f) (?D @ [z]) = Inr k \<longleftrightarrow> node_at (fsnode (fwFiles s)) (?D @ [z]) = Inr k" for z
      using mkdir_entries [OF 1 [unfolded None]] by blast
    have "channel_node f depot z = channel_node (fwFiles s) depot z" for z
      unfolding channel_node_def D1 [symmetric] using nodes [of z] by (auto split: sum.split)
    then have same: "channel_node (fwFiles s) depot z = map_of ns z" for z
      using channel_node_at [OF at1 D1, of z] by simp
    obtain e2 f2 where 2: "fs_RemoveAll f (tempPath depot c) = (e2, f2)" by (cases "fs_RemoveAll f (tempPath depot c)")
    obtain M2 where M2: "keeps f f2" "at_dir f2 ?D (fsnode f) M2" "only_below (tmp_name c) (map_of ns) M2"
      "faults f = [] \<longrightarrow> M2 (tmp_name c) = None"
      using remove_names(3) [OF at1 D1 name c 2] by (auto simp: only_below_def)
    have D2: "?D = depot_dir f2 depot" using D1 depot_dir_keeps [OF M2(1)] by simp
    obtain e3 f3 where 3: "fs_MkdirAll f2 (tempPath depot c) = (e3, f3)" by (cases "fs_MkdirAll f2 (tempPath depot c)")
    then have "os_MkdirAll f2 (?D @ tmp_name c # []) = (e3, f3)"
      by (simp add: fs_MkdirAll_def temp_channel channel_abs [OF name upload_names(1) [OF c]] D2)
    from mkdir_below [OF M2(2) this]
    obtain M3 where M3: "keeps f2 f3" "at_dir f3 ?D (fsnode f) M3" "only_below (tmp_name c) (map_of ns) M3"
      using M2(3) by (blast intro: only_below_trans)
    have "file_at f3 q = file_at f2 q" for q using mkdir_files [OF 3 [unfolded fs_MkdirAll_def]] by blast
    then have no_junk: "file_at f3 (?D @ tmp_name c # q) = None" if "faults (fwFiles s) = []" for q
      using that k1 M2(4) by (simp add: file_at_entry [OF M2(2)] keeps_def)
    have k3: "keeps (fwFiles s) f3" using k1 M2(1) M3(1) by (blast intro: keeps_trans)
    have D3: "?D = depot_dir f3 depot" using depot_dir_keeps [OF k3] by simp
    have M3c: "M3 z = channel_node (fwFiles s) depot z" if "channel_Valid z" for z
      using M3(3) upload_names(6) [OF c that] by (simp add: only_below_def same)
    show ?thesis
    proof (cases e3)
      case (Some y)
      then have "s' = s\<lparr>fwFiles := f3\<rparr>" "res = Inl (FSFailed y)" using run c by (auto simp: uploadTar_def ens None 2 3)
      then show ?thesis
        using s known_meta [of s' s] channel_node_at [OF M3(2) D3] M3c by auto
    next
      case None
      let ?s = "s\<lparr>fwFiles := f3\<rparr>"
      obtain x s4 where 4: "upload_into E ?s depot c (tempPath depot c) items = (x, s4)"
        by (cases "upload_into E ?s depot c (tempPath depot c) items")
      obtain e5 f5 where 5: "fs_RemoveAll (fwFiles s4) (tempPath depot c) = (e5, f5)" by (cases "fs_RemoveAll (fwFiles s4) (tempPath depot c)")
      have s': "res = x" "s' = s4\<lparr>fwFiles := f5\<rparr>" using run c \<open>e = None\<close> None by (auto simp: uploadTar_def ens 2 3 4 5)
      have kn: "known ?s n = known s n" "known s' n = known s4 n" for n
        using known_meta [of ?s s] known_meta [of s' s4] s'(2) by simp_all
      have at3: "at_dir (fwFiles ?s) ?D (fsnode f) M3" "?D = depot_dir (fwFiles ?s) depot" using M3(2) D3 by simp_all
      have i3: "inv (fwMeta ?s)" using s by simp
      note R = upload_into_result [OF at3 name c i3 4]
      have last: "channel_node f5 depot z = M4 z \<and> keeps (fwFiles s4) f5 \<and> (\<exists>M5. at_dir f5 ?D (fsnode f) M5 \<and> only_below (tmp_name c) M4 M5)"
        if a: "keeps f3 (fwFiles s4)" "at_dir (fwFiles s4) ?D (fsnode f) M4" "channel_Valid z" for M4 z
      proof -
        have D4: "?D = depot_dir (fwFiles s4) depot" using D3 depot_dir_keeps [OF a(1)] by simp
        obtain M5 where M5: "keeps (fwFiles s4) f5" "at_dir f5 ?D (fsnode f) M5" "only_below (tmp_name c) M4 M5"
          using remove_names(3) [OF a(2) D4 name c 5] by (auto simp: only_below_def)
        have "?D = depot_dir f5 depot" using D4 depot_dir_keeps [OF M5(1)] by simp
        then show ?thesis using channel_node_at [OF M5(2)] M5 upload_names(6) [OF c a(3)] by (auto simp: only_below_def)
      qed
      show ?thesis
      proof (cases x)
        case (Inl y)
        have "channel_node f5 depot z = channel_node (fwFiles s) depot z" if fl: "faults (fwFiles s) = []" and z: "channel_Valid z" for z
        proof -
          have "faults (fwFiles ?s) = []" using fl k3 by (simp add: keeps_def)
          then obtain M4 where M4: "keeps f3 (fwFiles s4)" "at_dir (fwFiles s4) ?D (fsnode f) M4" "swapped c M3 M4" using R Inl by auto
          then show ?thesis using last [OF M4(1,2) z] M3c [OF z] upload_names(6,7) [OF c z] by (simp add: swapped_def)
        qed
        then show ?thesis using R Inl s' kn by auto
      next
        case (Inr rel)
        then obtain M4 where M4: "keeps f3 (fwFiles s4)" "at_dir (fwFiles s4) ?D (fsnode f) M4"
          "\<forall>z. z \<noteq> c \<and> z \<noteq> tmp_name c \<and> z \<noteq> old_name c \<longrightarrow> M4 z = M3 z" using R by auto
        have other: "channel_node f5 depot z = channel_node (fwFiles s) depot z" if "channel_Valid z" "z \<noteq> c" for z
          using last [OF M4(1,2) that(1)] M3c [OF that(1)] upload_names(6,7) [OF c that(1)] M4(3) that(2) by simp
        obtain M5 where M5: "keeps (fwFiles s4) f5" "at_dir f5 ?D (fsnode f) M5" "only_below (tmp_name c) M4 M5"
          using last [OF M4(1,2) c] by blast
        have D4: "?D = depot_dir (fwFiles s4) depot" "?D = depot_dir f5 depot"
          using D3 depot_dir_keeps [OF M4(1)] depot_dir_keeps [OF M5(1)] by simp_all
        have "files_match E (fwFiles s4) depot c rel" using R Inr by blast
        from files_match_moved [OF this name channel_proper [OF c] channel_proper [OF c] M4(2) D4(1) M5(2) D4(2)]
        have "files_match E f5 depot c rel" using M5(3) upload_names(3) [OF c] by (simp add: only_below_def)
        moreover have "uploaded E f5 (?D @ [c]) rel (\<lambda>q. file_at f3 (?D @ tmp_name c # q) \<noteq> None)"
        proof -
          have "M5 c = M4 c" using M5(3) upload_names(3) [OF c] by (simp add: only_below_def)
          then have "file_at f5 (?D @ c # q) = file_at (fwFiles s4) (?D @ c # q)" for q
            by (simp add: file_at_entry [OF M4(2)] file_at_entry [OF M5(2)])
          then show ?thesis using R Inr by (simp add: uploaded_def)
        qed
        ultimately show ?thesis using R Inr s' kn other c name no_junk by auto
      qed
    qed
  qed
qed

end

section \<open>What an upload does\<close>

lemma file_at_channel:
  "file_at f (depot_dir f depot @ c # q) = (case channel_node f depot c of None \<Rightarrow> None | Some n \<Rightarrow> file_in n q)"
  using node_at_append [of "fsnode f" "depot_dir f depot @ [c]" q]
  by (auto simp: file_at_def file_in_def channel_node_def split: sum.split)

text \<open>
  C10: An upload that succeeds stores a valid release of its channel, whichever calls of the file system
  failed on the way: the record of the channel becomes the release, in the record there was or a new one;
  every file it lists is there under the channel with the digests it gives, with the manifest, and without
  anything else when no call failed by itself. The records of other depots stay, the other channels of the
  depot stay, and no file of the store changes outside the directory of the channel, its temporary
  directory and its backup. The name of the depot is UTF-8, as JSON keeps no other text.
\<close>

theorem upload_installs:
  assumes "depot_meta St ok view E" and "json_text E" and "utf8_string depot" and "ok (fwMeta s)"
    and "uploadTar E s depot c items = (Inr rel, s')"
  shows "channel_Valid c \<and> validateRelease rel = None \<and> releaseChannel rel = c \<and>
    files_match E (fwFiles s') depot c rel \<and>
    file_at (fwFiles s') (depot_dir (fwFiles s) depot @ [c, ''manifest.json'']) = jsonRelease E rel \<and>
    (faults (fwFiles s) = [] \<longrightarrow>
      (\<forall>q. file_at (fwFiles s') (depot_dir (fwFiles s) depot @ c # q) \<noteq> None \<longleftrightarrow> listed rel q)) \<and>
    (\<exists>d. (fst (getDepotMetadata E s depot) = Inr d \<or>
          fst (getDepotMetadata E s depot) = Inl DepotNotFound \<and> d = empty_depot depot) \<and>
       fst (getDepotMetadata E s' depot) = Inr (setDepotRelease d c rel)) \<and>
    (if name = depot then True else fst (getDepotMetadata E s' name) = fst (getDepotMetadata E s name)) \<and>
    list_all (\<lambda>c'. c' = c \<or> channel_node (fwFiles s') depot c' = channel_node (fwFiles s) depot c') allChannels \<and>
    outside (upload_dirs (fwFiles s) depot c) (fwFiles s) (fwFiles s')"
proof -
  note known = depot_meta.known_def [OF assms(1)]
  have valid: "\<forall>c \<in> set allChannels. channel_Valid c" by (auto simp: allChannels_def channel_Valid_def)
  note U = depot_meta.upload_result [OF assms(1,4,5), unfolded known]
  obtain d where d: "fst (getDepotMetadata E s depot) = Inr d \<or>
      fst (getDepotMetadata E s depot) = Inl DepotNotFound \<and> d = empty_depot depot"
    "reads_back E (setDepotRelease d c rel) \<longrightarrow> fst (getDepotMetadata E s' depot) = Inr (setDepotRelease d c rel)"
    using U by blast
  obtain junk where J: "uploaded E (fwFiles s') (depot_dir (fwFiles s) depot @ [c]) rel junk"
    "faults (fwFiles s) = [] \<longrightarrow> (\<forall>q. \<not> junk q)" using U by blast
  have name: "validateDepotName depot = None" "channel_Valid c" using U by blast+
  have "text_depot d"
  proof (cases "fst (getDepotMetadata E s depot) = Inr d")
    case True
    then have "read_meta E depot (depot_meta.meta_of view E s depot) = Inr d"
      using depot_meta.known_eq [OF assms(1,4), of depot] name(1) by (simp add: known)
    then show ?thesis by (rule text_read [OF assms(2,3)])
  next
    case False
    then show ?thesis using d(1) text_empty [OF assms(3)] by auto
  qed
  moreover have "text_release rel" using J(1) assms(2) by (simp add: uploaded_def)
  ultimately have "text_depot (setDepotRelease d c rel)" by (rule text_set_release)
  then have "reads_back E (setDepotRelease d c rel)" using assms(2) unfolding json_text_def reads_back_def by blast
  then have rec: "\<exists>d. (fst (getDepotMetadata E s depot) = Inr d \<or>
      fst (getDepotMetadata E s depot) = Inl DepotNotFound \<and> d = empty_depot depot) \<and>
      fst (getDepotMetadata E s' depot) = Inr (setDepotRelease d c rel)" using d by blast
  have "list_all (\<lambda>c'. c' = c \<or> channel_node (fwFiles s') depot c' = channel_node (fwFiles s) depot c') allChannels"
    using U valid by (auto simp: list_all_iff)
  moreover have "faults (fwFiles s) = [] \<longrightarrow>
      (\<forall>q. file_at (fwFiles s') (depot_dir (fwFiles s) depot @ c # q) \<noteq> None \<longleftrightarrow> listed rel q)"
    and "file_at (fwFiles s') (depot_dir (fwFiles s) depot @ [c, ''manifest.json'']) = jsonRelease E rel"
    using J by (simp_all add: uploaded_def)
  ultimately show ?thesis using U rec upload_outside [OF name assms(5)] by auto
qed

text \<open>
  C20: An upload that fails, when no call of the file system failed by itself, changes neither the record of
  any depot nor any channel of the depot, whatever the archive holds and however far it was unpacked, and
  no file of the store outside the temporary directory and the backup directory of the channel: files, not
  directories, which it may have made on the way.
\<close>

theorem failed_upload_restores:
  assumes "depot_meta St ok view E" and "ok (fwMeta s)" and "faults (fwFiles s) = []"
    and "uploadTar E s depot c items = (Inl e, s')"
  shows "fst (getDepotMetadata E s' name) = fst (getDepotMetadata E s name) \<and>
    list_all (\<lambda>c'. channel_node (fwFiles s') depot c' = channel_node (fwFiles s) depot c') allChannels \<and>
    outside [depot_dir (fwFiles s) depot @ [tmp_name c], depot_dir (fwFiles s) depot @ [old_name c]] (fwFiles s) (fwFiles s')"
proof -
  note known = depot_meta.known_def [OF assms(1)]
  have valid: "\<forall>c \<in> set allChannels. channel_Valid c" by (auto simp: allChannels_def channel_Valid_def)
  note U = depot_meta.upload_result [OF assms(1,2,4), unfolded known]
  have ch: "channel_node (fwFiles s') depot z = channel_node (fwFiles s) depot z" if "channel_Valid z" for z
    using U assms(3) that by simp
  have "outside [depot_dir (fwFiles s) depot @ [tmp_name c], depot_dir (fwFiles s) depot @ [old_name c]] (fwFiles s) (fwFiles s')"
  proof (cases "validateDepotName depot = None \<and> channel_Valid c")
    case False
    then have "s' = s" using assms(4) by (auto simp: uploadTar_def ensureDepot_def split: if_splits option.splits)
    then show ?thesis by simp
  next
    case True
    then have o: "outside (upload_dirs (fwFiles s) depot c) (fwFiles s) (fwFiles s')"
      using upload_outside [OF _ _ assms(4)] by blast
    then have D: "depot_dir (fwFiles s') depot = depot_dir (fwFiles s) depot" by (simp add: outside_def depot_dir_def)
    have "file_at (fwFiles s') q = file_at (fwFiles s) q" if q: "starts (depot_dir (fwFiles s) depot @ [c]) q" for q
    proof -
      obtain r where r: "q = depot_dir (fwFiles s) depot @ c # r" using startsE [OF q] by auto
      show ?thesis
        using file_at_channel [of "fwFiles s'" depot c r] file_at_channel [of "fwFiles s" depot c r] ch [of c] True by (simp add: r D)
    qed
    then show ?thesis using o by (auto simp: outside_def upload_dirs_def)
  qed
  moreover have "list_all (\<lambda>c'. channel_node (fwFiles s') depot c' = channel_node (fwFiles s) depot c') allChannels"
    using ch valid by (simp add: list_all_iff)
  ultimately show ?thesis using U by simp
qed


section \<open>An example\<close>

definition demo_items :: "tar_item list" where
  "demo_items = [TarEntry True ''manifest.json'' (code_of demo_releases (demo_release Testing ''1.2.0-rc.1'')),
     TarEntry True ''fw.bin'' (Some [2])]"

lemma of_code_member: "of_code xs b = Some x \<Longrightarrow> x \<in> set xs"
  by (induction xs) (auto split: if_splits)

lemma demo_text: "json_text demo_server" "utf8_string ''dev''"
proof -
  have "\<forall>d \<in> set demo_depots. text_depot d" "\<forall>r \<in> set demo_releases. text_release r" by code_simp+
  then show "json_text demo_server"
    by (auto simp: json_text_def demo_server_def of_code_of dest: of_code_member)
  show "utf8_string ''dev''" by code_simp
qed

theorem upload_installs_witness:
  "files_match demo_server (fwFiles (snd (uploadTar demo_server (demo_state []) ''dev'' Testing demo_items))) ''dev'' Testing
     (demo_release Testing ''1.2.0-rc.1'')"
proof -
  have "fst (uploadTar demo_server (demo_state []) ''dev'' Testing demo_items) = Inr (demo_release Testing ''1.2.0-rc.1'')"
    by code_simp
  from upload_installs [OF demo.depot_meta_axioms demo_text demo_state_ok demo_split [OF this]] show ?thesis by blast
qed

text \<open>An archive with a file the manifest does not list fails once all is unpacked.\<close>

theorem failed_upload_restores_witness:
  "fst (getDepotMetadata demo_server (snd (uploadTar demo_server (demo_state []) ''dev'' Testing
       (demo_items @ [TarEntry True ''other.bin'' (Some [])]))) ''dev'')
     = fst (getDepotMetadata demo_server (demo_state []) ''dev'')"
proof -
  have "fst (uploadTar demo_server (demo_state []) ''dev'' Testing (demo_items @ [TarEntry True ''other.bin'' (Some [])]))
      = Inl FilesMismatch" and f: "faults (fwFiles (demo_state [])) = []"
    by code_simp+
  from failed_upload_restores [OF demo.depot_meta_axioms demo_state_ok f demo_split [OF this(1)]] show ?thesis by blast
qed

end
