(* ===== verification/Spec2Isabelle.thy ===== *)
theory Spec2Isabelle
  imports Prelude Varint ReplayFilter NoiseMessage NoiseSession SessionManager Buffers KVStore KVGraph OggPage OggStream KcpConn KcpMux ServiceMux NoiseHandshake Timer Conn ConnExchange ConnTimers Udp UdpExchange UdpRouting UdpSafety UdpStreams UdpPipeline Trie Semver FileStore Depot DepotSwitch DepotRelease DepotService DepotUpload
begin

text \<open>
  Verification of giztoy-go.

  \<^bold>\<open>The program.\<close>  The core of the repository is a peer-to-peer network (\<open>src/pkg/giznet/internal\<close>):
  Noise IK sessions over UDP (\<open>noise\<close>), on which a key-addressed socket (\<open>core/udp.go\<close>) and
  point-to-point connections (\<open>core/conn.go\<close>) are built; each peer of a socket has a service multiplexer
  (\<open>core/service_mux.go\<close>) with a stream multiplexer per service (\<open>kcp\<close>).  Around it stand data structures
  the services use: buffers (\<open>pkg/buffer\<close>), a key-value store and a graph on it (\<open>pkg/store\<close>), and the Ogg
  container of the audio code (\<open>pkg/audio/codec/ogg\<close>); and the firmware service (\<open>pkg/gizclaw/firmware\<close>), which keeps
  releases in a key-value store and their files in a directory.

  \<^bold>\<open>The theories, in the order of the layers.\<close>

  \<^item> \<open>Prelude\<close>: little-endian integers, slices, copies and other facts that the rest shares.
  \<^item> \<open>Varint\<close> (\<open>core/varint.go\<close>), \<open>ReplayFilter\<close> (\<open>noise/replay.go\<close>), \<open>NoiseMessage\<close> (\<open>noise/message.go\<close>,
    \<open>core/payload.go\<close>): the wire formats and the sliding window, each with the reference it is proved
    equal to: unbounded base 128, a set of nonces, and the fields of a message.
  \<^item> \<open>NoiseHandshake\<close> (\<open>noise/hash.go\<close>, \<open>cipher.go\<close>, \<open>keypair.go\<close>, \<open>handshake.go\<close>): the symmetric state, the
    tokens and the message patterns.  BLAKE2s, X25519 and ChaCha20-Poly1305 are not in the repository; they
    are the record \<open>crypto\<close>, and \<open>crypto_ok\<close> says what is relied on: what was sealed opens, and the two
    ways round a key exchange agree.  \<open>demo_crypto\<close> shows that this can hold.
  \<^item> \<open>NoiseSession\<close> (\<open>noise/session.go\<close>) and \<open>SessionManager\<close> (\<open>noise/manager.go\<close>): the transport keys with
    their nonces, and the table of sessions by index and by key.
  \<^item> \<open>KcpConn\<close>, \<open>KcpMux\<close> (\<open>kcp/kcp_conn.go\<close>, \<open>kcp_mux.go\<close>), \<open>ServiceMux\<close> (\<open>core/service_mux.go\<close>): streams, their
    multiplexer and the services of a peer.  The KCP protocol itself is a library; a connection is the
    queues at its ends.
  \<^item> \<open>Timer\<close> (\<open>internal/timer\<close>), \<open>Conn\<close> (\<open>core/conn.go\<close>, \<open>dial.go\<close>, \<open>consts.go\<close>), \<open>ConnExchange\<close>,
    \<open>ConnTimers\<close>: connections, with the exchange of two of them and the timeouts.
  \<^item> \<open>Udp\<close> (\<open>core/udp.go\<close>, \<open>peer.go\<close>), \<open>UdpExchange\<close>, \<open>UdpStreams\<close>, \<open>UdpRouting\<close>, \<open>UdpSafety\<close>,
    \<open>UdpPipeline\<close>: the socket: its operations, two sockets over their packets, all layers together, the
    index of sessions, what packets may do, and the pipeline of pooled packets.
  \<^item> \<open>Buffers\<close> (\<open>pkg/buffer\<close>), \<open>KVStore\<close> and \<open>KVGraph\<close> (\<open>pkg/store/kv\<close>, \<open>pkg/store/graph\<close>), \<open>OggPage\<close> and
    \<open>OggStream\<close> (\<open>pkg/audio/codec/ogg\<close>), \<open>Trie\<close> (\<open>pkg/trie\<close>).
  \<^item> \<open>Semver\<close> (\<open>firmware/semver.go\<close>), \<open>FileStore\<close> (\<open>pkg/store/depotstore/fs.go\<close>: a tree of files, in which any call
    may fail by itself as a list of faults says), \<open>Depot\<close> (\<open>firmware/manifest.go\<close>, \<open>metadata.go\<close>, \<open>scan.go\<close>,
    \<open>store_helpers.go\<close>), \<open>DepotSwitch\<close> (\<open>switch.go\<close>, \<open>upload.go\<close>); \<open>DepotRelease\<close>, \<open>DepotService\<close> and
    \<open>DepotUpload\<close> prove what releasing, rolling back and uploading do to the records and the directories.

  \<^bold>\<open>How the code is read.\<close>  A struct is a record, a method a function on it that returns what the method
  returns and the new state; a method that can fail returns a sum, its errors a datatype of the component.
  Fixed-width integers are words.  What a lock or an atomic makes one step is one step here; what blocks
  is split where it blocks, and histories of concurrent calls are the step relations (\<open>session_step\<close>,
  \<open>mux_step\<close>, \<open>sm_step\<close>, \<open>udp_step\<close>, \<open>pipe_step\<close> and those of the buffers), over which the invariants are
  proved by rule induction.  Callbacks, the network, the clock and the random source are arguments:
  \<open>conn_env\<close> bundles them for connections and sockets.  What a method does under several locks one after
  the other is mostly still one step: \<open>doTick\<close> and the handlers of \<open>conn.go\<close>, the handshake handlers of
  \<open>udp.go\<close> with their sections under \<open>peer.mu\<close> and \<open>u.mu\<close>, and the calls of the multiplexers.  The packet
  counter and the pool of \<open>udp.go\<close> are package variables; here they belong to the one socket modelled.
  Indices are drawn at random: histories take any draws, and \<open>udp_step\<close> keeps in a flag whether each was
  unused so far, since the code does not check it.  A map whose order the code does not fix is a
  function, or an association list when it is iterated over.

  \<^bold>\<open>What is shown.\<close>  Formats: the parsers and printers are inverse and total, pages have a sound checksum.
  Tables: the replay window accepts each nonce once, session and routing tables are exact, the books of the
  multiplexers and of the packet pool balance under every interleaving.  Protocols: handshakes complete
  with the same keys at both ends, streams open and close across the wire, and the layers compose, so a
  stream opened at one socket is accepted at the other.  Firmware: a release, a rollback or an upload that
  succeeds changes the record and the directories of a depot in the same way, one that fails changes neither
  unless a call of the file system fails by itself (manifests apart).  Failure: closed things stay inert
  until a new session is made, packets that do not authenticate move nothing but a replay window, and what the code does not prevent is proved as such (replayed
  initiations, forged responses, timers that stop).

  \<^bold>\<open>Interfaces.\<close>  Where a component relies on another through a contract, that is a locale: \<open>prefix_encoding\<close>
  and the key-value store for views and the graph, the FIFO of the buffers; each is interpreted on the
  model of the code that provides it.  \<open>depot_meta\<close> extends the contract of the key-value store by what the
  firmware service relies on for its records (no call is cancelled), \<open>depot_store\<close> that by JSON that is read
  back; both hold of the in-memory store.  \<open>encoding/json\<close> gives that only for UTF-8 text: what is released
  or rolled back was read from JSON before, and for uploads \<open>json_text\<close> asks for no more.

  \<^bold>\<open>Bounds.\<close>  Loops are structural or have a measure.  Where a loop may go on (\<open>dial_loop\<close>, reading packets)
  it consumes an explicit list of turns and a result \<open>None\<close> says that the turns ran out.

  \<^bold>\<open>Not modelled.\<close>  Code that only passes data to a library or to the operating system: the generated API
  clients and servers, the sockets with their options, HTTP and database back ends, the audio codecs and
  devices bound through cgo, the language-model and speech clients, and the commands.  Code over
  floating-point numbers (vector search, mixing, voice prints).  The other services of \<open>pkg/gizclaw\<close>.  Goroutines are not
  scheduled: fairness is not stated, and a data race the locks do not exclude is not visible.
\<close>

end
